(* ===== verification/Prelude.thy ===== *)
theory Prelude
  imports Main "HOL-Library.Word" "HOL-Library.Multiset" "HOL-Library.Signed_Division"
begin

text \<open>
  Shared vocabulary of the development: the machine integers of the C code, the return codes
  (\<open>sen_rc\<close> of senna.h), the encodings (\<open>sen_encoding\<close> of senna.h), reading of
  NUL-terminated byte strings, and the generic lemmas on words, lists and bounded reads that
  the components share. The collection \<open>c_arith\<close> gathers the facts about the C integer
  conversions.
\<close>

unbundle bit_operations_syntax

named_theorems c_arith "facts on the conversions of C integers"
named_theorems bytes_simps "facts on reading bytes of C strings"

section \<open>Machine integers\<close>

type_synonym byte = "8 word"
type_synonym u16 = "16 word"
type_synonym u32 = "32 word"
type_synonym bytes = "byte list"

text \<open>
  A C \<open>int\<close> (\<open>int64_t\<close>) is an \<open>int\<close> kept in range by \<open>wrap32\<close> (\<open>wrap64\<close>): the
  two's complement value that the compiled code computes where C leaves overflow undefined.
\<close>

definition wrap16 :: "int \<Rightarrow> int" where
  "wrap16 i = signed_take_bit 15 i"

definition wrap32 :: "int \<Rightarrow> int" where
  "wrap32 i = signed_take_bit 31 i"

definition wrap64 :: "int \<Rightarrow> int" where
  "wrap64 i = signed_take_bit 63 i"

definition int32_range :: "int \<Rightarrow> bool" where
  "int32_range i \<longleftrightarrow> - 2147483648 \<le> i \<and> i \<le> 2147483647"

definition int64_range :: "int \<Rightarrow> bool" where
  "int64_range i \<longleftrightarrow> - 9223372036854775808 \<le> i \<and> i \<le> 9223372036854775807"

lemma wrap16_id [c_arith]: "- 32768 \<le> i \<Longrightarrow> i \<le> 32767 \<Longrightarrow> wrap16 i = i"
  by (simp add: wrap16_def signed_take_bit_int_eq_self)

lemma wrap32_id [c_arith]: "int32_range i \<Longrightarrow> wrap32 i = i"
  by (simp add: wrap32_def int32_range_def signed_take_bit_int_eq_self)

lemma wrap64_id [c_arith]: "int64_range i \<Longrightarrow> wrap64 i = i"
  by (simp add: wrap64_def int64_range_def signed_take_bit_int_eq_self)

section \<open>Return codes and encodings\<close>

datatype sen_rc =
    sen_success
  | sen_memory_exhausted
  | sen_invalid_format
  | sen_file_operation_error
  | sen_invalid_argument
  | sen_other_error
  | sen_external_error
  | sen_internal_error
  | sen_abnormal_error

datatype sen_encoding =
    sen_enc_default
  | sen_enc_none
  | sen_enc_euc_jp
  | sen_enc_utf8
  | sen_enc_sjis
  | sen_enc_latin1
  | sen_enc_koi8r

text \<open>
  The memory allocator is outside the modelled code: \<open>alloc n\<close> says whether a request of
  \<open>n\<close> bytes is answered. Every function that allocates takes it as a parameter.
\<close>

type_synonym alloc = "nat \<Rightarrow> bool"

section \<open>Reading bytes\<close>

text \<open>
  \<open>rd s i\<close> reads a NUL-terminated string: the list holds the bytes before the terminator,
  and the position just after them (the only other one the code may read) is the NUL.
\<close>

definition rd :: "bytes \<Rightarrow> nat \<Rightarrow> byte" where
  "rd s i = (if i < length s then s ! i else 0)"

lemma rd_Nil [simp]: "rd [] i = 0"
  by (simp add: rd_def)

lemma rd_Cons_0 [simp]: "rd (c # s) 0 = c"
  by (simp add: rd_def)

lemma rd_Cons_Suc [simp]: "rd (c # s) (Suc i) = rd s i"
  by (simp add: rd_def)

lemma rd_nonzero_less [dest]: "rd s i \<noteq> 0 \<Longrightarrow> i < length s"
  by (auto simp: rd_def split: if_splits)

lemma rd_drop [bytes_simps]: "rd (drop k s) i = rd s (k + i)"
  by (auto simp: rd_def)

section \<open>Byte ranges\<close>

text \<open>Facts on single bytes are decided by running through the 256 values.\<close>

lemma all_bytes: "list_all (\<lambda>i. P (word_of_nat i :: byte)) [0..<256] \<Longrightarrow> P b"
proof -
  assume *: "list_all (\<lambda>i. P (word_of_nat i :: byte)) [0..<256]"
  have "unat b < 256" using unsigned_less [of b] by simp
  then have "unat b \<in> set [0..<256]" by simp
  with * have "P (word_of_nat (unat b) :: byte)" by (metis list_all_iff)
  then show ?thesis by simp
qed

lemma unat_byte_less [simp]: "unat (b :: byte) < 256"
  using unsigned_less [of b] by simp

lemma unat_byte_of_nat [c_arith]: "n < 256 \<Longrightarrow> unat (word_of_nat n :: byte) = n"
  by (simp add: unat_of_nat)

lemma byte_range:
  assumes "list_all (\<lambda>i. P (word_of_nat i :: byte)) [lo..<hi]" "lo \<le> unat c" "unat c < hi"
  shows "P c"
proof -
  have "unat c \<in> set [lo..<hi]" using assms by simp
  with assms(1) have "P (word_of_nat (unat c) :: byte)" by (metis list_all_iff)
  then show ?thesis by simp
qed

lemma nibble_range: "drop_bit 4 c = h \<longleftrightarrow> 16 * unat h \<le> unat c \<and> unat c < 16 * unat h + 16" for c h :: byte
proof -
  have "drop_bit 4 c = h \<longleftrightarrow> unat (drop_bit 4 c) = unat h" by (simp add: word_unat_eq_iff)
  also have "unat (drop_bit 4 c) = unat c div 16"
    unfolding unat_drop_bit_eq by (simp add: drop_bit_eq_div)
  finally show ?thesis by auto
qed

text \<open>Masks of bytes are decided bit by bit.\<close>

lemma all_less_8:
  "(\<forall>n<8. P (n::nat)) = (P 0 \<and> P 1 \<and> P 2 \<and> P 3 \<and> P 4 \<and> P 5 \<and> P 6 \<and> P 7)"
  by (simp add: numeral_eq_Suc All_less_Suc) blast

lemma byte_eq_iff:
  "(a = (b::byte)) =
     (bit a 0 = bit b 0 \<and> bit a 1 = bit b 1 \<and> bit a 2 = bit b 2 \<and> bit a 3 = bit b 3 \<and>
      bit a 4 = bit b 4 \<and> bit a 5 = bit b 5 \<and> bit a 6 = bit b 6 \<and> bit a 7 = bit b 7)"
proof -
  have "(a = b) = (\<forall>n<8. bit a n = bit b n)"
    unfolding bit_eq_iff using bit_imp_le_length [of a] bit_imp_le_length [of b] by auto
  then show ?thesis unfolding all_less_8 by simp
qed

section \<open>Lists\<close>

lemma length_drop_less: "0 < k \<Longrightarrow> xs \<noteq> [] \<Longrightarrow> length (drop k xs) < length xs"
  by (cases xs) auto

lemma list_update_last_eq:
  "xs \<noteq> [] \<Longrightarrow> xs[length xs - 1 := y] = butlast xs @ [y]"
  by (induction xs) (auto simp: Let_def split: nat.splits if_splits)

end
