(* ===== verification/Str_Char.thy ===== *)
theory Str_Char
  imports Prelude
begin

text \<open>
  Character boundaries (lib/str.c): the length in bytes of the first character of a string in
  each encoding, for NUL-terminated strings (\<open>sen_str_charlen\<close>) and for delimited ones
  (\<open>sen_str_charlen_nonnull\<close>, \<open>sen_str_charlen_utf8\<close>, \<open>fast_sen_str_charlen_utf8\<close>), and the
  routines that walk a string character by character. A delimited string is the list of the
  bytes from \<open>str\<close> up to \<open>end\<close>; a NUL-terminated one is the list of the bytes before the
  terminator, read with \<open>rd\<close>. The locale \<open>char_reader\<close> is the contract that every
  character reader offers to the code that splits strings into characters.
\<close>

section \<open>UTF-8\<close>

text \<open>The loop \<open>for (b = 0x40, w = 0; b && (*p & b); b >>= 1, w++)\<close>.\<close>

function utf8_width :: "byte \<Rightarrow> byte \<Rightarrow> nat" where
  "utf8_width p b = (if b \<noteq> 0 \<and> p AND b \<noteq> 0 then Suc (utf8_width p (drop_bit 1 b)) else 0)"
  by pat_completeness auto
termination
proof (relation "measure (\<lambda>(p, b). unat b)")
  fix p b :: byte
  assume "b \<noteq> 0 \<and> p AND b \<noteq> 0"
  then have "0 < unat b" by (simp add: unat_gt_0)
  then have "drop_bit 1 (unat b) < unat b" by (simp add: drop_bit_eq_div)
  then show "((p, drop_bit 1 b), (p, b)) \<in> measure (\<lambda>(p, b). unat b)"
    by (simp only: in_measure prod.case unat_drop_bit_eq)
qed simp

declare utf8_width.simps [simp del]

text \<open>
  The loop over the continuation bytes: \<open>w\<close> more bytes are wanted, \<open>sz\<close> (\<open>size\<close> in the code) is the length so
  far. Its result is 0 for a truncated or malformed character.
\<close>

fun utf8_tail :: "nat \<Rightarrow> bytes \<Rightarrow> nat \<Rightarrow> nat" where
  "utf8_tail 0 s sz = sz"
| "utf8_tail (Suc w) [] sz = 0"
| "utf8_tail (Suc w) (c # s) sz =
     (if c = 0 \<or> c AND 0xc0 \<noteq> 0x80 then 0 else utf8_tail w s (Suc sz))"

definition sen_str_charlen_utf8 :: "bytes \<Rightarrow> nat" where
  "sen_str_charlen_utf8 str =
     (case str of
        [] \<Rightarrow> 0
      | c # s \<Rightarrow>
          (if c = 0 then 0
           else if c AND 0x80 \<noteq> 0 then
             (let w = utf8_width c 0x40 in if w = 0 then 0 else utf8_tail w s 1)
           else 1))"

definition fast_sen_str_charlen_utf8 :: "bytes \<Rightarrow> nat" where
  "fast_sen_str_charlen_utf8 str =
     (case str of
        [] \<Rightarrow> 0
      | c # _ \<Rightarrow>
          (if c AND 0x80 = 0 then 1
           else if c AND 0xe0 = 0xc0 then 2
           else if c AND 0xf0 = 0xe0 then 3
           else if c AND 0xf8 = 0xf0 then 4
           else if c AND 0xfc = 0xf8 then 5
           else if c AND 0xfe = 0xfc then 6
           else 1))"

section \<open>All encodings\<close>

text \<open>On a NUL-terminated string every read is through \<open>rd\<close>.\<close>

definition sen_str_charlen :: "bytes \<Rightarrow> sen_encoding \<Rightarrow> nat" where
  "sen_str_charlen str encoding =
     (let p = rd str 0 in
      if p = 0 then 0
      else
        (case encoding of
           sen_enc_euc_jp \<Rightarrow>
             (if p AND 0x80 \<noteq> 0 then (if rd str 1 \<noteq> 0 then 2 else 0) else 1)
         | sen_enc_utf8 \<Rightarrow>
             (if p AND 0x80 \<noteq> 0 then
                (let w = utf8_width p 0x40 in if w = 0 then 0 else utf8_tail w (tl str) 1)
              else 1)
         | sen_enc_sjis \<Rightarrow>
             (if p AND 0x80 \<noteq> 0 then
                (if 0xa0 \<le> p \<and> p \<le> 0xdf then 1
                 else if rd str 1 = 0 then 0
                 else 2)
              else 1)
         | _ \<Rightarrow> 1))"

definition sen_str_charlen_nonnull :: "bytes \<Rightarrow> sen_encoding \<Rightarrow> nat" where
  "sen_str_charlen_nonnull str encoding =
     (case str of
        [] \<Rightarrow> 0
      | p # s \<Rightarrow>
          (case encoding of
             sen_enc_euc_jp \<Rightarrow>
               (if p AND 0x80 \<noteq> 0 then (if s \<noteq> [] then 2 else 0) else 1)
           | sen_enc_utf8 \<Rightarrow> sen_str_charlen_utf8 (p # s)
           | sen_enc_sjis \<Rightarrow>
               (if p AND 0x80 \<noteq> 0 then
                  (if 0xa0 \<le> p \<and> p \<le> 0xdf then 1
                   else if s = [] then 0
                   else 2)
                else 1)
           | _ \<Rightarrow> 1))"

section \<open>Bounds\<close>

lemma utf8_tail_le: "utf8_tail w s sz \<le> sz + length s"
  by (induction w s sz rule: utf8_tail.induct) (auto simp: le_Suc_eq)

lemma utf8_tail_ge: "0 < sz \<Longrightarrow> utf8_tail w s sz \<noteq> 0 \<Longrightarrow> utf8_tail w s sz = sz + w"
  by (induction w s sz rule: utf8_tail.induct) (auto split: if_splits)

lemma utf8_tail_cont:
  "0 < sz \<Longrightarrow> utf8_tail w s sz \<noteq> 0 \<longleftrightarrow>
     w \<le> length s \<and> (\<forall>c \<in> set (take w s). c \<noteq> 0 \<and> c AND 0xc0 = 0x80)"
  by (induction w s sz rule: utf8_tail.induct) auto

lemma charlen_utf8_Nil [simp]: "sen_str_charlen_utf8 [] = 0"
  by (simp add: sen_str_charlen_utf8_def)

lemma charlen_utf8_le: "sen_str_charlen_utf8 s \<le> length s"
proof (cases s)
  case (Cons c t)
  have "utf8_tail (utf8_width c 0x40) t 1 \<le> 1 + length t" by (rule utf8_tail_le)
  with Cons show ?thesis by (simp add: sen_str_charlen_utf8_def Let_def)
qed simp

lemma charlen_nonnull_Nil [simp]: "sen_str_charlen_nonnull [] enc = 0"
  by (simp add: sen_str_charlen_nonnull_def)

lemma charlen_nonnull_le: "sen_str_charlen_nonnull s enc \<le> length s"
proof (cases s)
  case (Cons c t)
  then show ?thesis
    using charlen_utf8_le [of s] by (cases enc) (auto simp: sen_str_charlen_nonnull_def Suc_le_eq)
qed simp

lemma charlen_Nil [simp]: "sen_str_charlen [] enc = 0"
  by (simp add: sen_str_charlen_def)

lemma charlen_le: "sen_str_charlen s enc \<le> length s"
proof (cases s)
  case (Cons c t)
  have "utf8_tail (utf8_width c 0x40) t 1 \<le> 1 + length t" by (rule utf8_tail_le)
  moreover have "rd t 0 \<noteq> 0 \<Longrightarrow> 0 < length t" by (rule rd_nonzero_less)
  ultimately show ?thesis using Cons
    by (cases enc) (auto simp: sen_str_charlen_def Let_def Suc_le_eq)
qed simp

section \<open>Which strings are characters\<close>

text \<open>
  \<open>utf8_char n s\<close>: the first \<open>n\<close> bytes of \<open>s\<close> are one encoded character, an ASCII byte other
  than NUL or a lead byte that announces \<open>n - 1\<close> continuation bytes, all present.
\<close>

definition utf8_lead :: "byte \<Rightarrow> nat" where
  "utf8_lead c =
     (if c AND 0x80 = 0 then 1
      else if c AND 0xe0 = 0xc0 then 2
      else if c AND 0xf0 = 0xe0 then 3
      else if c AND 0xf8 = 0xf0 then 4
      else if c AND 0xfc = 0xf8 then 5
      else if c AND 0xfe = 0xfc then 6
      else if c = 0xfe then 7
      else if c = 0xff then 8
      else 0)"

definition utf8_char :: "nat \<Rightarrow> bytes \<Rightarrow> bool" where
  "utf8_char n s \<longleftrightarrow>
     0 < n \<and> n \<le> length s \<and> hd s \<noteq> 0 \<and> utf8_lead (hd s) = n \<and>
     (\<forall>c \<in> set (take (n - 1) (tl s)). c AND 0xc0 = 0x80)"

lemma lead_masks:
  fixes c :: byte
  shows "c AND 0x80 = 0 \<longleftrightarrow> \<not> bit c 7"
    and "c AND 0xe0 = 0xc0 \<longleftrightarrow> bit c 7 \<and> bit c 6 \<and> \<not> bit c 5"
    and "c AND 0xf0 = 0xe0 \<longleftrightarrow> bit c 7 \<and> bit c 6 \<and> bit c 5 \<and> \<not> bit c 4"
    and "c AND 0xf8 = 0xf0 \<longleftrightarrow> bit c 7 \<and> bit c 6 \<and> bit c 5 \<and> bit c 4 \<and> \<not> bit c 3"
    and "c AND 0xfc = 0xf8 \<longleftrightarrow>
           bit c 7 \<and> bit c 6 \<and> bit c 5 \<and> bit c 4 \<and> bit c 3 \<and> \<not> bit c 2"
    and "c AND 0xfe = 0xfc \<longleftrightarrow>
           bit c 7 \<and> bit c 6 \<and> bit c 5 \<and> bit c 4 \<and> bit c 3 \<and> bit c 2 \<and> \<not> bit c 1"
    and "c = 0xfe \<longleftrightarrow>
           bit c 7 \<and> bit c 6 \<and> bit c 5 \<and> bit c 4 \<and> bit c 3 \<and> bit c 2 \<and> bit c 1 \<and> \<not> bit c 0"
    and "c = 0xff \<longleftrightarrow>
           bit c 7 \<and> bit c 6 \<and> bit c 5 \<and> bit c 4 \<and> bit c 3 \<and> bit c 2 \<and> bit c 1 \<and> bit c 0"
  by (auto simp: byte_eq_iff bit_simps)

lemma width_masks:
  fixes c :: byte
  shows "c AND 0x40 = 0 \<longleftrightarrow> \<not> bit c 6" and "c AND 0x20 = 0 \<longleftrightarrow> \<not> bit c 5"
    and "c AND 0x10 = 0 \<longleftrightarrow> \<not> bit c 4" and "c AND 8 = 0 \<longleftrightarrow> \<not> bit c 3"
    and "c AND 4 = 0 \<longleftrightarrow> \<not> bit c 2" and "c AND 2 = 0 \<longleftrightarrow> \<not> bit c 1"
    and "c AND 1 = 0 \<longleftrightarrow> \<not> bit c 0"
  by (auto simp: byte_eq_iff bit_simps)

lemma utf8_width_lead: "c AND 0x80 \<noteq> 0 \<Longrightarrow> utf8_width c 0x40 = utf8_lead c - 1"
  unfolding utf8_lead_def lead_masks by (simp add: utf8_width.simps width_masks)

lemma utf8_lead_multi: "c AND 0x80 \<noteq> 0 \<Longrightarrow> utf8_lead c \<noteq> 1"
  by (simp add: utf8_lead_def)

lemma charlen_utf8_iff:
  "0 < n \<Longrightarrow> sen_str_charlen_utf8 s = n \<longleftrightarrow> utf8_char n s"
proof (cases s)
  case (Cons c t)
  assume n: "0 < n"
  let ?w = "utf8_lead c - 1"
  have cont0: "(c::byte) AND 0xc0 = 0x80 \<Longrightarrow> c \<noteq> 0" for c by auto
  show ?thesis
  proof (cases "c AND 0x80 = 0 \<or> utf8_lead c = 0")
    case True
    moreover have "c AND 0x80 = 0 \<Longrightarrow> utf8_lead c = 1" by (simp add: utf8_lead_def)
    ultimately show ?thesis using Cons n
      by (cases "c AND 0x80 = 0")
        (auto simp: sen_str_charlen_utf8_def utf8_char_def utf8_width_lead)
  next
    case False
    then have c: "c \<noteq> 0" and w: "?w \<noteq> 0" "utf8_lead c = Suc ?w"
      using utf8_lead_multi [of c] by auto
    have "sen_str_charlen_utf8 s = utf8_tail ?w t 1"
      using Cons False c w by (simp add: sen_str_charlen_utf8_def utf8_width_lead)
    moreover have "utf8_tail ?w t 1 = n \<longleftrightarrow> utf8_tail ?w t 1 \<noteq> 0 \<and> n = Suc ?w"
      using n utf8_tail_ge [of 1 ?w t] by auto
    ultimately show ?thesis
      using Cons n c w utf8_tail_cont [of 1 ?w t] cont0 by (auto simp: utf8_char_def)
  qed
qed (simp add: utf8_char_def)

lemma charlen_utf8_lead:
  "sen_str_charlen_utf8 s = (if utf8_char (utf8_lead (hd s)) s then utf8_lead (hd s) else 0)"
proof (cases "sen_str_charlen_utf8 s")
  case 0
  then show ?thesis using charlen_utf8_iff [of "utf8_lead (hd s)" s] by (auto simp: utf8_char_def)
next
  case (Suc m)
  then have "utf8_char (Suc m) s" using charlen_utf8_iff [of "Suc m" s] by simp
  with Suc show ?thesis by (auto simp: utf8_char_def)
qed

section \<open>Walking a string\<close>

definition sen_isspace :: "bytes option \<Rightarrow> sen_encoding \<Rightarrow> nat" where
  "sen_isspace str encoding =
     (case str of
        None \<Rightarrow> 0
      | Some s \<Rightarrow>
          (if rd s 0 \<in> {0x20, 0x0c, 0x0a, 0x0d, 0x09, 0x0b} then 1
           else if rd s 0 = 0x81 then
             (if encoding = sen_enc_sjis \<and> rd s 1 = 0x40 then 2 else 0)
           else if rd s 0 = 0xA1 then
             (if encoding = sen_enc_euc_jp \<and> rd s 1 = 0xA1 then 2 else 0)
           else if rd s 0 = 0xE3 then
             (if encoding = sen_enc_utf8 \<and> rd s 1 = 0x80 \<and> rd s 2 = 0x80 then 3 else 0)
           else 0))"

text \<open>
  \<open>sen_str_len\<close>: the number of characters, and the offset \<open>last\<close> of the position where the
  walk stopped (the NUL, or a malformed character).
\<close>

function str_len_loop :: "bytes \<Rightarrow> sen_encoding \<Rightarrow> nat \<Rightarrow> nat \<Rightarrow> nat \<times> nat" where
  "str_len_loop str encoding len p =
     (let tlen = sen_str_charlen str encoding in
      if tlen = 0 then (len, p)
      else str_len_loop (drop tlen str) encoding (Suc len) (p + tlen))"
  by pat_completeness auto
termination
proof (relation "measure (\<lambda>(str, _). length str)")
  fix str :: bytes and encoding len p tlen
  assume "tlen = sen_str_charlen str encoding" "tlen \<noteq> 0"
  then have "0 < tlen" "tlen \<le> length str" using charlen_le by auto
  then show "((drop tlen str, encoding, Suc len, p + tlen), (str, encoding, len, p))
      \<in> measure (\<lambda>(str, _). length str)"
    by simp
qed simp

declare str_len_loop.simps [simp del]

definition sen_str_len :: "bytes \<Rightarrow> sen_encoding \<Rightarrow> nat \<times> nat" where
  "sen_str_len str encoding = str_len_loop str encoding 0 0"

text \<open>
  \<open>sen_substring\<close> on the string \<open>s\<close> between \<open>*str\<close> and \<open>*str_end\<close>: the two pointers after
  the call, as offsets into \<open>s\<close>, with the return code. \<open>pos\<close> is the cursor \<open>s\<close> of the code.
\<close>

function substring_loop ::
  "bytes \<Rightarrow> int \<Rightarrow> int \<Rightarrow> sen_encoding \<Rightarrow> int \<Rightarrow> nat \<Rightarrow> nat \<Rightarrow> sen_rc \<times> nat \<times> nat" where
  "substring_loop s start end encoding i pos str =
     (if pos < length s then
        (let str' = (if i = start then pos else str);
             l = sen_str_charlen_nonnull (drop pos s) encoding in
         if l = 0 then (sen_invalid_argument, str', length s)
         else if i = end then (sen_success, str', pos)
         else substring_loop s start end encoding (i + 1) (pos + l) str')
      else (sen_success, str, length s))"
  by pat_completeness auto
termination
  by (relation "measure (\<lambda>(s, _, _, _, _, pos, _). length s - pos)") auto

declare substring_loop.simps [simp del]

definition sen_substring :: "bytes \<Rightarrow> int \<Rightarrow> int \<Rightarrow> sen_encoding \<Rightarrow> sen_rc \<times> nat \<times> nat" where
  "sen_substring s start end encoding = substring_loop s start end encoding 0 0 0"

section \<open>Names of the encodings\<close>

definition sen_enc_string :: "string list" where
  "sen_enc_string =
     [''default'', ''none'', ''euc_jp'', ''utf8'', ''sjis'', ''latin1'', ''koi8r'']"

definition enc_values :: "sen_encoding list" where
  "enc_values =
     [sen_enc_default, sen_enc_none, sen_enc_euc_jp, sen_enc_utf8, sen_enc_sjis,
      sen_enc_latin1, sen_enc_koi8r]"

fun enc_num :: "sen_encoding \<Rightarrow> nat" where
  "enc_num sen_enc_default = 0"
| "enc_num sen_enc_none = 1"
| "enc_num sen_enc_euc_jp = 2"
| "enc_num sen_enc_utf8 = 3"
| "enc_num sen_enc_sjis = 4"
| "enc_num sen_enc_latin1 = 5"
| "enc_num sen_enc_koi8r = 6"

text \<open>\<open>sen_enctostr\<close> takes any integer, as the C enum does.\<close>

definition sen_enctostr :: "nat \<Rightarrow> string" where
  "sen_enctostr enc =
     (if enc < length sen_enc_string then sen_enc_string ! enc else ''unknown'')"

fun strtoenc_loop :: "string \<Rightarrow> nat \<Rightarrow> sen_encoding \<Rightarrow> sen_encoding" where
  "strtoenc_loop str 0 e = e"
| "strtoenc_loop str (Suc i) e =
     strtoenc_loop str i (if str = sen_enc_string ! i then enc_values ! i else e)"

definition sen_strtoenc :: "string \<Rightarrow> sen_encoding" where
  "sen_strtoenc str = strtoenc_loop str (length sen_enc_string) sen_enc_euc_jp"

section \<open>Splitting into characters\<close>

text \<open>
  The reference notion: a string as the list of its characters under a reader \<open>f\<close> of first
  characters, \<open>None\<close> when some position does not start a character.
\<close>

function split_chars :: "(bytes \<Rightarrow> nat) \<Rightarrow> bytes \<Rightarrow> bytes list option" where
  "split_chars f s =
     (if s = [] then Some []
      else if f s = 0 then None
      else map_option ((#) (take (f s) s)) (split_chars f (drop (f s) s)))"
  by pat_completeness auto
termination
  by (relation "measure (\<lambda>(f, s). length s)") auto

declare split_chars.simps [simp del]

text \<open>
  The contract of a reader of delimited strings: it stays within the string, and what it says
  about a character does not depend on what follows.
\<close>

locale char_reader =
  fixes f :: "bytes \<Rightarrow> nat"
  assumes reader_le: "f s \<le> length s"
    and reader_local: "f s = n \<Longrightarrow> 0 < n \<Longrightarrow> f (take n s @ t) = n"
begin

lemma reader_Nil [simp]: "f [] = 0"
  using reader_le [of "[]"] by simp

lemma split_Nil [simp]: "split_chars f [] = Some []"
  by (simp add: split_chars.simps)

lemma split_concat: "split_chars f s = Some cs \<Longrightarrow> concat cs = s"
proof (induction f s arbitrary: cs rule: split_chars.induct)
  case (1 f s)
  then show ?case by (subst (asm) split_chars.simps) (auto split: if_splits)
qed

lemma split_Cons:
  "s \<noteq> [] \<Longrightarrow> split_chars f s = Some cs \<Longrightarrow>
     \<exists>c cs'. cs = c # cs' \<and> c = take (f s) s \<and> 0 < f s \<and> length c = f s \<and>
       split_chars f (drop (f s) s) = Some cs'"
  using reader_le [of s] by (subst (asm) split_chars.simps) (auto split: if_splits)

lemma split_first:
  "f c = length c \<Longrightarrow> c \<noteq> [] \<Longrightarrow> split_chars f (c @ t) = map_option ((#) c) (split_chars f t)"
  using reader_local [of c "length c" t] by (subst split_chars.simps) simp

lemma split_append:
  "split_chars f s = Some cs \<Longrightarrow> split_chars f (s @ t) = map_option ((@) cs) (split_chars f t)"
proof (induction cs arbitrary: s)
  case Nil
  then have "s = []" by (auto dest: split_concat)
  then show ?case by (cases "split_chars f t") auto
next
  case (Cons c cs)
  then have "s \<noteq> []" by auto
  with Cons.prems have c: "c = take (f s) s" "0 < f s" "length c = f s"
    and rest: "split_chars f (drop (f s) s) = Some cs"
    using split_Cons by blast+
  have "f c = length c" using reader_local [of s "f s" "[]"] c by simp
  then have "split_chars f (c @ u) = map_option ((#) c) (split_chars f u)" for u
    using c by (intro split_first) auto
  moreover have e: "s @ t = c @ (drop (f s) s @ t)" using c by simp
  ultimately have "split_chars f (s @ t) = map_option ((#) c) (split_chars f (drop (f s) s @ t))"
    by (simp only: e)
  then show ?case using Cons.IH [OF rest] by (cases "split_chars f t") auto
qed

lemma split_nonempty: "split_chars f s = Some cs \<Longrightarrow> c \<in> set cs \<Longrightarrow> c \<noteq> []"
proof (induction cs arbitrary: s)
  case (Cons d cs)
  then have "s \<noteq> []" by auto
  with Cons show ?case using split_Cons by fastforce
qed simp

end

lemma charlen_utf8_local:
  assumes "sen_str_charlen_utf8 s = n" "0 < n"
  shows "sen_str_charlen_utf8 (take n s @ t) = n"
proof -
  have *: "utf8_char n s" using assms charlen_utf8_iff by simp
  then obtain c u where s: "s = c # u" and n: "n \<le> Suc (length u)"
    by (cases s) (auto simp: utf8_char_def)
  obtain k where k: "n = Suc k" using \<open>0 < n\<close> by (cases n) auto
  have "utf8_char n (take n s @ t)" using * n by (simp add: s k utf8_char_def)
  then show ?thesis using \<open>0 < n\<close> charlen_utf8_iff by simp
qed

lemma charlen_nonnull_local:
  assumes "sen_str_charlen_nonnull s enc = n" "0 < n"
  shows "sen_str_charlen_nonnull (take n s @ t) enc = n"
proof (cases enc)
  case sen_enc_utf8
  with assms have "sen_str_charlen_utf8 s = n"
    by (auto simp: sen_str_charlen_nonnull_def split: list.splits)
  moreover from this \<open>0 < n\<close> have "s \<noteq> []" by auto
  ultimately show ?thesis using sen_enc_utf8 \<open>0 < n\<close> charlen_utf8_local [of s n t]
    by (auto simp: sen_str_charlen_nonnull_def split: list.splits)
qed (use assms in \<open>auto simp: sen_str_charlen_nonnull_def neq_Nil_conv split: list.splits if_splits\<close>)

interpretation utf8_reader: char_reader sen_str_charlen_utf8
  by unfold_locales (auto simp: charlen_utf8_le intro: charlen_utf8_local)

interpretation delimited_reader: char_reader "\<lambda>s. sen_str_charlen_nonnull s enc" for enc
  by unfold_locales (auto simp: charlen_nonnull_le intro: charlen_nonnull_local)

abbreviation chars_of :: "sen_encoding \<Rightarrow> bytes \<Rightarrow> bytes list option" where
  "chars_of enc s \<equiv> split_chars (\<lambda>s. sen_str_charlen_nonnull s enc) s"

text \<open>The first character of a text, and spaces: whether a character is one does not depend on what follows.\<close>

lemma chars_Cons:
  assumes "chars_of enc w = Some (c # cs)"
  shows "c \<noteq> []" "w = c @ drop (length c) w" "chars_of enc (drop (length c) w) = Some cs"
    "sen_str_charlen_nonnull (c @ t) enc = length c"
proof -
  have "w \<noteq> []" using assms by auto
  with assms have c: "c = take (sen_str_charlen_nonnull w enc) w" "0 < sen_str_charlen_nonnull w enc"
    "length c = sen_str_charlen_nonnull w enc" "chars_of enc (drop (sen_str_charlen_nonnull w enc) w) = Some cs"
    using delimited_reader.split_Cons by blast+
  then show "c \<noteq> []" "chars_of enc (drop (length c) w) = Some cs" by auto
  show "w = c @ drop (length c) w" using c(1,3) by (metis append_take_drop_id)
  show "sen_str_charlen_nonnull (c @ t) enc = length c"
    using delimited_reader.reader_local [of w enc, OF refl c(2), of t] c(1,3) by simp
qed

lemma space_lead_length:
  assumes "sen_str_charlen_nonnull c enc = length c" "c \<noteq> []"
  shows "enc = sen_enc_utf8 \<Longrightarrow> hd c = 0xE3 \<Longrightarrow> length c = 3"
    "enc = sen_enc_sjis \<Longrightarrow> hd c = 0x81 \<Longrightarrow> length c = 2"
    "enc = sen_enc_euc_jp \<Longrightarrow> hd c = 0xA1 \<Longrightarrow> length c = 2"
proof -
  have "utf8_lead 0xE3 = 3" by (simp add: utf8_lead_def)
  then show "enc = sen_enc_utf8 \<Longrightarrow> hd c = 0xE3 \<Longrightarrow> length c = 3"
    using assms charlen_utf8_lead [of c]
    by (cases c) (auto simp: sen_str_charlen_nonnull_def split: if_splits)
qed (use assms in \<open>cases c; auto simp: sen_str_charlen_nonnull_def split: if_splits\<close>)+

lemma rd_append: "i < length c \<Longrightarrow> rd (c @ t) i = rd c i"
  by (simp add: rd_def nth_append)

lemma isspace_local:
  assumes "sen_str_charlen_nonnull c enc = length c" "c \<noteq> []"
  shows "sen_isspace (Some (c @ t)) enc = sen_isspace (Some c) enc"
proof -
  note l = space_lead_length [OF assms]
  have h: "rd (c @ t) 0 = hd c" "rd c 0 = hd c" using assms(2) by (cases c; simp)+
  show ?thesis
    using l rd_append [of 1 c t] rd_append [of 2 c t] unfolding sen_isspace_def option.case h by auto
qed

section \<open>Correctness\<close>

text \<open>
  C21: a delimited UTF-8 string starts with a character exactly when its lead byte announces
  as many bytes as are present and all the others are continuation bytes; then the result is
  their number, and in every other case (NUL, stray continuation byte, truncation) it is 0.
\<close>

theorem charlen_utf8_spec:
  "sen_str_charlen_utf8 s = (if utf8_char (utf8_lead (hd s)) s then utf8_lead (hd s) else 0)"
  by (rule charlen_utf8_lead)

lemma fast_charlen_lead:
  "utf8_lead c \<noteq> 0 \<Longrightarrow> utf8_lead c \<le> 6 \<Longrightarrow> fast_sen_str_charlen_utf8 (c # s) = utf8_lead c"
  by (cases "c AND 0x80 = 0"; cases "c AND 0xe0 = 0xc0"; cases "c AND 0xf0 = 0xe0";
      cases "c AND 0xf8 = 0xf0"; cases "c AND 0xfc = 0xf8"; cases "c AND 0xfe = 0xfc")
    (simp_all add: fast_sen_str_charlen_utf8_def utf8_lead_def split: if_splits)

text \<open>
  On every well-formed character of at most six bytes the fast length function gives the
  length that the checking one gives; what it gives up is the check of the tail.
\<close>

theorem fast_charlen_agrees:
  assumes "0 < sen_str_charlen_utf8 s" and "sen_str_charlen_utf8 s \<le> 6"
  shows "fast_sen_str_charlen_utf8 s = sen_str_charlen_utf8 s"
proof (cases s)
  case (Cons c t)
  then have "sen_str_charlen_utf8 s = utf8_lead c"
    using assms(1) charlen_utf8_lead [of s] by (simp split: if_splits)
  with assms Cons show ?thesis using fast_charlen_lead [of c t] by simp
qed (use assms in simp)

theorem fast_charlen_agrees_witness:
  "fast_sen_str_charlen_utf8 [0xe3, 0x81, 0x82, 0x41] = sen_str_charlen_utf8 [0xe3, 0x81, 0x82, 0x41]
   \<and> sen_str_charlen_utf8 [0xe3, 0x81, 0x82, 0x41] = 3"
proof -
  have l: "sen_str_charlen_utf8 [0xe3, 0x81, 0x82, 0x41] = 3"
    by (simp add: sen_str_charlen_utf8_def utf8_width.simps)
  then show ?thesis using fast_charlen_agrees [of "[0xe3, 0x81, 0x82, 0x41]"] by simp
qed

lemma charlen_nonnull_eq:
  assumes "0 \<notin> set s"
  shows "sen_str_charlen s enc = sen_str_charlen_nonnull s enc"
proof (cases s)
  case (Cons c t)
  then have "t \<noteq> [] \<Longrightarrow> rd t 0 \<noteq> 0" using assms by (cases t) auto
  with Cons assms show ?thesis
    by (cases enc)
      (auto simp: sen_str_charlen_def sen_str_charlen_nonnull_def sen_str_charlen_utf8_def Let_def)
qed simp

lemma str_len_loop_chars:
  "0 \<notin> set s \<Longrightarrow> chars_of enc s = Some cs \<Longrightarrow>
     str_len_loop s enc len p = (len + length cs, p + length s)"
proof (induction cs arbitrary: s len p)
  case Nil
  then have "s = []" by (auto dest: delimited_reader.split_concat)
  then show ?case by (simp add: str_len_loop.simps)
next
  case (Cons c cs)
  let ?n = "sen_str_charlen_nonnull s enc"
  have "s \<noteq> []" using Cons.prems by auto
  then have n: "0 < ?n" and rest: "chars_of enc (drop ?n s) = Some cs"
    using delimited_reader.split_Cons [OF _ Cons.prems(2)] by blast+
  have "?n \<le> length s" by (rule charlen_nonnull_le)
  moreover have "0 \<notin> set (drop ?n s)" using Cons.prems(1) by (auto dest: in_set_dropD)
  ultimately show ?case
    using Cons.IH [OF _ rest] n charlen_nonnull_eq [OF Cons.prems(1)]
    by (subst str_len_loop.simps) (simp add: Let_def)
qed

text \<open>
  \<open>sen_str_len\<close> counts the characters of a NUL-terminated string and stops at its end,
  whenever the string splits into characters of the encoding.
\<close>

theorem sen_str_len_counts:
  assumes "0 \<notin> set s" and "chars_of enc s = Some cs"
  shows "sen_str_len s enc = (length cs, length s)"
  using str_len_loop_chars [OF assms] by (simp add: sen_str_len_def)

theorem sen_str_len_counts_witness:
  "sen_str_len [0xa4, 0xa2, 0x41] sen_enc_euc_jp = (2, 3)"
proof -
  have "chars_of sen_enc_euc_jp [0xa4, 0xa2, 0x41] = Some [[0xa4, 0xa2], [0x41]]"
    by (simp add: split_chars.simps sen_str_charlen_nonnull_def)
  from sen_str_len_counts [OF _ this] show ?thesis by simp
qed

lemma substring_loop_run:
  assumes "chars_of enc (drop pos s) = Some cs" and "pos \<le> length s" and "i \<le> j"
  shows "substring_loop s (int st) (int j) enc (int i) pos str =
    (sen_success,
     (if i \<le> st \<and> st < i + length cs \<and> st \<le> j then pos + length (concat (take (st - i) cs)) else str),
     pos + length (concat (take (j - i) cs)))"
  using assms
proof (induction cs arbitrary: pos i str)
  case Nil
  then have "pos = length s" using delimited_reader.split_concat [OF Nil(1)] by simp
  then show ?case by (simp add: substring_loop.simps)
next
  case (Cons c cs)
  let ?n = "sen_str_charlen_nonnull (drop pos s) enc"
  have "drop pos s \<noteq> []" using Cons.prems by auto
  then have n: "0 < ?n" "length c = ?n" and rest: "chars_of enc (drop ?n (drop pos s)) = Some cs"
    using delimited_reader.split_Cons [OF _ Cons.prems(1)] by blast+
  then have rest': "chars_of enc (drop (pos + ?n) s) = Some cs" by (simp add: add.commute)
  have le: "pos + ?n \<le> length s" using charlen_nonnull_le [of "drop pos s" enc] Cons.prems(2) by simp
  have pos: "pos < length s" using \<open>drop pos s \<noteq> []\<close> by simp
  let ?str = "if i = st then pos else str"
  show ?case
  proof (cases "i = j")
    case True
    then show ?thesis using pos n by (subst substring_loop.simps) (auto simp: Let_def)
  next
    case False
    with Cons.prems(3) have "Suc i \<le> j" by simp
    have "substring_loop s (int st) (int j) enc (int i) pos str =
        substring_loop s (int st) (int j) enc (int (Suc i)) (pos + ?n) ?str"
      using pos n False by (subst substring_loop.simps) (auto simp: Let_def add.commute)
    also note Cons.IH [OF rest' le \<open>Suc i \<le> j\<close>, of ?str]
    finally show ?thesis using n \<open>Suc i \<le> j\<close>
      by (auto simp: take_Cons' add.assoc Suc_diff_le)
  qed
qed

text \<open>
  C22: \<open>sen_substring\<close> cuts out exactly the characters numbered \<open>start\<close> up to \<open>end\<close>
  (exclusive), for any start within the string and any end at or after it.
\<close>

theorem sen_substring_chars:
  assumes "chars_of enc s = Some cs" and "start < length cs" and "start \<le> end"
    and "sen_substring s (int start) (int end) enc = (rc, p, e)"
  shows "rc = sen_success \<and> drop p (take e s) = concat (take (end - start) (drop start cs))"
proof -
  have s: "concat cs = s" using assms(1) by (rule delimited_reader.split_concat)
  let ?p = "length (concat (take start cs))" and ?e = "length (concat (take end cs))"
  have "sen_substring s (int start) (int end) enc = (sen_success, ?p, ?e)"
    using substring_loop_run [of enc 0 s cs 0 "end" start 0] assms by (simp add: sen_substring_def)
  then have pe: "rc = sen_success" "p = ?p" "e = ?e" using assms(4) by auto
  have A: "take ?e s = concat (take end cs)"
    using s append_take_drop_id [of "end" cs] by (metis append_eq_conv_conj concat_append)
  have B: "take end cs = take start cs @ take (end - start) (drop start cs)"
    using assms(3) by (metis le_add_diff_inverse take_add)
  have "drop ?p (concat (take end cs)) = concat (take (end - start) (drop start cs))"
    by (subst B) simp
  then show ?thesis unfolding pe A by simp
qed

theorem sen_substring_chars_witness:
  "sen_substring [0x41, 0xa4, 0xa2, 0x42] 1 2 sen_enc_euc_jp = (sen_success, 1, 3)
   \<and> drop 1 (take 3 [0x41, 0xa4, 0xa2, 0x42]) = ([0xa4, 0xa2] :: bytes)"
proof -
  have c: "chars_of sen_enc_euc_jp [0x41, 0xa4, 0xa2, 0x42] = Some [[0x41], [0xa4, 0xa2], [0x42]]"
    by (simp add: split_chars.simps sen_str_charlen_nonnull_def)
  have r: "sen_substring [0x41, 0xa4, 0xa2, 0x42] (int 1) (int 2) sen_enc_euc_jp = (sen_success, 1, 3)"
    by (simp add: sen_substring_def substring_loop.simps sen_str_charlen_nonnull_def)
  from sen_substring_chars [OF c _ _ r] r show ?thesis by simp
qed

text \<open>The names of the encodings and their numbers correspond.\<close>

theorem strtoenc_enctostr: "sen_strtoenc (sen_enctostr (enc_num enc)) = enc"
  by (cases enc) (simp_all add: sen_strtoenc_def sen_enctostr_def sen_enc_string_def enc_values_def
      numeral_eq_Suc)

end
