(* ===== verification/Str_Num.thy ===== *)
theory Str_Num
  imports Prelude
begin

text \<open>
  Numbers and ids as text (lib/str.c): \<open>sen_atoi\<close>, \<open>sen_atoui\<close>, \<open>sen_atoll\<close>, \<open>sen_htoui\<close>
  read, \<open>sen_str_itoa\<close>, \<open>sen_str_lltoa\<close>, \<open>sen_str_itoh\<close>, \<open>sen_str_itob\<close> write,
  \<open>sen_str_btoi\<close> reads the five-letter form of an id back. A delimited input is the list of
  its bytes; the returned position stands for the \<open>rest\<close> pointer, as an offset.
\<close>

section \<open>Reading decimal numbers\<close>

definition is_digit :: "byte \<Rightarrow> bool" where
  "is_digit c \<longleftrightarrow> 0x30 \<le> c \<and> c \<le> 0x39"

definition digit_val :: "byte \<Rightarrow> int" where
  "digit_val c = uint c - 0x30"

text \<open>
  The loop of \<open>sen_atoi\<close> and \<open>sen_atoll\<close>: \<open>wrap\<close> is the wrap-around of the type of \<open>v\<close>; \<open>o\<close>
  records that only a sign has been read; the result is the final \<open>v\<close>, \<open>o\<close> and \<open>p\<close>.
\<close>

fun ato_loop :: "(int \<Rightarrow> int) \<Rightarrow> bytes \<Rightarrow> int \<Rightarrow> bool \<Rightarrow> nat \<Rightarrow> int \<times> bool \<times> nat" where
  "ato_loop wrap [] v ov p = (v, ov, p)"
| "ato_loop wrap (c # s) v ov p =
     (if is_digit c then
        (let t = wrap (v * 10 + digit_val c) in
         if t < v then (0, ov, p) else ato_loop wrap s t False (Suc p))
      else (v, ov, p))"

definition sen_atoi :: "bytes \<Rightarrow> int \<times> nat" where
  "sen_atoi nptr =
     (let neg = (nptr \<noteq> [] \<and> hd nptr = 0x2d);
          (v, ov, p) = ato_loop wrap32 (if neg then tl nptr else nptr) 0 neg (if neg then 1 else 0)
      in (if neg then wrap32 (- v) else v, if ov then 0 else p))"

definition sen_atoll :: "bytes \<Rightarrow> int \<times> nat" where
  "sen_atoll nptr =
     (let neg = (nptr \<noteq> [] \<and> hd nptr = 0x2d);
          (v, ov, p) = ato_loop wrap64 (if neg then tl nptr else nptr) 0 neg (if neg then 1 else 0)
      in (if neg then wrap64 (- v) else v, if ov then 0 else p))"

fun atoui_loop :: "bytes \<Rightarrow> u32 \<Rightarrow> nat \<Rightarrow> u32 \<times> nat" where
  "atoui_loop [] v p = (v, p)"
| "atoui_loop (c # s) v p =
     (if is_digit c then
        (let t = v * 10 + word_of_int (digit_val c) in
         if t < v then (0, p) else atoui_loop s t (Suc p))
      else (v, p))"

definition sen_atoui :: "bytes \<Rightarrow> u32 \<times> nat" where
  "sen_atoui nptr = atoui_loop nptr 0 0"

section \<open>Reading hexadecimal numbers\<close>

definition hex_val :: "byte \<Rightarrow> int option" where
  "hex_val c =
     (if 0x30 \<le> c \<and> c \<le> 0x39 then Some (uint c - 0x30)
      else if 0x61 \<le> c \<and> c \<le> 0x66 then Some (uint c - 0x61 + 10)
      else if 0x41 \<le> c \<and> c \<le> 0x46 then Some (uint c - 0x41 + 10)
      else None)"

text \<open>
  A byte that is no hexadecimal digit resets the value to 0 and stops there; on an overflow
  the pointer has already moved past the digit.
\<close>

fun htoui_loop :: "bytes \<Rightarrow> u32 \<Rightarrow> nat \<Rightarrow> u32 \<times> nat" where
  "htoui_loop [] v p = (v, p)"
| "htoui_loop (c # s) v p =
     (case hex_val c of
        None \<Rightarrow> (0, p)
      | Some h \<Rightarrow>
          (let t = v * 16 + word_of_int h in
           if t < v then (0, Suc p) else htoui_loop s t (Suc p)))"

definition sen_htoui :: "bytes \<Rightarrow> u32 \<times> nat" where
  "sen_htoui nptr = htoui_loop nptr 0 0"

section \<open>Writing\<close>

definition hex_digits :: bytes where
  "hex_digits = [0x30, 0x31, 0x32, 0x33, 0x34, 0x35, 0x36, 0x37,
                 0x38, 0x39, 0x41, 0x42, 0x43, 0x44, 0x45, 0x46]"

text \<open>The digits are stored from the last one to the first, before the NUL.\<close>

fun itoh_loop :: "u32 \<Rightarrow> nat \<Rightarrow> bytes \<Rightarrow> bytes" where
  "itoh_loop i 0 p = p"
| "itoh_loop i (Suc len) p = itoh_loop (drop_bit 4 i) len (hex_digits ! unat (i AND 0xf) # p)"

definition sen_str_itoh :: "u32 \<Rightarrow> nat \<Rightarrow> bytes" where
  "sen_str_itoh i len = itoh_loop i len [0]"

text \<open>
  The digits of a number, lowest first, as far as the \<open>room\<close> bytes up to \<open>end\<close> allow, with
  whether they all fitted. Division truncates, as in C.
\<close>

fun itoa_digits :: "int \<Rightarrow> nat \<Rightarrow> bytes \<Rightarrow> bool \<times> bytes" where
  "itoa_digits i 0 q = (False, q)"
| "itoa_digits i (Suc room) q =
     (let q' = q @ [word_of_int (i smod 10 + 0x30)] in
      if 0 < i sdiv 10 then itoa_digits (i sdiv 10) room q' else (True, q'))"

text \<open>The loop that reverses the digits in place.\<close>

function swap_loop :: "'a list \<Rightarrow> nat \<Rightarrow> nat \<Rightarrow> 'a list" where
  "swap_loop s q p =
     (if q < p then swap_loop (s[q := s ! p, p := s ! q]) (Suc q) (p - 1) else s)"
  by pat_completeness auto
termination
  by (relation "measure (\<lambda>(s, q, p). p - q)") auto

declare swap_loop.simps [simp del]

text \<open>
  The return code and the bytes written from \<open>p\<close> on (on a refusal, the sign and the digits
  that fitted, not yet reversed). \<open>room\<close> is \<open>end - p\<close>.
\<close>

definition itoa_with :: "(int \<Rightarrow> int) \<Rightarrow> int \<Rightarrow> nat \<Rightarrow> sen_rc \<times> bytes" where
  "itoa_with wrap i room =
     (if room = 0 then (sen_invalid_argument, [])
      else
        (let sign = (if i < 0 then [0x2d] else []);
             i' = (if i < 0 then wrap (- i) else i);
             (fits, ds) = itoa_digits i' (room - length sign) []
         in if fits then (sen_success, sign @ swap_loop ds 0 (length ds - 1))
            else (sen_invalid_argument, sign @ ds)))"

definition sen_str_itoa :: "int \<Rightarrow> nat \<Rightarrow> sen_rc \<times> bytes" where
  "sen_str_itoa i room = itoa_with wrap32 i room"

definition sen_str_lltoa :: "int \<Rightarrow> nat \<Rightarrow> sen_rc \<times> bytes" where
  "sen_str_lltoa i room = itoa_with wrap64 i room"

section \<open>Ids in base 64\<close>

definition i2b_table :: bytes where
  "i2b_table =
     [0x41, 0x42, 0x43, 0x44, 0x45, 0x46, 0x47, 0x48, 0x49, 0x4a, 0x4b, 0x4c, 0x4d, 0x4e, 0x4f, 0x50,
      0x51, 0x52, 0x53, 0x54, 0x55, 0x56, 0x57, 0x58, 0x59, 0x5a, 0x61, 0x62, 0x63, 0x64, 0x65, 0x66,
      0x67, 0x68, 0x69, 0x6a, 0x6b, 0x6c, 0x6d, 0x6e, 0x6f, 0x70, 0x71, 0x72, 0x73, 0x74, 0x75, 0x76,
      0x77, 0x78, 0x79, 0x7a, 0x30, 0x31, 0x32, 0x33, 0x34, 0x35, 0x36, 0x37, 0x38, 0x39, 0x2b, 0x2f]"

definition I2B :: "u32 \<Rightarrow> byte" where
  "I2B i = i2b_table ! unat (i AND 0x3f)"

definition b2i_table :: bytes where
  "b2i_table =
     [0x3e, 0xff, 0xff, 0xff, 0x3f, 0x34, 0x35, 0x36, 0x37, 0x38, 0x39, 0x3a, 0x3b, 0x3c, 0x3d, 0xff,
      0xff, 0xff, 0xff, 0xff, 0xff, 0xff, 0x00, 0x01, 0x02, 0x03, 0x04, 0x05, 0x06, 0x07, 0x08, 0x09,
      0x0a, 0x0b, 0x0c, 0x0d, 0x0e, 0x0f, 0x10, 0x11, 0x12, 0x13, 0x14, 0x15, 0x16, 0x17, 0x18, 0x19,
      0xff, 0xff, 0xff, 0xff, 0xff, 0xff, 0x1a, 0x1b, 0x1c, 0x1d, 0x1e, 0x1f, 0x20, 0x21, 0x22, 0x23,
      0x24, 0x25, 0x26, 0x27, 0x28, 0x29, 0x2a, 0x2b, 0x2c, 0x2d, 0x2e, 0x2f, 0x30, 0x31, 0x32, 0x33]"

definition B2I :: "byte \<Rightarrow> byte" where
  "B2I b = (if b < 0x2b \<or> 0x7a < b then 0xff else b2i_table ! unat (b - 0x2b))"

definition MASK :: u32 where
  "MASK = 0x34d34d34"

definition sen_str_itob :: "u32 \<Rightarrow> bytes" where
  "sen_str_itob id0 =
     (let i = id0 XOR MASK in
      [I2B (drop_bit 24 i), I2B (drop_bit 18 i), I2B (drop_bit 12 i), I2B (drop_bit 6 i), I2B i])"

fun btoi_loop :: "nat \<Rightarrow> bytes \<Rightarrow> u32 \<Rightarrow> u32" where
  "btoi_loop 0 b i = i XOR MASK"
| "btoi_loop (Suc len) b i =
     (let v = B2I (rd b 0) in
      if v = 0xff then 0 else btoi_loop len (tl b) (push_bit 6 i + ucast v))"

definition sen_str_btoi :: "bytes \<Rightarrow> u32" where
  "sen_str_btoi b = btoi_loop 5 b 0"


section \<open>Decimal notation\<close>

text \<open>The reference: the decimal digits of a number, and the signed form.\<close>

definition dig :: "nat \<Rightarrow> byte" where
  "dig d = word_of_nat (d + 0x30)"

fun dec :: "nat \<Rightarrow> bytes" where
  "dec n = (if n < 10 then [dig n] else dec (n div 10) @ [dig (n mod 10)])"

declare dec.simps [simp del]

definition dec_int :: "int \<Rightarrow> bytes" where
  "dec_int i = (if i < 0 then [0x2d] else []) @ dec (nat \<bar>i\<bar>)"

lemma dec_nonempty [simp]: "dec n \<noteq> []"
  by (subst dec.simps) simp

lemma uint_dig: "d < 10 \<Longrightarrow> uint (dig d) = int d + 0x30"
  by (simp add: dig_def unsigned_of_nat take_bit_eq_mod uint_nat del: of_nat_add flip: uint_nat)

lemma dig_digit [simp]: "d < 10 \<Longrightarrow> is_digit (dig d)" "d < 10 \<Longrightarrow> digit_val (dig d) = int d"
  using uint_dig [of d] by (simp_all add: is_digit_def digit_val_def word_le_def)

lemma swap_loop_middle:
  "swap_loop (l @ m @ r) (length l) (length l + length m - 1) = l @ rev m @ r"
proof (induction m arbitrary: l r rule: length_induct)
  case (1 m)
  show ?case
  proof (cases "length m \<le> 1")
    case True
    then have "\<not> length l < length l + length m - 1" by simp
    moreover have "rev m = m" using True by (cases m) auto
    ultimately show ?thesis by (subst swap_loop.simps) simp
  next
    case False
    then obtain a m' where "m = a # m'" "m' \<noteq> []" by (cases m) auto
    then obtain b m'' where m: "m = a # m'' @ [b]" by (metis append_butlast_last_id)
    have "(l @ m @ r)[length l := b, length l + length m - 1 := a] = (l @ [b]) @ m'' @ (a # r)"
      by (simp add: m list_update_append)
    moreover have "(l @ m @ r) ! (length l + length m - 1) = b" "(l @ m @ r) ! length l = a"
      by (simp_all add: m nth_append)
    ultimately have "swap_loop (l @ m @ r) (length l) (length l + length m - 1) =
        swap_loop ((l @ [b]) @ m'' @ (a # r)) (length (l @ [b])) (length (l @ [b]) + length m'' - 1)"
      using False by (subst swap_loop.simps) (simp add: m)
    also have "\<dots> = l @ rev m @ r" using 1 m by (subst 1) (auto simp: m)
    finally show ?thesis .
  qed
qed

lemma swap_loop_rev: "swap_loop s 0 (length s - 1) = rev s"
  using swap_loop_middle [of "[]" s "[]"] by simp

lemma int_smod_sdiv: "int n smod 10 = int (n mod 10)" "int n sdiv 10 = int (n div 10)"
  by (simp_all add: signed_modulo_int_def signed_divide_int_def zmod_int zdiv_int sgn_if)

lemma dig_smod: "word_of_int (int n smod 10 + 0x30) = dig (n mod 10)"
proof -
  have "int n smod 10 + 0x30 = int (n mod 10 + 0x30)" by (simp add: int_smod_sdiv)
  then show ?thesis unfolding dig_def by (simp only: of_int_of_nat_eq)
qed

lemma itoa_digits_dec:
  "length (dec n) \<le> room \<Longrightarrow> itoa_digits (int n) room q = (True, q @ rev (dec n))"
  "room < length (dec n) \<Longrightarrow> itoa_digits (int n) room q = (False, q @ take room (rev (dec n)))"
proof (induction room arbitrary: n q)
  case (Suc room)
  have d: "itoa_digits (int n) (Suc room) q =
      (if 0 < n div 10 then itoa_digits (int (n div 10)) room (q @ [dig (n mod 10)])
       else (True, q @ [dig (n mod 10)]))" for n q
    unfolding itoa_digits.simps Let_def dig_smod int_smod_sdiv(2) by simp
  {
    case 1
    then show ?case unfolding d using Suc.IH(1) by (cases "n < 10") (simp_all add: dec.simps [of n])
  next
    case 2
    then show ?case unfolding d using Suc.IH(2) by (cases "n < 10") (simp_all add: dec.simps [of n])
  }
qed simp_all

section \<open>The two widths\<close>

text \<open>
  What the conversions need from a signed C type: values up to \<open>top\<close> in absolute value are
  represented exactly. The lemmas about reading and writing are proved once for both widths.
\<close>

locale signed_type =
  fixes wrap :: "int \<Rightarrow> int" and top :: int
  assumes wrap_exact: "- top \<le> i \<Longrightarrow> i \<le> top \<Longrightarrow> wrap i = i"
begin

lemma itoa_with_dec:
  assumes "- top \<le> i" "i \<le> top"
  shows "length (dec_int i) \<le> room \<Longrightarrow> itoa_with wrap i room = (sen_success, dec_int i)"
    and "room < length (dec_int i) \<Longrightarrow>
           fst (itoa_with wrap i room) = sen_invalid_argument \<and> length (snd (itoa_with wrap i room)) = room"
proof -
  obtain n where n: "nat \<bar>i\<bar> = n" by blast
  have abs: "(if i < 0 then wrap (- i) else i) = int n"
    using wrap_exact [of "- i"] assms n by auto
  have pos: "0 < length (dec n)" by simp
  show "length (dec_int i) \<le> room \<Longrightarrow> itoa_with wrap i room = (sen_success, dec_int i)"
    unfolding itoa_with_def Let_def abs dec_int_def n
    using swap_loop_rev [of "rev (dec n)"] pos
    by (cases "i < 0") (auto simp: itoa_digits_dec(1) intro: less_le_trans [OF pos])
  show "room < length (dec_int i) \<Longrightarrow>
      fst (itoa_with wrap i room) = sen_invalid_argument \<and> length (snd (itoa_with wrap i room)) = room"
    unfolding itoa_with_def Let_def abs dec_int_def n
    by (cases "room = 0"; cases "i < 0") (auto simp: itoa_digits_dec(2))
qed

lemma ato_loop_dec:
  "int n \<le> top \<Longrightarrow> ato_loop wrap (dec n @ t) 0 ov p = ato_loop wrap t (int n) False (p + length (dec n))"
proof (induction n arbitrary: t ov p rule: dec.induct)
  case (1 n)
  have step: "ato_loop wrap (dig d # t) (int m) ov p = ato_loop wrap t (int (m * 10 + d)) False (Suc p)"
    if "d < 10" "int (m * 10 + d) \<le> top" for d m t ov p
    using that wrap_exact [of "int m * 10 + int d"] by simp
  show ?case
  proof (cases "n < 10")
    case True
    then show ?thesis using step [of n 0 t] 1 by (simp add: dec.simps [of n])
  next
    case False
    have "n div 10 * 10 + n mod 10 = n" by simp
    then show ?thesis
      using False "1.IH" [OF False, of "dig (n mod 10) # t"] step [of "n mod 10" "n div 10" t] "1.prems"
      by (simp add: dec.simps [of n])
  qed
qed

lemma ato_dec_int:
  assumes "- top \<le> i" "i \<le> top" "t = [] \<or> \<not> is_digit (hd t)"
  shows "ato_loop wrap (dec (nat \<bar>i\<bar>) @ t) 0 ov p = (\<bar>i\<bar>, False, p + length (dec (nat \<bar>i\<bar>)))"
  using assms ato_loop_dec [of "nat \<bar>i\<bar>" t] by (cases t) auto

end

interpretation int32: signed_type wrap32 2147483647
  by unfold_locales (simp add: wrap32_id int32_range_def)

interpretation int64: signed_type wrap64 9223372036854775807
  by unfold_locales (simp add: wrap64_id int64_range_def)

lemma dec_hd: "hd (dec n @ t) \<noteq> 0x2d"
proof (induction n rule: dec.induct)
  case (1 n)
  have "dig d \<noteq> 0x2d" if "d < 10" for d using uint_dig [OF that] by auto
  then show ?case using 1 by (subst dec.simps) auto
qed

text \<open>
  C23: \<open>sen_str_itoa\<close> writes the decimal notation of every \<open>int\<close> but \<open>INT_MIN\<close>, refuses
  exactly when the space up to \<open>end\<close> is too small for it, and never writes past \<open>end\<close>.
\<close>

theorem sen_str_itoa_spec:
  assumes "- 2147483647 \<le> i" "i \<le> 2147483647"
  shows "(if length (dec_int i) \<le> room then sen_str_itoa i room = (sen_success, dec_int i)
          else fst (sen_str_itoa i room) = sen_invalid_argument \<and> length (snd (sen_str_itoa i room)) = room)"
  using int32.itoa_with_dec [OF assms, of room] by (simp add: sen_str_itoa_def)

theorem sen_str_itoa_spec_witness:
  "sen_str_itoa (- 42) 3 = (sen_success, [0x2d, 0x34, 0x32]) \<and>
   fst (sen_str_itoa (- 42) 2) = sen_invalid_argument"
  using sen_str_itoa_spec [of "- 42" 3] sen_str_itoa_spec [of "- 42" 2]
  by (simp add: dec_int_def dec.simps dig_def)

lemma itoa_success:
  "- 2147483647 \<le> i \<Longrightarrow> i \<le> 2147483647 \<Longrightarrow> sen_str_itoa i room = (sen_success, bs) \<Longrightarrow> bs = dec_int i"
  "- 9223372036854775807 \<le> j \<Longrightarrow> j \<le> 9223372036854775807 \<Longrightarrow>
     sen_str_lltoa j room = (sen_success, cs) \<Longrightarrow> cs = dec_int j"
  using int32.itoa_with_dec [of i room] int64.itoa_with_dec [of j room]
  unfolding sen_str_itoa_def sen_str_lltoa_def by (force simp: not_le)+

lemma ato_sign:
  "(dec_int i @ t \<noteq> [] \<and> hd (dec_int i @ t) = 0x2d) = (i < 0)"
  using dec_hd [of "nat \<bar>i\<bar>" t] by (cases "i < 0") (auto simp: dec_int_def)

lemma atoi_dec_int:
  assumes "- 2147483647 \<le> i" "i \<le> 2147483647" "t = [] \<or> \<not> is_digit (hd t)"
  shows "sen_atoi (dec_int i @ t) = (i, length (dec_int i))"
proof -
  have "wrap32 (- \<bar>i\<bar>) = - \<bar>i\<bar>" using assms(1,2) by (intro int32.wrap_exact) auto
  then show ?thesis
    using int32.ato_dec_int [OF assms] ato_sign [of i t]
    unfolding sen_atoi_def by (simp add: dec_int_def Let_def split: if_splits)
qed

text \<open>
  C19: reading back what \<open>sen_str_itoa\<close> and \<open>sen_str_lltoa\<close> wrote gives the number, and
  \<open>rest\<close> is just after it, whatever non-digit follows.
\<close>

theorem atoi_itoa_roundtrip:
  assumes "t = [] \<or> \<not> is_digit (hd t)"
  shows "(- 2147483647 \<le> i \<and> i \<le> 2147483647 \<and> sen_str_itoa i room = (sen_success, bs) \<longrightarrow>
           sen_atoi (bs @ t) = (i, length bs)) \<and>
         (- 9223372036854775807 \<le> j \<and> j \<le> 9223372036854775807 \<and>
           sen_str_lltoa j room = (sen_success, cs) \<longrightarrow> sen_atoll (cs @ t) = (j, length cs))"
proof (intro conjI impI; elim conjE)
  assume i: "- 2147483647 \<le> i" "i \<le> 2147483647" and w: "sen_str_itoa i room = (sen_success, bs)"
  have bs: "bs = dec_int i" using itoa_success(1) [OF i w] .
  show "sen_atoi (bs @ t) = (i, length bs)"
    unfolding bs by (rule atoi_dec_int [OF i assms])
next
  assume j: "- 9223372036854775807 \<le> j" "j \<le> 9223372036854775807"
    and w: "sen_str_lltoa j room = (sen_success, cs)"
  have cs: "cs = dec_int j" using itoa_success(2) [OF j w] .
  have "wrap64 (- \<bar>j\<bar>) = - \<bar>j\<bar>" using j by (intro int64.wrap_exact) auto
  then show "sen_atoll (cs @ t) = (j, length cs)"
    using int64.ato_dec_int [OF j assms] ato_sign [of j t]
    unfolding sen_atoll_def cs by (simp add: dec_int_def Let_def split: if_splits)
qed

theorem atoi_itoa_roundtrip_witness:
  "sen_atoi ([0x2d, 0x34, 0x32] @ [0x2c]) = (- 42, 3)"
proof -
  have "sen_str_itoa (- 42) 3 = (sen_success, [0x2d, 0x34, 0x32])"
    by (simp add: sen_str_itoa_def int32.itoa_with_dec dec_int_def dec.simps dig_def)
  moreover have "\<not> is_digit (hd [0x2c])" by (simp add: is_digit_def)
  ultimately show ?thesis
    using atoi_itoa_roundtrip [of "[0x2c]" "- 42" 3 "[0x2d, 0x34, 0x32]" 0 "[]"] by simp
qed

section \<open>Unsigned numbers\<close>

lemma atoui_dec:
  "n < 4294967296 \<Longrightarrow>
     atoui_loop (dec n @ t) 0 p = atoui_loop t (word_of_nat n) (p + length (dec n))"
proof (induction n arbitrary: t p rule: dec.induct)
  case (1 n)
  have step: "atoui_loop (dig d # t) (word_of_nat m) p = atoui_loop t (word_of_nat (m * 10 + d)) (Suc p)"
    if "d < 10" "m * 10 + d < 4294967296" for d m t p
  proof -
    have "\<not> (word_of_nat (m * 10 + d) :: u32) < word_of_nat m"
      using that by (simp add: word_less_nat_alt unat_of_nat del: of_nat_add of_nat_mult)
    then show ?thesis using that by (simp add: Let_def)
  qed
  show ?case
  proof (cases "n < 10")
    case True
    then show ?thesis using step [of n 0 t] 1 by (simp add: dec.simps [of n])
  next
    case False
    have "n div 10 * 10 + n mod 10 = n" by simp
    then show ?thesis
      using False "1.IH" [OF False, of "dig (n mod 10) # t"] step [of "n mod 10" "n div 10" t] "1.prems"
      by (simp add: dec.simps [of n])
  qed
qed

text \<open>
  C24: \<open>sen_atoui\<close> reads every number below \<open>2^32\<close>, but its overflow test \<open>t < v\<close> does not
  detect every overflow: of a number with ten digits above \<open>2^32\<close> the remainder is returned
  as if it had been read.
\<close>

theorem sen_atoui_reads:
  "(n < 4294967296 \<and> (t = [] \<or> \<not> is_digit (hd t)) \<longrightarrow>
      sen_atoui (dec n @ t) = (word_of_nat n, length (dec n))) \<and>
   sen_atoui (dec 5000000000) = (705032704, 10)"
proof
  show "n < 4294967296 \<and> (t = [] \<or> \<not> is_digit (hd t)) \<longrightarrow>
      sen_atoui (dec n @ t) = (word_of_nat n, length (dec n))"
    using atoui_dec [of n t 0] by (cases t) (auto simp: sen_atoui_def)
  show "sen_atoui (dec 5000000000) = (705032704, 10)"
    by (simp add: dec.simps dig_def sen_atoui_def is_digit_def digit_val_def)
qed

theorem sen_atoui_reads_witness: "sen_atoui (dec 42) = (42, 2)"
  using sen_atoui_reads [of 42 "[]"] by (simp add: dec.simps)

section \<open>Ids in base 64\<close>

lemma unat_and_3f: "unat (i AND 0x3f :: u32) < 64"
proof -
  have "i AND 0x3f \<le> (0x3f :: u32)" by (rule word_and_le1)
  then show ?thesis by (simp add: word_le_nat_alt)
qed

lemma unat_and_3f_eq: "unat (i AND 0x3f :: u32) = unat i mod 64"
proof -
  have "i AND 0x3f = take_bit 6 i" by (simp add: take_bit_eq_mask mask_eq_exp_minus_1)
  then have "unat (i AND 0x3f) = take_bit 6 (unat i)" by (simp only: unsigned_take_bit_eq)
  then show ?thesis by (simp add: take_bit_eq_mod)
qed

lemma B2I_I2B: "B2I (I2B i) = word_of_nat (unat i mod 64)"
proof -
  have "list_all (\<lambda>k. B2I (i2b_table ! k) = word_of_nat k) [0..<64]"
    by (simp add: upt_rec B2I_def i2b_table_def b2i_table_def)
  then show ?thesis
    using unat_and_3f [of i] by (simp add: I2B_def list_all_iff unat_and_3f_eq)
qed

lemma small_byte: "k < 64 \<Longrightarrow> (word_of_nat k :: byte) \<noteq> 0xff \<and> unat (word_of_nat k :: byte) = k"
proof -
  assume "k < 64"
  then have u: "unat (word_of_nat k :: byte) = k" by (simp add: unat_of_nat)
  then have "unat (word_of_nat k :: byte) \<noteq> unat (0xff :: byte)" using \<open>k < 64\<close> by simp
  then show ?thesis using u by metis
qed

lemma btoi_step:
  assumes "unat i < 2 ^ 26"
  shows "btoi_loop (Suc len) (I2B x # b) i = btoi_loop len b (word_of_nat (unat i * 64 + unat x mod 64))"
proof -
  let ?v = "word_of_nat (unat x mod 64) :: byte"
  have v: "?v \<noteq> 0xff" "unat ?v = unat x mod 64" using small_byte [of "unat x mod 64"] by auto
  have "ucast ?v = (word_of_nat (unat x mod 64) :: u32)" using v(2) by (metis of_nat_unat)
  moreover have "push_bit 6 i = i * 64" by (simp add: push_bit_eq_mult)
  ultimately have "push_bit 6 i + ucast ?v = (word_of_nat (unat i * 64 + unat x mod 64) :: u32)"
    by simp
  then show ?thesis using v by (simp add: B2I_I2B Let_def)
qed

lemma digits_64: "(n div (64 * m) mod k) * 64 + n div m mod 64 = n div m mod (k * 64)" for n :: nat
  by (metis add.commute div_mult2_eq mod_mult2_eq mult.commute)

text \<open>
  C20: \<open>sen_str_btoi\<close> reads back the five letters of \<open>sen_str_itob\<close>, and the id is preserved
  exactly on the 30 bits that ids have (\<open>SEN_ID_MAX\<close> is \<open>0x3fffffff\<close>); any two upper bits
  are dropped.
\<close>

theorem btoi_itob: "sen_str_btoi (sen_str_itob i @ t) = i AND 0x3fffffff"
proof -
  define x where "x = i XOR MASK"
  define n where "n = unat x"
  have d: "unat (drop_bit k x) = n div 2 ^ k" for k
    unfolding n_def unat_drop_bit_eq by (rule drop_bit_eq_div)
  have u: "unat (word_of_nat m :: u32) = m" if "m < 2 ^ 32" for m using that by (simp add: unat_of_nat)
  have s1: "n div 2 ^ 24 mod 64 * 64 + n div 2 ^ 18 mod 64 = n div 2 ^ 18 mod 2 ^ 12"
    using digits_64 [of n "2 ^ 18" 64] by simp
  have s2: "n div 2 ^ 18 mod 2 ^ 12 * 64 + n div 2 ^ 12 mod 64 = n div 2 ^ 12 mod 2 ^ 18"
    using digits_64 [of n "2 ^ 12" "2 ^ 12"] by simp
  have s3: "n div 2 ^ 12 mod 2 ^ 18 * 64 + n div 2 ^ 6 mod 64 = n div 2 ^ 6 mod 2 ^ 24"
    using digits_64 [of n "2 ^ 6" "2 ^ 18"] by simp
  have s4: "n div 2 ^ 6 mod 2 ^ 24 * 64 + n mod 64 = n mod 2 ^ 30"
    using digits_64 [of n 1 "2 ^ 24"] by simp
  have st: "btoi_loop (Suc m) (I2B y # b) (word_of_nat a) = btoi_loop m b (word_of_nat (a * 64 + unat y mod 64))"
    if "a < 2 ^ 26" for m y b a
    using btoi_step [of "word_of_nat a" m y b] that by (simp add: u)
  have b: "n div 2 ^ k mod 2 ^ j < 2 ^ 26" if "j \<le> 24" for k j
  proof -
    have "(2::nat) ^ j \<le> 2 ^ 24" using that by (intro power_increasing) auto
    moreover have "n div 2 ^ k mod 2 ^ j < 2 ^ j" by (rule mod_less_divisor) simp
    ultimately have "n div 2 ^ k mod 2 ^ j < 2 ^ 24" by linarith
    then show ?thesis by simp
  qed
  have five: "(5::nat) = Suc (Suc (Suc (Suc (Suc 0))))" by simp
  have b6: "n div 2 ^ 24 mod 64 < 2 ^ 26" using b [of 6 24] by simp
  have "sen_str_btoi (sen_str_itob i @ t) =
      btoi_loop 5 (I2B (drop_bit 24 x) # I2B (drop_bit 18 x) # I2B (drop_bit 12 x) #
        I2B (drop_bit 6 x) # I2B x # t) (word_of_nat 0)"
    by (simp add: sen_str_btoi_def sen_str_itob_def Let_def x_def)
  also have "\<dots> = btoi_loop (Suc (Suc (Suc (Suc 0)))) (I2B (drop_bit 18 x) # I2B (drop_bit 12 x) #
        I2B (drop_bit 6 x) # I2B x # t) (word_of_nat (n div 2 ^ 24 mod 64))"
    unfolding five by (subst st) (simp_all add: d)
  also have "\<dots> = btoi_loop (Suc (Suc (Suc 0))) (I2B (drop_bit 12 x) #
        I2B (drop_bit 6 x) # I2B x # t) (word_of_nat (n div 2 ^ 18 mod 2 ^ 12))"
    by (subst st [OF b6]) (simp only: d s1)
  also have "\<dots> = btoi_loop (Suc (Suc 0)) (I2B (drop_bit 6 x) # I2B x # t)
      (word_of_nat (n div 2 ^ 12 mod 2 ^ 18))"
    by (subst st [OF b]) (simp, simp only: d s2)
  also have "\<dots> = btoi_loop (Suc 0) (I2B x # t) (word_of_nat (n div 2 ^ 6 mod 2 ^ 24))"
    by (subst st [OF b]) (simp, simp only: d s3)
  also have "\<dots> = btoi_loop 0 t (word_of_nat (n mod 2 ^ 30))"
    by (subst st [OF b]) (simp, simp only: n_def [symmetric] s4)
  finally have "sen_str_btoi (sen_str_itob i @ t) = word_of_nat (n mod 2 ^ 30) XOR MASK"
    by simp
  also have "word_of_nat (n mod 2 ^ 30) = take_bit 30 x"
  proof -
    have "n mod 2 ^ 30 = unat (take_bit 30 x)"
      unfolding n_def unsigned_take_bit_eq by (rule take_bit_eq_mod [symmetric])
    then show ?thesis by (simp only: of_nat_unat ucast_id)
  qed
  also have "take_bit 30 x XOR MASK = i AND 0x3fffffff"
  proof -
    have m: "take_bit 30 MASK = MASK" "mask 30 = (0x3fffffff :: u32)"
      by (simp_all add: MASK_def mask_eq_exp_minus_1 take_bit_eq_mod)
    have "take_bit 30 x XOR MASK = take_bit 30 (x XOR MASK)" by (simp add: take_bit_xor m)
    also have "x XOR MASK = i" by (simp add: x_def xor.assoc)
    finally show ?thesis by (simp add: take_bit_eq_mask m)
  qed
  finally show ?thesis .
qed

section \<open>Hexadecimal\<close>

lemma hex_val_digit: "k < 16 \<Longrightarrow> hex_val (hex_digits ! k) = Some (int k)"
proof -
  have "list_all (\<lambda>k. hex_val (hex_digits ! k) = Some (int k)) [0..<16]"
    by (simp add: upt_rec hex_val_def hex_digits_def)
  then show "k < 16 \<Longrightarrow> hex_val (hex_digits ! k) = Some (int k)"
    by (simp add: list_all_iff)
qed

lemma unat_and_f: "unat (i AND 0xf :: u32) = unat i mod 16"
proof -
  have "i AND 0xf = take_bit 4 i" by (simp add: take_bit_eq_mask mask_eq_exp_minus_1)
  then have "unat (i AND 0xf) = take_bit 4 (unat i)" by (simp only: unsigned_take_bit_eq)
  then show ?thesis by (simp add: take_bit_eq_mod)
qed

fun hexd :: "nat \<Rightarrow> nat \<Rightarrow> bytes" where
  "hexd n 0 = []"
| "hexd n (Suc k) = hexd (n div 16) k @ [hex_digits ! (n mod 16)]"

lemma itoh_loop_hexd: "itoh_loop i len p = hexd (unat i) len @ p"
proof (induction len arbitrary: i p)
  case (Suc len)
  have "unat (drop_bit 4 i) = unat i div 16"
    using unat_drop_bit_eq [of 4 i] by (simp only: drop_bit_eq_div) simp
  then show ?case by (simp add: Suc.IH unat_and_f)
qed simp

lemma length_hexd [simp]: "length (hexd n k) = k"
  by (induction k arbitrary: n) auto

lemma htoui_hexd:
  "k \<le> 8 \<Longrightarrow> htoui_loop (hexd n k @ t) 0 p = htoui_loop t (word_of_nat (n mod 16 ^ k)) (p + k)"
proof (induction k arbitrary: n t p)
  case (Suc k)
  let ?m = "n div 16 mod 16 ^ k" and ?d = "n mod 16"
  have sum: "?m * 16 + ?d = n mod 16 ^ Suc k"
    by (metis mod_mult2_eq add.commute mult.commute power_Suc)
  have "(16::nat) ^ Suc k \<le> 16 ^ 8" using Suc.prems by (intro power_increasing) auto
  moreover have "n mod 16 ^ Suc k < 16 ^ Suc k" by simp
  ultimately have "n mod 16 ^ Suc k < 16 ^ 8" by linarith
  then have small: "?m * 16 + ?d < 4294967296" unfolding sum by simp
  have "\<not> (word_of_nat (?m * 16 + ?d) :: u32) < word_of_nat ?m"
    using small by (simp add: word_less_nat_alt unat_of_nat del: of_nat_add of_nat_mult)
  moreover have "word_of_nat ?m * 16 + word_of_int (int ?d) = (word_of_nat (?m * 16 + ?d) :: u32)"
    by simp
  ultimately show ?case using Suc hex_val_digit [of ?d] by (simp only: hexd.simps append_assoc append.simps
        htoui_loop.simps option.case Let_def sum) simp
qed simp

text \<open>
  \<open>sen_str_itoh\<close> fills its field with exactly \<open>len\<close> digits and a NUL, and
  \<open>sen_htoui\<close> reads the low \<open>4 * len\<close> bits of the number back, for every width up to eight.
\<close>

theorem itoh_htoui:
  assumes "len \<le> 8"
  shows "length (sen_str_itoh i len) = Suc len \<and> last (sen_str_itoh i len) = 0 \<and>
         sen_htoui (take len (sen_str_itoh i len)) = (take_bit (4 * len) i, len)"
proof -
  have "htoui_loop (hexd (unat i) len @ []) 0 0 = (word_of_nat (unat i mod 16 ^ len), len)"
    using htoui_hexd [OF assms, of "unat i" "[]" 0] by simp
  moreover have "(16::nat) ^ len = 2 ^ (4 * len)" by (simp add: power_mult)
  moreover have "word_of_nat (take_bit (4 * len) (unat i)) = take_bit (4 * len) i"
    by (metis unsigned_take_bit_eq of_nat_unat ucast_id)
  ultimately show ?thesis
    by (simp add: sen_str_itoh_def itoh_loop_hexd sen_htoui_def take_bit_eq_mod)
qed

theorem itoh_htoui_witness:
  "sen_str_itoh 0xbeef 4 = [0x42, 0x45, 0x45, 0x46, 0] \<and>
   sen_htoui [0x42, 0x45, 0x45, 0x46] = (0xbeef, 4)"
proof -
  have e: "sen_str_itoh 0xbeef 4 = [0x42, 0x45, 0x45, 0x46, 0]"
  proof -
    have four: "(4::nat) = Suc (Suc (Suc (Suc 0)))" by simp
    show ?thesis unfolding sen_str_itoh_def itoh_loop_hexd four by (simp add: hex_digits_def)
  qed
  with itoh_htoui [of 4 "0xbeef"] show ?thesis by (simp add: take_bit_eq_mod)
qed

end
