(* ===== verification/Str_Args.thy ===== *)
theory Str_Args
  imports Prelude
begin

text \<open>
  Splitting a line into tokens (\<open>sen_str_tok\<close>) and reading command line options
  (\<open>sen_str_getopt\<close>) of lib/str.c.
\<close>

section \<open>Tokens\<close>

text \<open>
  \<open>sen_str_tok\<close> overwrites each delimiter with a NUL and records the position of each token's
  end. \<open>tok_loop str delim room pos\<close> works on the rest \<open>str\<close> of the string, at offset \<open>pos\<close>,
  with \<open>room\<close> free places in the buffer of tokens; it gives the recorded positions, the
  string after the stores, and the position where it stopped.
\<close>

fun tok_loop :: "bytes \<Rightarrow> byte \<Rightarrow> nat \<Rightarrow> nat \<Rightarrow> nat list \<times> bytes \<times> nat" where
  "tok_loop [] delim room pos = ([pos], [], pos)"
| "tok_loop (c # str) delim room pos =
     (if delim = c then
        (if room = 1 then ([pos], 0 # str, pos)
         else (let (tok, str', rest) = tok_loop str delim (room - 1) (Suc pos)
               in (pos # tok, 0 # str', rest)))
      else (let (tok, str', rest) = tok_loop str delim room (Suc pos) in (tok, c # str', rest)))"

definition sen_str_tok :: "bytes \<Rightarrow> byte \<Rightarrow> int \<Rightarrow> nat list \<times> bytes \<times> nat" where
  "sen_str_tok str delim buf_size =
     (if 0 < buf_size then tok_loop str delim (nat buf_size) 0 else ([], str, 0))"

section \<open>Options\<close>

datatype getopt_op = getopt_op_none | getopt_op_on | getopt_op_off | getopt_op_update

text \<open>
  One row of the option table; \<open>go_arg\<close> says that \<open>arg\<close> is not NULL. The table ends at the
  first row with no option letter and no long name.
\<close>

record getopt_opt =
  go_opt :: byte
  go_longopt :: "bytes option"
  go_arg :: bool
  go_flag :: u32
  go_op :: getopt_op

text \<open>What the scan changes: the flags, the index \<open>i\<close>, and the stores through \<open>arg\<close>.\<close>

record getopt_state =
  gs_flags :: u32
  gs_i :: nat
  gs_args :: "nat \<Rightarrow> bytes option"

definition opt_end :: "getopt_opt \<Rightarrow> bool" where
  "opt_end oo \<longleftrightarrow> go_opt oo = 0 \<and> go_longopt oo = None"

definition op_getopt_flag ::
  "getopt_opt \<Rightarrow> nat \<Rightarrow> bytes list \<Rightarrow> getopt_state \<Rightarrow> getopt_state" where
  "op_getopt_flag oo k argv st =
     (let st1 =
        (case go_op oo of
           getopt_op_none \<Rightarrow> st
         | getopt_op_on \<Rightarrow> st\<lparr>gs_flags := gs_flags st OR go_flag oo\<rparr>
         | getopt_op_off \<Rightarrow> st\<lparr>gs_flags := gs_flags st AND NOT (go_flag oo)\<rparr>
         | getopt_op_update \<Rightarrow> st\<lparr>gs_flags := go_flag oo\<rparr>)
      in if go_arg oo then
           (let i = Suc (gs_i st1); st2 = st1\<lparr>gs_i := i\<rparr>
            in if i < length argv then st2\<lparr>gs_args := (gs_args st2)(k \<mapsto> argv ! i)\<rparr> else st2)
         else st1)"

text \<open>The search of the table: the first row that matches, with its number.\<close>

fun find_opt :: "(getopt_opt \<Rightarrow> bool) \<Rightarrow> getopt_opt list \<Rightarrow> nat \<Rightarrow> (getopt_opt \<times> nat) option" where
  "find_opt match [] k = None"
| "find_opt match (oo # opts) k =
     (if opt_end oo then None
      else if match oo then Some (oo, k)
      else find_opt match opts (Suc k))"

text \<open>
  The loop over the letters of one argument: whether every letter was found, and the state.
\<close>

fun short_opts ::
  "bytes \<Rightarrow> getopt_opt list \<Rightarrow> bytes list \<Rightarrow> getopt_state \<Rightarrow> bool \<times> getopt_state" where
  "short_opts [] opts argv st = (True, st)"
| "short_opts (p # ps) opts argv st =
     (if p = 0 then (True, st)
      else
        (case find_opt (\<lambda>oo. go_opt oo \<noteq> 0 \<and> p = go_opt oo) opts 0 of
           None \<Rightarrow> (False, st)
         | Some (oo, k) \<Rightarrow> short_opts ps opts argv (op_getopt_flag oo k argv st)))"

lemma op_getopt_flag_i: "gs_i st \<le> gs_i (op_getopt_flag oo k argv st)"
  by (auto simp: op_getopt_flag_def Let_def split: getopt_op.splits)

lemma short_opts_i: "gs_i st \<le> gs_i (snd (short_opts ps opts argv st))"
proof (induction ps opts argv st rule: short_opts.induct)
  case (2 p ps opts argv st)
  show ?case
  proof (cases "find_opt (\<lambda>oo. go_opt oo \<noteq> 0 \<and> p = go_opt oo) opts 0")
    case None
    then show ?thesis by simp
  next
    case (Some a)
    obtain oo k where a: "a = (oo, k)" by (cases a)
    show ?thesis
    proof (cases "p = 0")
      case False
      with 2 Some a have "gs_i (op_getopt_flag oo k argv st) \<le> gs_i (snd (short_opts (p # ps) opts argv st))"
        by auto
      then show ?thesis using op_getopt_flag_i order_trans by blast
    qed simp
  qed
qed simp

text \<open>
  The scan of the arguments from \<open>i\<close> on. An argument that starts with two dashes is compared
  as a whole, from its second dash on, with the long names. An unknown option ends it with -1.
\<close>

function getopt_loop :: "getopt_opt list \<Rightarrow> bytes list \<Rightarrow> getopt_state \<Rightarrow> int \<times> getopt_state" where
  "getopt_loop opts argv st =
     (if gs_i st < length argv then
        (let v = argv ! gs_i st in
         if rd v 0 = 0x2d then
           (if rd v 1 = 0x2d then
              (case find_opt (\<lambda>oo. go_longopt oo = Some (tl v)) opts 0 of
                 None \<Rightarrow> (-1, st)
               | Some (oo, k) \<Rightarrow>
                   (let st' = op_getopt_flag oo k argv st
                    in getopt_loop opts argv (st'\<lparr>gs_i := Suc (gs_i st')\<rparr>)))
            else
              (let st' = snd (short_opts (tl v) opts argv st)
               in if fst (short_opts (tl v) opts argv st) then
                    getopt_loop opts argv (st'\<lparr>gs_i := Suc (gs_i st')\<rparr>)
                  else (-1, st')))
         else (int (gs_i st), st))
      else (int (gs_i st), st))"
  by pat_completeness auto
termination
proof (relation "measure (\<lambda>(opts, argv, st). length argv - gs_i st)", goal_cases)
  case (2 opts argv st v m oo k st')
  then show ?case using op_getopt_flag_i [of st oo k argv] by auto
next
  case (3 opts argv st v st')
  then show ?case using short_opts_i [of st "tl v" opts argv] by auto
qed simp

declare getopt_loop.simps [simp del]

definition sen_str_getopt :: "bytes list \<Rightarrow> getopt_opt list \<Rightarrow> u32 \<Rightarrow> int \<times> getopt_state" where
  "sen_str_getopt argv opts flags =
     getopt_loop opts argv \<lparr>gs_flags = flags, gs_i = 1, gs_args = (\<lambda>_. None)\<rparr>"

section \<open>Tokens: correctness\<close>

text \<open>The reference: the pieces of a string between the delimiters.\<close>

fun split_on :: "byte \<Rightarrow> bytes \<Rightarrow> bytes list" where
  "split_on d [] = [[]]"
| "split_on d (c # s) =
     (if d = c then [] # split_on d s
      else (case split_on d s of [] \<Rightarrow> [[c]] | t # ts \<Rightarrow> (c # t) # ts))"

text \<open>
  How a caller reads the tokens: the first one from the start of the string up to its recorded
  end, each next one from just after the end of the one before.
\<close>

fun tok_pieces :: "bytes \<Rightarrow> nat \<Rightarrow> nat list \<Rightarrow> bytes list" where
  "tok_pieces str start [] = []"
| "tok_pieces str start (e # es) = take (e - start) (drop start str) # tok_pieces str (Suc e) es"

lemma split_on_nonempty [simp]: "split_on d s \<noteq> []"
  by (induction s) (auto split: list.splits)

lemma tok_loop_shift:
  "tok_loop str d room (Suc pos) =
     (case tok_loop str d room pos of (tok, s, rest) \<Rightarrow> (map Suc tok, s, Suc rest))"
  by (induction str d room pos rule: tok_loop.induct) (auto split: prod.splits)

lemma tok_pieces_Suc: "tok_pieces (c # str) (Suc start) (map Suc es) = tok_pieces str start es"
  by (induction es arbitrary: start) auto

lemma tok_loop_spec:
  assumes "0 < room" "tok_loop str d room 0 = (tok, s, rest)"
  shows "tok_pieces str 0 tok = take room (split_on d str) \<and> tok \<noteq> [] \<and> length tok \<le> room \<and>
    rest = last tok \<and> s = map (\<lambda>k. if k \<in> set tok \<and> k < length str then 0 else str ! k) [0..<length str]"
  using assms
proof (induction str arbitrary: room tok s rest)
  case Nil
  then show ?case by (cases room) auto
next
  case (Cons c str)
  have upt: "[0..<Suc (length str)] = 0 # map Suc [0..<length str]"
    by (simp add: upt_conv_Cons map_Suc_upt del: upt_Suc)
  show ?case
  proof (cases "d = c \<and> room = 1")
    case True
    then have "tok = [0]" "s = 0 # str" "rest = 0" using Cons.prems by auto
    with True show ?thesis by (simp add: upt map_nth comp_def del: upt_Suc)
  next
    case False
    define room' where "room' = (if d = c then room - 1 else room)"
    obtain t0 s0 r0 where t: "tok_loop str d room' 0 = (t0, s0, r0)" by (metis prod_cases3)
    have "0 < room'" using False Cons.prems(1) by (auto simp: room'_def)
    note IH = Cons.IH [OF this t]
    have eq: "tok = (if d = c then [0] else []) @ map Suc t0" "s = (if d = c then 0 else c) # s0" "rest = Suc r0"
      using Cons.prems(2) False t tok_loop_shift [of str d room' 0] by (auto simp: room'_def split: if_splits)
    have "s = map (\<lambda>k. if k \<in> set tok \<and> k < length (c # str) then 0 else (c # str) ! k) [0..<length (c # str)]"
      using IH unfolding length_Cons upt eq by (auto simp: image_iff)
    moreover have "tok_pieces (c # str) 0 tok = take room (split_on d (c # str))"
    proof (cases "d = c")
      case True
      then show ?thesis using IH False Cons.prems(1) eq tok_pieces_Suc [of c str 0 t0]
        by (cases room) (auto simp: room'_def)
    next
      case dc: False
      obtain p ps where sp: "split_on d str = p # ps" by (cases "split_on d str") auto
      obtain e es where t0: "t0 = e # es" using IH by (cases t0) auto
      then have "take (e - 0) str # tok_pieces str (Suc e) es = take room (p # ps)"
        using IH dc sp by (simp add: room'_def)
      then show ?thesis using dc eq t0 sp Cons.prems(1) tok_pieces_Suc [of c str "Suc e" es]
        by (cases room) auto
    qed
    ultimately show ?thesis using IH eq False Cons.prems(1) by (auto simp: room'_def last_map)
  qed
qed

text \<open>
  C27: \<open>sen_str_tok\<close> with room for \<open>n > 0\<close> tokens records the first \<open>n\<close> pieces of the string
  between its delimiters (all of them when there are at most \<open>n\<close>), overwrites with NUL exactly
  the delimiters that end a recorded token, and leaves \<open>rest\<close> at the end of the last one.
\<close>

theorem sen_str_tok_spec:
  assumes "0 < n" "sen_str_tok str delim n = (tok, s, rest)"
  shows "tok_pieces str 0 tok = take (nat n) (split_on delim str) \<and> rest = last tok \<and>
    length s = length str \<and>
    (\<forall>k < length str. s ! k = (if k \<in> set tok then 0 else str ! k))"
  using tok_loop_spec [of "nat n" str delim tok s rest] assms by (simp add: sen_str_tok_def)

theorem sen_str_tok_spec_witness:
  "sen_str_tok [0x61, 0x20, 0x62, 0x63] 0x20 5 = ([1, 4], [0x61, 0, 0x62, 0x63], 4) \<and>
   tok_pieces [0x61, 0x20, 0x62, 0x63] 0 [1, 4] = [[0x61], [0x62, 0x63]]"
proof -
  have e: "sen_str_tok [0x61, 0x20, 0x62, 0x63] 0x20 5 = ([1, 4], [0x61, 0, 0x62, 0x63], 4)"
    by (simp add: sen_str_tok_def)
  from sen_str_tok_spec [OF _ e] e show ?thesis by simp
qed

section \<open>Options: correctness\<close>

text \<open>
  The reference reads a list of arguments from the left. \<open>named_rows\<close> are the numbers of the
  rows of the table that one argument names: one long name, or one row for every letter; \<open>None\<close>
  when a name is unknown. \<open>read_options\<close> gives all the rows that the leading options name, what
  is stored through \<open>arg\<close> of which row, and how many arguments the options and their values
  take: it ends at the first argument that is neither.
\<close>

definition opt_row :: "getopt_opt list \<Rightarrow> (getopt_opt \<Rightarrow> bool) \<Rightarrow> nat option" where
  "opt_row opts P = find (\<lambda>k. P (opts ! k)) [0..<length (takeWhile (\<lambda>oo. \<not> opt_end oo) opts)]"

definition letter_rows :: "getopt_opt list \<Rightarrow> bytes \<Rightarrow> nat list option" where
  "letter_rows opts ps = those (map (\<lambda>p. opt_row opts (\<lambda>oo. go_opt oo = p)) (takeWhile (\<lambda>p. p \<noteq> 0) ps))"

definition named_rows :: "getopt_opt list \<Rightarrow> bytes \<Rightarrow> nat list option" where
  "named_rows opts v =
     (if rd v 1 = 0x2d then map_option (\<lambda>k. [k]) (opt_row opts (\<lambda>oo. go_longopt oo = Some (tl v)))
      else letter_rows opts (tl v))"

fun read_options :: "getopt_opt list \<Rightarrow> bytes list \<Rightarrow> (nat list \<times> (nat \<times> bytes) list \<times> nat) option" where
  "read_options opts [] = Some ([], [], 0)"
| "read_options opts (v # vs) =
     (if rd v 0 \<noteq> 0x2d then Some ([], [], 0)
      else
        (case named_rows opts v of
           None \<Rightarrow> None
         | Some ks \<Rightarrow>
             (let takers = filter (\<lambda>k. go_arg (opts ! k)) ks in
              case read_options opts (drop (length takers) vs) of
                None \<Rightarrow> None
              | Some (ks', stores, n) \<Rightarrow>
                  Some (ks @ ks', zip takers vs @ stores, Suc (length takers + n)))))"

definition row_flags :: "getopt_opt list \<Rightarrow> nat list \<Rightarrow> u32 \<Rightarrow> u32" where
  "row_flags opts ks flags =
     fold (\<lambda>k f. case go_op (opts ! k) of
         getopt_op_none \<Rightarrow> f
       | getopt_op_on \<Rightarrow> f OR go_flag (opts ! k)
       | getopt_op_off \<Rightarrow> f AND NOT (go_flag (opts ! k))
       | getopt_op_update \<Rightarrow> go_flag (opts ! k)) ks flags"

text \<open>What the rows \<open>ks\<close> do to a state whose next arguments are \<open>vs\<close>.\<close>

definition takers :: "getopt_opt list \<Rightarrow> nat list \<Rightarrow> nat list" where
  "takers opts ks = filter (\<lambda>k. go_arg (opts ! k)) ks"

definition apply_rows :: "getopt_opt list \<Rightarrow> nat list \<Rightarrow> bytes list \<Rightarrow> getopt_state \<Rightarrow> getopt_state" where
  "apply_rows opts ks vs st =
     \<lparr>gs_flags = row_flags opts ks (gs_flags st), gs_i = gs_i st + length (takers opts ks),
      gs_args = gs_args st ++ map_of (rev (zip (takers opts ks) vs))\<rparr>"

lemma find_opt_row:
  "find_opt P opts k = map_option (\<lambda>j. (opts ! j, j + k)) (opt_row opts P)"
proof (induction opts arbitrary: k)
  case (Cons oo opts)
  have find_map: "find Q (map Suc js) = map_option Suc (find (Q \<circ> Suc) js)" for Q js
    by (induction js) auto
  have upt: "[0..<Suc n] = 0 # map Suc [0..<n]" for n
    by (simp add: upt_conv_Cons map_Suc_upt del: upt_Suc)
  show ?case using Cons.IH [of "Suc k"]
    by (auto simp: opt_row_def upt find_map comp_def option.map_comp simp del: upt_Suc)
qed (simp add: opt_row_def)

lemma op_getopt_flag_row:
  "op_getopt_flag (opts ! k) k argv st = apply_rows opts [k] (drop (Suc (gs_i st)) argv) st"
proof -
  have "drop (Suc (gs_i st)) argv =
      (if Suc (gs_i st) < length argv then argv ! Suc (gs_i st) # drop (Suc (Suc (gs_i st))) argv else [])"
    by (simp add: Cons_nth_drop_Suc)
  then show ?thesis
    by (cases "go_op (opts ! k)")
      (simp_all add: op_getopt_flag_def apply_rows_def row_flags_def takers_def Let_def)
qed

lemma zip_append_drop: "zip (xs @ ys) vs = zip xs vs @ zip ys (drop (length xs) vs)"
proof (induction xs arbitrary: vs)
  case (Cons x xs)
  then show ?case by (cases vs) auto
qed simp

lemma apply_rows_append:
  "apply_rows opts ks' (drop (length (takers opts ks)) vs) (apply_rows opts ks vs st) =
     apply_rows opts (ks @ ks') vs st"
  by (simp add: apply_rows_def row_flags_def takers_def zip_append_drop)

lemma short_opts_rows:
  "short_opts ps opts argv st = (ok, st') \<Longrightarrow>
     (case letter_rows opts ps of
        None \<Rightarrow> \<not> ok
      | Some ks \<Rightarrow> ok \<and> st' = apply_rows opts ks (drop (Suc (gs_i st)) argv) st)"
proof (induction ps arbitrary: st)
  case Nil
  then show ?case by (simp add: letter_rows_def apply_rows_def row_flags_def takers_def)
next
  case (Cons p ps)
  show ?case
  proof (cases "p = 0")
    case True
    then show ?thesis using Cons.prems by (simp add: letter_rows_def apply_rows_def row_flags_def takers_def)
  next
    case False
    have P: "(\<lambda>oo. go_opt oo \<noteq> 0 \<and> p = go_opt oo) = (\<lambda>oo. go_opt oo = p)" using False by auto
    show ?thesis
    proof (cases "opt_row opts (\<lambda>oo. go_opt oo = p)")
      case None
      then show ?thesis using Cons.prems False by (simp add: letter_rows_def find_opt_row P)
    next
      case (Some k)
      let ?st = "apply_rows opts [k] (drop (Suc (gs_i st)) argv) st"
      have s: "short_opts ps opts argv ?st = (ok, st')"
        using Cons.prems False Some by (simp add: find_opt_row P op_getopt_flag_row)
      have "drop (Suc (gs_i ?st)) argv = drop (length (takers opts [k])) (drop (Suc (gs_i st)) argv)"
        by (simp add: apply_rows_def add.commute)
      then have a: "apply_rows opts ks (drop (Suc (gs_i ?st)) argv) ?st =
          apply_rows opts (k # ks) (drop (Suc (gs_i st)) argv) st" for ks
        using apply_rows_append [of opts ks "[k]" "drop (Suc (gs_i st)) argv" st] by simp
      have "letter_rows opts (p # ps) = map_option (\<lambda>ks. k # ks) (letter_rows opts ps)"
        using False Some by (simp add: letter_rows_def)
      then show ?thesis using Cons.IH [OF s] a by (simp split: option.splits)
    qed
  qed
qed

text \<open>Both kinds of options at once: the state after one argument that is an option.\<close>

lemma getopt_loop_option:
  assumes "gs_i st < length argv" "rd (argv ! gs_i st) 0 = 0x2d"
  shows "case named_rows opts (argv ! gs_i st) of
      None \<Rightarrow> fst (getopt_loop opts argv st) = -1
    | Some ks \<Rightarrow>
        getopt_loop opts argv st =
          (let st' = apply_rows opts ks (drop (Suc (gs_i st)) argv) st
           in getopt_loop opts argv (st'\<lparr>gs_i := Suc (gs_i st')\<rparr>))"
proof -
  let ?v = "argv ! gs_i st"
  obtain ok st' where s: "short_opts (tl ?v) opts argv st = (ok, st')" by (cases "short_opts (tl ?v) opts argv st")
  show ?thesis
  proof (cases "rd ?v 1 = 0x2d")
    case True
    then show ?thesis using assms
      by (subst (1 2) getopt_loop.simps)
        (simp add: named_rows_def find_opt_row op_getopt_flag_row Let_def split: option.splits)
  next
    case False
    then show ?thesis using assms s short_opts_rows [OF s]
      by (subst (1 2) getopt_loop.simps) (simp add: named_rows_def Let_def split: option.splits)
  qed
qed

lemma getopt_loop_reads:
  "case read_options opts (drop (gs_i st) argv) of
     None \<Rightarrow> fst (getopt_loop opts argv st) = -1
   | Some (ks, stores, n) \<Rightarrow>
       getopt_loop opts argv st =
         (int (gs_i st + n),
          \<lparr>gs_flags = row_flags opts ks (gs_flags st), gs_i = gs_i st + n,
           gs_args = gs_args st ++ map_of (rev stores)\<rparr>)"
proof (induction "length argv - gs_i st" arbitrary: st rule: less_induct)
  case less
  let ?v = "argv ! gs_i st" and ?vs = "drop (Suc (gs_i st)) argv"
  show ?case
  proof (cases "gs_i st < length argv \<and> rd ?v 0 = 0x2d")
    case False
    then have "read_options opts (drop (gs_i st) argv) = Some ([], [], 0)"
      by (cases "gs_i st < length argv") (simp_all add: Cons_nth_drop_Suc [symmetric])
    then show ?thesis using False by (subst getopt_loop.simps) (auto simp: row_flags_def Let_def)
  next
    case True
    then have d: "drop (gs_i st) argv = ?v # ?vs" by (simp add: Cons_nth_drop_Suc)
    note l = getopt_loop_option [of st argv opts]
    show ?thesis
    proof (cases "named_rows opts ?v")
      case None
      then show ?thesis using l True d by simp
    next
      case (Some ks)
      let ?t = "takers opts ks"
      define st1 where "st1 = (apply_rows opts ks ?vs st)\<lparr>gs_i := Suc (gs_i st + length ?t)\<rparr>"
      have e: "getopt_loop opts argv st = getopt_loop opts argv st1"
        using l True Some by (simp add: st1_def Let_def apply_rows_def)
      have i: "gs_i st1 = Suc (gs_i st + length ?t)" by (simp add: st1_def)
      then have "length argv - gs_i st1 < length argv - gs_i st" using True by linarith
      from less.hyps [OF this] have IH: "case read_options opts (drop (length ?t) ?vs) of
          None \<Rightarrow> fst (getopt_loop opts argv st1) = -1
        | Some (ks', stores, n) \<Rightarrow> getopt_loop opts argv st1 =
            (int (gs_i st1 + n), \<lparr>gs_flags = row_flags opts ks' (gs_flags st1), gs_i = gs_i st1 + n,
              gs_args = gs_args st1 ++ map_of (rev stores)\<rparr>)"
        by (simp add: i add.commute)
      show ?thesis
        using IH True Some unfolding e d
        by (auto simp: takers_def [symmetric] Let_def i st1_def apply_rows_def row_flags_def
            split: option.splits)
    qed
  qed
qed

lemma read_options_end:
  "read_options opts vs = Some (ks, stores, n) \<Longrightarrow> n < length vs \<Longrightarrow> rd (vs ! n) 0 \<noteq> 0x2d"
proof (induction opts vs arbitrary: ks stores n rule: read_options.induct)
  case (2 opts v vs)
  show ?case
  proof (cases "rd v 0 \<noteq> 0x2d")
    case False
    then obtain ks1 ks' stores' n' where 1: "named_rows opts v = Some ks1"
      "read_options opts (drop (length (takers opts ks1)) vs) = Some (ks', stores', n')"
      "n = Suc (length (takers opts ks1) + n')"
      using "2.prems"(1) by (auto simp: Let_def takers_def split: option.splits)
    from "2.IH" [OF _ 1(1) refl 1(2) [unfolded takers_def]] False 1(3) "2.prems"(2)
    show ?thesis by (simp add: takers_def)
  qed (use 2 in auto)
qed simp

text \<open>
  C28: \<open>sen_str_getopt\<close> reads the leading options of the arguments after the first, as
  \<open>read_options\<close> does: it returns -1 when one of them is unknown, and otherwise the index just
  behind the options and the values they take, which is past the arguments or that of the first
  that is not an option; the flags are those of the rows in the order they are named, and what
  is stored for a row is the last value given to it.
\<close>

theorem sen_str_getopt_stops:
  "case read_options opts (drop 1 argv) of
     None \<Rightarrow> fst (sen_str_getopt argv opts flags) = -1
   | Some (ks, stores, n) \<Rightarrow>
       sen_str_getopt argv opts flags =
         (1 + int n, \<lparr>gs_flags = row_flags opts ks flags, gs_i = Suc n, gs_args = map_of (rev stores)\<rparr>) \<and>
       (Suc n < length argv \<longrightarrow> rd (argv ! Suc n) 0 \<noteq> 0x2d)"
  using getopt_loop_reads [where opts = opts and argv = argv and
      st = "\<lparr>gs_flags = flags, gs_i = 1, gs_args = (\<lambda>_. None)\<rparr>"]
    read_options_end [of opts "drop 1 argv"]
  by (auto simp: sen_str_getopt_def empty_def [symmetric] split: option.splits)

text \<open>
  The options \<open>a\<close> (a switch), \<open>n\<close> and \<open>-name\<close> (with values), and three command lines: options
  behind the first word are left alone, two letters take two values, and an unknown letter is
  an error.
\<close>

abbreviation (input) example_opts :: "getopt_opt list" where
  "example_opts \<equiv>
    [\<lparr>go_opt = 0x61, go_longopt = None, go_arg = False, go_flag = 4, go_op = getopt_op_on\<rparr>,
     \<lparr>go_opt = 0x6e, go_longopt = Some [0x2d, 0x6e], go_arg = True, go_flag = 0, go_op = getopt_op_none\<rparr>,
     \<lparr>go_opt = 0, go_longopt = None, go_arg = False, go_flag = 0, go_op = getopt_op_none\<rparr>]"

theorem sen_str_getopt_stops_witness:
  "sen_str_getopt [[0x78], [0x2d, 0x61, 0x6e], [0x31], [0x79], [0x2d, 0x61]] example_opts 1 =
     (3, \<lparr>gs_flags = 5, gs_i = 3, gs_args = [1 \<mapsto> [0x31]]\<rparr>) \<and>
   sen_str_getopt [[0x78], [0x2d, 0x2d, 0x6e], [0x2d], [0x79]] example_opts 1 =
     (3, \<lparr>gs_flags = 1, gs_i = 3, gs_args = [1 \<mapsto> [0x2d]]\<rparr>) \<and>
   fst (sen_str_getopt [[0x78], [0x2d, 0x61, 0x7a]] example_opts 1) = -1"
proof (intro conjI)
  show "sen_str_getopt [[0x78], [0x2d, 0x61, 0x6e], [0x31], [0x79], [0x2d, 0x61]] example_opts 1 =
     (3, \<lparr>gs_flags = 5, gs_i = 3, gs_args = [1 \<mapsto> [0x31]]\<rparr>)"
    using sen_str_getopt_stops [where opts = example_opts and flags = 1 and
        argv = "[[0x78], [0x2d, 0x61, 0x6e], [0x31], [0x79], [0x2d, 0x61]]"]
    by (simp add: named_rows_def letter_rows_def opt_row_def opt_end_def rd_def row_flags_def Let_def upt_rec)
  show "sen_str_getopt [[0x78], [0x2d, 0x2d, 0x6e], [0x2d], [0x79]] example_opts 1 =
     (3, \<lparr>gs_flags = 1, gs_i = 3, gs_args = [1 \<mapsto> [0x2d]]\<rparr>)"
    using sen_str_getopt_stops [where opts = example_opts and flags = 1 and
        argv = "[[0x78], [0x2d, 0x2d, 0x6e], [0x2d], [0x79]]"]
    by (simp add: named_rows_def letter_rows_def opt_row_def opt_end_def rd_def row_flags_def Let_def upt_rec)
  show "fst (sen_str_getopt [[0x78], [0x2d, 0x61, 0x7a]] example_opts 1) = -1"
    using sen_str_getopt_stops [where opts = example_opts and flags = 1 and
        argv = "[[0x78], [0x2d, 0x61, 0x7a]]"]
    by (simp add: named_rows_def letter_rows_def opt_row_def opt_end_def rd_def row_flags_def Let_def upt_rec)
qed

end
