(* ===== verification/Rbuf.thy ===== *)
theory Rbuf
  imports Str_Num Str_Char
begin

text \<open>
  The growing output buffer \<open>sen_rbuf\<close> of lib/str.c. The block between \<open>head\<close> and \<open>tail\<close> is
  the list \<open>rb_mem\<close>, \<open>curr\<close> is the offset \<open>rb_curr\<close>, \<open>rb_live\<close> says that \<open>head\<close> is not NULL.
  A store outside the block has no value: an operation that makes one is \<open>None\<close>. The
  environment (the allocator, the contents of memory it hands out, and the global
  \<open>sen_rbuf_margin_size\<close>) is the parameter \<open>rbuf_env\<close>.
\<close>

record rbuf_env =
  env_alloc :: alloc
  env_junk :: "nat \<Rightarrow> byte"
  env_margin :: nat

record sen_rbuf =
  rb_live :: bool
  rb_mem :: bytes
  rb_curr :: nat

definition UNIT_SIZE :: nat where
  "UNIT_SIZE = 4096"

definition rbuf_null :: sen_rbuf where
  "rbuf_null = \<lparr>rb_live = False, rb_mem = [], rb_curr = 0\<rparr>"

definition rb_rest :: "sen_rbuf \<Rightarrow> nat" where
  "rb_rest buf = length (rb_mem buf) - rb_curr buf"

definition rb_text :: "sen_rbuf \<Rightarrow> bytes" where
  "rb_text buf = take (rb_curr buf) (rb_mem buf)"

text \<open>A store of the bytes \<open>bs\<close> at offset \<open>pos\<close> of the block.\<close>

definition mem_put :: "bytes \<Rightarrow> nat \<Rightarrow> bytes \<Rightarrow> bytes option" where
  "mem_put mem pos bs =
     (if pos + length bs \<le> length mem then Some (take pos mem @ bs @ drop (pos + length bs) mem)
      else None)"

section \<open>Size management\<close>

text \<open>
  The request is the new size, the margin and one byte, rounded up to a multiple of 4096; the
  block from \<open>head\<close> on is what is left of it after the margin.
\<close>

definition sen_rbuf_resize :: "rbuf_env \<Rightarrow> sen_rbuf \<Rightarrow> nat \<Rightarrow> sen_rc \<times> sen_rbuf" where
  "sen_rbuf_resize env buf newsize =
     (let n = (newsize + env_margin env + 1 + (UNIT_SIZE - 1)) div UNIT_SIZE * UNIT_SIZE;
          cap = n - env_margin env
      in if env_alloc env n then
           (sen_success,
            \<lparr>rb_live = True,
             rb_mem = take cap (rb_mem buf) @ map (env_junk env) [length (rb_mem buf)..<cap],
             rb_curr = rb_curr buf\<rparr>)
         else (sen_memory_exhausted, buf))"

definition sen_rbuf_init :: "rbuf_env \<Rightarrow> nat \<Rightarrow> sen_rc \<times> sen_rbuf" where
  "sen_rbuf_init env sz =
     (if sz \<noteq> 0 then sen_rbuf_resize env rbuf_null sz else (sen_success, rbuf_null))"

definition sen_rbuf_reinit :: "rbuf_env \<Rightarrow> sen_rbuf \<Rightarrow> nat \<Rightarrow> sen_rc \<times> sen_rbuf" where
  "sen_rbuf_reinit env buf sz = sen_rbuf_resize env (buf\<lparr>rb_curr := 0\<rparr>) sz"

definition sen_rbuf_reserve :: "rbuf_env \<Rightarrow> sen_rbuf \<Rightarrow> nat \<Rightarrow> sen_rc \<times> sen_rbuf" where
  "sen_rbuf_reserve env buf len =
     (if rb_rest buf < len then sen_rbuf_resize env buf (rb_curr buf + len) else (sen_success, buf))"

definition sen_rbuf_space :: "rbuf_env \<Rightarrow> sen_rbuf \<Rightarrow> nat \<Rightarrow> sen_rc \<times> sen_rbuf" where
  "sen_rbuf_space env buf len =
     (let (rc, buf') = sen_rbuf_reserve env buf len
      in (rc, if rc = sen_success then buf'\<lparr>rb_curr := rb_curr buf' + len\<rparr> else buf'))"

definition sen_rbuf_fin :: "sen_rbuf \<Rightarrow> sen_rc \<times> sen_rbuf" where
  "sen_rbuf_fin buf =
     (sen_success, if rb_live buf then buf\<lparr>rb_live := False, rb_mem := []\<rparr> else buf)"

section \<open>Output\<close>

definition sen_rbuf_write :: "rbuf_env \<Rightarrow> sen_rbuf \<Rightarrow> bytes \<Rightarrow> (sen_rc \<times> sen_rbuf) option" where
  "sen_rbuf_write env buf str =
     (let (rc, buf') =
        (if rb_rest buf < length str then sen_rbuf_resize env buf (rb_curr buf + length str)
         else (sen_success, buf))
      in if rc \<noteq> sen_success then Some (rc, buf')
         else
           (case mem_put (rb_mem buf') (rb_curr buf') str of
              None \<Rightarrow> None
            | Some mem \<Rightarrow> Some (rc, buf'\<lparr>rb_mem := mem, rb_curr := rb_curr buf' + length str\<rparr>)))"

text \<open>
  The retry loops of \<open>sen_rbuf_itoa\<close> and \<open>sen_rbuf_lltoa\<close>: the number is written in place,
  and the block grows by 4096 bytes as long as it does not fit. \<open>tries\<close> bounds the attempts;
  two are enough, as shown below.
\<close>

fun rbuf_ntoa ::
  "(int \<Rightarrow> nat \<Rightarrow> sen_rc \<times> bytes) \<Rightarrow> nat \<Rightarrow> rbuf_env \<Rightarrow> sen_rbuf \<Rightarrow> int \<Rightarrow> (sen_rc \<times> sen_rbuf) option" where
  "rbuf_ntoa f 0 env buf i = None"
| "rbuf_ntoa f (Suc tries) env buf i =
     (let (rc, bs) = f i (rb_rest buf) in
      case mem_put (rb_mem buf) (rb_curr buf) bs of
        None \<Rightarrow> None
      | Some mem \<Rightarrow>
          (if rc = sen_success then
             Some (sen_success, buf\<lparr>rb_mem := mem, rb_curr := rb_curr buf + length bs\<rparr>)
           else
             (let (rc', buf') = sen_rbuf_resize env (buf\<lparr>rb_mem := mem\<rparr>) (length mem + UNIT_SIZE)
              in if rc' \<noteq> sen_success then Some (rc', buf') else rbuf_ntoa f tries env buf' i)))"

definition sen_rbuf_itoa :: "rbuf_env \<Rightarrow> sen_rbuf \<Rightarrow> int \<Rightarrow> (sen_rc \<times> sen_rbuf) option" where
  "sen_rbuf_itoa env buf i = rbuf_ntoa sen_str_itoa 2 env buf i"

definition sen_rbuf_lltoa :: "rbuf_env \<Rightarrow> sen_rbuf \<Rightarrow> int \<Rightarrow> (sen_rc \<times> sen_rbuf) option" where
  "sen_rbuf_lltoa env buf i = rbuf_ntoa sen_str_lltoa 2 env buf i"

text \<open>
  \<open>sen_rbuf_itoh\<close> reserves eight bytes, but \<open>sen_str_itoh\<close> stores nine: the digits and a NUL.
\<close>

definition sen_rbuf_itoh :: "rbuf_env \<Rightarrow> sen_rbuf \<Rightarrow> int \<Rightarrow> (sen_rc \<times> sen_rbuf) option" where
  "sen_rbuf_itoh env buf i =
     (let len = 8; (rc, buf') = sen_rbuf_reserve env buf len
      in if rc \<noteq> sen_success then Some (rc, buf')
         else
           (case mem_put (rb_mem buf') (rb_curr buf') (sen_str_itoh (word_of_int i) len) of
              None \<Rightarrow> None
            | Some mem \<Rightarrow> Some (rc, buf'\<lparr>rb_mem := mem, rb_curr := rb_curr buf' + len\<rparr>)))"

definition sen_rbuf_itob :: "rbuf_env \<Rightarrow> sen_rbuf \<Rightarrow> u32 \<Rightarrow> (sen_rc \<times> sen_rbuf) option" where
  "sen_rbuf_itob env buf i =
     (let len = 5; (rc, buf') = sen_rbuf_reserve env buf len
      in if rc \<noteq> sen_success then Some (rc, buf')
         else
           (case mem_put (rb_mem buf') (rb_curr buf') (sen_str_itob i) of
              None \<Rightarrow> None
            | Some mem \<Rightarrow> Some (rc, buf'\<lparr>rb_mem := mem, rb_curr := rb_curr buf' + len\<rparr>)))"

text \<open>
  \<open>sen_rbuf_str_esc\<close>: a quoted string, with newline, quote and backslash escaped character by
  character. The return codes of the writes are dropped, as in the code.
\<close>

definition rbuf_puts :: "rbuf_env \<Rightarrow> sen_rbuf \<Rightarrow> bytes \<Rightarrow> sen_rbuf option" where
  "rbuf_puts env buf str = map_option snd (sen_rbuf_write env buf str)"

definition esc_char :: "bytes \<Rightarrow> bytes" where
  "esc_char c =
     (if length c = 1 then
        (if c = [0x0a] then [0x5c, 0x6e]
         else if c = [0x22] then [0x5c, 0x22]
         else if c = [0x5c] then [0x5c, 0x5c]
         else c)
      else c)"

function str_esc_loop :: "rbuf_env \<Rightarrow> sen_rbuf \<Rightarrow> bytes \<Rightarrow> sen_encoding \<Rightarrow> sen_rbuf option" where
  "str_esc_loop env buf s encoding =
     (let l = sen_str_charlen_nonnull s encoding in
      if s = [] \<or> l = 0 then Some buf
      else
        (case rbuf_puts env buf (esc_char (take l s)) of
           None \<Rightarrow> None
         | Some buf' \<Rightarrow> str_esc_loop env buf' (drop l s) encoding))"
  by pat_completeness auto
termination
  by (relation "measure (\<lambda>(env, buf, s, encoding). length s)") auto

declare str_esc_loop.simps [simp del]

text \<open>
  The string and its length as the caller gives them: a negative length means that the string
  ends at its NUL.
\<close>

definition sen_rbuf_str_esc :: "rbuf_env \<Rightarrow> sen_rbuf \<Rightarrow> bytes \<Rightarrow> int \<Rightarrow> sen_encoding \<Rightarrow> sen_rbuf option" where
  "sen_rbuf_str_esc env buf s len encoding =
     (let s' = (if len < 0 then takeWhile (\<lambda>c. c \<noteq> 0) s else take (nat len) s) in
      case rbuf_puts env buf [0x22] of
        None \<Rightarrow> None
      | Some buf1 \<Rightarrow>
          (case str_esc_loop env buf1 s' encoding of
             None \<Rightarrow> None
           | Some buf2 \<Rightarrow> rbuf_puts env buf2 [0x22]))"

section \<open>The buffer invariant\<close>

definition rbuf_inv :: "sen_rbuf \<Rightarrow> bool" where
  "rbuf_inv buf \<longleftrightarrow> rb_curr buf \<le> length (rb_mem buf) \<and> (\<not> rb_live buf \<longrightarrow> rb_mem buf = [])"

lemma rbuf_inv_null [simp]: "rbuf_inv rbuf_null"
  by (simp add: rbuf_inv_def rbuf_null_def)

lemma mem_put_Some:
  "mem_put mem pos bs = Some mem' \<longleftrightarrow>
     pos + length bs \<le> length mem \<and> mem' = take pos mem @ bs @ drop (pos + length bs) mem"
  by (auto simp: mem_put_def)

lemma mem_put_fits: "pos + length bs \<le> length mem \<Longrightarrow> \<exists>mem'. mem_put mem pos bs = Some mem'"
  by (simp add: mem_put_def)

lemma mem_put_text:
  "mem_put mem pos bs = Some mem' \<Longrightarrow>
     length mem' = length mem \<and> take (pos + length bs) mem' = take pos mem @ bs \<and> take pos mem' = take pos mem"
  by (simp add: mem_put_Some)

lemma round_up:
  assumes "0 < k"
  shows "(m::nat) \<le> (m + (k - 1)) div k * k"
proof -
  define r where "r = (m + (k - 1)) mod k"
  define q where "q = (m + (k - 1)) div k * k"
  have "q + r = m + (k - 1)" by (simp add: q_def r_def)
  moreover have "r < k" using assms by (simp add: r_def)
  ultimately have "m \<le> q" by linarith
  then show ?thesis by (simp add: q_def)
qed

text \<open>
  After a successful request the block holds at least one byte more than was asked for, and
  the text before \<open>curr\<close> is kept as long as the new size covers it.
\<close>

lemma resize_success:
  assumes "sen_rbuf_resize env buf n = (sen_success, buf')"
  shows "rb_live buf'" "rb_curr buf' = rb_curr buf" "n < length (rb_mem buf')"
    and "rb_curr buf \<le> n \<Longrightarrow> rb_curr buf \<le> length (rb_mem buf) \<Longrightarrow> rb_text buf' = rb_text buf"
proof -
  let ?n = "(n + env_margin env + 1 + (UNIT_SIZE - 1)) div UNIT_SIZE * UNIT_SIZE"
  have b: "buf' = \<lparr>rb_live = True,
      rb_mem = take (?n - env_margin env) (rb_mem buf) @
        map (env_junk env) [length (rb_mem buf)..<?n - env_margin env],
      rb_curr = rb_curr buf\<rparr>"
    using assms by (auto simp: sen_rbuf_resize_def Let_def split: if_splits)
  have le: "n + env_margin env + 1 \<le> ?n" by (rule round_up) (simp add: UNIT_SIZE_def)
  then have le': "n < ?n - env_margin env" by linarith
  show "rb_live buf'" "rb_curr buf' = rb_curr buf" by (simp_all add: b)
  show "n < length (rb_mem buf')" unfolding b using le' by simp
  show "rb_curr buf \<le> n \<Longrightarrow> rb_curr buf \<le> length (rb_mem buf) \<Longrightarrow> rb_text buf' = rb_text buf"
    unfolding b rb_text_def using le' by simp
qed

lemma resize_failure:
  "sen_rbuf_resize env buf n = (rc, buf') \<Longrightarrow> rc \<noteq> sen_success \<Longrightarrow>
     rc = sen_memory_exhausted \<and> buf' = buf"
  by (auto simp: sen_rbuf_resize_def Let_def split: if_splits)

lemma resize_inv:
  assumes "sen_rbuf_resize env buf n = (rc, buf')" "rbuf_inv buf" "rb_curr buf \<le> n"
  shows "rbuf_inv buf' \<and> rb_text buf' = rb_text buf \<and> rb_curr buf' = rb_curr buf"
proof (cases "rc = sen_success")
  case True
  then show ?thesis
    using resize_success [of env buf n buf'] assms by (auto simp: rbuf_inv_def)
next
  case False
  then show ?thesis using resize_failure assms by blast
qed

lemma reserve_inv:
  assumes "sen_rbuf_reserve env buf len = (rc, buf')" "rbuf_inv buf"
  shows "rbuf_inv buf' \<and> rb_text buf' = rb_text buf \<and> rb_curr buf' = rb_curr buf"
    and "rc = sen_success \<Longrightarrow> len \<le> rb_rest buf'"
    and "rc = sen_success \<Longrightarrow> rb_rest buf < len \<Longrightarrow> len < rb_rest buf'"
    and "len \<le> rb_rest buf \<Longrightarrow> rc = sen_success \<and> buf' = buf"
    and "rc \<noteq> sen_success \<Longrightarrow> rc = sen_memory_exhausted \<and> buf' = buf"
proof -
  show "rbuf_inv buf' \<and> rb_text buf' = rb_text buf \<and> rb_curr buf' = rb_curr buf"
    using assms resize_inv [of env buf "rb_curr buf + len"]
    by (auto simp: sen_rbuf_reserve_def split: if_splits)
  show 1: "rb_rest buf < len \<Longrightarrow> len < rb_rest buf'" if "rc = sen_success"
    using assms that resize_success(2,3) [of env buf "rb_curr buf + len" buf']
    by (auto simp: sen_rbuf_reserve_def rb_rest_def)
  show 2: "len \<le> rb_rest buf \<Longrightarrow> rc = sen_success \<and> buf' = buf"
    using assms by (auto simp: sen_rbuf_reserve_def)
  show "rc = sen_success \<Longrightarrow> len \<le> rb_rest buf'" using 1 2 by fastforce
  show "rc \<noteq> sen_success \<Longrightarrow> rc = sen_memory_exhausted \<and> buf' = buf"
    using assms resize_failure [of env buf "rb_curr buf + len"]
    by (auto simp: sen_rbuf_reserve_def split: if_splits)
qed

lemma put_at_curr:
  assumes "rbuf_inv buf" "length bs \<le> rb_rest buf" "bs = [] \<or> rb_live buf"
  obtains mem where "mem_put (rb_mem buf) (rb_curr buf) bs = Some mem"
    "rbuf_inv (buf\<lparr>rb_mem := mem, rb_curr := rb_curr buf + length bs\<rparr>)"
    "rb_text (buf\<lparr>rb_mem := mem, rb_curr := rb_curr buf + length bs\<rparr>) = rb_text buf @ bs"
proof -
  have "rb_curr buf + length bs \<le> length (rb_mem buf)"
    using assms unfolding rbuf_inv_def rb_rest_def by linarith
  then obtain mem where m: "mem_put (rb_mem buf) (rb_curr buf) bs = Some mem"
    using mem_put_fits by blast
  from that [OF m] mem_put_text [OF m] assms show ?thesis
    using \<open>rb_curr buf + length bs \<le> length (rb_mem buf)\<close>
    by (auto simp: rbuf_inv_def rb_text_def)
qed

lemma rest_live: "rbuf_inv buf \<Longrightarrow> 0 < rb_rest buf \<Longrightarrow> rb_live buf"
  by (auto simp: rbuf_inv_def rb_rest_def)

lemma write_reserve:
  "sen_rbuf_write env buf str =
     (let (rc, buf') = sen_rbuf_reserve env buf (length str)
      in if rc \<noteq> sen_success then Some (rc, buf')
         else
           (case mem_put (rb_mem buf') (rb_curr buf') str of
              None \<Rightarrow> None
            | Some mem \<Rightarrow> Some (rc, buf'\<lparr>rb_mem := mem, rb_curr := rb_curr buf' + length str\<rparr>)))"
  by (simp add: sen_rbuf_write_def sen_rbuf_reserve_def)

text \<open>
  The contract of an output buffer for the code that writes to it: no store leaves the block,
  the invariant is kept, and a write either appends its bytes or reports exhausted memory and
  leaves the text as it was.
\<close>

locale output_buffer =
  fixes put :: "'b \<Rightarrow> bytes \<Rightarrow> (sen_rc \<times> 'b) option"
    and con :: "'b \<Rightarrow> bytes"
    and okb :: "'b \<Rightarrow> bool"
  assumes write_total: "okb b \<Longrightarrow> \<exists>rc b'. put b s = Some (rc, b')"
    and write_inv: "okb b \<Longrightarrow> put b s = Some (rc, b') \<Longrightarrow> okb b'"
    and write_ok: "okb b \<Longrightarrow> put b s = Some (sen_success, b') \<Longrightarrow> con b' = con b @ s"
    and write_fail: "okb b \<Longrightarrow> put b s = Some (rc, b') \<Longrightarrow> rc \<noteq> sen_success \<Longrightarrow>
      rc = sen_memory_exhausted \<and> con b' = con b"
begin

lemma write_text:
  assumes "okb b" "put b s = Some (rc, b')"
  shows "con b' = con b @ (if rc = sen_success then s else [])"
  using assms write_ok write_fail by (cases "rc = sen_success") auto

lemma write_cases:
  assumes "okb b"
  obtains rc b' where "put b s = Some (rc, b')" "okb b'" "con b' = con b \<or> con b' = con b @ s"
proof -
  obtain rc b' where w: "put b s = Some (rc, b')" using write_total [OF assms] by blast
  show thesis
    using that [OF w write_inv [OF assms w]] write_text [OF assms w] by (simp split: if_splits)
qed

end

lemma write_spec:
  assumes "rbuf_inv buf"
  shows "\<exists>rc buf'. sen_rbuf_write env buf str = Some (rc, buf') \<and> rbuf_inv buf' \<and>
    (if rc = sen_success then rb_text buf' = rb_text buf @ str
     else rc = sen_memory_exhausted \<and> buf' = buf)"
proof -
  obtain rc buf' where r: "sen_rbuf_reserve env buf (length str) = (rc, buf')" by fastforce
  note R = reserve_inv [OF r assms]
  show ?thesis
  proof (cases "rc = sen_success")
    case True
    then have "length str \<le> rb_rest buf'" "rbuf_inv buf'" using R by auto
    moreover from this have "str = [] \<or> rb_live buf'" using rest_live by (cases str) auto
    ultimately obtain mem where "mem_put (rb_mem buf') (rb_curr buf') str = Some mem"
      "rbuf_inv (buf'\<lparr>rb_mem := mem, rb_curr := rb_curr buf' + length str\<rparr>)"
      "rb_text (buf'\<lparr>rb_mem := mem, rb_curr := rb_curr buf' + length str\<rparr>) = rb_text buf' @ str"
      using put_at_curr by blast
    then show ?thesis using r True R(1) by (simp add: write_reserve)
  next
    case False
    then show ?thesis using r R assms by (simp add: write_reserve)
  qed
qed

interpretation rbuf: output_buffer "sen_rbuf_write env" rb_text rbuf_inv for env
proof unfold_locales
  fix b s rc b'
  assume inv: "rbuf_inv b"
  note W = write_spec [OF inv, of env s]
  show "\<exists>rc b'. sen_rbuf_write env b s = Some (rc, b')" using W by blast
  assume w: "sen_rbuf_write env b s = Some (rc, b')"
  show "rbuf_inv b'" using W w by auto
  assume "rc \<noteq> sen_success"
  then show "rc = sen_memory_exhausted \<and> rb_text b' = rb_text b" using W w by auto
next
  fix b s b'
  assume "rbuf_inv b" "sen_rbuf_write env b s = Some (sen_success, b')"
  then show "rb_text b' = rb_text b @ s" using write_spec [of b env s] by auto
qed

section \<open>Correctness\<close>

text \<open>
  C18: a write to a well-formed buffer never stores outside the block; it appends exactly the
  given bytes to the text, or reports exhausted memory and changes nothing.
\<close>

theorem rbuf_write_appends:
  assumes "rbuf_inv buf"
  shows "\<exists>rc buf'. sen_rbuf_write env buf str = Some (rc, buf') \<and> rbuf_inv buf' \<and>
    (if rc = sen_success then rb_text buf' = rb_text buf @ str
     else rc = sen_memory_exhausted \<and> buf' = buf)"
  by (rule write_spec [OF assms])

theorem rbuf_write_appends_witness:
  "\<exists>rc buf'. sen_rbuf_write \<lparr>env_alloc = \<lambda>n. n < 10000, env_junk = \<lambda>_. 0, env_margin = 0\<rparr> rbuf_null [0x41]
     = Some (rc, buf') \<and> rbuf_inv buf' \<and>
     (if rc = sen_success then rb_text buf' = rb_text rbuf_null @ [0x41]
      else rc = sen_memory_exhausted \<and> buf' = rbuf_null)"
  by (rule rbuf_write_appends) simp

lemma itoa_room:
  assumes "- 9223372036854775807 \<le> i" "i \<le> 9223372036854775807"
  shows "length (dec_int i) \<le> 4096"
proof -
  have "length (dec n) \<le> Suc k" if "n < 10 ^ Suc k" for n k :: nat
    using that
  proof (induction k arbitrary: n)
    case 0
    then show ?case by (simp add: dec.simps)
  next
    case (Suc k)
    then have "n div 10 < 10 ^ Suc k" by (simp add: less_mult_imp_div_less)
    then show ?case using Suc.IH [of "n div 10"] by (subst dec.simps) simp
  qed
  note * = this [of "nat \<bar>i\<bar>" 18]
  have "nat \<bar>i\<bar> \<le> 9223372036854775807" using assms by linarith
  then have "nat \<bar>i\<bar> < 10 ^ Suc 18" by simp
  with * show ?thesis by (cases "i < 0") (simp_all add: dec_int_def)
qed

lemma dec_int_pos: "0 < length (dec_int i)"
  by (simp add: dec_int_def)

text \<open>
  One loop serves both widths: a writer \<open>f\<close> of numbers with the two properties below is
  called at most twice.
\<close>

locale number_writer =
  fixes f :: "int \<Rightarrow> nat \<Rightarrow> sen_rc \<times> bytes" and rng :: "int \<Rightarrow> bool"
  assumes fits: "rng i \<Longrightarrow> length (dec_int i) \<le> room \<Longrightarrow> f i room = (sen_success, dec_int i)"
    and refuses: "rng i \<Longrightarrow> room < length (dec_int i) \<Longrightarrow>
      fst (f i room) = sen_invalid_argument \<and> length (snd (f i room)) = room"
    and small: "rng i \<Longrightarrow> length (dec_int i) \<le> 4096"
begin

lemma ntoa_fits:
  assumes "rbuf_inv buf" "rng i" "length (dec_int i) \<le> rb_rest buf"
  shows "\<exists>buf'. rbuf_ntoa f (Suc t) env buf i = Some (sen_success, buf') \<and> rbuf_inv buf' \<and>
    rb_text buf' = rb_text buf @ dec_int i"
proof -
  have "rb_live buf" using assms(1) less_le_trans [OF dec_int_pos assms(3)] by (rule rest_live)
  then obtain mem where "mem_put (rb_mem buf) (rb_curr buf) (dec_int i) = Some mem"
    "rbuf_inv (buf\<lparr>rb_mem := mem, rb_curr := rb_curr buf + length (dec_int i)\<rparr>)"
    "rb_text (buf\<lparr>rb_mem := mem, rb_curr := rb_curr buf + length (dec_int i)\<rparr>) = rb_text buf @ dec_int i"
    using put_at_curr [OF assms(1,3)] by blast
  then show ?thesis using fits [OF assms(2,3)] by simp
qed

lemma ntoa_spec:
  assumes "rbuf_inv buf" "rng i"
  shows "\<exists>rc buf'. rbuf_ntoa f 2 env buf i = Some (rc, buf') \<and> rbuf_inv buf' \<and>
    (if rc = sen_success then rb_text buf' = rb_text buf @ dec_int i
     else rc = sen_memory_exhausted \<and> rb_text buf' = rb_text buf)"
proof (cases "length (dec_int i) \<le> rb_rest buf")
  case True
  then show ?thesis using ntoa_fits [OF assms True, of 1 env] by (auto simp: numeral_2_eq_2)
next
  case False
  then have room: "rb_rest buf < length (dec_int i)" by simp
  obtain bs where f: "f i (rb_rest buf) = (sen_invalid_argument, bs)" and len: "length bs = rb_rest buf"
    using refuses [OF assms(2) room] by (metis prod.collapse)
  have "rb_curr buf + length bs \<le> length (rb_mem buf)"
    using len assms(1) unfolding rbuf_inv_def rb_rest_def by linarith
  then obtain mem where m: "mem_put (rb_mem buf) (rb_curr buf) bs = Some mem" using mem_put_fits by blast
  note M = mem_put_text [OF m]
  let ?b = "buf\<lparr>rb_mem := mem\<rparr>"
  have inv: "rbuf_inv ?b" "rb_text ?b = rb_text buf" "rb_curr ?b = rb_curr buf"
    using M assms(1) by (auto simp: rbuf_inv_def rb_text_def)
  obtain rc buf' where r: "sen_rbuf_resize env ?b (length mem + UNIT_SIZE) = (rc, buf')" by fastforce
  have "rb_curr ?b \<le> length mem + UNIT_SIZE" using inv(1) by (simp add: rbuf_inv_def)
  note I = resize_inv [OF r inv(1) this]
  show ?thesis
  proof (cases "rc = sen_success")
    case True
    have "length mem + UNIT_SIZE < length (rb_mem buf')" using resize_success(3) r True by blast
    moreover have "rb_curr buf' \<le> length mem" using I inv by (simp add: rbuf_inv_def)
    ultimately have "length (dec_int i) \<le> rb_rest buf'"
      using small [OF assms(2)] unfolding rb_rest_def UNIT_SIZE_def by linarith
    from ntoa_fits [OF _ assms(2) this, of 0 env] I
    show ?thesis using f m r True inv(2) by (auto simp: numeral_2_eq_2)
  next
    case False
    then show ?thesis using f m r I inv(2) resize_failure [OF r False] by (auto simp: numeral_2_eq_2)
  qed
qed

end

interpretation int_writer: number_writer sen_str_itoa "\<lambda>i. - 2147483647 \<le> i \<and> i \<le> 2147483647"
proof unfold_locales
  fix i :: int and room :: nat
  assume i: "- 2147483647 \<le> i \<and> i \<le> 2147483647"
  show "length (dec_int i) \<le> 4096" using i by (intro itoa_room) auto
  show "length (dec_int i) \<le> room \<Longrightarrow> sen_str_itoa i room = (sen_success, dec_int i)"
    "room < length (dec_int i) \<Longrightarrow>
      fst (sen_str_itoa i room) = sen_invalid_argument \<and> length (snd (sen_str_itoa i room)) = room"
    using i int32.itoa_with_dec [of i room] by (auto simp: sen_str_itoa_def)
qed

interpretation ll_writer: number_writer sen_str_lltoa
  "\<lambda>i. - 9223372036854775807 \<le> i \<and> i \<le> 9223372036854775807"
proof unfold_locales
  fix i :: int and room :: nat
  assume i: "- 9223372036854775807 \<le> i \<and> i \<le> 9223372036854775807"
  show "length (dec_int i) \<le> 4096" using i by (intro itoa_room) auto
  show "length (dec_int i) \<le> room \<Longrightarrow> sen_str_lltoa i room = (sen_success, dec_int i)"
    "room < length (dec_int i) \<Longrightarrow>
      fst (sen_str_lltoa i room) = sen_invalid_argument \<and> length (snd (sen_str_lltoa i room)) = room"
    using i int64.itoa_with_dec [of i room] by (auto simp: sen_str_lltoa_def)
qed

text \<open>
  C25: \<open>sen_rbuf_itoa\<close> returns after at most one growth of the buffer (the two attempts of the
  model are always enough), has appended the decimal notation when it reports success, and has
  kept the text when memory is exhausted.
\<close>

theorem rbuf_itoa_appends:
  assumes "rbuf_inv buf" "- 2147483647 \<le> i" "i \<le> 2147483647"
  shows "\<exists>rc buf'. sen_rbuf_itoa env buf i = Some (rc, buf') \<and> rbuf_inv buf' \<and>
    (if rc = sen_success then rb_text buf' = rb_text buf @ dec_int i
     else rc = sen_memory_exhausted \<and> rb_text buf' = rb_text buf)"
  using int_writer.ntoa_spec [of buf i env] assms by (simp add: sen_rbuf_itoa_def)

theorem rbuf_itoa_appends_witness:
  "\<exists>rc buf'. sen_rbuf_itoa \<lparr>env_alloc = \<lambda>n. n < 10000, env_junk = \<lambda>_. 0, env_margin = 0\<rparr> rbuf_null 7
     = Some (rc, buf') \<and> rbuf_inv buf' \<and>
     (if rc = sen_success then rb_text buf' = rb_text rbuf_null @ dec_int 7
      else rc = sen_memory_exhausted \<and> rb_text buf' = rb_text rbuf_null)"
  by (rule rbuf_itoa_appends) simp_all

lemma length_itoh [simp]: "length (sen_str_itoh i n) = Suc n"
  by (simp add: sen_str_itoh_def itoh_loop_hexd)

text \<open>
  \<open>sen_rbuf_itoh\<close> stores one byte past the end of the block exactly when eight bytes are
  left: it reserves room for the digits but not for the NUL that \<open>sen_str_itoh\<close> adds. In every
  other case it stores inside the block.
\<close>

theorem rbuf_itoh_overflow:
  assumes "rbuf_inv buf"
  shows "sen_rbuf_itoh env buf i = None \<longleftrightarrow> rb_rest buf = 8"
proof -
  obtain rc buf' where r: "sen_rbuf_reserve env buf 8 = (rc, buf')" by fastforce
  note R = reserve_inv [OF r assms]
  have inv: "rb_curr buf' \<le> length (rb_mem buf')" using R(1) by (simp add: rbuf_inv_def)
  have "sen_rbuf_itoh env buf i = None \<longleftrightarrow> rc = sen_success \<and> rb_rest buf' < 9"
    using r inv by (auto simp: sen_rbuf_itoh_def mem_put_def rb_rest_def)
  also have "\<dots> \<longleftrightarrow> rb_rest buf = 8"
  proof (cases "rb_rest buf < 8")
    case True
    then show ?thesis using R(3) by auto
  next
    case False
    then show ?thesis using R(4) by auto
  qed
  finally show ?thesis .
qed

theorem rbuf_itoh_overflow_witness:
  "sen_rbuf_itoh \<lparr>env_alloc = \<lambda>_. True, env_junk = \<lambda>_. 0, env_margin = 0\<rparr>
     \<lparr>rb_live = True, rb_mem = replicate 4096 0, rb_curr = 4088\<rparr> 255 = None"
  using rbuf_itoh_overflow [of "\<lparr>rb_live = True, rb_mem = replicate 4096 0, rb_curr = 4088\<rparr>"
      "\<lparr>env_alloc = \<lambda>_. True, env_junk = \<lambda>_. 0, env_margin = 0\<rparr>" 255]
  by (simp add: rbuf_inv_def rb_rest_def)

section \<open>Escaping\<close>

text \<open>With an allocator that answers every request, each write appends.\<close>

lemma puts_appends:
  assumes "rbuf_inv buf" "\<And>n. env_alloc env n"
  shows "\<exists>buf'. rbuf_puts env buf str = Some buf' \<and> rbuf_inv buf' \<and> rb_text buf' = rb_text buf @ str"
proof -
  obtain rc buf' where w: "sen_rbuf_write env buf str = Some (rc, buf')" and I: "rbuf_inv buf'"
    and c: "if rc = sen_success then rb_text buf' = rb_text buf @ str else rc = sen_memory_exhausted \<and> buf' = buf"
    using write_spec [OF assms(1)] by blast
  have "fst (sen_rbuf_reserve env buf (length str)) = sen_success"
    using assms(2) by (simp add: sen_rbuf_reserve_def sen_rbuf_resize_def Let_def)
  then have "rc = sen_success"
    using w by (auto simp: write_reserve split: prod.splits option.splits)
  with w I c show ?thesis by (simp add: rbuf_puts_def)
qed

lemma esc_char_cases:
  "esc_char = (\<lambda>c. if c = [0x0a] then [0x5c, 0x6e] else if c = [0x22] then [0x5c, 0x22]
                  else if c = [0x5c] then [0x5c, 0x5c] else c)"
proof
  fix c :: bytes
  consider "length c = 1" | "length c \<noteq> 1" by blast
  then show "esc_char c = (if c = [0x0a] then [0x5c, 0x6e] else if c = [0x22] then [0x5c, 0x22]
      else if c = [0x5c] then [0x5c, 0x5c] else c)"
    by cases (auto simp: esc_char_def length_Suc_conv rd_def)
qed

lemma str_esc_loop_text:
  assumes "\<And>n. env_alloc env n" "chars_of enc s = Some cs" "rbuf_inv buf"
  shows "\<exists>buf'. str_esc_loop env buf s enc = Some buf' \<and> rbuf_inv buf' \<and>
    rb_text buf' = rb_text buf @ concat (map esc_char cs)"
  using assms(2,3)
proof (induction cs arbitrary: s buf)
  case Nil
  then have "s = []" by (auto dest: delimited_reader.split_concat)
  with Nil show ?case by (simp add: str_esc_loop.simps)
next
  case (Cons c cs)
  let ?n = "sen_str_charlen_nonnull s enc"
  have "s \<noteq> []" using Cons.prems by auto
  then have c: "c = take ?n s" "0 < ?n" and rest: "chars_of enc (drop ?n s) = Some cs"
    using delimited_reader.split_Cons [OF _ Cons.prems(1)] by blast+
  obtain b1 where b1: "rbuf_puts env buf (esc_char c) = Some b1" "rbuf_inv b1"
    "rb_text b1 = rb_text buf @ esc_char c"
    using puts_appends [OF Cons.prems(2) assms(1)] by blast
  with Cons.IH [OF rest b1(2)] \<open>s \<noteq> []\<close> c show ?case
    by (subst str_esc_loop.simps) (auto simp: Let_def)
qed

text \<open>
  C26: with memory available, \<open>sen_rbuf_str_esc\<close> appends a quote, the characters of the string
  with newline written as \<open>\n\<close>, quote and backslash preceded by a backslash, and a quote; a
  multi-byte character is never escaped, even when one of its bytes is a backslash.
\<close>

theorem rbuf_str_esc_text:
  assumes "rbuf_inv buf" "\<And>n. env_alloc env n" "chars_of enc s = Some cs" "len = int (length s)"
  shows "\<exists>buf'. sen_rbuf_str_esc env buf s len enc = Some buf' \<and> rbuf_inv buf' \<and>
    rb_text buf' = rb_text buf @ [0x22] @
      concat (map (\<lambda>c. if c = [0x0a] then [0x5c, 0x6e] else if c = [0x22] then [0x5c, 0x22]
                       else if c = [0x5c] then [0x5c, 0x5c] else c) cs) @ [0x22]"
proof -
  obtain b1 where b1: "rbuf_puts env buf [0x22] = Some b1" "rbuf_inv b1" "rb_text b1 = rb_text buf @ [0x22]"
    using puts_appends [OF assms(1,2)] by blast
  obtain b2 where b2: "str_esc_loop env b1 s enc = Some b2" "rbuf_inv b2"
    "rb_text b2 = rb_text b1 @ concat (map esc_char cs)"
    using str_esc_loop_text [OF assms(2,3) b1(2)] by blast
  obtain b3 where b3: "rbuf_puts env b2 [0x22] = Some b3" "rbuf_inv b3" "rb_text b3 = rb_text b2 @ [0x22]"
    using puts_appends [OF b2(2) assms(2)] by blast
  show ?thesis
    using b1 b2 b3 assms(4) unfolding esc_char_cases by (simp add: sen_rbuf_str_esc_def)
qed

theorem rbuf_str_esc_text_witness:
  "\<exists>buf'. sen_rbuf_str_esc \<lparr>env_alloc = \<lambda>_. True, env_junk = \<lambda>_. 0, env_margin = 0\<rparr> rbuf_null
       [0x83, 0x5c, 0x5c, 0x0a, 0x22, 0x61] 6 sen_enc_sjis = Some buf' \<and>
     rb_text buf' = [0x22, 0x83, 0x5c, 0x5c, 0x5c, 0x5c, 0x6e, 0x5c, 0x22, 0x61, 0x22]"
proof -
  have "chars_of sen_enc_sjis [0x83, 0x5c, 0x5c, 0x0a, 0x22, 0x61] =
      Some [[0x83, 0x5c], [0x5c], [0x0a], [0x22], [0x61]]"
    by (simp add: split_chars.simps sen_str_charlen_nonnull_def)
  from rbuf_str_esc_text [OF rbuf_inv_null _ this, of "\<lparr>env_alloc = \<lambda>_. True, env_junk = \<lambda>_. 0, env_margin = 0\<rparr>" 6]
  show ?thesis by (auto simp: rbuf_null_def rb_text_def)
qed

end
