(* ===== verification/Hset.thy ===== *)
theory Hset
  imports Prelude "HOL-Library.Monad_Syntax"
begin

text \<open>
  The hash tables \<open>sen_set\<close> of lib/set.c: entries in chunks, an index of pointers to entries
  with open addressing, and a list of deleted entries. A probe loop runs until it meets an empty
  slot; it is a \<open>partial_function\<close>, whose value \<open>None\<close> means that it does not end. A
  pointer to an entry is the number of its chunk and its place in the chunk.
\<close>

section \<open>Data\<close>

datatype eid = Eid (e_chunk: nat) (e_place: nat)

datatype slot = NULL | GARBAGE | Ent eid

text \<open>
  One entry, of either shape: \<open>en_key\<close> is the key (of an integer set) or the hash of the key,
  \<open>en_str\<close> the string of a string set (without its NUL), \<open>en_dummy\<close> the bytes of the key of
  a set of binary keys and the bytes of the value.
\<close>

record entry =
  en_key :: u32
  en_str :: bytes
  en_dummy :: bytes

record sen_set =
  st_key_size :: nat
  st_value_size :: nat
  st_entry_size :: u32
  st_max_offset :: u32
  st_n_entries :: int
  st_n_garbages :: u32
  st_curr_entry :: nat
  st_curr_chunk :: nat
  st_garbages :: "eid list"
  st_index :: "slot list"
  st_arrayp :: bool
  st_chunks :: "nat \<Rightarrow> bool"
  st_mem :: "eid \<Rightarrow> entry"

definition INITIAL_N_ENTRIES :: nat where "INITIAL_N_ENTRIES = 256"
definition INITIAL_INDEX_SIZE :: nat where "INITIAL_INDEX_SIZE = 256"
definition SEN_SET_MAX_CHUNK :: nat where "SEN_SET_MAX_CHUNK = 22"

definition STEP :: "u32 \<Rightarrow> u32" where
  "STEP x = drop_bit 2 x OR 0x1010101"

text \<open>The bytes of \<open>dummy\<close> before the value.\<close>

definition key_bytes :: "sen_set \<Rightarrow> nat" where
  "key_bytes st = (if st_key_size st = 0 \<or> st_key_size st = 4 then 0 else st_key_size st)"

definition zero_entry :: "sen_set \<Rightarrow> entry" where
  "zero_entry st = \<lparr>en_key = 0, en_str = [], en_dummy = replicate (key_bytes st + st_value_size st) 0\<rparr>"

section \<open>Entries\<close>

text \<open>How many entries a chunk is for, and how many bytes it is given (a 32-bit product).\<close>

definition chunk_entries :: "nat \<Rightarrow> nat" where
  "chunk_entries c = push_bit c INITIAL_N_ENTRIES"

definition chunk_bytes :: "sen_set \<Rightarrow> nat \<Rightarrow> u32" where
  "chunk_bytes st c = st_entry_size st * of_nat (chunk_entries c)"

definition entry_new :: "alloc \<Rightarrow> sen_set \<Rightarrow> eid option \<times> sen_set" where
  "entry_new alloc st =
     (case st_garbages st of
        e # gs \<Rightarrow> (Some e, st\<lparr>st_garbages := gs, st_mem := (st_mem st)(e := zero_entry st)\<rparr>)
      | [] \<Rightarrow>
          (let c = st_curr_chunk st in
           if \<not> st_chunks st c \<and> \<not> alloc (unat (chunk_bytes st c)) then (None, st)
           else
             (let st1 = (if st_chunks st c then st
                         else st\<lparr>st_chunks := (st_chunks st)(c := True),
                                 st_mem := (\<lambda>e. if e_chunk e = c then zero_entry st else st_mem st e)\<rparr>);
                  e = Eid c (st_curr_entry st)
              in (Some e,
                  if chunk_entries c \<le> Suc (st_curr_entry st)
                  then st1\<lparr>st_curr_chunk := Suc c, st_curr_entry := 0\<rparr>
                  else st1\<lparr>st_curr_entry := Suc (st_curr_entry st)\<rparr>))))"

section \<open>Opening\<close>

text \<open>
  \<open>for (n = 256; n < init_size; n *= 2);\<close> and \<open>for (n = 256; n <= ne; n *= 2);\<close> on 32-bit
  numbers.
\<close>

partial_function (option) double_until :: "(u32 \<Rightarrow> bool) \<Rightarrow> u32 \<Rightarrow> u32 option" where
  "double_until again n = (if again n then double_until again (n * 2) else Some n)"

text \<open>The entry size, rounded up to a multiple of the size of a pointer (8).\<close>

definition entry_size_of :: "nat \<Rightarrow> nat \<Rightarrow> u32" where
  "entry_size_of key_size value_size =
     (let n = (if key_size = 0 then 12 + value_size
               else if key_size = 4 then 4 + value_size
               else 4 + key_size + value_size);
          k = n mod 8
      in of_nat (if k = 0 then n else n + (8 - k)))"

definition sen_set_open :: "alloc \<Rightarrow> nat \<Rightarrow> nat \<Rightarrow> u32 \<Rightarrow> sen_set option option" where
  "sen_set_open alloc key_size value_size init_size =
     do {
       n \<leftarrow> double_until (\<lambda>n. n < init_size) (of_nat INITIAL_INDEX_SIZE);
       Some
         (if alloc 240 \<and> alloc (unat n * 8) then
            Some \<lparr>st_key_size = key_size, st_value_size = value_size,
                  st_entry_size = entry_size_of key_size value_size,
                  st_max_offset = n - 1, st_n_entries = 0, st_n_garbages = 0,
                  st_curr_entry = 0, st_curr_chunk = 0, st_garbages = [],
                  st_index = replicate (unat n) NULL, st_arrayp = False,
                  st_chunks = (\<lambda>_. False),
                  st_mem = (\<lambda>_. \<lparr>en_key = 0, en_str = [], en_dummy = []\<rparr>)\<rparr>
          else None)
     }"

section \<open>Probing\<close>

text \<open>The slot that the loop variable \<open>i\<close> selects.\<close>

definition slot_of :: "u32 \<Rightarrow> u32 \<Rightarrow> nat" where
  "slot_of i m = unat (i AND m)"

text \<open>The search for an empty slot in the new index of \<open>sen_set_reset\<close>.\<close>

partial_function (option) free_loop :: "slot list \<Rightarrow> u32 \<Rightarrow> u32 \<Rightarrow> u32 \<Rightarrow> nat option" where
  "free_loop index m s i =
     (if index ! slot_of i m = NULL then Some (slot_of i m) else free_loop index m s (i + s))"

text \<open>The search of the \<open>_at\<close> functions: the slot of the entry that matches, or NULL.\<close>

partial_function (option) at_loop ::
  "slot list \<Rightarrow> (eid \<Rightarrow> bool) \<Rightarrow> u32 \<Rightarrow> u32 \<Rightarrow> u32 \<Rightarrow> nat option option" where
  "at_loop index hit m s i =
     (case index ! slot_of i m of
        NULL \<Rightarrow> Some None
      | GARBAGE \<Rightarrow> at_loop index hit m s (i + s)
      | Ent e \<Rightarrow> (if hit e then Some (Some (slot_of i m)) else at_loop index hit m s (i + s)))"

text \<open>
  The search of the \<open>_get\<close> functions: whether there is a match, the slot \<open>ep\<close> where the loop
  ended, and the first deleted slot \<open>np\<close> on the way.
\<close>

partial_function (option) get_loop ::
  "slot list \<Rightarrow> (eid \<Rightarrow> bool) \<Rightarrow> u32 \<Rightarrow> u32 \<Rightarrow> u32 \<Rightarrow> nat option \<Rightarrow> (bool \<times> nat \<times> nat option) option"
where
  "get_loop index hit m s i np =
     (case index ! slot_of i m of
        NULL \<Rightarrow> Some (False, slot_of i m, np)
      | GARBAGE \<Rightarrow>
          get_loop index hit m s (i + s) (if np = None then Some (slot_of i m) else np)
      | Ent e \<Rightarrow>
          (if hit e then Some (True, slot_of i m, np) else get_loop index hit m s (i + s) np))"

section \<open>Resizing\<close>

definition INT_MAX :: u32 where "INT_MAX = 0x7fffffff"

text \<open>
  The transfer of the entries to the new index; the hash is the field \<open>key\<close> of either shape.
\<close>

fun reset_loop :: "(eid \<Rightarrow> entry) \<Rightarrow> u32 \<Rightarrow> slot list \<Rightarrow> slot list \<Rightarrow> slot list option" where
  "reset_loop mem m [] index = Some index"
| "reset_loop mem m (sp # rest) index =
     (case sp of
        Ent e \<Rightarrow>
          do {
            dp \<leftarrow> free_loop index m (STEP (en_key (mem e))) (en_key (mem e));
            reset_loop mem m rest (index[dp := Ent e])
          }
      | _ \<Rightarrow> reset_loop mem m rest index)"

definition sen_set_reset :: "alloc \<Rightarrow> sen_set \<Rightarrow> u32 \<Rightarrow> (sen_rc \<times> sen_set) option" where
  "sen_set_reset alloc st ne0 =
     (let ne = (if ne0 = 0 then word_of_int (st_n_entries st * 2) else ne0) in
      if INT_MAX < ne then Some (sen_memory_exhausted, st)
      else
        do {
          n \<leftarrow> double_until (\<lambda>n. n \<le> ne) (of_nat INITIAL_INDEX_SIZE);
          if alloc (unat n * 8) then
            do {
              index \<leftarrow> reset_loop (st_mem st) (n - 1)
                (take (unat (st_max_offset st) + 1) (st_index st)) (replicate (unat n) NULL);
              Some (sen_success, st\<lparr>st_index := index, st_max_offset := n - 1, st_n_garbages := 0\<rparr>)
            }
          else Some (sen_memory_exhausted, st)
        })"

section \<open>Lookup\<close>

fun str_hash_loop :: "u32 \<Rightarrow> bytes \<Rightarrow> u32" where
  "str_hash_loop r [] = r"
| "str_hash_loop r (p # ps) = (if p = 0 then r else str_hash_loop (r * 1021 + ucast p) ps)"

definition str_hash :: "bytes \<Rightarrow> u32" where
  "str_hash key = str_hash_loop 0 key"

fun bin_hash_loop :: "nat \<Rightarrow> u32 \<Rightarrow> bytes \<Rightarrow> u32" where
  "bin_hash_loop 0 r ps = r"
| "bin_hash_loop (Suc n) r ps = bin_hash_loop n (r * 1021 + ucast (hd ps)) (tl ps)"

definition bin_hash :: "bytes \<Rightarrow> nat \<Rightarrow> u32" where
  "bin_hash key n = bin_hash_loop n 0 key"

text \<open>A 32-bit integer in memory, least significant byte first.\<close>

definition load32 :: "bytes \<Rightarrow> u32" where
  "load32 bs = ucast (bs ! 0) OR push_bit 8 (ucast (bs ! 1)) OR push_bit 16 (ucast (bs ! 2))
     OR push_bit 24 (ucast (bs ! 3))"

definition store32 :: "u32 \<Rightarrow> bytes" where
  "store32 w = [ucast w, ucast (drop_bit 8 w), ucast (drop_bit 16 w), ucast (drop_bit 24 w)]"

definition sen_set_int_at :: "sen_set \<Rightarrow> bytes \<Rightarrow> nat option option" where
  "sen_set_int_at st key =
     (let h = load32 key in
      at_loop (st_index st) (\<lambda>e. en_key (st_mem st e) = h) (st_max_offset st) (STEP h) h)"

definition sen_set_str_at :: "sen_set \<Rightarrow> bytes \<Rightarrow> nat option option" where
  "sen_set_str_at st key =
     (let h = str_hash key in
      at_loop (st_index st) (\<lambda>e. en_key (st_mem st e) = h \<and> key = en_str (st_mem st e))
        (st_max_offset st) (STEP h) h)"

definition sen_set_bin_at :: "sen_set \<Rightarrow> bytes \<Rightarrow> nat option option" where
  "sen_set_bin_at st key =
     (let h = bin_hash key (st_key_size st) in
      at_loop (st_index st)
        (\<lambda>e. en_key (st_mem st e) = h \<and>
             take (st_key_size st) key = take (st_key_size st) (en_dummy (st_mem st e)))
        (st_max_offset st) (STEP h) h)"

text \<open>
  A set filled as an array is given its index first. The result is a slot, or \<open>None\<close> for NULL.
\<close>

definition leave_array :: "alloc \<Rightarrow> sen_set \<Rightarrow> (bool \<times> sen_set) option" where
  "leave_array alloc st =
     do {
       (rc, st') \<leftarrow> sen_set_reset alloc st 0;
       Some (if rc \<noteq> sen_success then (False, st')
             else (True, st'\<lparr>st_curr_entry := 0, st_arrayp := False\<rparr>))
     }"

definition at_key :: "sen_set \<Rightarrow> bytes \<Rightarrow> nat option option" where
  "at_key st key =
     (if st_key_size st = 0 then sen_set_str_at st key
      else if st_key_size st = 4 then sen_set_int_at st key
      else sen_set_bin_at st key)"

definition sen_set_at :: "alloc \<Rightarrow> sen_set \<Rightarrow> bytes \<Rightarrow> (nat option \<times> sen_set) option" where
  "sen_set_at alloc st key =
     do {
       (ok, st') \<leftarrow> (if st_arrayp st then leave_array alloc st else Some (True, st));
       if ok then do { r \<leftarrow> at_key st' key; Some (r, st') } else Some (None, st')
     }"

section \<open>Insertion\<close>

definition sen_set_int_get :: "alloc \<Rightarrow> sen_set \<Rightarrow> bytes \<Rightarrow> (nat option \<times> sen_set) option" where
  "sen_set_int_get alloc st key =
     (let h = load32 key in
      do {
        (found, ep, np) \<leftarrow>
          get_loop (st_index st) (\<lambda>e. en_key (st_mem st e) = h) (st_max_offset st) (STEP h) h None;
        Some
          (if found then (Some ep, st)
           else
             (let st1 = (if np = None then st else st\<lparr>st_n_garbages := st_n_garbages st - 1\<rparr>);
                  ep = (case np of None \<Rightarrow> ep | Some np \<Rightarrow> np)
              in case entry_new alloc st1 of
                   (None, st2) \<Rightarrow> (None, st2)
                 | (Some e, st2) \<Rightarrow>
                     (Some ep,
                      st2\<lparr>st_mem := (st_mem st2)(e := (st_mem st2 e)\<lparr>en_key := h\<rparr>),
                          st_index := (st_index st2)[ep := Ent e],
                          st_n_entries := st_n_entries st2 + 1\<rparr>)))
      })"

definition sen_set_str_get :: "alloc \<Rightarrow> sen_set \<Rightarrow> bytes \<Rightarrow> (nat option \<times> sen_set) option" where
  "sen_set_str_get alloc st key =
     (let h = str_hash key in
      do {
        (found, ep, np) \<leftarrow>
          get_loop (st_index st) (\<lambda>e. en_key (st_mem st e) = h \<and> key = en_str (st_mem st e))
            (st_max_offset st) (STEP h) h None;
        Some
          (if found then (Some ep, st)
           else if \<not> alloc (length key + 1) then (None, st)
           else
             (case entry_new alloc st of
                (None, st1) \<Rightarrow> (None, st1)
              | (Some e, st1) \<Rightarrow>
                  (let st2 = st1\<lparr>st_mem := (st_mem st1)(e := (st_mem st1 e)\<lparr>en_key := h, en_str := key\<rparr>)\<rparr>;
                       st3 = (if np = None then st2 else st2\<lparr>st_n_garbages := st_n_garbages st2 - 1\<rparr>);
                       ep = (case np of None \<Rightarrow> ep | Some np \<Rightarrow> np)
                   in (Some ep,
                       st3\<lparr>st_index := (st_index st3)[ep := Ent e],
                           st_n_entries := st_n_entries st3 + 1\<rparr>))))
      })"

definition sen_set_bin_get :: "alloc \<Rightarrow> sen_set \<Rightarrow> bytes \<Rightarrow> (nat option \<times> sen_set) option" where
  "sen_set_bin_get alloc st key =
     (let h = bin_hash key (st_key_size st) in
      do {
        (found, ep, np) \<leftarrow>
          get_loop (st_index st)
            (\<lambda>e. en_key (st_mem st e) = h \<and>
                 take (st_key_size st) key = take (st_key_size st) (en_dummy (st_mem st e)))
            (st_max_offset st) (STEP h) h None;
        Some
          (if found then (Some ep, st)
           else
             (let st1 = (if np = None then st else st\<lparr>st_n_garbages := st_n_garbages st - 1\<rparr>);
                  ep = (case np of None \<Rightarrow> ep | Some np \<Rightarrow> np)
              in case entry_new alloc st1 of
                   (None, st2) \<Rightarrow> (None, st2)
                 | (Some e, st2) \<Rightarrow>
                     (Some ep,
                      st2\<lparr>st_mem := (st_mem st2)(e := (st_mem st2 e)
                            \<lparr>en_key := h,
                             en_dummy := take (st_key_size st) key @
                               drop (st_key_size st) (en_dummy (st_mem st2 e))\<rparr>),
                          st_index := (st_index st2)[ep := Ent e],
                          st_n_entries := st_n_entries st2 + 1\<rparr>)))
      })"

definition get_key :: "alloc \<Rightarrow> sen_set \<Rightarrow> bytes \<Rightarrow> (nat option \<times> sen_set) option" where
  "get_key alloc st key =
     (if st_key_size st = 0 then sen_set_str_get alloc st key
      else if st_key_size st = 4 then sen_set_int_get alloc st key
      else sen_set_bin_get alloc st key)"

text \<open>\<open>sen_set_get\<close> does not look at the result of the reset that makes room.\<close>

definition sen_set_get :: "alloc \<Rightarrow> sen_set \<Rightarrow> bytes \<Rightarrow> (nat option \<times> sen_set) option" where
  "sen_set_get alloc st key =
     do {
       (ok, st') \<leftarrow>
         (if st_arrayp st then leave_array alloc st
          else if st_max_offset st < (word_of_int (st_n_entries st) + st_n_garbages st) * 2 then
            do { (rc, st1) \<leftarrow> sen_set_reset alloc st 0; Some (True, st1) }
          else Some (True, st));
       if ok then get_key alloc st' key else Some (None, st')
     }"

section \<open>Deletion\<close>

text \<open>
  \<open>ep\<close> is the slot to delete, \<open>None\<close> for a NULL pointer. The stores through a deleted slot
  have no meaning (\<open>None\<close>).
\<close>

definition sen_set_del :: "sen_set \<Rightarrow> nat option \<Rightarrow> (sen_rc \<times> sen_set) option" where
  "sen_set_del st ep =
     (case ep of
        None \<Rightarrow> Some (sen_invalid_argument, st)
      | Some p \<Rightarrow>
          (case st_index st ! p of
             NULL \<Rightarrow> Some (sen_invalid_argument, st)
           | GARBAGE \<Rightarrow> None
           | Ent e \<Rightarrow>
               Some (sen_success,
                st\<lparr>st_index := (st_index st)[p := GARBAGE],
                   st_garbages := e # st_garbages st,
                   st_n_entries := st_n_entries st - 1,
                   st_n_garbages := st_n_garbages st + 1\<rparr>)))"

end
