(* ===== verification/Hset_Probe.thy ===== *)
theory Hset_Probe
  imports Hset
begin

text \<open>
  The probe loops of lib/set.c on an index of \<open>2 ^ k\<close> slots. The step is odd, so the probes
  visit every slot, and a loop ends whenever the index has an empty slot (\<open>probe_covers\<close>,
  \<open>at_loop_spec\<close>, \<open>get_loop_spec\<close>); with no empty slot a search for an absent key never ends
  (\<open>at_loop_diverges\<close>).
\<close>

section \<open>The sequence of probes\<close>

definition probe :: "nat \<Rightarrow> u32 \<Rightarrow> nat \<Rightarrow> nat" where
  "probe k h j = slot_of (h + of_nat j * STEP h) (mask k)"

lemma STEP_odd: "odd (STEP x)"
  by (simp add: STEP_def even_or_iff)

lemma slot_of_mod: "k \<le> 32 \<Longrightarrow> slot_of w (mask k) = unat w mod 2 ^ k"
  unfolding slot_of_def take_bit_eq_mask [symmetric]
  by (simp add: unsigned_take_bit_eq flip: take_bit_eq_mod)

lemma probe_mod:
  assumes "k \<le> 32"
  shows "probe k h j = (unat h + j * unat (STEP h)) mod 2 ^ k"
proof -
  have d: "(2::nat) ^ k dvd 2 ^ 32" using assms by (rule le_imp_power_dvd)
  have "unat (h + of_nat j * STEP h) = (unat h + j * unat (STEP h)) mod 2 ^ 32"
    by (simp add: unat_word_ariths unat_of_nat mod_simps)
  then show ?thesis
    using d by (simp add: probe_def slot_of_mod [OF assms] mod_mod_cancel)
qed

lemma probe_less: "k \<le> 32 \<Longrightarrow> probe k h j < 2 ^ k"
  by (simp add: probe_mod)

lemma odd_steps_inj:
  assumes "odd (s::nat)" "i < 2 ^ k" "j < 2 ^ k" "(h + i * s) mod 2 ^ k = (h + j * s) mod 2 ^ k"
  shows "i = j"
proof -
  have main: "i = j" if "i \<le> j" "j < 2 ^ k" "(h + i * s) mod 2 ^ k = (h + j * s) mod 2 ^ k" for i j
  proof -
    have le: "h + i * s \<le> h + j * s" using that(1) by simp
    have "2 ^ k dvd (h + j * s) - (h + i * s)"
      using that(3) mod_eq_dvd_iff_nat [OF le, of "2 ^ k"] by simp
    then have "2 ^ k dvd (j - i) * s" by (simp add: algebra_simps)
    moreover have "coprime (2 ^ k) s" using assms(1) by simp
    ultimately have "2 ^ k dvd j - i" by (simp add: coprime_dvd_mult_left_iff)
    moreover have "j - i < 2 ^ k" using that(2) by simp
    ultimately have "j - i = 0" by (metis nat_dvd_not_less not_gr_zero)
    then show ?thesis using that(1) by simp
  qed
  show ?thesis
    using main [of i j] main [of j i] assms(2-4) by (cases "i \<le> j") auto
qed

lemma probe_covers:
  assumes "k \<le> 32" "p < 2 ^ k"
  shows "\<exists>j < 2 ^ k. probe k h j = p"
proof -
  have "odd (unat (STEP h))"
    using STEP_odd [of h] bit_unsigned_iff [where 'a=nat, of "STEP h" 0] by (simp add: bit_0)
  then have "inj_on (probe k h) {..<2 ^ k}"
    by (intro inj_onI) (auto simp: probe_mod [OF assms(1)] intro: odd_steps_inj)
  moreover have "probe k h ` {..<2 ^ k} \<subseteq> {..<2 ^ k}" using probe_less [OF assms(1)] by auto
  ultimately have "probe k h ` {..<2 ^ k} = {..<2 ^ k}" by (intro endo_inj_surj) auto
  with assms(2) show ?thesis by (metis imageE lessThan_iff)
qed

section \<open>Reachable slots\<close>

text \<open>A slot that a search for hash \<open>h\<close> comes to before any empty slot.\<close>

definition reach :: "slot list \<Rightarrow> nat \<Rightarrow> u32 \<Rightarrow> nat \<Rightarrow> bool" where
  "reach index k h p \<longleftrightarrow> (\<exists>j. probe k h j = p \<and> (\<forall>i<j. index ! probe k h i \<noteq> NULL))"

lemma reach_update:
  assumes "reach index k h p" "v \<noteq> NULL"
  shows "reach (index[q := v]) k h p"
  using assms unfolding reach_def by (metis list_update_beyond not_le nth_list_update_eq nth_list_update_neq)

section \<open>The searches\<close>

definition stops :: "slot list \<Rightarrow> (eid \<Rightarrow> bool) \<Rightarrow> nat \<Rightarrow> bool" where
  "stops index hit p \<longleftrightarrow> index ! p = NULL \<or> (\<exists>e. index ! p = Ent e \<and> hit e)"

lemma at_loop_run:
  assumes "\<forall>i<j. \<not> stops index hit (slot_of (h + of_nat i * s) m)"
  shows "at_loop index hit m s h = at_loop index hit m s (h + of_nat j * s)"
  using assms
proof (induction j)
  case (Suc j)
  from Suc.prems have "\<not> stops index hit (slot_of (h + of_nat j * s) m)" by simp
  then have "at_loop index hit m s (h + of_nat j * s) = at_loop index hit m s (h + of_nat j * s + s)"
    by (subst at_loop.simps) (auto simp: stops_def split: slot.splits)
  with Suc show ?case by (simp add: algebra_simps)
qed simp

lemma get_loop_run:
  assumes "\<forall>i<j. \<not> stops index hit (slot_of (h + of_nat i * s) m)"
  shows "\<exists>np'. get_loop index hit m s h np = get_loop index hit m s (h + of_nat j * s) np' \<and>
     (np' = np \<or> (\<exists>i<j. np' = Some (slot_of (h + of_nat i * s) m) \<and>
                         index ! slot_of (h + of_nat i * s) m = GARBAGE))"
  using assms
proof (induction j)
  case (Suc j)
  let ?p = "slot_of (h + of_nat j * s) m"
  obtain np' where np': "get_loop index hit m s h np = get_loop index hit m s (h + of_nat j * s) np'"
    "np' = np \<or> (\<exists>i<j. np' = Some (slot_of (h + of_nat i * s) m) \<and>
                         index ! slot_of (h + of_nat i * s) m = GARBAGE)"
    using Suc.IH Suc.prems by auto
  from Suc.prems have ns: "\<not> stops index hit ?p" by simp
  then have step: "get_loop index hit m s (h + of_nat j * s) np' =
      get_loop index hit m s (h + of_nat (Suc j) * s)
        (if index ! ?p = GARBAGE \<and> np' = None then Some ?p else np')"
    by (subst get_loop.simps) (auto simp: stops_def algebra_simps split: slot.splits)
  have mono: "\<exists>i<Suc j. Q i" if "\<exists>i<j. Q i" for Q using that less_Suc_eq by blast
  show ?case
  proof (cases "index ! ?p = GARBAGE \<and> np' = None")
    case True
    then show ?thesis using np'(1) step by (intro exI [of _ "Some ?p"]) auto
  next
    case False
    then show ?thesis using np' step mono by (intro exI [of _ np']) auto
  qed
qed auto

lemma free_loop_run:
  assumes "\<forall>i<j. index ! slot_of (h + of_nat i * s) m \<noteq> NULL"
  shows "free_loop index m s h = free_loop index m s (h + of_nat j * s)"
  using assms
proof (induction j)
  case (Suc j)
  then have "free_loop index m s (h + of_nat j * s) = free_loop index m s (h + of_nat j * s + s)"
    by (subst free_loop.simps) auto
  with Suc show ?case by (simp add: algebra_simps)
qed simp

text \<open>The first place where a search stops.\<close>

lemma first_stop:
  assumes "k \<le> 32" "length index = 2 ^ k" "NULL \<in> set index"
  obtains j where "stops index hit (probe k h j)" "\<forall>i<j. \<not> stops index hit (probe k h i)"
proof -
  obtain p where "p < 2 ^ k" "index ! p = NULL" using assms(2,3) by (metis in_set_conv_nth)
  then obtain j where "stops index hit (probe k h j)"
    using probe_covers [OF assms(1)] by (metis stops_def)
  then show ?thesis using that [of "LEAST j. stops index hit (probe k h j)"]
    by (metis (mono_tags, lifting) LeastI not_less_Least)
qed

lemma stops_unique:
  assumes "stops index hit (probe k h j)" "\<forall>i<j. \<not> stops index hit (probe k h i)"
    and "index ! p = Ent e" "hit e" "reach index k h p"
  shows "\<exists>e'. index ! probe k h j = Ent e' \<and> hit e'"
proof -
  obtain j' where j': "probe k h j' = p" "\<forall>i<j'. index ! probe k h i \<noteq> NULL"
    using assms(5) by (auto simp: reach_def)
  have "stops index hit (probe k h j')" using j'(1) assms(3,4) by (auto simp: stops_def)
  then have "j \<le> j'" using assms(2) not_le by blast
  then have "index ! probe k h j \<noteq> NULL"
    using j' assms(3) by (cases "j = j'") auto
  then show ?thesis using assms(1) by (auto simp: stops_def)
qed

lemma at_loop_spec:
  assumes "k \<le> 32" "length index = 2 ^ k" "NULL \<in> set index"
    and "\<forall>p e. p < 2 ^ k \<longrightarrow> index ! p = Ent e \<longrightarrow> hit e \<longrightarrow> reach index k h p"
  shows "at_loop index hit (mask k) (STEP h) h = Some None \<and>
           (\<forall>p e. p < 2 ^ k \<longrightarrow> index ! p = Ent e \<longrightarrow> \<not> hit e) \<or>
         (\<exists>p e. at_loop index hit (mask k) (STEP h) h = Some (Some p) \<and> p < 2 ^ k \<and>
            index ! p = Ent e \<and> hit e)"
proof -
  obtain j where j: "stops index hit (probe k h j)" "\<forall>i<j. \<not> stops index hit (probe k h i)"
    using first_stop [OF assms(1-3)] .
  have run: "at_loop index hit (mask k) (STEP h) h =
      at_loop index hit (mask k) (STEP h) (h + of_nat j * STEP h)"
    using at_loop_run [of j index hit h "STEP h" "mask k"] j(2) by (simp add: probe_def)
  show ?thesis
  proof (cases "index ! probe k h j = NULL")
    case True
    then have "at_loop index hit (mask k) (STEP h) h = Some None"
      unfolding run by (subst at_loop.simps) (simp add: probe_def)
    moreover have "\<not> hit e" if "p < 2 ^ k" "index ! p = Ent e" for p e
      using stops_unique [OF j that(2)] assms(4) that True by auto
    ultimately show ?thesis by blast
  next
    case False
    then obtain e where e: "index ! probe k h j = Ent e" "hit e" using j(1) by (auto simp: stops_def)
    then have "at_loop index hit (mask k) (STEP h) h = Some (Some (probe k h j))"
      unfolding run by (subst at_loop.simps) (simp add: probe_def)
    with e probe_less [OF assms(1)] show ?thesis by blast
  qed
qed

lemma get_loop_spec:
  assumes "k \<le> 32" "length index = 2 ^ k" "NULL \<in> set index"
    and "\<forall>p e. p < 2 ^ k \<longrightarrow> index ! p = Ent e \<longrightarrow> hit e \<longrightarrow> reach index k h p"
  obtains (found) p e np where
      "get_loop index hit (mask k) (STEP h) h None = Some (True, p, np)"
      "p < 2 ^ k" "index ! p = Ent e" "hit e"
  | (free) q where
      "get_loop index hit (mask k) (STEP h) h None = Some (False, q, None)"
      "\<And>p e. p < 2 ^ k \<Longrightarrow> index ! p = Ent e \<Longrightarrow> \<not> hit e"
      "q < 2 ^ k" "index ! q = NULL" "reach index k h q"
  | (garbage) q g where
      "get_loop index hit (mask k) (STEP h) h None = Some (False, q, Some g)"
      "\<And>p e. p < 2 ^ k \<Longrightarrow> index ! p = Ent e \<Longrightarrow> \<not> hit e"
      "g < 2 ^ k" "index ! g = GARBAGE" "reach index k h g"
proof -
  obtain j where j: "stops index hit (probe k h j)" "\<forall>i<j. \<not> stops index hit (probe k h i)"
    using first_stop [OF assms(1-3)] .
  obtain np where run: "get_loop index hit (mask k) (STEP h) h None =
      get_loop index hit (mask k) (STEP h) (h + of_nat j * STEP h) np"
    and np: "np = None \<or> (\<exists>i<j. np = Some (probe k h i) \<and> index ! probe k h i = GARBAGE)"
    using get_loop_run [of j index hit h "STEP h" "mask k" None] j(2)
    unfolding probe_def [symmetric] by auto
  have nn: "\<forall>i<j. index ! probe k h i \<noteq> NULL" using j(2) by (auto simp: stops_def)
  show ?thesis
  proof (cases "index ! probe k h j = NULL")
    case True
    then have r: "get_loop index hit (mask k) (STEP h) h None = Some (False, probe k h j, np)"
      unfolding run by (subst get_loop.simps) (simp add: probe_def)
    have nohit: "\<not> hit e" if "p < 2 ^ k" "index ! p = Ent e" for p e
      using stops_unique [OF j that(2)] assms(4) that True by auto
    from np show ?thesis
    proof
      assume "np = None"
      with r nohit True nn probe_less [OF assms(1)] show ?thesis
        by (intro free) (auto simp: reach_def)
    next
      assume "\<exists>i<j. np = Some (probe k h i) \<and> index ! probe k h i = GARBAGE"
      then obtain i where i: "i < j" "np = Some (probe k h i)" "index ! probe k h i = GARBAGE" by blast
      have "reach index k h (probe k h i)" using nn i(1) by (auto simp: reach_def)
      with r nohit i probe_less [OF assms(1)] show ?thesis by (intro garbage) auto
    qed
  next
    case False
    then obtain e where e: "index ! probe k h j = Ent e" "hit e" using j(1) by (auto simp: stops_def)
    then have "get_loop index hit (mask k) (STEP h) h None = Some (True, probe k h j, np)"
      unfolding run by (subst get_loop.simps) (simp add: probe_def)
    with e probe_less [OF assms(1)] found show ?thesis by blast
  qed
qed

lemma free_loop_spec:
  assumes "k \<le> 32" "length index = 2 ^ k" "NULL \<in> set index"
  obtains q where "free_loop index (mask k) (STEP h) h = Some q" "q < 2 ^ k" "index ! q = NULL"
    "reach index k h q"
proof -
  obtain j where j: "stops index (\<lambda>_. False) (probe k h j)"
    "\<forall>i<j. \<not> stops index (\<lambda>_. False) (probe k h i)"
    using first_stop [OF assms(1-3)] .
  have run: "free_loop index (mask k) (STEP h) h = free_loop index (mask k) (STEP h) (h + of_nat j * STEP h)"
    using free_loop_run [of j index h "STEP h" "mask k"] j(2) by (simp add: probe_def stops_def)
  have "free_loop index (mask k) (STEP h) h = Some (probe k h j)"
    unfolding run using j(1) by (subst free_loop.simps) (simp add: probe_def stops_def)
  with j probe_less [OF assms(1)] show ?thesis
    by (intro that [of "probe k h j"]) (auto simp: reach_def stops_def)
qed

text \<open>With no empty slot and no match the search goes round for ever.\<close>

lemma at_loop_diverges:
  assumes "k \<le> 32" "\<And>p. p < 2 ^ k \<Longrightarrow> \<not> stops index hit p"
  shows "at_loop index hit (mask k) s i = None"
proof -
  have False if "at_loop index hit (mask k) s i = Some r" for r
  proof -
    have "index = index \<longrightarrow> hit = hit \<longrightarrow> mask k = (mask k :: u32) \<longrightarrow> False"
    proof (rule at_loop.raw_induct [where P = "\<lambda>index' hit' m s i r. index' = index \<longrightarrow> hit' = hit \<longrightarrow>
            m = mask k \<longrightarrow> False", OF _ that], intro impI)
      fix loop :: "slot list \<Rightarrow> (eid \<Rightarrow> bool) \<Rightarrow> u32 \<Rightarrow> u32 \<Rightarrow> u32 \<Rightarrow> nat option option"
        and index' hit' m s i r
      assume IH: "\<And>index' hit' m s i r. loop index' hit' m s i = Some r \<Longrightarrow>
            index' = index \<longrightarrow> hit' = hit \<longrightarrow> m = mask k \<longrightarrow> False"
        and body: "(case index' ! slot_of i m of NULL \<Rightarrow> Some None
            | GARBAGE \<Rightarrow> loop index' hit' m s (i + s)
            | Ent e \<Rightarrow> if hit' e then Some (Some (slot_of i m)) else loop index' hit' m s (i + s)) = Some r"
        and eqs: "index' = index" "hit' = hit" "m = mask k"
      have "slot_of i m < 2 ^ k" using assms(1) by (simp add: eqs slot_of_mod)
      then have "\<not> stops index hit (slot_of i m)" using assms(2) by blast
      then have "loop index hit m s (i + s) = Some r"
        using body eqs by (auto simp: stops_def split: slot.splits if_splits)
      then show False using IH eqs(3) by blast
    qed
    then show False by simp
  qed
  then show ?thesis by fastforce
qed

end
