(* ===== verification/Hset_Inv.thy ===== *)
theory Hset_Inv
  imports Hset_Probe
begin

text \<open>
  What a \<open>sen_set\<close> stands for, a finite map from keys to values, and the invariant of the hash
  table: every entry is on the probe path of its hash before any empty slot, keys are unique,
  and the pool of entries keeps used, deleted and fresh entries apart.
\<close>

section \<open>Keys and values\<close>

definition entry_key :: "sen_set \<Rightarrow> eid \<Rightarrow> bytes" where
  "entry_key st e =
     (if st_key_size st = 0 then en_str (st_mem st e)
      else if st_key_size st = 4 then store32 (en_key (st_mem st e))
      else take (st_key_size st) (en_dummy (st_mem st e)))"

definition entry_val :: "sen_set \<Rightarrow> eid \<Rightarrow> bytes" where
  "entry_val st e = drop (key_bytes st) (en_dummy (st_mem st e))"

definition hash_key :: "sen_set \<Rightarrow> bytes \<Rightarrow> u32" where
  "hash_key st key =
     (if st_key_size st = 0 then str_hash key
      else if st_key_size st = 4 then load32 key
      else bin_hash key (st_key_size st))"

definition valid_key :: "sen_set \<Rightarrow> bytes \<Rightarrow> bool" where
  "valid_key st key \<longleftrightarrow> (if st_key_size st = 0 then 0 \<notin> set key else length key = st_key_size st)"

definition live :: "sen_set \<Rightarrow> eid \<Rightarrow> bool" where
  "live st e \<longleftrightarrow> Ent e \<in> set (st_index st)"

text \<open>The map from keys to values.\<close>

definition is_key :: "sen_set \<Rightarrow> bytes \<Rightarrow> slot \<Rightarrow> bool" where
  "is_key st key sl = (case sl of Ent e \<Rightarrow> entry_key st e = key | _ \<Rightarrow> False)"

definition set_map :: "sen_set \<Rightarrow> bytes \<Rightarrow> bytes option" where
  "set_map st key =
     (case List.find (is_key st key) (st_index st) of
        Some (Ent e) \<Rightarrow> Some (entry_val st e)
      | _ \<Rightarrow> None)"

lemma byte_no_bit: "8 \<le> n \<Longrightarrow> \<not> bit (b :: byte) n"
  using bit_imp_le_length [of b n] by auto

lemma word32_bytes:
  "load32 (store32 w) = w"
  "length bs = 4 \<Longrightarrow> store32 (load32 bs) = bs"
proof -
  show "load32 (store32 w) = w"
  proof (rule bit_word_eqI)
    fix n assume "n < LENGTH(32)"
    then show "bit (load32 (store32 w)) n = bit w n"
      by (cases "n < 8"; cases "n < 16"; cases "n < 24")
        (auto simp: load32_def store32_def bit_simps not_less)
  qed
  assume "length bs = 4"
  then obtain a b c d where bs: "bs = [a, b, c, d]"
    by (auto simp: numeral_eq_Suc length_Suc_conv)
  have "ucast (load32 bs) = a" "ucast (drop_bit 8 (load32 bs)) = b"
    "ucast (drop_bit 16 (load32 bs)) = c" "ucast (drop_bit 24 (load32 bs)) = d"
    unfolding bs by (auto intro!: bit_word_eqI simp: load32_def bit_simps byte_no_bit)
  then show "store32 (load32 bs) = bs" by (simp add: store32_def bs)
qed

section \<open>The invariant\<close>

text \<open>Entries of the pool that have not been handed out.\<close>

definition fresh :: "sen_set \<Rightarrow> eid \<Rightarrow> bool" where
  "fresh st e \<longleftrightarrow> st_curr_chunk st < e_chunk e \<or> st_curr_chunk st = e_chunk e \<and> st_curr_entry st \<le> e_place e"

definition pool_ok :: "sen_set \<Rightarrow> bool" where
  "pool_ok st \<longleftrightarrow>
     distinct (st_garbages st) \<and>
     (\<forall>e \<in> set (st_garbages st). \<not> live st e \<and> \<not> fresh st e) \<and>
     (\<forall>e. live st e \<longrightarrow> \<not> fresh st e) \<and>
     (\<forall>c. st_curr_chunk st < c \<longrightarrow> \<not> st_chunks st c) \<and>
     (\<not> st_chunks st (st_curr_chunk st) \<longrightarrow> st_curr_entry st = 0) \<and>
     (st_chunks st (st_curr_chunk st) \<longrightarrow>
        (\<forall>i \<ge> st_curr_entry st. st_mem st (Eid (st_curr_chunk st) i) = zero_entry st))"

definition entries_ok :: "sen_set \<Rightarrow> bool" where
  "entries_ok st \<longleftrightarrow>
     (\<forall>e. live st e \<longrightarrow>
        valid_key st (entry_key st e) \<and> en_key (st_mem st e) = hash_key st (entry_key st e) \<and>
        length (en_dummy (st_mem st e)) = key_bytes st + st_value_size st) \<and>
     (\<forall>p q e e'. p < length (st_index st) \<longrightarrow> q < length (st_index st) \<longrightarrow>
        st_index st ! p = Ent e \<longrightarrow> st_index st ! q = Ent e' \<longrightarrow>
        entry_key st e = entry_key st e' \<longrightarrow> p = q)"

definition geom_ok :: "sen_set \<Rightarrow> nat \<Rightarrow> bool" where
  "geom_ok st k \<longleftrightarrow>
     8 \<le> k \<and> k \<le> 31 \<and> st_max_offset st = mask k \<and> length (st_index st) = 2 ^ k \<and>
     (\<forall>p e. p < 2 ^ k \<longrightarrow> st_index st ! p = Ent e \<longrightarrow>
        reach (st_index st) k (en_key (st_mem st e)) p)"

definition n_slots :: "(slot \<Rightarrow> bool) \<Rightarrow> sen_set \<Rightarrow> nat" where
  "n_slots P st = length (filter P (st_index st))"

definition is_ent :: "slot \<Rightarrow> bool" where
  "is_ent sl \<longleftrightarrow> sl \<noteq> NULL \<and> sl \<noteq> GARBAGE"

definition set_inv :: "sen_set \<Rightarrow> bool" where
  "set_inv st \<longleftrightarrow>
     (\<exists>k. geom_ok st k) \<and> NULL \<in> set (st_index st) \<and> entries_ok st \<and> pool_ok st \<and>
     \<not> st_arrayp st \<and> st_n_entries st = int (n_slots is_ent st)"

text \<open>The count of deleted slots, which the failure of an allocation can spoil.\<close>

definition counts_ok :: "sen_set \<Rightarrow> bool" where
  "counts_ok st \<longleftrightarrow> st_n_garbages st = of_nat (n_slots (\<lambda>sl. sl = GARBAGE) st)"

section \<open>Consequences\<close>

lemma live_nth: "live st e \<longleftrightarrow> (\<exists>p < length (st_index st). st_index st ! p = Ent e)"
  by (auto simp: live_def in_set_conv_nth)

lemma live_key_unique:
  assumes "entries_ok st" "live st e" "live st e'" "entry_key st e = entry_key st e'"
  shows "e = e'"
proof -
  obtain p q where "p < length (st_index st)" "st_index st ! p = Ent e"
    "q < length (st_index st)" "st_index st ! q = Ent e'"
    using assms(2,3) by (auto simp: live_nth)
  moreover from this have "p = q" using assms(1,4) unfolding entries_ok_def by blast
  ultimately show ?thesis by simp
qed

lemma set_map_None: "set_map st key = None \<longleftrightarrow> (\<forall>e. live st e \<longrightarrow> entry_key st e \<noteq> key)"
proof -
  have "is_key st key sl" if "List.find (is_key st key) (st_index st) = Some sl" for sl
    using that by (auto simp: find_Some_iff)
  then have "set_map st key = None \<longleftrightarrow> List.find (is_key st key) (st_index st) = None"
    by (fastforce simp: set_map_def is_key_def split: option.splits slot.splits)
  then show ?thesis by (auto simp: find_None_iff is_key_def live_def split: slot.splits)
qed

lemma set_map_live:
  assumes "entries_ok st" "live st e"
  shows "set_map st (entry_key st e) = Some (entry_val st e)"
proof (cases "List.find (is_key st (entry_key st e)) (st_index st)")
  case None
  then show ?thesis using assms(2) by (auto simp: find_None_iff is_key_def live_def)
next
  case (Some sl)
  then have "sl \<in> set (st_index st)" "is_key st (entry_key st e) sl"
    by (auto simp: find_Some_iff)
  then obtain e' where e': "sl = Ent e'" "entry_key st e' = entry_key st e" "live st e'"
    by (auto simp: is_key_def live_def split: slot.splits)
  then have "e' = e" using live_key_unique [OF assms(1) e'(3) assms(2)] by simp
  with Some e'(1) show ?thesis by (simp add: set_map_def)
qed

lemma set_map_Some:
  assumes "entries_ok st"
  shows "set_map st key = Some v \<longleftrightarrow> (\<exists>e. live st e \<and> entry_key st e = key \<and> entry_val st e = v)"
  using set_map_live [OF assms] set_map_None [of st key]
  by (metis option.distinct(1) option.exhaust option.inject)

lemma set_map_cong:
  assumes "entries_ok st" "entries_ok st'"
    and "\<And>e. live st' e \<longleftrightarrow> live st e"
    and "\<And>e. live st e \<Longrightarrow> entry_key st' e = entry_key st e \<and> entry_val st' e = entry_val st e"
  shows "set_map st' = set_map st"
proof
  fix key
  show "set_map st' key = set_map st key"
  proof (cases "set_map st key")
    case None
    then have "set_map st' key = None" using assms(3,4) by (simp add: set_map_None)
    with None show ?thesis by simp
  next
    case (Some v)
    then obtain e where "live st e" "entry_key st e = key" "entry_val st e = v"
      using set_map_Some [OF assms(1)] by blast
    then have "live st' e \<and> entry_key st' e = key \<and> entry_val st' e = v" using assms(3,4) by simp
    then have "set_map st' key = Some v" using set_map_Some [OF assms(2)] by blast
    with Some show ?thesis by simp
  qed
qed

lemma dom_set_map: "key \<in> dom (set_map st) \<longleftrightarrow> (\<exists>e. live st e \<and> entry_key st e = key)"
  using set_map_None [of st key] by (auto simp: domIff)

end
