(* ===== verification/Hset_Ops.thy ===== *)
theory Hset_Ops
  imports Hset_Inv
begin

text \<open>
  The operations of lib/set.c keep the invariant of the hash table and act on the map it stands
  for as lookup, insertion of a zero value, and deletion; resizing changes nothing.
\<close>

section \<open>Lookup\<close>

definition hits :: "sen_set \<Rightarrow> bytes \<Rightarrow> eid \<Rightarrow> bool" where
  "hits st key e \<longleftrightarrow>
     (if st_key_size st = 0 then en_key (st_mem st e) = str_hash key \<and> key = en_str (st_mem st e)
      else if st_key_size st = 4 then en_key (st_mem st e) = load32 key
      else en_key (st_mem st e) = bin_hash key (st_key_size st) \<and>
           take (st_key_size st) key = take (st_key_size st) (en_dummy (st_mem st e)))"

lemma at_key_loop:
  "at_key st key =
     at_loop (st_index st) (hits st key) (st_max_offset st) (STEP (hash_key st key)) (hash_key st key)"
proof -
  have "hits st key = (\<lambda>e. en_key (st_mem st e) = str_hash key \<and> key = en_str (st_mem st e))"
    if "st_key_size st = 0" using that by (auto simp: hits_def)
  moreover have "hits st key = (\<lambda>e. en_key (st_mem st e) = load32 key)" if "st_key_size st = 4"
    using that by (auto simp: hits_def)
  moreover have "hits st key = (\<lambda>e. en_key (st_mem st e) = bin_hash key (st_key_size st) \<and>
           take (st_key_size st) key = take (st_key_size st) (en_dummy (st_mem st e)))"
    if "st_key_size st \<noteq> 0" "st_key_size st \<noteq> 4" using that by (auto simp: hits_def)
  ultimately show ?thesis
    by (simp add: at_key_def hash_key_def sen_set_str_at_def sen_set_int_at_def sen_set_bin_at_def Let_def)
qed

lemma hits_iff:
  assumes "entries_ok st" "live st e" "valid_key st key"
  shows "hits st key e \<longleftrightarrow> entry_key st e = key"
proof -
  have h: "en_key (st_mem st e) = hash_key st (entry_key st e)"
    using assms(1,2) by (simp add: entries_ok_def)
  have "store32 (load32 key) = key" if "st_key_size st = 4"
    using assms(3) that by (simp add: valid_key_def word32_bytes)
  then show ?thesis
    using h assms(3) by (auto simp: hits_def entry_key_def hash_key_def valid_key_def word32_bytes
        split: if_splits)
qed

lemma hit_reach:
  assumes "geom_ok st k" "entries_ok st" "valid_key st key"
    and "p < 2 ^ k" "st_index st ! p = Ent e" "hits st key e"
  shows "reach (st_index st) k (hash_key st key) p"
proof -
  have l: "live st e" using assms(1,4,5) by (auto simp: live_nth geom_ok_def)
  then have "en_key (st_mem st e) = hash_key st key"
    using hits_iff [OF assms(2) l assms(3)] assms(2,6) by (auto simp: entries_ok_def)
  with assms(1,4,5) show ?thesis by (auto simp: geom_ok_def)
qed

lemma at_key_spec:
  assumes "set_inv st" "valid_key st key"
  shows "at_key st key = Some None \<and> key \<notin> dom (set_map st) \<or>
    (\<exists>p e. at_key st key = Some (Some p) \<and> p < length (st_index st) \<and>
       st_index st ! p = Ent e \<and> live st e \<and> entry_key st e = key)"
proof -
  obtain k where k: "geom_ok st k" and N: "NULL \<in> set (st_index st)" and E: "entries_ok st"
    using assms(1) by (auto simp: set_inv_def)
  have g: "k \<le> 32" "length (st_index st) = 2 ^ k" "st_max_offset st = mask k"
    using k by (auto simp: geom_ok_def)
  have lv: "live st e" if "p < 2 ^ k" "st_index st ! p = Ent e" for p e
    using that g(2) by (auto simp: live_nth)
  have R: "\<forall>p e. p < 2 ^ k \<longrightarrow> st_index st ! p = Ent e \<longrightarrow> hits st key e \<longrightarrow>
      reach (st_index st) k (hash_key st key) p"
    using hit_reach [OF k E assms(2)] by blast
  from at_loop_spec [where hit = "hits st key" and h = "hash_key st key", OF g(1,2) N R]
  show ?thesis
  proof (elim disjE conjE exE)
    assume r: "at_loop (st_index st) (hits st key) (mask k) (STEP (hash_key st key)) (hash_key st key)
        = Some None" and n: "\<forall>p e. p < 2 ^ k \<longrightarrow> st_index st ! p = Ent e \<longrightarrow> \<not> hits st key e"
    have "entry_key st e \<noteq> key" if "live st e" for e
      using n that g(2) hits_iff [OF E that assms(2)] by (auto simp: live_nth)
    with r show ?thesis by (auto simp: at_key_loop g(3) dom_set_map)
  next
    fix p e
    assume "at_loop (st_index st) (hits st key) (mask k) (STEP (hash_key st key)) (hash_key st key)
        = Some (Some p)" and p: "p < 2 ^ k" "st_index st ! p = Ent e" and h: "hits st key e"
    then show ?thesis
      using lv [OF p] hits_iff [OF E lv [OF p] assms(2)] g(2,3) by (auto simp: at_key_loop)
  qed
qed

section \<open>Taking an entry from the pool\<close>

text \<open>What is true of a new entry \<open>e\<close> and the pool it was taken from.\<close>

definition new_entry_ok :: "sen_set \<Rightarrow> eid \<Rightarrow> sen_set \<Rightarrow> bool" where
  "new_entry_ok st e st' \<longleftrightarrow>
     \<not> live st e \<and> \<not> fresh st' e \<and> e \<notin> set (st_garbages st') \<and> st_mem st' e = zero_entry st \<and>
     (\<forall>e'. live st e' \<longrightarrow> st_mem st' e' = st_mem st e') \<and> pool_ok st' \<and>
     st_index st' = st_index st \<and> st_key_size st' = st_key_size st \<and>
     st_value_size st' = st_value_size st \<and> st_max_offset st' = st_max_offset st \<and>
     st_n_entries st' = st_n_entries st \<and> st_arrayp st' = st_arrayp st"

lemma live_cong: "st_index st' = st_index st \<Longrightarrow> live st' e = live st e"
  by (simp add: live_def)

lemma zero_entry_cong:
  "st_key_size st' = st_key_size st \<Longrightarrow> st_value_size st' = st_value_size st \<Longrightarrow>
   zero_entry st' = zero_entry st"
  by (simp add: zero_entry_def key_bytes_def)

lemma new_entry_reused:
  assumes "pool_ok st" "st_garbages st = e # gs"
  shows "new_entry_ok st e (st\<lparr>st_garbages := gs, st_mem := (st_mem st)(e := zero_entry st)\<rparr>)"
    (is "new_entry_ok st e ?st")
proof -
  have l: "live ?st e' = live st e'" for e' by (simp add: live_def)
  have f: "fresh ?st e' = fresh st e'" for e' by (simp add: fresh_def)
  have z: "zero_entry ?st = zero_entry st" by (simp add: zero_entry_def key_bytes_def)
  have e: "\<not> live st e" "\<not> fresh st e" using assms by (auto simp: pool_ok_def)
  have "pool_ok ?st" using assms unfolding pool_ok_def l f z by auto
  with e assms show ?thesis unfolding new_entry_ok_def f by (auto simp: pool_ok_def)
qed

lemma new_entry_fresh:
  assumes "pool_ok st" "st_garbages st = []"
    and "c = st_curr_chunk st" "e = Eid c (st_curr_entry st)"
    and "st1 = (if st_chunks st c then st
                else st\<lparr>st_chunks := (st_chunks st)(c := True),
                        st_mem := (\<lambda>e. if e_chunk e = c then zero_entry st else st_mem st e)\<rparr>)"
    and "st' = (if chunk_entries c \<le> Suc (st_curr_entry st)
                then st1\<lparr>st_curr_chunk := Suc c, st_curr_entry := 0\<rparr>
                else st1\<lparr>st_curr_entry := Suc (st_curr_entry st)\<rparr>)"
  shows "new_entry_ok st e st'"
proof -
  have nofresh: "\<not> live st e'" if "fresh st e'" for e' using assms(1) that unfolding pool_ok_def by blast
  have fe: "fresh st e" by (simp add: assms(3,4) fresh_def)
  have idx: "st_index st' = st_index st" "st_garbages st' = []" using assms(2) by (simp_all add: assms(5,6))
  then have l: "live st' e' = live st e'" for e' by (simp add: live_def)
  have f: "fresh st' e' \<Longrightarrow> fresh st e' \<and> e' \<noteq> e" for e'
    by (auto simp: assms(3-6) fresh_def split: if_splits)
  have same: "st_key_size st' = st_key_size st" "st_value_size st' = st_value_size st"
    "st_max_offset st' = st_max_offset st" "st_n_entries st' = st_n_entries st"
    "st_n_garbages st' = st_n_garbages st" "st_arrayp st' = st_arrayp st"
    by (simp_all add: assms(5,6))
  have mem: "st_mem st' e' = st_mem st e'" if "live st e'" for e'
  proof (cases "st_chunks st c")
    case False
    then have "st_curr_entry st = 0" using assms(1) unfolding pool_ok_def assms(3) by blast
    then have "e_chunk e' \<noteq> c" using nofresh [of e'] that assms(3) by (auto simp: fresh_def)
    then show ?thesis by (simp add: assms(5,6))
  qed (simp add: assms(5,6))
  have chunk: "st_mem st' (Eid c i) = zero_entry st" if "st_curr_entry st \<le> i" for i
  proof (cases "st_chunks st c")
    case True
    then have "st_mem st (Eid c i) = zero_entry st"
      using assms(1) that unfolding pool_ok_def assms(3) by blast
    moreover have "st_mem st' = st_mem st" using True by (simp add: assms(5,6))
    ultimately show ?thesis by simp
  next
    case False
    then have "st_mem st' = (\<lambda>e. if e_chunk e = c then zero_entry st else st_mem st e)"
      by (simp add: assms(5,6))
    then show ?thesis by simp
  qed
  have z: "zero_entry st' = zero_entry st" by (rule zero_entry_cong) (fact same)+
  have ch: "st_chunks st' c'' \<longleftrightarrow> st_chunks st c'' \<or> c'' = c" for c'' by (simp add: assms(5,6))
  have noch: "\<not> st_chunks st c''" if "c < c''" for c''
    using assms(1) that unfolding pool_ok_def assms(3) by blast
  have cur: "st_curr_chunk st' = Suc c \<and> st_curr_entry st' = 0 \<or>
      st_curr_chunk st' = c \<and> st_curr_entry st' = Suc (st_curr_entry st)"
    using assms(3) by (simp add: assms(5,6))
  have "pool_ok st'"
    unfolding pool_ok_def l z idx
  proof (intro conjI)
    show "\<forall>e. live st e \<longrightarrow> \<not> fresh st' e" using f nofresh by blast
    show "\<forall>c''. st_curr_chunk st' < c'' \<longrightarrow> \<not> st_chunks st' c''" using cur noch by (auto simp: ch)
    show "\<not> st_chunks st' (st_curr_chunk st') \<longrightarrow> st_curr_entry st' = 0" using cur by (auto simp: ch)
    show "st_chunks st' (st_curr_chunk st') \<longrightarrow>
        (\<forall>i \<ge> st_curr_entry st'. st_mem st' (Eid (st_curr_chunk st') i) = zero_entry st)"
      using cur noch [of "Suc c"] chunk by (auto simp: ch)
  qed auto
  moreover have "\<not> fresh st' e" using f by blast
  ultimately show ?thesis
    using nofresh [OF fe] mem same idx chunk [of "st_curr_entry st"] assms(4)
    unfolding new_entry_ok_def by simp
qed

lemma entry_new_spec:
  assumes "pool_ok st" "entry_new alloc st = (r, st')"
  shows "r = None \<and> st' = st \<and> (\<exists>n. \<not> alloc n) \<or> (\<exists>e. r = Some e \<and> new_entry_ok st e st')"
proof (cases "st_garbages st")
  case (Cons e gs)
  with assms show ?thesis using new_entry_reused [OF assms(1) Cons] by (auto simp: entry_new_def)
next
  case Nil
  show ?thesis
  proof (cases "\<not> st_chunks st (st_curr_chunk st) \<and> \<not> alloc (unat (chunk_bytes st (st_curr_chunk st)))")
    case True
    with Nil assms(2) show ?thesis by (auto simp: entry_new_def Let_def)
  next
    case False
    show ?thesis
      using False Nil assms(2) new_entry_fresh [OF assms(1) Nil refl refl refl refl]
      by (simp add: entry_new_def Let_def del: fun_upd_apply)
        (auto simp del: fun_upd_apply split: if_splits)
  qed
qed

section \<open>Insertion\<close>

lemma filter_update_count:
  "p < length xs \<Longrightarrow>
   length (filter P (xs[p := v])) + of_bool (P (xs ! p)) = length (filter P xs) + of_bool (P v)"
proof (induction xs arbitrary: p)
  case (Cons x xs)
  then show ?case by (cases p) auto
qed simp

lemma n_slots_update:
  "p < length (st_index st) \<Longrightarrow> st_index st' = (st_index st)[p := v] \<Longrightarrow>
   n_slots P st' + of_bool (P (st_index st ! p)) = n_slots P st + of_bool (P v)"
  by (simp add: n_slots_def filter_update_count)

text \<open>
  The state after an insertion: \<open>st2\<close> is the state after \<open>e\<close> was taken from the pool, \<open>en\<close> the
  entry with the key filled in, \<open>g\<close> the new count of deleted slots.
\<close>

definition put_entry :: "sen_set \<Rightarrow> eid \<Rightarrow> entry \<Rightarrow> nat \<Rightarrow> u32 \<Rightarrow> sen_set" where
  "put_entry st2 e en ep g =
     st2\<lparr>st_mem := (st_mem st2)(e := en), st_index := (st_index st2)[ep := Ent e],
         st_n_entries := st_n_entries st2 + 1, st_n_garbages := g\<rparr>"

definition key_entry :: "sen_set \<Rightarrow> bytes \<Rightarrow> entry" where
  "key_entry st key =
     (if st_key_size st = 0 then (zero_entry st)\<lparr>en_key := str_hash key, en_str := key\<rparr>
      else if st_key_size st = 4 then (zero_entry st)\<lparr>en_key := load32 key\<rparr>
      else (zero_entry st)
             \<lparr>en_key := bin_hash key (st_key_size st),
              en_dummy := take (st_key_size st) key @ drop (st_key_size st) (en_dummy (zero_entry st))\<rparr>)"

lemma put_entry_simps [simp]:
  "st_index (put_entry st2 e en ep g) = (st_index st2)[ep := Ent e]"
  "st_mem (put_entry st2 e en ep g) = (st_mem st2)(e := en)"
  "st_key_size (put_entry st2 e en ep g) = st_key_size st2"
  "st_value_size (put_entry st2 e en ep g) = st_value_size st2"
  "st_max_offset (put_entry st2 e en ep g) = st_max_offset st2"
  "st_n_entries (put_entry st2 e en ep g) = st_n_entries st2 + 1"
  "st_n_garbages (put_entry st2 e en ep g) = g"
  "st_arrayp (put_entry st2 e en ep g) = st_arrayp st2"
  "st_garbages (put_entry st2 e en ep g) = st_garbages st2"
  "st_chunks (put_entry st2 e en ep g) = st_chunks st2"
  "st_curr_chunk (put_entry st2 e en ep g) = st_curr_chunk st2"
  "st_curr_entry (put_entry st2 e en ep g) = st_curr_entry st2"
  by (simp_all add: put_entry_def)

lemma live_put:
  assumes "ep < length (st_index st2)" "\<forall>e'. st_index st2 ! ep \<noteq> Ent e'"
  shows "live (put_entry st2 e en ep g) e' \<longleftrightarrow> e' = e \<or> live st2 e'"
  using assms by (auto simp: live_def in_set_conv_nth nth_list_update split: if_splits)

lemma key_entry_ok:
  assumes "valid_key st key" "st_key_size st' = st_key_size st" "st_mem st' e = key_entry st key"
  shows "entry_key st' e = key" "entry_val st' e = replicate (st_value_size st) 0"
    "en_key (st_mem st' e) = hash_key st key"
    "length (en_dummy (st_mem st' e)) = key_bytes st + st_value_size st"
  using assms
  by (auto simp: key_entry_def entry_key_def entry_val_def hash_key_def valid_key_def zero_entry_def
      key_bytes_def word32_bytes split: if_splits)

lemma same_mem_key:
  assumes "st_key_size st' = st_key_size st" "st_mem st' e = st_mem st e"
  shows "entry_key st' e = entry_key st e" "entry_val st' e = entry_val st e"
  using assms by (simp_all add: entry_key_def entry_val_def key_bytes_def)

lemma same_size_key:
  assumes "st_key_size st' = st_key_size st"
  shows "hash_key st' key = hash_key st key" "valid_key st' key = valid_key st key"
    "key_bytes st' = key_bytes st"
  using assms by (simp_all add: hash_key_def valid_key_def key_bytes_def)

text \<open>All that is known when a new entry has been put into its slot.\<close>

definition inserted ::
  "sen_set \<Rightarrow> bytes \<Rightarrow> nat \<Rightarrow> eid \<Rightarrow> nat \<Rightarrow> sen_set \<Rightarrow> u32 \<Rightarrow> sen_set \<Rightarrow> bool" where
  "inserted st key k e ep st2 g st3 \<longleftrightarrow>
     set_inv st \<and> new_entry_ok st e st2 \<and> valid_key st key \<and> key \<notin> dom (set_map st) \<and>
     geom_ok st k \<and> ep < 2 ^ k \<and> (\<forall>e'. st_index st ! ep \<noteq> Ent e') \<and>
     reach (st_index st) k (hash_key st key) ep \<and> NULL \<in> set ((st_index st)[ep := Ent e]) \<and>
     st3 = put_entry st2 e (key_entry st key) ep g"

lemma inserted_entries:
  assumes "inserted st key k e ep st2 g st3"
  shows "live st3 e' \<longleftrightarrow> e' = e \<or> live st e'"
    and "\<not> live st e"
    and "entry_key st3 e = key" "entry_val st3 e = replicate (st_value_size st) 0"
    and "en_key (st_mem st3 e) = hash_key st key"
    and "length (en_dummy (st_mem st3 e)) = key_bytes st + st_value_size st"
    and "live st e' \<Longrightarrow> st_mem st3 e' = st_mem st e'"
    and "live st e' \<Longrightarrow> entry_key st3 e' = entry_key st e' \<and> entry_val st3 e' = entry_val st e'"
proof -
  have new: "new_entry_ok st e st2" and st3: "st3 = put_entry st2 e (key_entry st key) ep g"
    and len: "ep < length (st_index st)" and vk: "valid_key st key"
    and old: "\<forall>e'. st_index st ! ep \<noteq> Ent e'"
    using assms by (auto simp: inserted_def geom_ok_def)
  have idx: "st_index st2 = st_index st" and ks: "st_key_size st3 = st_key_size st"
    using new by (auto simp: new_entry_ok_def st3)
  show nl: "\<not> live st e" using new by (simp add: new_entry_ok_def)
  show "live st3 e' \<longleftrightarrow> e' = e \<or> live st e'"
    unfolding st3 using live_put [of ep st2 e "key_entry st key" g e'] len old idx
    by (simp add: live_def)
  have m: "st_mem st3 e = key_entry st key" by (simp add: st3)
  show "entry_key st3 e = key" "entry_val st3 e = replicate (st_value_size st) 0"
    "en_key (st_mem st3 e) = hash_key st key"
    "length (en_dummy (st_mem st3 e)) = key_bytes st + st_value_size st"
    using key_entry_ok [OF vk ks m] by auto
  show mem: "live st e' \<Longrightarrow> st_mem st3 e' = st_mem st e'"
    using new nl by (auto simp: new_entry_ok_def st3)
  show "live st e' \<Longrightarrow> entry_key st3 e' = entry_key st e' \<and> entry_val st3 e' = entry_val st e'"
    using same_mem_key [OF ks mem] by auto
qed

lemma inserted_pool:
  assumes "inserted st key k e ep st2 g st3"
  shows "pool_ok st3"
proof -
  have new: "new_entry_ok st e st2" and st3: "st3 = put_entry st2 e (key_entry st key) ep g"
    using assms by (auto simp: inserted_def)
  have pool: "pool_ok st2" and e: "\<not> fresh st2 e" "e \<notin> set (st_garbages st2)"
    and idx: "st_index st2 = st_index st"
    using new by (auto simp: new_entry_ok_def)
  have fr: "fresh st3 e' = fresh st2 e'" for e' by (simp add: st3 fresh_def)
  have lv: "live st3 e' \<longleftrightarrow> e' = e \<or> live st2 e'" for e'
    using inserted_entries(1) [OF assms] idx by (simp add: live_def)
  have z: "zero_entry st3 = zero_entry st2" by (simp add: st3 zero_entry_def key_bytes_def)
  have m: "st_mem st3 e' = (if e' = e then key_entry st key else st_mem st2 e')" for e'
    by (simp add: st3)
  have ne: "Eid (st_curr_chunk st2) i \<noteq> e" if "st_curr_entry st2 \<le> i" for i
    using e(1) that by (auto simp: fresh_def)
  show ?thesis using pool e ne unfolding pool_ok_def fr lv z m by (auto simp: st3)
qed

lemma inserted_keys:
  assumes "inserted st key k e ep st2 g st3"
  shows "entries_ok st3"
proof -
  note I = inserted_entries [OF assms]
  have E: "entries_ok st" and absent: "key \<notin> dom (set_map st)" and vk: "valid_key st key"
    and new: "new_entry_ok st e st2" and st3: "st3 = put_entry st2 e (key_entry st key) ep g"
    and len: "ep < length (st_index st)"
    using assms by (auto simp: inserted_def set_inv_def geom_ok_def)
  have idx: "st_index st3 = (st_index st)[ep := Ent e]" and ks: "st_key_size st3 = st_key_size st"
    and vs: "st_value_size st3 = st_value_size st"
    using new by (auto simp: new_entry_ok_def st3)
  note S = same_size_key [OF ks]
  have "valid_key st3 (entry_key st3 e') \<and> en_key (st_mem st3 e') = hash_key st3 (entry_key st3 e') \<and>
      length (en_dummy (st_mem st3 e')) = key_bytes st3 + st_value_size st3" if "live st3 e'" for e'
    using that I E vk S vs unfolding entries_ok_def by metis
  moreover have "p = q" if "p < length (st_index st3)" "q < length (st_index st3)"
    "st_index st3 ! p = Ent a" "st_index st3 ! q = Ent b" "entry_key st3 a = entry_key st3 b" for p q a b
  proof -
    have key: "entry_key st3 b \<noteq> key" if "b \<noteq> e" "live st3 b" for b
      using that I(1) [of b] I(8) [of b] absent by (auto simp: dom_set_map)
    have la: "live st3 a" "live st3 b" using that by (auto simp: live_nth)
    have ab: "a = e \<longleftrightarrow> b = e" using key [of a] key [of b] la I(3) that(5) by metis
    have slot: "st_index st3 ! r = Ent e \<longleftrightarrow> r = ep" if "r < length (st_index st)" for r
      using I(2) that len by (auto simp: idx nth_list_update live_nth)
    show ?thesis
    proof (cases "a = e")
      case True
      then show ?thesis using ab slot that by (simp add: idx)
    next
      case False
      then have "p \<noteq> ep" "q \<noteq> ep" using ab slot that len by (auto simp: idx)
      then have old: "st_index st ! p = Ent a" "st_index st ! q = Ent b"
        "p < length (st_index st)" "q < length (st_index st)"
        using that by (simp_all add: idx)
      then have "live st a" "live st b" by (auto simp: live_nth)
      then have "entry_key st a = entry_key st b" using that(5) I(8) by simp
      with old E show ?thesis unfolding entries_ok_def by blast
    qed
  qed
  ultimately show ?thesis unfolding entries_ok_def by blast
qed

lemma inserted_geom:
  assumes "inserted st key k e ep st2 g st3"
  shows "geom_ok st3 k"
proof -
  note I = inserted_entries [OF assms]
  have G: "geom_ok st k" and ep: "ep < 2 ^ k" "reach (st_index st) k (hash_key st key) ep"
    and new: "new_entry_ok st e st2" and st3: "st3 = put_entry st2 e (key_entry st key) ep g"
    using assms by (auto simp: inserted_def)
  have idx: "st_index st3 = (st_index st)[ep := Ent e]" "st_max_offset st3 = st_max_offset st"
    using new by (auto simp: new_entry_ok_def st3)
  have "reach (st_index st3) k (en_key (st_mem st3 a)) p" if "p < 2 ^ k" "st_index st3 ! p = Ent a" for p a
  proof (cases "p = ep")
    case True
    then have "a = e" using that ep G by (simp add: idx geom_ok_def)
    then show ?thesis using True ep(2) I(5) by (simp add: idx reach_update)
  next
    case False
    then have "st_index st ! p = Ent a" using that by (simp add: idx)
    moreover from this have "live st a" using that G by (auto simp: live_nth geom_ok_def)
    ultimately show ?thesis using that G I(7) by (simp add: idx geom_ok_def reach_update)
  qed
  then show ?thesis using G by (simp add: geom_ok_def idx)
qed

lemma inserted_inv:
  assumes "inserted st key k e ep st2 g st3"
  shows "set_inv st3"
    and "set_map st3 = (set_map st)(key \<mapsto> replicate (st_value_size st) 0)"
    and "st_index st3 ! ep = Ent e" "entry_key st3 e = key" "st_index st3 = (st_index st)[ep := Ent e]"
proof -
  note I = inserted_entries [OF assms]
  note E3 = inserted_keys [OF assms]
  have new: "new_entry_ok st e st2" and st3: "st3 = put_entry st2 e (key_entry st key) ep g"
    and len: "ep < length (st_index st)" and old: "\<forall>e'. st_index st ! ep \<noteq> Ent e'"
    and inv: "set_inv st" and left: "NULL \<in> set ((st_index st)[ep := Ent e])"
    using assms by (auto simp: inserted_def geom_ok_def)
  show idx: "st_index st3 = (st_index st)[ep := Ent e]" using new by (auto simp: new_entry_ok_def st3)
  then show "st_index st3 ! ep = Ent e" using len by simp
  show "entry_key st3 e = key" by (rule I(3))
  have "\<not> is_ent (st_index st ! ep)" using old by (cases "st_index st ! ep") (auto simp: is_ent_def)
  moreover have "is_ent (Ent e)" by (simp add: is_ent_def)
  ultimately have "n_slots is_ent st3 = n_slots is_ent st + 1"
    using n_slots_update [OF len idx, of is_ent] by simp
  then have "st_n_entries st3 = int (n_slots is_ent st3)" "\<not> st_arrayp st3"
    using inv new by (auto simp: st3 set_inv_def new_entry_ok_def)
  then show "set_inv st3"
    using inserted_geom [OF assms] inserted_pool [OF assms] E3 left idx by (auto simp: set_inv_def)
  have E: "entries_ok st" using inv by (simp add: set_inv_def)
  show "set_map st3 = (set_map st)(key \<mapsto> replicate (st_value_size st) 0)"
  proof
    fix x
    show "set_map st3 x = ((set_map st)(key \<mapsto> replicate (st_value_size st) 0)) x"
    proof (cases "x = key")
      case True
      then show ?thesis using I(1,3,4) set_map_live [OF E3, of e] by simp
    next
      case False
      then have "(\<exists>a. live st3 a \<and> entry_key st3 a = x \<and> entry_val st3 a = v) \<longleftrightarrow>
          (\<exists>a. live st a \<and> entry_key st a = x \<and> entry_val st a = v)" for v
        using I(1,2,3,8) by metis
      then have "set_map st3 x = Some v \<longleftrightarrow> set_map st x = Some v" for v
        by (simp add: set_map_Some [OF E] set_map_Some [OF E3])
      then have "set_map st3 x = set_map st x" by (metis option.exhaust)
      then show ?thesis using False by simp
    qed
  qed
qed

text \<open>The three \<open>_get\<close> functions differ in the order of their steps only.\<close>

lemma pool_n_garbages: "pool_ok (st\<lparr>st_n_garbages := g\<rparr>) = pool_ok st"
  by (simp add: pool_ok_def live_def fresh_def zero_entry_def key_bytes_def)

lemma new_entry_n_garbages: "new_entry_ok (st\<lparr>st_n_garbages := g\<rparr>) e st2 = new_entry_ok st e st2"
  by (simp add: new_entry_ok_def live_def zero_entry_def key_bytes_def)

lemma entry_new_n_garbages: "entry_new alloc st = (r, st') \<Longrightarrow> st_n_garbages st' = st_n_garbages st"
  by (auto simp: entry_new_def Let_def split: list.splits if_splits)

lemma put_absorb:
  "put_entry (st\<lparr>st_n_garbages := g'\<rparr>) e en ep g = put_entry st e en ep g"
  by (simp add: put_entry_def)

definition get_search :: "sen_set \<Rightarrow> bytes \<Rightarrow> (bool \<times> nat \<times> nat option) option" where
  "get_search st key =
     get_loop (st_index st) (hits st key) (st_max_offset st) (STEP (hash_key st key)) (hash_key st key) None"

definition new_slot :: "nat \<Rightarrow> nat option \<Rightarrow> nat" where
  "new_slot ep np = (case np of None \<Rightarrow> ep | Some np \<Rightarrow> np)"

definition less_garbage :: "sen_set \<Rightarrow> nat option \<Rightarrow> u32" where
  "less_garbage st np = (if np = None then st_n_garbages st else st_n_garbages st - 1)"

text \<open>The outcome of an insertion: no memory, or a new entry in its slot.\<close>

definition put_outcome ::
  "alloc \<Rightarrow> sen_set \<Rightarrow> bytes \<Rightarrow> nat \<Rightarrow> nat option \<Rightarrow> nat option \<Rightarrow> sen_set \<Rightarrow> bool" where
  "put_outcome alloc st key ep np r st' \<longleftrightarrow>
     r = None \<and> (\<exists>n. \<not> alloc n) \<and> (\<exists>g. st' = st\<lparr>st_n_garbages := g\<rparr>) \<or>
     (\<exists>e st2. new_entry_ok st e st2 \<and> r = Some (new_slot ep np) \<and>
        st' = put_entry st2 e (key_entry st key) (new_slot ep np) (less_garbage st np))"

lemma get_key_eq:
  "get_key alloc st key =
     do {
       (found, ep, np) \<leftarrow> get_search st key;
       Some
         (if found then (Some ep, st)
          else if st_key_size st = 0 then
            (if \<not> alloc (length key + 1) then (None, st)
             else
               (case entry_new alloc st of
                  (None, st1) \<Rightarrow> (None, st1)
                | (Some e, st1) \<Rightarrow>
                    (Some (new_slot ep np),
                     put_entry st1 e ((st_mem st1 e)\<lparr>en_key := hash_key st key, en_str := key\<rparr>)
                       (new_slot ep np) (less_garbage st1 np))))
          else
            (case entry_new alloc (st\<lparr>st_n_garbages := less_garbage st np\<rparr>) of
               (None, st1) \<Rightarrow> (None, st1)
             | (Some e, st1) \<Rightarrow>
                 (Some (new_slot ep np),
                  put_entry st1 e
                    (if st_key_size st = 4 then (st_mem st1 e)\<lparr>en_key := hash_key st key\<rparr>
                     else (st_mem st1 e)\<lparr>en_key := hash_key st key,
                            en_dummy := take (st_key_size st) key @ drop (st_key_size st) (en_dummy (st_mem st1 e))\<rparr>)
                    (new_slot ep np) (st_n_garbages st1))))
     }"
proof -
  have h: "hits st key = (\<lambda>e. en_key (st_mem st e) = str_hash key \<and> key = en_str (st_mem st e))"
    if "st_key_size st = 0" using that by (auto simp: hits_def)
  have i: "hits st key = (\<lambda>e. en_key (st_mem st e) = load32 key)" if "st_key_size st = 4"
    using that by (auto simp: hits_def)
  have b: "hits st key = (\<lambda>e. en_key (st_mem st e) = bin_hash key (st_key_size st) \<and>
           take (st_key_size st) key = take (st_key_size st) (en_dummy (st_mem st e)))"
    if "st_key_size st \<noteq> 0" "st_key_size st \<noteq> 4" using that by (auto simp: hits_def)
  consider "st_key_size st = 0" | "st_key_size st = 4" | "st_key_size st \<noteq> 0" "st_key_size st \<noteq> 4"
    by blast
  then show ?thesis
  proof cases
    case 1
    then show ?thesis
      by (auto simp: get_key_def sen_set_str_get_def get_search_def hash_key_def h Let_def new_slot_def
          less_garbage_def put_entry_def
          intro!: Option.bind_cong split: prod.splits option.splits)
  next
    case 2
    then show ?thesis
      by (auto simp: get_key_def sen_set_int_get_def get_search_def hash_key_def i Let_def new_slot_def
          less_garbage_def put_entry_def intro!: Option.bind_cong split: prod.splits option.splits)
  next
    case 3
    then show ?thesis
      by (auto simp: get_key_def sen_set_bin_get_def get_search_def hash_key_def b Let_def new_slot_def
          less_garbage_def put_entry_def intro!: Option.bind_cong split: prod.splits option.splits)
  qed
qed

lemma get_key_found:
  "get_search st key = Some (True, p, np) \<Longrightarrow> get_key alloc st key = Some (Some p, st)"
  by (simp add: get_key_eq)

lemma get_key_new:
  assumes "get_search st key = Some (False, ep, np)" "pool_ok st"
  shows "\<exists>r st'. get_key alloc st key = Some (r, st') \<and> put_outcome alloc st key ep np r st'"
proof (cases "st_key_size st = 0")
  case True
  obtain r st1 where e: "entry_new alloc st = (r, st1)" by fastforce
  have same: "\<exists>g. st = st\<lparr>st_n_garbages := g\<rparr>" by (rule exI [of _ "st_n_garbages st"]) simp
  have g: "less_garbage st1 np = less_garbage st np"
    using entry_new_n_garbages [OF e] by (simp add: less_garbage_def)
  from entry_new_spec [OF assms(2) e] show ?thesis
  proof (elim disjE conjE exE)
    fix n assume "r = None" "st1 = st" "\<not> alloc n"
    then show ?thesis using True assms(1) e same by (auto simp: get_key_eq put_outcome_def)
  next
    fix x assume r: "r = Some x" and new: "new_entry_ok st x st1"
    have "(st_mem st1 x)\<lparr>en_key := hash_key st key, en_str := key\<rparr> = key_entry st key"
      using new True by (simp add: new_entry_ok_def key_entry_def hash_key_def)
    then show ?thesis
      using True assms(1) e r new g same
      by (cases "alloc (length key + 1)") (auto simp: get_key_eq put_outcome_def)
  qed
next
  case False
  let ?g = "less_garbage st np"
  obtain r st1 where e: "entry_new alloc (st\<lparr>st_n_garbages := ?g\<rparr>) = (r, st1)" by fastforce
  have p: "pool_ok (st\<lparr>st_n_garbages := ?g\<rparr>)" using assms(2) by (simp add: pool_n_garbages)
  from entry_new_spec [OF p e] show ?thesis
  proof (elim disjE conjE exE)
    fix n assume "r = None" "st1 = st\<lparr>st_n_garbages := ?g\<rparr>" "\<not> alloc n"
    then show ?thesis using False assms(1) e by (auto simp: get_key_eq put_outcome_def)
  next
    fix x assume r: "r = Some x" and "new_entry_ok (st\<lparr>st_n_garbages := ?g\<rparr>) x st1"
    then have new: "new_entry_ok st x st1" by (simp add: new_entry_n_garbages)
    have g: "st_n_garbages st1 = ?g" using entry_new_n_garbages [OF e] by simp
    have "(if st_key_size st = 4 then (st_mem st1 x)\<lparr>en_key := hash_key st key\<rparr>
         else (st_mem st1 x)\<lparr>en_key := hash_key st key,
            en_dummy := take (st_key_size st) key @ drop (st_key_size st) (en_dummy (st_mem st1 x))\<rparr>)
        = key_entry st key"
      using new False by (simp add: new_entry_ok_def key_entry_def hash_key_def)
    then show ?thesis
      using False assms(1) e r new g by (auto simp: get_key_eq put_outcome_def)
  qed
qed

lemma set_map_n_garbages: "set_map (st\<lparr>st_n_garbages := g\<rparr>) = set_map st"
proof
  fix key
  have "is_key (st\<lparr>st_n_garbages := g\<rparr>) key = is_key st key"
    by (rule ext) (simp add: is_key_def entry_key_def split: slot.splits)
  moreover have "entry_val (st\<lparr>st_n_garbages := g\<rparr>) = entry_val st"
    by (rule ext) (simp add: entry_val_def key_bytes_def)
  ultimately show "set_map (st\<lparr>st_n_garbages := g\<rparr>) key = set_map st key"
    by (simp add: set_map_def split: option.split slot.split)
qed

lemma set_inv_n_garbages: "set_inv (st\<lparr>st_n_garbages := g\<rparr>) = set_inv st"
  by (simp add: set_inv_def geom_ok_def entries_ok_def pool_n_garbages n_slots_def live_def
      entry_key_def valid_key_def hash_key_def key_bytes_def)

lemma n_slots_pos: "x \<in> set (st_index st) \<Longrightarrow> P x \<Longrightarrow> 0 < n_slots P st"
  by (auto simp: n_slots_def filter_empty_conv)

text \<open>
  \<open>get\<close> on a table with at least two empty slots, in full: nothing changes for a key that is
  there; otherwise memory is exhausted and the map is the same, or the key now has a zero value.
\<close>

lemma get_key_spec:
  assumes inv: "set_inv st" and vk: "valid_key st key" and two: "2 \<le> n_slots (\<lambda>sl. sl = NULL) st"
  obtains (found) p e where "get_key alloc st key = Some (Some p, st)" "st_index st ! p = Ent e"
      "p < length (st_index st)" "entry_key st e = key" "key \<in> dom (set_map st)"
  | (exhausted) g n where "get_key alloc st key = Some (None, st\<lparr>st_n_garbages := g\<rparr>)" "\<not> alloc n"
      "key \<notin> dom (set_map st)"
  | (new) p np e k st2 where "get_key alloc st key = Some (Some p, put_entry st2 e (key_entry st key) p (less_garbage st np))"
      "inserted st key k e p st2 (less_garbage st np) (put_entry st2 e (key_entry st key) p (less_garbage st np))"
      "key \<notin> dom (set_map st)" "st_index st ! p = (if np = None then NULL else GARBAGE)"
proof -
  obtain k where G: "geom_ok st k" and N: "NULL \<in> set (st_index st)" and E: "entries_ok st"
    and P: "pool_ok st"
    using inv by (auto simp: set_inv_def)
  have g: "k \<le> 32" "length (st_index st) = 2 ^ k" "st_max_offset st = mask k"
    using G by (auto simp: geom_ok_def)
  have R: "\<forall>p e. p < 2 ^ k \<longrightarrow> st_index st ! p = Ent e \<longrightarrow> hits st key e \<longrightarrow>
      reach (st_index st) k (hash_key st key) p"
    using hit_reach [OF G E vk] by blast
  have lv: "live st e" if "p < 2 ^ k" "st_index st ! p = Ent e" for p e
    using that g(2) by (auto simp: live_nth)
  have abs: "key \<notin> dom (set_map st)" if "\<And>p e. p < 2 ^ k \<Longrightarrow> st_index st ! p = Ent e \<Longrightarrow> \<not> hits st key e"
  proof
    assume "key \<in> dom (set_map st)"
    then obtain e where e: "live st e" "entry_key st e = key" using dom_set_map by blast
    then obtain p where "p < 2 ^ k" "st_index st ! p = Ent e" using g(2) by (auto simp: live_nth)
    then show False using that hits_iff [OF E e(1) vk] e(2) by blast
  qed
  have ins: thesis if s: "get_search st key = Some (False, q, np)"
    and p: "new_slot q np = p" "p < 2 ^ k" "st_index st ! p = (if np = None then NULL else GARBAGE)"
      "reach (st_index st) k (hash_key st key) p" and a: "key \<notin> dom (set_map st)" for q np p
  proof -
    have nent: "\<forall>e'. st_index st ! p \<noteq> Ent e'" using p(3) by simp
    have left: "NULL \<in> set ((st_index st)[p := Ent e])" for e
    proof -
      have "n_slots (\<lambda>sl. sl = NULL) (st\<lparr>st_index := (st_index st)[p := Ent e]\<rparr>) + 1 \<ge> 2"
        using n_slots_update [of p st "st\<lparr>st_index := (st_index st)[p := Ent e]\<rparr>" "Ent e" "\<lambda>sl. sl = NULL"]
          p(2) g(2) two by (cases "st_index st ! p = NULL") auto
      then show ?thesis by (auto simp: n_slots_def filter_empty_conv Suc_le_eq)
    qed
    obtain r st' where o: "get_key alloc st key = Some (r, st')" "put_outcome alloc st key q np r st'"
      using get_key_new [OF s P] by blast
    from o(2) show thesis unfolding put_outcome_def p(1)
    proof (elim disjE conjE exE)
      fix n g' assume "r = None" "\<not> alloc n" "st' = st\<lparr>st_n_garbages := g'\<rparr>"
      with o(1) a exhausted show thesis by blast
    next
      fix e st2 assume n: "new_entry_ok st e st2" "r = Some p"
        "st' = put_entry st2 e (key_entry st key) p (less_garbage st np)"
      then have "inserted st key k e p st2 (less_garbage st np) st'"
        using inv vk a G p nent left by (simp add: inserted_def)
      with o(1) n a p(3) show thesis using new by blast
    qed
  qed
  show thesis
  proof (rule get_loop_spec [OF g(1,2) N R])
    fix p e np
    assume "get_loop (st_index st) (hits st key) (mask k) (STEP (hash_key st key)) (hash_key st key) None
        = Some (True, p, np)" and p: "p < 2 ^ k" "st_index st ! p = Ent e" "hits st key e"
    then have "get_key alloc st key = Some (Some p, st)"
      by (intro get_key_found) (simp add: get_search_def g(3))
    moreover have "entry_key st e = key" using lv [OF p(1,2)] hits_iff [OF E lv [OF p(1,2)] vk] p(3) by simp
    ultimately show thesis using p(1,2) lv [OF p(1,2)] g(2) found [of p e] by (auto simp: dom_set_map)
  next
    fix q
    assume "get_loop (st_index st) (hits st key) (mask k) (STEP (hash_key st key)) (hash_key st key) None
        = Some (False, q, None)" "q < 2 ^ k" "st_index st ! q = NULL" "reach (st_index st) k (hash_key st key) q"
      and "\<And>p e. p < 2 ^ k \<Longrightarrow> st_index st ! p = Ent e \<Longrightarrow> \<not> hits st key e"
    then show thesis using ins [of q None q] abs by (simp add: get_search_def g(3) new_slot_def)
  next
    fix q h
    assume "get_loop (st_index st) (hits st key) (mask k) (STEP (hash_key st key)) (hash_key st key) None
        = Some (False, q, Some h)" "h < 2 ^ k" "st_index st ! h = GARBAGE" "reach (st_index st) k (hash_key st key) h"
      and "\<And>p e. p < 2 ^ k \<Longrightarrow> st_index st ! p = Ent e \<Longrightarrow> \<not> hits st key e"
    then show thesis using ins [of q "Some h" h] abs by (simp add: get_search_def g(3) new_slot_def)
  qed
qed

end
