(* ===== verification/Hset_Reset.thy ===== *)
theory Hset_Reset
  imports Hset_Ops
begin

text \<open>
  Resizing and opening a \<open>sen_set\<close>: the doubling loops, and the transfer of the entries to a
  new index.
\<close>

section \<open>Doubling\<close>

lemma unat_2p: "k < 32 \<Longrightarrow> unat (2 ^ k :: u32) = 2 ^ k"
proof -
  assume "k < 32"
  then have "(2::nat) ^ k < 2 ^ 32" by (intro power_strict_increasing) auto
  moreover have "unat (of_nat (2 ^ k) :: u32) = 2 ^ k mod 2 ^ 32" unfolding unat_of_nat by simp
  ultimately show ?thesis by simp
qed

lemma double_until_run:
  assumes "j \<le> k" "\<forall>i. j \<le> i \<and> i < k \<longrightarrow> again (2 ^ i)"
  shows "double_until again (2 ^ j) = double_until again (2 ^ k)"
  using assms
proof (induction k)
  case (Suc k)
  show ?case
  proof (cases "j = Suc k")
    case False
    then have "j \<le> k" using Suc.prems(1) by simp
    then have "double_until again (2 ^ j) = double_until again (2 ^ k)" using Suc by simp
    moreover have "again (2 ^ k)" using Suc.prems(2) \<open>j \<le> k\<close> by blast
    then have "double_until again (2 ^ k) = double_until again (2 ^ Suc k)"
      by (subst double_until.simps) (simp add: mult.commute)
    ultimately show ?thesis by simp
  qed simp
qed simp

lemma double_until_spec:
  assumes "\<not> again (2 ^ 31)"
  obtains k where "8 \<le> k" "k \<le> 31" "double_until again (of_nat INITIAL_INDEX_SIZE) = Some (2 ^ k)"
    "\<not> again (2 ^ k)"
proof -
  let ?P = "\<lambda>k. 8 \<le> k \<and> \<not> again (2 ^ k :: u32)"
  define k where "k = (LEAST k. ?P k)"
  have "?P 31" using assms by simp
  then have k: "?P k" and le: "k \<le> 31" unfolding k_def by (rule LeastI, rule Least_le)
  have "\<forall>i. 8 \<le> i \<and> i < k \<longrightarrow> again (2 ^ i)" using not_less_Least unfolding k_def by blast
  then have "double_until again (2 ^ 8) = double_until again (2 ^ k)"
    using double_until_run [of 8 k] k by simp
  also have "\<dots> = Some (2 ^ k)" using k by (subst double_until.simps) simp
  finally have "double_until again (of_nat INITIAL_INDEX_SIZE) = Some (2 ^ k)"
    by (simp add: INITIAL_INDEX_SIZE_def)
  then show thesis using that [of k] k le by blast
qed

text \<open>Past \<open>2 ^ 31\<close> the doubling wraps to 0 and never ends.\<close>

lemma double_until_diverges:
  assumes "\<And>k. 8 \<le> k \<Longrightarrow> k \<le> 31 \<Longrightarrow> again (2 ^ k)" "again 0"
  shows "double_until again (of_nat INITIAL_INDEX_SIZE) = None"
proof -
  have zero: False if "double_until again 0 = Some r" for r
  proof -
    have "again = again \<longrightarrow> (0::u32) = 0 \<longrightarrow> False"
    proof (rule double_until.raw_induct [where P = "\<lambda>a n r. a = again \<longrightarrow> n = 0 \<longrightarrow> False", OF _ that],
        intro impI)
      fix loop :: "(u32 \<Rightarrow> bool) \<Rightarrow> u32 \<Rightarrow> u32 option" and a n r
      assume IH: "\<And>a n r. loop a n = Some r \<Longrightarrow> a = again \<longrightarrow> n = 0 \<longrightarrow> False"
        and body: "(if a n then loop a (n * 2) else Some n) = Some r" and eqs: "a = again" "n = 0"
      have "loop again 0 = Some r" using body assms(2) by (simp add: eqs)
      then show False using IH by blast
    qed
    then show False by simp
  qed
  have "double_until again (2 ^ 8) = double_until again (2 ^ 32)"
    using assms(1) by (intro double_until_run) auto
  moreover have "(2::u32) ^ 32 = 0" by simp
  ultimately have "double_until again (of_nat INITIAL_INDEX_SIZE) = double_until again 0"
    by (simp only: INITIAL_INDEX_SIZE_def) simp
  then show ?thesis using zero by (cases "double_until again 0") auto
qed

section \<open>Transfer of the entries\<close>

lemma distinct_filter_nth:
  "distinct (filter P xs) \<longleftrightarrow>
     (\<forall>p < length xs. \<forall>q < length xs. P (xs ! p) \<longrightarrow> xs ! p = xs ! q \<longrightarrow> p = q)"
proof (induction xs)
  case (Cons x xs)
  then show ?case by (auto simp: All_less_Suc2 in_set_conv_nth)
qed simp

lemma is_ent_Ent [simp]: "is_ent (Ent e)" "\<not> is_ent NULL" "\<not> is_ent GARBAGE"
  by (simp_all add: is_ent_def)

lemma is_ent_iff: "is_ent sl \<longleftrightarrow> (\<exists>e. sl = Ent e)"
  by (cases sl) auto

definition index_ok :: "(eid \<Rightarrow> entry) \<Rightarrow> nat \<Rightarrow> slot list \<Rightarrow> bool" where
  "index_ok mem k index \<longleftrightarrow>
     length index = 2 ^ k \<and> GARBAGE \<notin> set index \<and>
     (\<forall>p e. p < 2 ^ k \<longrightarrow> index ! p = Ent e \<longrightarrow> reach index k (en_key (mem e)) p)"

lemma reset_loop_spec:
  assumes "k \<le> 32" "index_ok mem k index"
    and "length (filter is_ent rest) < length (filter (\<lambda>sl. sl = NULL) index)"
  shows "\<exists>index'. reset_loop mem (mask k) rest index = Some index' \<and> index_ok mem k index' \<and>
     mset (filter is_ent index') = mset (filter is_ent index) + mset (filter is_ent rest)"
  using assms(2,3)
proof (induction rest arbitrary: index)
  case (Cons sl rest)
  show ?case
  proof (cases "\<exists>e. sl = Ent e")
    case False
    then show ?thesis using Cons.IH [OF Cons.prems(1)] Cons.prems(2) by (cases sl) auto
  next
    case True
    then obtain e where e: "sl = Ent e" by blast
    let ?h = "en_key (mem e)"
    have len: "length index = 2 ^ k" using Cons.prems(1) by (simp add: index_ok_def)
    have "filter (\<lambda>sl. sl = NULL) index \<noteq> []" using Cons.prems(2) by auto
    then have "NULL \<in> set index" by (auto simp: filter_empty_conv)
    then obtain q where q: "free_loop index (mask k) (STEP ?h) ?h = Some q" "q < 2 ^ k"
      "index ! q = NULL" "reach index k ?h q"
      using free_loop_spec [OF assms(1) len] by blast
    let ?i = "index[q := Ent e]"
    have n: "length (filter (\<lambda>sl. sl = NULL) ?i) + 1 = length (filter (\<lambda>sl. sl = NULL) index)"
      using filter_update_count [of q index "\<lambda>sl. sl = NULL" "Ent e"] q len by simp
    have ok: "index_ok mem k ?i"
      unfolding index_ok_def
    proof (intro conjI allI impI)
      show "length ?i = 2 ^ k" using len by simp
      show "GARBAGE \<notin> set ?i"
        using Cons.prems(1) set_update_subset_insert [of index q "Ent e"] by (auto simp: index_ok_def)
      fix p e' assume p: "p < 2 ^ k" "?i ! p = Ent e'"
      show "reach ?i k (en_key (mem e')) p"
      proof (cases "p = q")
        case True
        then show ?thesis using p q len by (auto intro: reach_update)
      next
        case False
        then show ?thesis using p Cons.prems(1) by (auto simp: index_ok_def intro: reach_update)
      qed
    qed
    have m: "mset (filter is_ent ?i) = add_mset (Ent e) (mset (filter is_ent index))"
      using q len by (simp add: mset_update filter_diff_mset)
    from Cons.IH [OF ok] n Cons.prems(2) e q(1) m show ?thesis by auto
  qed
qed simp

section \<open>Resizing\<close>

lemma mask_2p: "(2 ^ k :: u32) - 1 = mask k"
  by (simp add: mask_eq_exp_minus_1)

lemma unat_mask_Suc: "k \<le> 31 \<Longrightarrow> unat (mask k :: u32) + 1 = 2 ^ k"
proof -
  assume "k \<le> 31"
  then have u: "unat (2 ^ k :: u32) = 2 ^ k" by (simp add: unat_2p)
  have "(1 :: u32) \<le> 2 ^ k" by (simp add: word_le_nat_alt u)
  then have "unat (mask k :: u32) = 2 ^ k - 1" by (simp add: unat_sub u flip: mask_2p)
  then show ?thesis by simp
qed

lemma count_kinds:
  "n_slots is_ent st + n_slots (\<lambda>sl. sl = NULL) st + n_slots (\<lambda>sl. sl = GARBAGE) st =
     length (st_index st)"
proof -
  have "length (filter is_ent xs) + length (filter (\<lambda>sl. sl = NULL) xs) +
      length (filter (\<lambda>sl. sl = GARBAGE) xs) = length xs" for xs
    by (induction xs) (auto simp: is_ent_iff, metis slot.exhaust)
  then show ?thesis by (simp add: n_slots_def)
qed

lemma entries_distinct:
  "entries_ok st \<Longrightarrow> distinct (filter is_ent (st_index st))"
  by (auto simp: distinct_filter_nth entries_ok_def is_ent_iff)

text \<open>
  An index that holds the same entries on their probe paths and no deleted slot can replace the
  old one.
\<close>

lemma new_index:
  assumes inv: "set_inv st" and k: "8 \<le> k" "k \<le> 31" and ok: "index_ok (st_mem st) k index"
    and m: "mset (filter is_ent index) = mset (filter is_ent (st_index st))"
    and room: "n_slots is_ent st < 2 ^ k"
    and st': "st' = st\<lparr>st_index := index, st_max_offset := mask k, st_n_garbages := 0\<rparr>"
  shows "set_inv st'" "set_map st' = set_map st" "counts_ok st'"
    "n_slots (\<lambda>sl. sl = NULL) st' = 2 ^ k - n_slots is_ent st" "n_slots is_ent st' = n_slots is_ent st"
proof -
  have E: "entries_ok st" and P: "pool_ok st" using inv by (auto simp: set_inv_def)
  have mem: "st_mem st' = st_mem st" "st_key_size st' = st_key_size st" "st_value_size st' = st_value_size st"
    by (simp_all add: st')
  have keys: "entry_key st' = entry_key st" "entry_val st' = entry_val st" "hash_key st' = hash_key st"
    "valid_key st' = valid_key st" "key_bytes st' = key_bytes st" "zero_entry st' = zero_entry st"
    by (auto simp: fun_eq_iff entry_key_def entry_val_def hash_key_def valid_key_def key_bytes_def
        zero_entry_def mem)
  have live: "live st' = live st"
  proof
    fix e
    have "Ent e \<in> set index \<longleftrightarrow> Ent e \<in># mset (filter is_ent index)" by simp
    also have "\<dots> \<longleftrightarrow> Ent e \<in> set (st_index st)" unfolding m by simp
    finally show "live st' e = live st e" by (simp add: live_def st')
  qed
  have d: "distinct (filter is_ent index)"
    using entries_distinct [OF E] m by (metis mset_eq_imp_distinct_iff)
  show cnt: "n_slots is_ent st' = n_slots is_ent st"
    using m by (simp add: n_slots_def st') (metis mset_eq_length mset_filter)
  have E': "entries_ok st'"
    unfolding entries_ok_def keys live
  proof (intro conjI allI impI)
    fix p q a b
    assume *: "p < length (st_index st')" "q < length (st_index st')" "st_index st' ! p = Ent a"
      "st_index st' ! q = Ent b" "entry_key st a = entry_key st b"
    then have "live st' a" "live st' b" by (auto simp: live_nth)
    then have "a = b" using live_key_unique [OF E] *(5) by (simp add: live)
    then show "p = q" using * d by (auto simp: distinct_filter_nth st')
  qed (use E in \<open>auto simp: entries_ok_def mem\<close>)
  show "set_map st' = set_map st"
    using E E' by (intro set_map_cong) (auto simp: live keys)
  have noG: "n_slots (\<lambda>sl. sl = GARBAGE) st' = 0"
    using ok by (auto simp: n_slots_def st' index_ok_def filter_empty_conv)
  then show "counts_ok st'" by (simp add: counts_ok_def st')
  have "length (st_index st') = 2 ^ k" using ok by (simp add: st' index_ok_def)
  then show nulls: "n_slots (\<lambda>sl. sl = NULL) st' = 2 ^ k - n_slots is_ent st"
    using count_kinds [of st'] noG cnt by simp
  then have "n_slots (\<lambda>sl. sl = NULL) st' \<noteq> 0" using room by simp
  then have "NULL \<in> set (st_index st')" by (auto simp: n_slots_def filter_empty_conv)
  moreover have "geom_ok st' k" using ok k by (simp add: geom_ok_def st' index_ok_def)
  moreover have "pool_ok st'"
    using P unfolding pool_ok_def fresh_def live keys by (simp add: st')
  ultimately show "set_inv st'" using inv E' cnt by (auto simp: set_inv_def st')
qed

text \<open>A successful reset to the default size, and what happens otherwise.\<close>

definition set_ok :: "sen_set \<Rightarrow> bool" where
  "set_ok st \<longleftrightarrow> set_inv st \<and> counts_ok st \<and> 2 \<le> n_slots (\<lambda>sl. sl = NULL) st"

lemma reset_ok:
  assumes inv: "set_inv st" and small: "st_n_entries st < 2 ^ 30" and ne: "unat ne0 < 2 ^ 31"
    "ne0 = 0 \<or> st_n_entries st * 2 \<le> int (unat ne0)"
  shows "(\<exists>st'. sen_set_reset alloc st ne0 = Some (sen_success, st') \<and> set_ok st' \<and>
            set_map st' = set_map st \<and> st_n_entries st' = st_n_entries st \<and>
            st_key_size st' = st_key_size st \<and> st_value_size st' = st_value_size st \<and>
            126 < n_slots (\<lambda>sl. sl = NULL) st') \<or>
         sen_set_reset alloc st ne0 = Some (sen_memory_exhausted, st) \<and> (\<exists>n. \<not> alloc n)"
proof -
  define ne where "ne = (if ne0 = 0 then word_of_int (st_n_entries st * 2) else ne0)"
  have cnt: "st_n_entries st = int (n_slots is_ent st)" using inv by (simp add: set_inv_def)
  have "0 \<le> st_n_entries st * 2" "st_n_entries st * 2 < 2 ^ 31" using cnt small by simp_all
  then have "uint (word_of_int (st_n_entries st * 2) :: u32) = st_n_entries st * 2"
    by (subst uint_word_of_int) (simp add: mod_pos_pos_trivial)
  then have conv: "int (unat (word_of_int (st_n_entries st * 2) :: u32)) = st_n_entries st * 2" by simp
  have une: "int (unat ne) \<ge> st_n_entries st * 2"
    using conv ne(2) by (cases "ne0 = 0") (simp_all add: ne_def)
  have une2: "unat ne < 2 ^ 31"
  proof (cases "ne0 = 0")
    case True
    have "int (unat ne) < 2 ^ 31" unfolding ne_def if_P [OF True] conv by fact
    then show ?thesis by (simp only: of_nat_less_numeral_power_cancel_iff)
  qed (use ne(1) in \<open>simp add: ne_def\<close>)
  then have le: "\<not> INT_MAX < ne" using une2 by (simp add: INT_MAX_def word_less_nat_alt)
  have "\<not> (2 ^ 31 :: u32) \<le> ne" using une2 by (simp add: word_le_nat_alt)
  then obtain k where k: "8 \<le> k" "k \<le> 31"
    "double_until (\<lambda>n. n \<le> ne) (of_nat INITIAL_INDEX_SIZE) = Some (2 ^ k)" "\<not> (2 ^ k) \<le> ne"
    by (rule double_until_spec)
  have "unat ne < 2 ^ k" using k unat_2p [of k] by (simp add: word_le_nat_alt not_le)
  then have two: "2 * n_slots is_ent st < 2 ^ k" using une cnt by linarith
  have "(2::nat) ^ 8 \<le> 2 ^ k" using k(1) by (rule power_increasing) simp
  then have big: "126 + n_slots is_ent st < 2 ^ k" using two by simp
  show ?thesis
  proof (cases "alloc (unat (2 ^ k :: u32) * 8)")
    case False
    then have "sen_set_reset alloc st ne0 = Some (sen_memory_exhausted, st)"
      using le k(3) by (simp add: sen_set_reset_def ne_def [symmetric] Let_def)
    with False show ?thesis by blast
  next
    case True
    obtain k0 where g: "geom_ok st k0" using inv by (auto simp: set_inv_def)
    then have "unat (st_max_offset st) + 1 = length (st_index st)"
      using unat_mask_Suc [of k0] by (simp add: geom_ok_def)
    then have whole: "take (unat (st_max_offset st) + 1) (st_index st) = st_index st" by simp
    have "index_ok (st_mem st) k (replicate (2 ^ k) NULL)" by (simp add: index_ok_def)
    moreover have "length (filter is_ent (st_index st)) < length (filter (\<lambda>sl. sl = NULL) (replicate (2 ^ k) NULL))"
      using big by (simp add: n_slots_def)
    ultimately obtain index where i: "reset_loop (st_mem st) (mask k) (st_index st) (replicate (2 ^ k) NULL) = Some index"
      "index_ok (st_mem st) k index" "mset (filter is_ent index) = mset (filter is_ent (st_index st))"
      using reset_loop_spec [of k "st_mem st" "replicate (2 ^ k) NULL" "st_index st"] k(2) by auto
    define st' where "st' = st\<lparr>st_index := index, st_max_offset := mask k, st_n_garbages := 0\<rparr>"
    have r: "sen_set_reset alloc st ne0 = Some (sen_success, st')"
      using le k True i(1) unat_2p [of k]
      by (simp add: sen_set_reset_def ne_def [symmetric] Let_def whole [simplified] mask_2p st'_def)
    have room: "n_slots is_ent st < 2 ^ k" using big by simp
    note N = new_index [OF inv k(1,2) i(2,3) room st'_def]
    have "set_ok st'" "126 < n_slots (\<lambda>sl. sl = NULL) st'" using N big by (auto simp: set_ok_def)
    with r N(2) show ?thesis by (auto simp: st'_def)
  qed
qed

end
