(* ===== verification/Hset_Api.thy ===== *)
theory Hset_Api
  imports Hset_Reset
begin

text \<open>
  The interface of lib/set.c: opening, lookup, insertion, storing a value and deletion on the
  map that a \<open>sen_set\<close> stands for; the states reachable by these operations; and what happens
  when memory runs out.
\<close>

section \<open>Opening\<close>

lemma open_ok:
  assumes "double_until (\<lambda>n. n < init_size) (of_nat INITIAL_INDEX_SIZE) = Some (2 ^ k)" "8 \<le> k" "k \<le> 31"
    and "sen_set_open alloc key_size value_size init_size = Some (Some st)"
  shows "set_ok st \<and> set_map st = Map.empty \<and> st_n_entries st = 0 \<and>
    st_key_size st = key_size \<and> st_value_size st = value_size"
proof -
  have u: "unat (2 ^ k :: u32) = 2 ^ k" using assms(3) by (simp add: unat_2p)
  have st: "st_index st = replicate (2 ^ k) NULL" "st_max_offset st = mask k" "st_n_entries st = 0"
    "st_n_garbages st = 0" "st_garbages st = []" "st_curr_entry st = 0" "st_arrayp st = False"
    "st_chunks st = (\<lambda>_. False)" "st_key_size st = key_size" "st_value_size st = value_size"
    using assms(1,4) by (auto simp: sen_set_open_def u mask_2p split: if_splits)
  have nl: "\<not> live st e" for e by (simp add: live_def st)
  have "(2::nat) ^ 8 \<le> 2 ^ k" using assms(2) by (rule power_increasing) simp
  then have "2 \<le> n_slots (\<lambda>sl. sl = NULL) st" by (simp add: n_slots_def st)
  moreover have "geom_ok st k" using assms(2,3) by (simp add: geom_ok_def st)
  moreover have "entries_ok st" by (simp add: entries_ok_def nl st)
  moreover have "pool_ok st" by (simp add: pool_ok_def nl st)
  ultimately have "set_ok st"
    by (auto simp: set_ok_def set_inv_def counts_ok_def n_slots_def st)
  moreover have "set_map st = Map.empty" using nl set_map_None by blast
  ultimately show ?thesis using st by simp
qed

lemma open_returns:
  "sen_set_open alloc key_size value_size init_size = None \<longleftrightarrow> 2 ^ 31 < init_size"
proof (cases "2 ^ 31 < init_size")
  case True
  have "(2 ^ k :: u32) < init_size" if "k \<le> 31" for k
  proof -
    have "(2::nat) ^ k \<le> 2 ^ 31" using that by (intro power_increasing) auto
    then show ?thesis using True that by (simp add: word_less_nat_alt unat_2p)
  qed
  moreover have "(0::u32) < init_size" using True by (metis word_gt_0 word_not_simps(1))
  ultimately show ?thesis using True
    by (simp add: sen_set_open_def double_until_diverges)
next
  case False
  then obtain k where "double_until (\<lambda>n. n < init_size) (of_nat INITIAL_INDEX_SIZE) = Some (2 ^ k)"
    by (metis double_until_spec)
  then show ?thesis using False by (simp add: sen_set_open_def)
qed

section \<open>Lookup\<close>

lemma at_finds:
  assumes "set_inv st" "valid_key st key"
  shows "\<exists>r. sen_set_at alloc st key = Some (r, st) \<and>
    (r = None \<longleftrightarrow> set_map st key = None) \<and>
    (\<forall>p. r = Some p \<longrightarrow> (\<exists>e. st_index st ! p = Ent e \<and> entry_key st e = key \<and>
       set_map st key = Some (entry_val st e)))"
proof -
  have na: "\<not> st_arrayp st" and E: "entries_ok st" using assms(1) by (auto simp: set_inv_def)
  from at_key_spec [OF assms] show ?thesis
  proof (elim disjE conjE exE)
    assume "at_key st key = Some None" "key \<notin> dom (set_map st)"
    with na show ?thesis by (auto simp: sen_set_at_def domIff)
  next
    fix p e assume "at_key st key = Some (Some p)" "st_index st ! p = Ent e" "live st e" "entry_key st e = key"
    with na show ?thesis using set_map_live [OF E] by (auto simp: sen_set_at_def)
  qed
qed

section \<open>Insertion\<close>

lemma get_key_ok:
  assumes inv: "set_inv st" and vk: "valid_key st key" and two: "2 \<le> n_slots (\<lambda>sl. sl = NULL) st"
  shows "\<exists>r st'. get_key alloc st key = Some (r, st') \<and> set_inv st' \<and>
     (r = None \<longrightarrow> (\<exists>n. \<not> alloc n) \<and> key \<notin> dom (set_map st) \<and> set_map st' = set_map st) \<and>
     (\<forall>p. r = Some p \<longrightarrow> (\<exists>e. p < length (st_index st') \<and> st_index st' ! p = Ent e \<and> live st' e \<and> entry_key st' e = key) \<and>
        set_map st' = (if key \<in> dom (set_map st) then set_map st
                       else (set_map st)(key \<mapsto> replicate (st_value_size st) 0))) \<and>
     (counts_ok st \<and> r \<noteq> None \<longrightarrow> counts_ok st') \<and>
     st_key_size st' = st_key_size st \<and> st_value_size st' = st_value_size st \<and>
     st_n_entries st' \<le> st_n_entries st + 1 \<and>
     n_slots (\<lambda>sl. sl = NULL) st \<le> n_slots (\<lambda>sl. sl = NULL) st' + 1"
proof (rule get_key_spec [OF inv vk two, of alloc])
  fix p e assume "get_key alloc st key = Some (Some p, st)" "st_index st ! p = Ent e"
    "p < length (st_index st)" "entry_key st e = key" "key \<in> dom (set_map st)"
  then show ?thesis using inv by (auto simp: live_nth)
next
  fix g n assume "get_key alloc st key = Some (None, st\<lparr>st_n_garbages := g\<rparr>)" "\<not> alloc n"
    "key \<notin> dom (set_map st)"
  then show ?thesis using inv
    by (auto simp: set_map_n_garbages set_inv_n_garbages n_slots_def)
next
  fix p np e k st2
  let ?st = "put_entry st2 e (key_entry st key) p (less_garbage st np)"
  assume r: "get_key alloc st key = Some (Some p, ?st)"
    and ins: "inserted st key k e p st2 (less_garbage st np) ?st"
    and a: "key \<notin> dom (set_map st)" and old: "st_index st ! p = (if np = None then NULL else GARBAGE)"
  note I = inserted_inv [OF ins] and E = inserted_entries [OF ins]
  have len: "p < length (st_index st)" using ins by (auto simp: inserted_def geom_ok_def)
  have new: "new_entry_ok st e st2" using ins by (simp add: inserted_def)
  note U = n_slots_update [OF len I(5)]
  have "counts_ok ?st" if "counts_ok st"
  proof (cases "np = None")
    case True
    then show ?thesis using U [of "\<lambda>sl. sl = GARBAGE"] old that
      by (simp add: counts_ok_def less_garbage_def)
  next
    case False
    moreover from this old have "st_index st ! p = GARBAGE" by simp
    ultimately have "n_slots (\<lambda>sl. sl = GARBAGE) st = Suc (n_slots (\<lambda>sl. sl = GARBAGE) ?st)"
      using U [of "\<lambda>sl. sl = GARBAGE"] by simp
    moreover obtain g where "np = Some g" using False by blast
    moreover from this have "st_n_garbages ?st = st_n_garbages st - 1" by (simp add: less_garbage_def)
    ultimately show ?thesis using that unfolding counts_ok_def by (metis add_diff_cancel_left' of_nat_Suc)
  qed
  moreover have "n_slots (\<lambda>sl. sl = NULL) st \<le> n_slots (\<lambda>sl. sl = NULL) ?st + 1"
    using U [of "\<lambda>sl. sl = NULL"] by (cases "st_index st ! p = NULL") auto
  ultimately show ?thesis using r I E(1) a new len by (auto simp: new_entry_ok_def)
qed

lemma load_arith:
  assumes "set_ok st" "\<not> st_max_offset st < (word_of_int (st_n_entries st) + st_n_garbages st) * 2"
  shows "128 \<le> n_slots (\<lambda>sl. sl = NULL) st"
proof -
  let ?ne = "n_slots is_ent st" and ?ng = "n_slots (\<lambda>sl. sl = GARBAGE) st"
  obtain k where g: "geom_ok st k" using assms(1) by (auto simp: set_ok_def set_inv_def)
  then have k: "8 \<le> k" "k \<le> 31" "length (st_index st) = 2 ^ k" "st_max_offset st = mask k"
    by (auto simp: geom_ok_def)
  have c: "st_n_entries st = int ?ne" "st_n_garbages st = of_nat ?ng"
    using assms(1) by (auto simp: set_ok_def set_inv_def counts_ok_def)
  have tot: "?ne + n_slots (\<lambda>sl. sl = NULL) st + ?ng = 2 ^ k" using count_kinds [of st] k(3) by simp
  have "(2::nat) ^ k \<le> 2 ^ 31" using k(2) by (rule power_increasing) simp
  then have fit: "(?ne + ?ng) * 2 \<le> 2 ^ 32 - 4" using tot assms(1) by (simp add: set_ok_def)
  have "(word_of_int (st_n_entries st) + st_n_garbages st) * 2 = (of_nat ((?ne + ?ng) * 2) :: u32)"
    by (simp add: c)
  also have "unat \<dots> = (?ne + ?ng) * 2" using fit unfolding unat_of_nat by simp
  finally have "(?ne + ?ng) * 2 < 2 ^ k"
    using assms(2) unat_mask_Suc [OF k(2)] by (simp add: word_less_nat_alt k(4))
  moreover have "(2::nat) ^ 8 \<le> 2 ^ k" using k(1) by (rule power_increasing) simp
  ultimately show ?thesis using tot by simp
qed

lemma get_inserts:
  assumes "set_ok st" "valid_key st key" "st_n_entries st < 2 ^ 30"
  shows "\<exists>r st'. sen_set_get alloc st key = Some (r, st') \<and> set_inv st' \<and>
     (r = None \<longrightarrow> (\<exists>n. \<not> alloc n) \<and> key \<notin> dom (set_map st) \<and> set_map st' = set_map st) \<and>
     (\<forall>p. r = Some p \<longrightarrow> (\<exists>e. p < length (st_index st') \<and> st_index st' ! p = Ent e \<and> live st' e \<and> entry_key st' e = key) \<and>
        set_map st' = (if key \<in> dom (set_map st) then set_map st
                       else (set_map st)(key \<mapsto> replicate (st_value_size st) 0))) \<and>
     ((\<forall>n. alloc n) \<longrightarrow> set_ok st') \<and>
     st_key_size st' = st_key_size st \<and> st_value_size st' = st_value_size st \<and>
     st_n_entries st' \<le> st_n_entries st + 1"
proof -
  have na: "\<not> st_arrayp st" and inv: "set_inv st" using assms(1) by (auto simp: set_ok_def set_inv_def)
  obtain st1 where st1: "sen_set_get alloc st key = get_key alloc st1 key" "set_ok st1"
    "set_map st1 = set_map st" "st_key_size st1 = st_key_size st" "st_value_size st1 = st_value_size st"
    "st_n_entries st1 = st_n_entries st" "(\<forall>n. alloc n) \<longrightarrow> 126 < n_slots (\<lambda>sl. sl = NULL) st1"
  proof (cases "st_max_offset st < (word_of_int (st_n_entries st) + st_n_garbages st) * 2")
    case False
    then show thesis using that [of st] assms(1) na load_arith [OF assms(1) False]
      by (simp add: sen_set_get_def)
  next
    case True
    have z: "unat (0 :: u32) < 2 ^ 31" by simp
    from reset_ok [OF inv assms(3) z disjI1 [OF refl], of alloc] show thesis
    proof (elim disjE exE conjE)
      fix st1 assume "sen_set_reset alloc st 0 = Some (sen_success, st1)" "set_ok st1"
        "set_map st1 = set_map st" "st_n_entries st1 = st_n_entries st" "st_key_size st1 = st_key_size st"
        "st_value_size st1 = st_value_size st" "126 < n_slots (\<lambda>sl. sl = NULL) st1"
      then show thesis using that [of st1] True na by (simp add: sen_set_get_def)
    next
      fix n assume "sen_set_reset alloc st 0 = Some (sen_memory_exhausted, st)" "\<not> alloc n"
      then show thesis using that [of st] True na assms(1) by (auto simp: sen_set_get_def)
    qed
  qed
  have two: "2 \<le> n_slots (\<lambda>sl. sl = NULL) st1" and inv1: "set_inv st1" and c1: "counts_ok st1"
    using st1(2) by (auto simp: set_ok_def)
  have vk: "valid_key st1 key" using assms(2) st1(4) by (simp add: valid_key_def)
  obtain r st' where r: "get_key alloc st1 key = Some (r, st')" "set_inv st'"
     "r = None \<longrightarrow> (\<exists>n. \<not> alloc n) \<and> key \<notin> dom (set_map st1) \<and> set_map st' = set_map st1"
     "\<forall>p. r = Some p \<longrightarrow> (\<exists>e. p < length (st_index st') \<and> st_index st' ! p = Ent e \<and> live st' e \<and> entry_key st' e = key) \<and>
        set_map st' = (if key \<in> dom (set_map st1) then set_map st1
                       else (set_map st1)(key \<mapsto> replicate (st_value_size st1) 0))"
     "counts_ok st1 \<and> r \<noteq> None \<longrightarrow> counts_ok st'"
     "st_key_size st' = st_key_size st1" "st_value_size st' = st_value_size st1"
     "st_n_entries st' \<le> st_n_entries st1 + 1"
     "n_slots (\<lambda>sl. sl = NULL) st1 \<le> n_slots (\<lambda>sl. sl = NULL) st' + 1"
    using get_key_ok [OF inv1 vk two, of alloc] by blast
  have "set_ok st'" if "\<forall>n. alloc n"
    using that r(2,3,5,9) c1 st1(7) by (auto simp: set_ok_def)
  with r st1 show ?thesis by (intro exI [of _ r] exI [of _ st']) auto
qed

section \<open>Deletion and storing a value\<close>

lemma entry_absent:
  assumes "set_inv st" "p < length (st_index st)" "st_index st ! p = Ent e"
  shows "Ent e \<notin> set ((st_index st)[p := GARBAGE])"
  using assms by (auto simp: set_inv_def entries_ok_def in_set_conv_nth nth_list_update split: if_splits)

lemma del_removes:
  assumes "set_ok st" "p < length (st_index st)" "st_index st ! p = Ent e"
  shows "\<exists>st'. sen_set_del st (Some p) = Some (sen_success, st') \<and> set_ok st' \<and>
     set_map st' = (set_map st)(entry_key st e := None) \<and> st_n_entries st' = st_n_entries st - 1 \<and>
     st_key_size st' = st_key_size st \<and> st_value_size st' = st_value_size st"
proof -
  define st' where "st' = st\<lparr>st_index := (st_index st)[p := GARBAGE],
      st_garbages := e # st_garbages st, st_n_entries := st_n_entries st - 1,
      st_n_garbages := st_n_garbages st + 1\<rparr>"
  have inv: "set_inv st" and E: "entries_ok st" and P: "pool_ok st" and N: "NULL \<in> set (st_index st)"
    using assms(1) by (auto simp: set_ok_def set_inv_def)
  obtain k where G: "geom_ok st k" using inv by (auto simp: set_inv_def)
  have le: "live st e" using assms(2,3) by (auto simp: live_nth)
  have keys: "entry_key st' = entry_key st" "entry_val st' = entry_val st" "hash_key st' = hash_key st"
    "valid_key st' = valid_key st" "key_bytes st' = key_bytes st" "zero_entry st' = zero_entry st"
    by (auto simp: fun_eq_iff entry_key_def entry_val_def hash_key_def valid_key_def key_bytes_def
        zero_entry_def st'_def)
  have live: "live st' a \<longleftrightarrow> live st a \<and> a \<noteq> e" for a
    using entry_absent [OF inv assms(2,3)] assms(2,3)
    by (auto simp: live_def st'_def in_set_conv_nth nth_list_update split: if_splits)
  have idx: "st_index st' = (st_index st)[p := GARBAGE]" by (simp add: st'_def)
  note U = n_slots_update [OF assms(2) idx]
  have nents: "n_slots is_ent st = Suc (n_slots is_ent st')"
    "n_slots (\<lambda>sl. sl = GARBAGE) st' = Suc (n_slots (\<lambda>sl. sl = GARBAGE) st)"
    "n_slots (\<lambda>sl. sl = NULL) st' = n_slots (\<lambda>sl. sl = NULL) st"
    using U [of is_ent] U [of "\<lambda>sl. sl = GARBAGE"] U [of "\<lambda>sl. sl = NULL"] assms(3) by simp_all
  have E': "entries_ok st'"
    unfolding entries_ok_def keys
  proof (intro conjI allI impI)
    fix q r a b
    assume *: "q < length (st_index st')" "r < length (st_index st')" "st_index st' ! q = Ent a"
      "st_index st' ! r = Ent b" "entry_key st a = entry_key st b"
    then have "q \<noteq> p" "r \<noteq> p" using assms(2) by (auto simp: idx)
    with * E show "q = r" unfolding entries_ok_def by (auto simp: idx)
  qed (use E live in \<open>auto simp: entries_ok_def st'_def\<close>)
  have G': "geom_ok st' k"
    unfolding geom_ok_def
  proof (intro conjI allI impI)
    fix q a assume *: "q < 2 ^ k" "st_index st' ! q = Ent a"
    then have "q \<noteq> p" using assms(2) by (auto simp: idx)
    with * G show "reach (st_index st') k (en_key (st_mem st' a)) q"
      by (auto simp: idx geom_ok_def st'_def intro: reach_update)
  qed (use G in \<open>auto simp: geom_ok_def st'_def\<close>)
  have P': "pool_ok st'"
    using P le live unfolding pool_ok_def keys fresh_def by (auto simp: st'_def)
  have "0 < n_slots (\<lambda>sl. sl = NULL) st'" using nents(3) assms(1) by (simp add: set_ok_def)
  then have "NULL \<in> set (st_index st')" by (auto simp: n_slots_def filter_empty_conv)
  then have "set_inv st'"
    using inv G' E' P' nents(1) by (auto simp: set_inv_def st'_def [THEN arg_cong [where f = st_n_entries]]
        st'_def [THEN arg_cong [where f = st_arrayp]])
  moreover have "counts_ok st'"
    using assms(1) nents(2) by (simp add: set_ok_def counts_ok_def st'_def [THEN arg_cong [where f = st_n_garbages]])
  ultimately have ok: "set_ok st'" using assms(1) nents(3) by (simp add: set_ok_def)
  have "set_map st' = (set_map st)(entry_key st e := None)"
  proof
    fix x
    show "set_map st' x = ((set_map st)(entry_key st e := None)) x"
    proof (cases "x = entry_key st e")
      case True
      then show ?thesis
        using live live_key_unique [OF E _ le] by (auto simp: set_map_None keys)
    next
      case False
      then have "set_map st' x = Some v \<longleftrightarrow> set_map st x = Some v" for v
        unfolding set_map_Some [OF E] set_map_Some [OF E'] keys using live by auto
      then have "set_map st' x = set_map st x" by (metis option.exhaust)
      then show ?thesis using False by simp
    qed
  qed
  with ok show ?thesis using assms(3) by (auto simp: sen_set_del_def st'_def)
qed

text \<open>\<open>memcpy\<close> to the value of an entry.\<close>

definition set_value :: "sen_set \<Rightarrow> eid \<Rightarrow> bytes \<Rightarrow> sen_set" where
  "set_value st e v =
     st\<lparr>st_mem := (st_mem st)
          (e := (st_mem st e)\<lparr>en_dummy := take (key_bytes st) (en_dummy (st_mem st e)) @ v\<rparr>)\<rparr>"

lemma set_value_ok:
  assumes "set_ok st" "live st e" "length v = st_value_size st"
  shows "set_ok (set_value st e v)" "set_map (set_value st e v) = (set_map st)(entry_key st e \<mapsto> v)"
    and "st_n_entries (set_value st e v) = st_n_entries st"
    and "st_key_size (set_value st e v) = st_key_size st"
    and "st_value_size (set_value st e v) = st_value_size st"
proof -
  let ?st = "set_value st e v"
  have inv: "set_inv st" and E: "entries_ok st" and P: "pool_ok st"
    using assms(1) by (auto simp: set_ok_def set_inv_def)
  have fields: "st_index ?st = st_index st" "st_key_size ?st = st_key_size st"
    "st_value_size ?st = st_value_size st" "st_max_offset ?st = st_max_offset st"
    "st_n_entries ?st = st_n_entries st" "st_n_garbages ?st = st_n_garbages st"
    "st_arrayp ?st = st_arrayp st" "st_garbages ?st = st_garbages st" "st_chunks ?st = st_chunks st"
    "st_curr_chunk ?st = st_curr_chunk st" "st_curr_entry ?st = st_curr_entry st"
    "\<And>a. a \<noteq> e \<Longrightarrow> st_mem ?st a = st_mem st a"
    "\<And>a. en_key (st_mem ?st a) = en_key (st_mem st a)"
    by (simp_all add: set_value_def)
  have len: "length (en_dummy (st_mem st e)) = key_bytes st + st_value_size st"
    using E assms(2) by (simp add: entries_ok_def)
  have live: "live ?st = live st" by (simp add: fun_eq_iff live_def fields)
  have keys: "entry_key ?st = entry_key st" "hash_key ?st = hash_key st"
    "valid_key ?st = valid_key st" "key_bytes ?st = key_bytes st" "zero_entry ?st = zero_entry st"
    using len by (auto simp: fun_eq_iff entry_key_def hash_key_def valid_key_def key_bytes_def
        zero_entry_def set_value_def)
  have val: "entry_val ?st a = (if a = e then v else entry_val st a)" for a
    using len by (simp add: entry_val_def keys) (simp add: set_value_def)
  have E': "entries_ok ?st"
    using E len assms(3) unfolding entries_ok_def live keys fields
    by (auto simp: set_value_def)
  have fr: "fresh ?st a = fresh st a" for a by (simp add: fresh_def fields)
  have ne: "Eid (st_curr_chunk st) i \<noteq> e" if "st_curr_entry st \<le> i" for i
  proof
    assume "Eid (st_curr_chunk st) i = e"
    then have "fresh st e" using that by (auto simp: fresh_def)
    then show False using P assms(2) by (simp add: pool_ok_def)
  qed
  have P': "pool_ok ?st"
    using P ne unfolding pool_ok_def fr live keys fields by (simp add: fields(12))
  have "geom_ok ?st k = geom_ok st k" for k by (simp add: geom_ok_def fields)
  with inv E' P' have "set_inv ?st" by (simp add: set_inv_def fields n_slots_def)
  with assms(1) show "set_ok ?st" by (simp add: set_ok_def counts_ok_def fields n_slots_def)
  show "set_map ?st = (set_map st)(entry_key st e \<mapsto> v)"
  proof
    fix x
    show "set_map ?st x = ((set_map st)(entry_key st e \<mapsto> v)) x"
    proof (cases "x = entry_key st e")
      case True
      then show ?thesis using set_map_live [OF E', of e] assms(2) by (simp add: live keys val)
    next
      case False
      then have "set_map ?st x = Some w \<longleftrightarrow> set_map st x = Some w" for w
        unfolding set_map_Some [OF E] set_map_Some [OF E'] keys live val by auto
      then have "set_map ?st x = set_map st x" by (metis option.exhaust)
      then show ?thesis using False by simp
    qed
  qed
  show "st_n_entries ?st = st_n_entries st" "st_key_size ?st = st_key_size st"
    "st_value_size ?st = st_value_size st" by (fact fields)+
qed

section \<open>When memory runs out\<close>

text \<open>
  C31: a full index. When every slot of the index is taken, which \<open>sen_set_get\<close> does not prevent
  when its reset fails, looking up a key that is not there never returns.
\<close>

theorem full_table_never_returns:
  assumes "geom_ok st k" "entries_ok st" "NULL \<notin> set (st_index st)" "valid_key st key"
    and "set_map st key = None"
  shows "at_key st key = None"
proof -
  have g: "k \<le> 32" "length (st_index st) = 2 ^ k" "st_max_offset st = mask k"
    using assms(1) by (auto simp: geom_ok_def)
  have "\<not> stops (st_index st) (hits st key) p" if p: "p < 2 ^ k" for p
  proof
    assume "stops (st_index st) (hits st key) p"
    moreover have "st_index st ! p \<in> set (st_index st)" using p g(2) by simp
    ultimately obtain e where e: "st_index st ! p = Ent e" "hits st key e"
      using assms(3) by (auto simp: stops_def)
    then have "live st e" using p g(2) by (auto simp: live_nth)
    then show False using hits_iff [OF assms(2) _ assms(4)] e(2) assms(5) by (auto simp: set_map_None)
  qed
  then show ?thesis using at_loop_diverges [OF g(1)] by (simp add: at_key_loop g(3))
qed

theorem full_table_never_returns_witness:
  "at_key \<lparr>st_key_size = 4, st_value_size = 4, st_entry_size = 8, st_max_offset = 255,
     st_n_entries = 0, st_n_garbages = 256, st_curr_entry = 0, st_curr_chunk = 0, st_garbages = [],
     st_index = replicate 256 GARBAGE, st_arrayp = False, st_chunks = (\<lambda>_. False),
     st_mem = (\<lambda>_. \<lparr>en_key = 0, en_str = [], en_dummy = []\<rparr>)\<rparr> [1, 0, 0, 0] = None"
  (is "at_key ?st _ = None")
proof (rule full_table_never_returns [of ?st 8])
  have nl: "\<not> live ?st e" for e by (simp add: live_def)
  show "geom_ok ?st 8" by (simp add: geom_ok_def mask_eq_exp_minus_1)
  show "entries_ok ?st" using nl by (simp add: entries_ok_def)
  show "set_map ?st [1, 0, 0, 0] = None" using nl by (simp add: set_map_None)
qed (simp_all add: valid_key_def)

text \<open>
  C32: a failed insertion miscounts. When the search of \<open>sen_set_int_get\<close> or \<open>sen_set_bin_get\<close>
  passes a deleted slot and the new entry cannot be allocated, the count of deleted slots goes
  down although the slot stays deleted; in a set of strings it is kept.
\<close>

theorem failed_get_miscounts:
  assumes "counts_ok st" "get_search st key = Some (False, q, Some g)"
    and "st_garbages st = []" "\<not> st_chunks st (st_curr_chunk st)"
    and "\<not> alloc (unat (chunk_bytes st (st_curr_chunk st)))"
  shows "\<exists>st'. get_key alloc st key = Some (None, st') \<and> st_index st' = st_index st \<and>
     (counts_ok st' \<longleftrightarrow> st_key_size st = 0)"
proof -
  let ?st = "st\<lparr>st_n_garbages := st_n_garbages st - 1\<rparr>"
  have new: "entry_new alloc st = (None, st)" "entry_new alloc ?st = (None, ?st)"
    using assms(3-5) by (simp_all add: entry_new_def chunk_bytes_def Let_def)
  show ?thesis
  proof (cases "st_key_size st = 0")
    case True
    with assms(1,2) new show ?thesis by (simp add: get_key_eq)
  next
    case False
    have "get_key alloc st key = Some (None, ?st)"
      using False assms(2) new by (simp add: get_key_eq less_garbage_def)
    moreover have "\<not> counts_ok ?st" using assms(1) by (simp add: counts_ok_def n_slots_def)
    ultimately show ?thesis using False by auto
  qed
qed

definition tombstone_table :: sen_set where
  "tombstone_table =
     \<lparr>st_key_size = 4, st_value_size = 4, st_entry_size = 8, st_max_offset = 255,
      st_n_entries = 0, st_n_garbages = 1, st_curr_entry = 0, st_curr_chunk = 1, st_garbages = [],
      st_index = (replicate 256 NULL)[1 := GARBAGE], st_arrayp = False, st_chunks = (\<lambda>c. c = 0),
      st_mem = (\<lambda>_. \<lparr>en_key = 0, en_str = [], en_dummy = []\<rparr>)\<rparr>"

theorem failed_get_miscounts_witness:
  "\<exists>st'. get_key (\<lambda>_. False) tombstone_table [1, 0, 0, 0] = Some (None, st') \<and> \<not> counts_ok st'"
proof -
  have "n_slots (\<lambda>sl. sl = GARBAGE) tombstone_table = 1"
    using n_slots_update [of 1 "tombstone_table\<lparr>st_index := replicate 256 NULL\<rparr>" tombstone_table GARBAGE
        "\<lambda>sl. sl = GARBAGE"]
    by (simp add: tombstone_table_def n_slots_def)
  then have c: "counts_ok tombstone_table" by (simp add: counts_ok_def) (simp add: tombstone_table_def)
  have h: "hash_key tombstone_table [1, 0, 0, 0] = 1"
    by (simp add: hash_key_def tombstone_table_def load32_def)
  have m: "st_max_offset tombstone_table = 255" "st_index tombstone_table = (replicate 256 NULL)[1 := GARBAGE]"
    by (simp_all add: tombstone_table_def)
  have "get_search tombstone_table [1, 0, 0, 0] = Some (False, 2, Some 1)"
    unfolding get_search_def h m
    by (subst get_loop.simps, simp add: slot_of_def STEP_def)
      (subst get_loop.simps, simp add: slot_of_def)
  from failed_get_miscounts [OF c this, of "\<lambda>_. False"] show ?thesis
    by (auto simp: tombstone_table_def)
qed

section \<open>Reachable tables\<close>

text \<open>The states that a client can bring a table to, as long as there is memory.\<close>

inductive set_step :: "sen_set \<Rightarrow> sen_set \<Rightarrow> bool" where
  get_step: "valid_key st key \<Longrightarrow> st_n_entries st < 2 ^ 30 \<Longrightarrow>
     sen_set_get (\<lambda>_. True) st key = Some (r, st') \<Longrightarrow> set_step st st'"
| value_step: "live st e \<Longrightarrow> length v = st_value_size st \<Longrightarrow> set_step st (set_value st e v)"
| del_step: "p < length (st_index st) \<Longrightarrow> st_index st ! p \<noteq> GARBAGE \<Longrightarrow>
     sen_set_del st (Some p) = Some (rc, st') \<Longrightarrow> set_step st st'"
| at_step: "sen_set_at (\<lambda>_. True) st key = Some (r, st') \<Longrightarrow> set_step st st'"

inductive set_reach :: "nat \<Rightarrow> nat \<Rightarrow> sen_set \<Rightarrow> bool" for ks vs where
  opened: "sen_set_open alloc ks vs init_size = Some (Some st) \<Longrightarrow> set_reach ks vs st"
| stepped: "set_reach ks vs st \<Longrightarrow> set_step st st' \<Longrightarrow> set_reach ks vs st'"

lemma step_ok:
  assumes "set_step st st'" "set_ok st"
  shows "set_ok st' \<and> st_key_size st' = st_key_size st \<and> st_value_size st' = st_value_size st"
  using assms(1)
proof (cases rule: set_step.cases)
  case (get_step key r)
  then show ?thesis using get_inserts [OF assms(2) get_step(1,2), of "\<lambda>_. True"] by auto
next
  case (value_step e v)
  then show ?thesis using set_value_ok [OF assms(2)] by simp
next
  case (del_step p rc)
  then show ?thesis using del_removes [OF assms(2), of p] assms(2)
    by (cases "st_index st ! p") (auto simp: sen_set_del_def)
next
  case (at_step key r)
  have "\<not> st_arrayp st" using assms(2) by (simp add: set_ok_def set_inv_def)
  then show ?thesis using at_step assms(2) by (cases "at_key st key") (auto simp: sen_set_at_def)
qed

text \<open>
  C1: every table that opening and a sequence of successful operations lead to is in order: the
  load stays below the size of the index, and every lookup of a key of the right form returns.
\<close>

theorem reachable_table_ok:
  assumes "set_reach ks vs st"
  shows "set_ok st \<and> st_key_size st = ks \<and> st_value_size st = vs \<and>
    (\<forall>key. valid_key st key \<longrightarrow> (\<exists>r. sen_set_at alloc st key = Some (r, st)))"
proof -
  have "set_ok st \<and> st_key_size st = ks \<and> st_value_size st = vs"
    using assms
  proof (induction rule: set_reach.induct)
    case (opened alloc init_size st)
    then have "\<not> 2 ^ 31 < init_size" using open_returns [of alloc ks vs init_size] by auto
    then obtain k where "8 \<le> k" "k \<le> 31"
      "double_until (\<lambda>n. n < init_size) (of_nat INITIAL_INDEX_SIZE) = Some (2 ^ k)"
      by (metis double_until_spec)
    then show ?case using open_ok opened by blast
  next
    case (stepped st st')
    then show ?case using step_ok by auto
  qed
  then show ?thesis using at_finds [of st _ alloc] unfolding set_ok_def by blast
qed

definition empty_table :: sen_set where
  "empty_table =
     \<lparr>st_key_size = 4, st_value_size = 4, st_entry_size = 8, st_max_offset = 255,
      st_n_entries = 0, st_n_garbages = 0, st_curr_entry = 0, st_curr_chunk = 0, st_garbages = [],
      st_index = replicate 256 NULL, st_arrayp = False, st_chunks = (\<lambda>_. False),
      st_mem = (\<lambda>_. \<lparr>en_key = 0, en_str = [], en_dummy = []\<rparr>)\<rparr>"

lemma open_example: "sen_set_open (\<lambda>_. True) 4 4 0 = Some (Some empty_table)"
  by (simp add: sen_set_open_def double_until.simps INITIAL_INDEX_SIZE_def entry_size_of_def
      empty_table_def)

lemma empty_table_ok:
  "set_ok empty_table" "set_map empty_table = Map.empty" "st_n_entries empty_table = 0"
  "st_key_size empty_table = 4" "st_value_size empty_table = 4"
proof -
  have "double_until (\<lambda>n. n < 0) (of_nat INITIAL_INDEX_SIZE) = Some (2 ^ 8)"
    by (simp add: double_until.simps INITIAL_INDEX_SIZE_def)
  from open_ok [OF this _ _ open_example]
  show "set_ok empty_table" "set_map empty_table = Map.empty" "st_n_entries empty_table = 0"
    "st_key_size empty_table = 4" "st_value_size empty_table = 4"
    by simp_all
qed

theorem reachable_table_ok_witness:
  "\<exists>r st. sen_set_open (\<lambda>_. True) 4 4 0 = Some (Some st) \<and>
     sen_set_at (\<lambda>_. True) st [7, 0, 0, 0] = Some (r, st)"
proof -
  have "valid_key empty_table [7, 0, 0, 0]" by (simp add: valid_key_def empty_table_ok)
  moreover have "set_reach 4 4 empty_table" using open_example by (rule opened)
  ultimately show ?thesis
    using reachable_table_ok [of 4 4 empty_table "\<lambda>_. True"] open_example by blast
qed

section \<open>Correctness\<close>

text \<open>
  C30: \<open>sen_set_open\<close> returns exactly for initial sizes up to \<open>2 ^ 31\<close> (for a larger one the
  doubling of the 32-bit size wraps to 0 and never ends), and then it gives an empty table or no
  memory.
\<close>

theorem sen_set_open_returns:
  "(sen_set_open alloc key_size value_size init_size = None \<longleftrightarrow> 2 ^ 31 < init_size) \<and>
   (\<forall>st. sen_set_open alloc key_size value_size init_size = Some (Some st) \<longrightarrow>
      set_ok st \<and> set_map st = Map.empty)"
proof (intro conjI allI impI open_returns)
  fix st assume o: "sen_set_open alloc key_size value_size init_size = Some (Some st)"
  then have "\<not> 2 ^ 31 < init_size" using open_returns [of alloc key_size value_size init_size] by auto
  then obtain k where "8 \<le> k" "k \<le> 31"
    "double_until (\<lambda>n. n < init_size) (of_nat INITIAL_INDEX_SIZE) = Some (2 ^ k)"
    by (metis double_until_spec)
  then show "set_ok st" "set_map st = Map.empty" using open_ok o by blast+
qed

theorem sen_set_open_returns_witness:
  "sen_set_open (\<lambda>_. True) 4 4 0 = Some (Some empty_table) \<and> set_ok empty_table \<and>
   sen_set_open (\<lambda>_. True) 4 4 0x80000001 = None"
  using sen_set_open_returns [where alloc = "\<lambda>_. True" and key_size = 4 and value_size = 4 and init_size = 0]
    sen_set_open_returns [where alloc = "\<lambda>_. True" and key_size = 4 and value_size = 4 and
      init_size = "0x80000001"] open_example
  by simp

text \<open>
  C8: a lookup always ends; it finds the slot of the entry with the key, and gives NULL exactly
  when the key is not in the map.
\<close>

theorem sen_set_at_finds:
  assumes "set_inv st" "valid_key st key"
  shows "\<exists>r. sen_set_at alloc st key = Some (r, st) \<and>
    (r = None \<longleftrightarrow> set_map st key = None) \<and>
    (\<forall>p. r = Some p \<longrightarrow> (\<exists>e. st_index st ! p = Ent e \<and> entry_key st e = key \<and>
       set_map st key = Some (entry_val st e)))"
  by (rule at_finds [OF assms])

theorem sen_set_at_finds_witness:
  "sen_set_at (\<lambda>_. True) empty_table [7, 0, 0, 0] = Some (None, empty_table)"
  using sen_set_at_finds [of empty_table "[7, 0, 0, 0]" "\<lambda>_. True"] empty_table_ok
  by (auto simp: set_ok_def valid_key_def)

text \<open>
  C6: insertion into a table in order always ends. A key that is there is found and nothing
  changes; a new key gets a zero value; when memory is exhausted the map is unchanged. With
  memory the table is in order again.
\<close>

theorem sen_set_get_inserts:
  assumes "set_ok st" "valid_key st key" "st_n_entries st < 2 ^ 30"
  shows "\<exists>r st'. sen_set_get alloc st key = Some (r, st') \<and> set_inv st' \<and>
     (r = None \<longrightarrow> (\<exists>n. \<not> alloc n) \<and> key \<notin> dom (set_map st) \<and> set_map st' = set_map st) \<and>
     (\<forall>p. r = Some p \<longrightarrow> (\<exists>e. p < length (st_index st') \<and> st_index st' ! p = Ent e \<and> live st' e \<and> entry_key st' e = key) \<and>
        set_map st' = (if key \<in> dom (set_map st) then set_map st
                       else (set_map st)(key \<mapsto> replicate (st_value_size st) 0))) \<and>
     ((\<forall>n. alloc n) \<longrightarrow> set_ok st') \<and>
     st_key_size st' = st_key_size st \<and> st_value_size st' = st_value_size st \<and>
     st_n_entries st' \<le> st_n_entries st + 1"
  by (rule get_inserts [OF assms])

theorem sen_set_get_inserts_witness:
  "\<exists>p st'. sen_set_get (\<lambda>_. True) empty_table [7, 0, 0, 0] = Some (Some p, st') \<and> set_ok st' \<and>
     set_map st' = [[7, 0, 0, 0] \<mapsto> [0, 0, 0, 0]]"
proof -
  have v: "valid_key empty_table [7, 0, 0, 0]" by (simp add: valid_key_def empty_table_ok)
  from sen_set_get_inserts [OF empty_table_ok(1) v, of "\<lambda>_. True"]
  obtain r st' where *: "sen_set_get (\<lambda>_. True) empty_table [7, 0, 0, 0] = Some (r, st')" "set_ok st'"
    "r \<noteq> None" "\<forall>p. r = Some p \<longrightarrow> set_map st' = [[7, 0, 0, 0] \<mapsto> replicate (st_value_size empty_table) 0]"
    by (auto simp: empty_table_ok)
  then show ?thesis by (auto simp: empty_table_ok numeral_eq_Suc)
qed

text \<open>
  C9: deleting the slot of an entry removes its key from the map and nothing else; it needs no
  memory, and the table stays in order.
\<close>

theorem sen_set_del_removes:
  assumes "set_ok st" "p < length (st_index st)" "st_index st ! p = Ent e"
  shows "\<exists>st'. sen_set_del st (Some p) = Some (sen_success, st') \<and> set_ok st' \<and>
     set_map st' = (set_map st)(entry_key st e := None) \<and> st_n_entries st' = st_n_entries st - 1 \<and>
     st_key_size st' = st_key_size st \<and> st_value_size st' = st_value_size st"
  by (rule del_removes [OF assms])

theorem sen_set_del_removes_witness:
  "\<exists>p st1 st2. sen_set_get (\<lambda>_. True) empty_table [7, 0, 0, 0] = Some (Some p, st1) \<and>
     sen_set_del st1 (Some p) = Some (sen_success, st2) \<and> set_map st2 = Map.empty"
proof -
  have v: "valid_key empty_table [7, 0, 0, 0]" by (simp add: valid_key_def empty_table_ok)
  from get_inserts [OF empty_table_ok(1) v, of "\<lambda>_. True"]
  obtain p st1 e where *: "sen_set_get (\<lambda>_. True) empty_table [7, 0, 0, 0] = Some (Some p, st1)"
    "set_ok st1" "st_index st1 ! p = Ent e" "live st1 e" "entry_key st1 e = [7, 0, 0, 0]"
    "set_map st1 = [[7, 0, 0, 0] \<mapsto> replicate 4 0]" "p < length (st_index st1)"
    by (fastforce simp: empty_table_ok)
  from sen_set_del_removes [OF *(2,7,3)] * show ?thesis by fastforce
qed

end
