(* ===== verification/Hset_Sort.thy ===== *)
theory Hset_Sort
  imports Hset_Api
begin

text \<open>
  \<open>sen_set_sort\<close> of lib/set.c: the entries are packed around a first pivot into an array, which
  a quicksort with the median of three then sorts as far as the first \<open>limit\<close> entries. The two
  copies of the algorithm, for an integer field and for a comparison function, differ only in the
  comparison: \<open>lt x y\<close> says that \<open>x\<close> comes strictly before \<open>y\<close>, \<open>gt x y\<close> strictly after.
  Positions in the array are indices; a read outside the array gives \<open>None\<close>.
\<close>

section \<open>Packing\<close>

text \<open>The next slot from \<open>i\<close> on (cyclically) that holds an entry.\<close>

partial_function (option) next_live :: "slot list \<Rightarrow> u32 \<Rightarrow> u32 \<Rightarrow> (u32 \<times> eid) option" where
  "next_live index m i =
     (case index ! unat i of Ent e \<Rightarrow> Some (i, e) | _ \<Rightarrow> next_live index m ((i + 1) AND m))"

fun pack_loop ::
  "(eid \<Rightarrow> eid \<Rightarrow> bool) \<Rightarrow> slot list \<Rightarrow> u32 \<Rightarrow> eid \<Rightarrow> nat \<Rightarrow> u32 \<Rightarrow> nat \<Rightarrow> nat \<Rightarrow> eid list \<Rightarrow>
     (nat \<times> eid list) option" where
  "pack_loop lt index m c 0 i head tail res = Some (head, res)"
| "pack_loop lt index m c (Suc n) i head tail res =
     do {
       (i, e) \<leftarrow> next_live index m ((i + 1) AND m);
       if lt e c then pack_loop lt index m c n i (head + 1) tail (res[head := e])
       else pack_loop lt index m c n i head (tail - 1) (res[tail := e])
     }"

text \<open>\<open>res\<close> is the new array; the result says where the pivot is when there is more to sort.\<close>

definition pack_with ::
  "(eid \<Rightarrow> eid \<Rightarrow> bool) \<Rightarrow> sen_set \<Rightarrow> eid list \<Rightarrow> (nat option \<times> eid list) option" where
  "pack_with lt st res =
     (let m = st_max_offset st; n = nat (st_n_entries st) - 1 in
      do {
        (i, c) \<leftarrow> next_live (st_index st) m (drop_bit 1 m);
        (head, res) \<leftarrow> pack_loop lt (st_index st) m c n i 0 n res;
        Some (if 2 < st_n_entries st then Some head else None, res[head := c])
      })"

section \<open>Partition\<close>

definition swap_at :: "'a list \<Rightarrow> nat \<Rightarrow> nat \<Rightarrow> 'a list" where
  "swap_at res i j = res[i := res ! j, j := res ! i]"

text \<open>\<open>while (*++b < ck);\<close> and \<open>while (*--e > ck);\<close>\<close>

function scan_up :: "('a \<Rightarrow> 'a \<Rightarrow> bool) \<Rightarrow> 'a \<Rightarrow> 'a list \<Rightarrow> nat \<Rightarrow> nat option" where
  "scan_up lt ck res b =
     (if Suc b < length res then
        (if lt (res ! Suc b) ck then scan_up lt ck res (Suc b) else Some (Suc b))
      else None)"
  by pat_completeness auto
termination
  by (relation "measure (\<lambda>(lt, ck, res, b). length res - b)") auto

fun scan_down :: "('a \<Rightarrow> 'a \<Rightarrow> bool) \<Rightarrow> 'a \<Rightarrow> 'a list \<Rightarrow> nat \<Rightarrow> nat option" where
  "scan_down gt ck res 0 = None"
| "scan_down gt ck res (Suc e) = (if gt (res ! e) ck then scan_down gt ck res e else Some e)"

declare scan_up.simps [simp del]

lemma scan_up_less: "scan_up lt ck res b = Some b' \<Longrightarrow> b < b'"
proof (induction lt ck res b rule: scan_up.induct)
  case (1 lt ck res b)
  then show ?case by (subst (asm) scan_up.simps) (auto split: if_splits)
qed

lemma scan_down_less: "scan_down gt ck res e = Some e' \<Longrightarrow> e' < e"
  by (induction e) (auto split: if_splits)

function part_loop ::
  "('a \<Rightarrow> 'a \<Rightarrow> bool) \<Rightarrow> ('a \<Rightarrow> 'a \<Rightarrow> bool) \<Rightarrow> 'a \<Rightarrow> 'a list \<Rightarrow> nat \<Rightarrow> nat \<Rightarrow> (nat \<times> 'a list) option"
where
  "part_loop lt gt ck res b e =
     (case scan_up lt ck res b of
        None \<Rightarrow> None
      | Some b' \<Rightarrow>
          (case scan_down gt ck res e of
             None \<Rightarrow> None
           | Some e' \<Rightarrow>
               (if e' \<le> b' then Some (e', res) else part_loop lt gt ck (swap_at res b' e') b' e')))"
  by pat_completeness auto
termination
  by (relation "measure (\<lambda>(lt, gt, ck, res, b, e). e - b)")
    (auto dest!: scan_up_less scan_down_less)

declare part_loop.simps [simp del]

text \<open>The median of three, and the partition around it.\<close>

definition median3 :: "('a \<Rightarrow> 'a \<Rightarrow> bool) \<Rightarrow> 'a list \<Rightarrow> nat \<Rightarrow> nat \<Rightarrow> nat \<Rightarrow> 'a list" where
  "median3 gt res b c e =
     (if gt (res ! b) (res ! c) then swap_at res b c
      else if gt (res ! c) (res ! e) then swap_at res c e
      else res)"

definition part_with ::
  "('a \<Rightarrow> 'a \<Rightarrow> bool) \<Rightarrow> ('a \<Rightarrow> 'a \<Rightarrow> bool) \<Rightarrow> 'a list \<Rightarrow> nat \<Rightarrow> nat \<Rightarrow> (nat option \<times> 'a list) option"
where
  "part_with lt gt res b e =
     (let d = e - b;
          res = (if gt (res ! b) (res ! e) then swap_at res b e else res)
      in if d < 2 then Some (None, res)
         else
           (let c = b + d div 2; res = median3 gt res b c e in
            if d < 3 then Some (None, res)
            else
              (let ck = res ! c; res = swap_at res (b + 1) c; c = b + 1 in
               do {
                 (e, res) \<leftarrow> part_loop lt gt ck res c e;
                 Some (Some e, swap_at res c e)
               })))"

section \<open>Sorting\<close>

partial_function (option) sort_range ::
  "('a \<Rightarrow> 'a \<Rightarrow> bool) \<Rightarrow> ('a \<Rightarrow> 'a \<Rightarrow> bool) \<Rightarrow> 'a list \<Rightarrow> nat \<Rightarrow> nat \<Rightarrow> int \<Rightarrow> 'a list option"
where
  "sort_range lt gt res head tail limit =
     (if head < tail then
        do {
          (c, res) \<leftarrow> part_with lt gt res head tail;
          (case c of
             None \<Rightarrow> Some res
           | Some c \<Rightarrow>
               (let rest = limit - 1 - (int c - int head) in
                do {
                  res \<leftarrow> sort_range lt gt res head (c - 1) limit;
                  (if 0 < rest then sort_range lt gt res (c + 1) tail rest else Some res)
                }))
        }
      else Some res)"

definition sort_with ::
  "(eid \<Rightarrow> eid \<Rightarrow> bool) \<Rightarrow> (eid \<Rightarrow> eid \<Rightarrow> bool) \<Rightarrow> sen_set \<Rightarrow> eid list \<Rightarrow> int \<Rightarrow> eid list option" where
  "sort_with lt gt st res limit =
     do {
       (c, res) \<leftarrow> pack_with lt st res;
       (case c of
          None \<Rightarrow> Some res
        | Some c \<Rightarrow>
            (let rest = limit - 1 - int c in
             do {
               res \<leftarrow> sort_range lt gt res 0 (c - 1) limit;
               (if 0 < rest then sort_range lt gt res (c + 1) (nat (st_n_entries st) - 1) rest else Some res)
             }))
     }"

section \<open>The comparisons\<close>

text \<open>
  The 32-bit word at \<open>offset\<close> words from the start of an entry, as a signed number, times the
  direction. The words of an entry are its field \<open>key\<close> and then the bytes of \<open>dummy\<close> (for a set
  of strings the pointer comes first; its words are the parameter \<open>ptr\<close>).
\<close>

definition INT_OFFSET_VAL :: "(eid \<Rightarrow> bytes) \<Rightarrow> sen_set \<Rightarrow> nat \<Rightarrow> int \<Rightarrow> eid \<Rightarrow> int" where
  "INT_OFFSET_VAL ptr st offset dir e =
     (let en = st_mem st e;
          words = (if st_key_size st = 0 then ptr e else []) @ store32 (en_key en) @ en_dummy en
      in wrap32 (wrap32 (uint (load32 (drop (4 * offset) words))) * dir))"

definition sort_int ::
  "(eid \<Rightarrow> bytes) \<Rightarrow> sen_set \<Rightarrow> eid list \<Rightarrow> int \<Rightarrow> nat \<Rightarrow> int \<Rightarrow> eid list option" where
  "sort_int ptr st res limit offset dir =
     (let val = INT_OFFSET_VAL ptr st offset dir in
      sort_with (\<lambda>x y. val x < val y) (\<lambda>x y. val y < val x) st res limit)"

definition sort_func ::
  "(eid \<Rightarrow> eid \<Rightarrow> int) \<Rightarrow> sen_set \<Rightarrow> eid list \<Rightarrow> int \<Rightarrow> int \<Rightarrow> eid list option" where
  "sort_func func st res limit dir =
     sort_with (\<lambda>x y. func x y * dir < 0) (\<lambda>x y. 0 < func x y * dir) st res limit"

text \<open>The sign of \<open>strcmp\<close> and \<open>memcmp\<close>, which compare unsigned bytes.\<close>

fun bytes_cmp :: "bytes \<Rightarrow> bytes \<Rightarrow> int" where
  "bytes_cmp [] [] = 0"
| "bytes_cmp [] (y # ys) = - 1"
| "bytes_cmp (x # xs) [] = 1"
| "bytes_cmp (x # xs) (y # ys) = (if x < y then - 1 else if y < x then 1 else bytes_cmp xs ys)"

definition func_str :: "sen_set \<Rightarrow> eid \<Rightarrow> eid \<Rightarrow> int" where
  "func_str st a b = bytes_cmp (en_str (st_mem st a)) (en_str (st_mem st b))"

definition func_bin :: "sen_set \<Rightarrow> eid \<Rightarrow> eid \<Rightarrow> int" where
  "func_bin st a b =
     bytes_cmp (take (st_key_size st) (en_dummy (st_mem st a))) (take (st_key_size st) (en_dummy (st_mem st b)))"

section \<open>\<open>sen_set_sort\<close>\<close>

text \<open>
  The optional argument: whether the order is ascending, and either a comparison function or the
  byte offset of an integer (0 for none).
\<close>

datatype sort_key = Compar "eid \<Rightarrow> eid \<Rightarrow> int" | Offset nat

record sort_optarg =
  so_ascending :: bool
  so_key :: sort_key

definition sort_default :: "(eid \<Rightarrow> bytes) \<Rightarrow> sen_set \<Rightarrow> eid list \<Rightarrow> int \<Rightarrow> int \<Rightarrow> eid list option" where
  "sort_default ptr st res limit dir =
     (if st_key_size st = 0 then sort_func (func_str st) st res limit dir
      else if st_key_size st = 4 then sort_int ptr st res limit 0 dir
      else sort_func (func_bin st) st res limit dir)"

text \<open>\<open>junk\<close> is the contents of the array before it is filled; the result \<open>Some None\<close> is NULL.\<close>

definition sen_set_sort ::
  "alloc \<Rightarrow> (eid \<Rightarrow> bytes) \<Rightarrow> (nat \<Rightarrow> eid) \<Rightarrow> sen_set \<Rightarrow> int \<Rightarrow> sort_optarg option \<Rightarrow>
     eid list option option" where
  "sen_set_sort alloc ptr junk st limit optarg =
     (if st_n_entries st = 0 then Some None
      else if \<not> alloc (8 * nat (st_n_entries st)) then Some None
      else
        (let res = map junk [0..<nat (st_n_entries st)];
             limit = (if limit = 0 \<or> st_n_entries st < limit then st_n_entries st else limit)
         in map_option Some
              (case optarg of
                 None \<Rightarrow> sort_default ptr st res limit 1
               | Some oa \<Rightarrow>
                   (let dir = (if so_ascending oa then 1 else - 1) in
                    case so_key oa of
                      Compar f \<Rightarrow> sort_func f st res limit dir
                    | Offset k \<Rightarrow>
                        (if k \<noteq> 0 then sort_int ptr st res limit (k div 4) dir
                         else sort_default ptr st res limit dir)))))"

end
