(* ===== verification/Hset_Alg.thy ===== *)
theory Hset_Alg
  imports Hset_Api
begin

text \<open>
  Cursors and the set algebra of lib/set.c: \<open>sen_set_union\<close>, \<open>sen_set_subtract\<close>,
  \<open>sen_set_intersect\<close> and \<open>sen_set_difference\<close>, each on two different tables.
\<close>

section \<open>Cursors\<close>

text \<open>
  \<open>cs_curr\<close> is the offset of \<open>curr\<close> in the index. That the index of the set is still the one
  the cursor was opened on is the parameter \<open>same\<close> of \<open>sen_set_cursor_next\<close>.
\<close>

record set_cursor =
  cs_curr :: nat
  cs_rest :: u32

definition sen_set_cursor_open :: "alloc \<Rightarrow> sen_set \<Rightarrow> set_cursor option" where
  "sen_set_cursor_open alloc st =
     (if alloc 32 then Some \<lparr>cs_curr = 0, cs_rest = st_max_offset st + 1\<rparr> else None)"

fun cursor_scan :: "slot list \<Rightarrow> nat \<Rightarrow> nat \<Rightarrow> (nat \<times> nat) option" where
  "cursor_scan index 0 ep = None"
| "cursor_scan index (Suc i) ep =
     (case index ! ep of Ent e \<Rightarrow> Some (ep, Suc i) | _ \<Rightarrow> cursor_scan index i (Suc ep))"

definition sen_set_cursor_next :: "bool \<Rightarrow> sen_set \<Rightarrow> set_cursor \<Rightarrow> nat option \<times> set_cursor" where
  "sen_set_cursor_next same st c =
     (if cs_rest c = 0 then (None, c)
      else if \<not> same then (None, c)
      else
        (case cursor_scan (st_index st) (unat (cs_rest c)) (cs_curr c) of
           None \<Rightarrow> (None, c\<lparr>cs_rest := 0\<rparr>)
         | Some (ep, i) \<Rightarrow> (Some ep, \<lparr>cs_curr = ep + 1, cs_rest = of_nat i - 1\<rparr>)))"

text \<open>The key and the value of an entry, \<open>sen_set_element_info\<close>.\<close>

definition sen_set_element_info :: "sen_set \<Rightarrow> slot \<Rightarrow> sen_rc \<times> (bytes \<times> bytes) option" where
  "sen_set_element_info st sl =
     (case sl of
        Ent e \<Rightarrow>
          (sen_success,
           Some (if st_key_size st = 0 then (en_str (st_mem st e), en_dummy (st_mem st e))
                 else if st_key_size st = 4 then (store32 (en_key (st_mem st e)), en_dummy (st_mem st e))
                 else (take (st_key_size st) (en_dummy (st_mem st e)),
                       drop (st_key_size st) (en_dummy (st_mem st e)))))
      | _ \<Rightarrow> (sen_invalid_argument, None))"

text \<open>A client's loop over a cursor (\<open>SEN_SET_EACH\<close>): all slots until NULL comes back.\<close>

fun cursor_slots :: "nat \<Rightarrow> sen_set \<Rightarrow> set_cursor \<Rightarrow> nat list" where
  "cursor_slots 0 st c = []"
| "cursor_slots (Suc n) st c =
     (case sen_set_cursor_next True st c of
        (None, c') \<Rightarrow> []
      | (Some ep, c') \<Rightarrow> ep # cursor_slots n st c')"

section \<open>Sets filled as arrays\<close>

text \<open>
  The assertions of \<open>sen_set_array_init\<close> (no entries, no deleted entries) hold or the program
  stops; a 32-bit product gives the size of the chunk for the array.
\<close>

definition sen_set_array_init :: "alloc \<Rightarrow> sen_set \<Rightarrow> u32 \<Rightarrow> (sen_rc \<times> sen_set) option" where
  "sen_set_array_init alloc st sz =
     (if st_n_entries st \<noteq> 0 \<or> st_garbages st \<noteq> [] then None
      else
        (let st1 = st\<lparr>st_arrayp := True, st_curr_entry := 0,
                      st_chunks := (st_chunks st)(SEN_SET_MAX_CHUNK := False)\<rparr>
         in if alloc (unat (st_entry_size st * sz)) then
              sen_set_reset alloc
                (st1\<lparr>st_chunks := (st_chunks st)(SEN_SET_MAX_CHUNK := True),
                     st_mem := (\<lambda>e. if e_chunk e = SEN_SET_MAX_CHUNK then zero_entry st else st_mem st e)\<rparr>)
                sz
            else Some (sen_memory_exhausted, st1)))"

text \<open>\<open>SEN_SET_INT_ADD\<close>: the next entry of the array, in the next slot of the index.\<close>

definition SEN_SET_INT_ADD :: "sen_set \<Rightarrow> u32 \<Rightarrow> eid \<times> sen_set" where
  "SEN_SET_INT_ADD st key =
     (let e = Eid SEN_SET_MAX_CHUNK (st_curr_entry st) in
      (e, st\<lparr>st_index := (st_index st)[nat (st_n_entries st) := Ent e],
             st_n_entries := st_n_entries st + 1,
             st_curr_entry := st_curr_entry st + 1,
             st_mem := (st_mem st)(e := (st_mem st e)\<lparr>en_key := key\<rparr>)\<rparr>))"

section \<open>Set algebra\<close>

text \<open>The value of the slot that a \<open>_get\<close> returned is overwritten.\<close>

definition slot_value :: "sen_set \<Rightarrow> nat \<Rightarrow> bytes \<Rightarrow> sen_set" where
  "slot_value st p v = (case st_index st ! p of Ent e \<Rightarrow> set_value st e v | _ \<Rightarrow> st)"

text \<open>
  The loops count down from the number of entries and run over the slots; past the end of the
  index the result is \<open>None\<close>.
\<close>

fun union_loop :: "alloc \<Rightarrow> nat \<Rightarrow> slot list \<Rightarrow> sen_set \<Rightarrow> sen_set \<Rightarrow> sen_set option" where
  "union_loop alloc 0 ep b a = Some a"
| "union_loop alloc (Suc i) [] b a = None"
| "union_loop alloc (Suc i) (Ent e # ep) b a =
     do {
       (r, a1) \<leftarrow> sen_set_at alloc a (entry_key b e);
       if r \<noteq> None then union_loop alloc i ep b a1
       else
         do {
           (r, a2) \<leftarrow> sen_set_get alloc a1 (entry_key b e);
           union_loop alloc i ep b
             (case r of None \<Rightarrow> a2 | Some p \<Rightarrow> slot_value a2 p (entry_val b e))
         }
     }"
| "union_loop alloc (Suc i) (sl # ep) b a = union_loop alloc (Suc i) ep b a"

definition sen_set_union :: "alloc \<Rightarrow> sen_set \<Rightarrow> sen_set \<Rightarrow> sen_set option option" where
  "sen_set_union alloc a b =
     (if st_key_size a \<noteq> st_key_size b \<or> st_value_size a \<noteq> st_value_size b then Some None
      else map_option Some (union_loop alloc (nat (st_n_entries b)) (st_index b) b a))"

fun subtract_loop :: "alloc \<Rightarrow> nat \<Rightarrow> slot list \<Rightarrow> sen_set \<Rightarrow> sen_set \<Rightarrow> sen_set option" where
  "subtract_loop alloc 0 ep b a = Some a"
| "subtract_loop alloc (Suc i) [] b a = None"
| "subtract_loop alloc (Suc i) (Ent e # ep) b a =
     do {
       (dp, a1) \<leftarrow> sen_set_at alloc a (entry_key b e);
       if dp = None then subtract_loop alloc i ep b a1
       else do { (rc, a2) \<leftarrow> sen_set_del a1 dp; subtract_loop alloc i ep b a2 }
     }"
| "subtract_loop alloc (Suc i) (sl # ep) b a = subtract_loop alloc (Suc i) ep b a"

definition sen_set_subtract :: "alloc \<Rightarrow> sen_set \<Rightarrow> sen_set \<Rightarrow> sen_set option option" where
  "sen_set_subtract alloc a b =
     (if st_key_size a \<noteq> st_key_size b then Some None
      else map_option Some (subtract_loop alloc (nat (st_n_entries b)) (st_index b) b a))"

text \<open>
  Here \<open>p\<close> is the offset of the first slot of \<open>ep\<close>: the loop runs over the index of \<open>a\<close>
  itself, in which it deletes only the slot it is at.
\<close>

fun intersect_loop ::
  "alloc \<Rightarrow> nat \<Rightarrow> nat \<Rightarrow> slot list \<Rightarrow> sen_set \<Rightarrow> sen_set \<Rightarrow> (sen_set \<times> sen_set) option" where
  "intersect_loop alloc 0 p ep b a = Some (a, b)"
| "intersect_loop alloc (Suc i) p [] b a = None"
| "intersect_loop alloc (Suc i) p (Ent e # ep) b a =
     do {
       (r, b1) \<leftarrow> sen_set_at alloc b (entry_key a e);
       if r = None then do { (rc, a1) \<leftarrow> sen_set_del a (Some p); intersect_loop alloc i (Suc p) ep b1 a1 }
       else intersect_loop alloc i (Suc p) ep b1 a
     }"
| "intersect_loop alloc (Suc i) p (sl # ep) b a = intersect_loop alloc (Suc i) (Suc p) ep b a"

definition sen_set_intersect :: "alloc \<Rightarrow> sen_set \<Rightarrow> sen_set \<Rightarrow> sen_set option option" where
  "sen_set_intersect alloc a b =
     (if st_key_size a \<noteq> st_key_size b then Some None
      else map_option (\<lambda>ab. Some (fst ab)) (intersect_loop alloc (nat (st_n_entries a)) 0 (st_index a) b a))"

fun difference_loop ::
  "alloc \<Rightarrow> nat \<Rightarrow> nat \<Rightarrow> slot list \<Rightarrow> nat \<Rightarrow> sen_set \<Rightarrow> sen_set \<Rightarrow> (nat \<times> sen_set \<times> sen_set) option" where
  "difference_loop alloc 0 p ep n b a = Some (n, a, b)"
| "difference_loop alloc (Suc i) p [] n b a = None"
| "difference_loop alloc (Suc i) p (Ent e # ep) n b a =
     do {
       (dp, b1) \<leftarrow> sen_set_at alloc b (entry_key a e);
       if dp \<noteq> None then
         do {
           (rc, b2) \<leftarrow> sen_set_del b1 dp;
           (rc, a1) \<leftarrow> sen_set_del a (Some p);
           difference_loop alloc i (Suc p) ep (n + 1) b2 a1
         }
       else difference_loop alloc i (Suc p) ep n b1 a
     }"
| "difference_loop alloc (Suc i) p (sl # ep) n b a = difference_loop alloc (Suc i) (Suc p) ep n b a"

text \<open>The count is returned as an \<open>int\<close>.\<close>

definition sen_set_difference :: "alloc \<Rightarrow> sen_set \<Rightarrow> sen_set \<Rightarrow> (int \<times> sen_set \<times> sen_set) option" where
  "sen_set_difference alloc a b =
     (if st_key_size a \<noteq> st_key_size b then Some (- 1, a, b)
      else map_option (\<lambda>(n, a, b). (wrap32 (int n), a, b))
             (difference_loop alloc (nat (st_n_entries a)) 0 (st_index a) 0 b a))"

section \<open>Pairs of keys and values\<close>

fun slot_pairs :: "sen_set \<Rightarrow> slot list \<Rightarrow> (bytes \<times> bytes) list" where
  "slot_pairs st [] = []"
| "slot_pairs st (sl # ep) =
     (case sl of Ent e \<Rightarrow> (entry_key st e, entry_val st e) # slot_pairs st ep | _ \<Rightarrow> slot_pairs st ep)"

definition slot_keys :: "sen_set \<Rightarrow> slot list \<Rightarrow> bytes list" where
  "slot_keys st ep = map fst (slot_pairs st ep)"

lemma slot_keys_simps [simp]:
  "slot_keys st [] = []"
  "slot_keys st (Ent e # ep) = entry_key st e # slot_keys st ep"
  "slot_keys st (NULL # ep) = slot_keys st ep"
  "slot_keys st (GARBAGE # ep) = slot_keys st ep"
  by (simp_all add: slot_keys_def)

lemma in_slot_keys: "k \<in> set (slot_keys st ep) \<longleftrightarrow> (\<exists>e. Ent e \<in> set ep \<and> entry_key st e = k)"
proof (induction ep)
  case (Cons sl ep)
  then show ?case by (cases sl) auto
qed simp

lemma map_of_slot_pairs: "map_of (slot_pairs st (st_index st)) = set_map st"
proof
  fix k
  have "map_of (slot_pairs st ep) k =
      (case List.find (is_key st k) ep of Some (Ent e) \<Rightarrow> Some (entry_val st e) | _ \<Rightarrow> None)" for ep
  proof (induction ep)
    case (Cons sl ep)
    then show ?case by (cases sl) (auto simp: is_key_def)
  qed simp
  then show "map_of (slot_pairs st (st_index st)) k = set_map st k" by (simp add: set_map_def)
qed

lemma set_slot_keys: "set (slot_keys st (st_index st)) = dom (set_map st)"
  by (simp add: slot_keys_def dom_map_of_conv_image_fst flip: map_of_slot_pairs)

lemma n_entries_slots: "set_ok st \<Longrightarrow> nat (st_n_entries st) = length (filter is_ent (st_index st))"
  by (simp add: set_ok_def set_inv_def n_slots_def)

section \<open>The interface that the algebra uses\<close>

text \<open>
  A table that is searched by key and in which the slot found can be deleted; deleting the keys
  of a list one after another restricts the map.
\<close>

locale map_table =
  fixes ok :: "'s \<Rightarrow> bool" and vkey :: "'k \<Rightarrow> bool" and abs_map :: "'s \<Rightarrow> 'k \<Rightarrow> 'v option"
    and find_slot :: "'s \<Rightarrow> 'k \<Rightarrow> 'p option" and del :: "'s \<Rightarrow> 'p \<Rightarrow> 's"
  assumes find_None: "ok s \<Longrightarrow> vkey k \<Longrightarrow> find_slot s k = None \<longleftrightarrow> abs_map s k = None"
    and del_found: "ok s \<Longrightarrow> vkey k \<Longrightarrow> find_slot s k = Some p \<Longrightarrow>
      ok (del s p) \<and> abs_map (del s p) = (abs_map s)(k := None)"
begin

definition drop_key :: "'s \<Rightarrow> 'k \<Rightarrow> 's" where
  "drop_key s k = (case find_slot s k of None \<Rightarrow> s | Some p \<Rightarrow> del s p)"

lemma drop_key:
  assumes "ok s" "vkey k"
  shows "ok (drop_key s k)" "abs_map (drop_key s k) = (abs_map s)(k := None)"
proof -
  show "ok (drop_key s k)" using del_found [OF assms] assms by (auto simp: drop_key_def split: option.split)
  show "abs_map (drop_key s k) = (abs_map s)(k := None)"
    using del_found [OF assms] find_None [OF assms]
    by (auto simp: drop_key_def fun_upd_idem split: option.split)
qed

lemma drop_keys:
  assumes "ok s" "\<forall>k \<in> set ks. vkey k"
  shows "ok (foldl drop_key s ks) \<and> abs_map (foldl drop_key s ks) = abs_map s |` (- set ks)"
  using assms
proof (induction ks arbitrary: s)
  case (Cons k ks)
  then have "ok (foldl drop_key (drop_key s k) ks)"
    "abs_map (foldl drop_key (drop_key s k) ks) = abs_map (drop_key s k) |` (- set ks)"
    using drop_key [of s k] by auto
  moreover have "(abs_map s)(k := None) |` (- set ks) = abs_map s |` (- set (k # ks))"
    by (auto simp: restrict_map_def fun_eq_iff)
  ultimately show ?case using drop_key [of s k] Cons.prems by simp
qed (simp add: restrict_map_def)

end

definition key_form :: "nat \<Rightarrow> bytes \<Rightarrow> bool" where
  "key_form n key \<longleftrightarrow> (if n = 0 then 0 \<notin> set key else length key = n)"

definition table_of :: "nat \<Rightarrow> sen_set \<Rightarrow> bool" where
  "table_of n st \<longleftrightarrow> set_ok st \<and> st_key_size st = n"

definition find_in :: "sen_set \<Rightarrow> bytes \<Rightarrow> nat option" where
  "find_in st key = the (at_key st key)"

definition del_at :: "sen_set \<Rightarrow> nat \<Rightarrow> sen_set" where
  "del_at st p = snd (the (sen_set_del st (Some p)))"

lemma table_at:
  assumes "table_of n st" "key_form n key"
  shows "sen_set_at alloc st key = Some (find_in st key, st)"
    and "find_in st key = None \<longleftrightarrow> set_map st key = None"
    and "find_in st key = Some p \<Longrightarrow>
      p < length (st_index st) \<and> (\<exists>e. st_index st ! p = Ent e \<and> entry_key st e = key)"
proof -
  have inv: "set_inv st" and na: "\<not> st_arrayp st" and vk: "valid_key st key"
    using assms by (auto simp: table_of_def set_ok_def set_inv_def valid_key_def key_form_def)
  from at_key_spec [OF inv vk] obtain r where r: "at_key st key = Some r" by blast
  then show "sen_set_at alloc st key = Some (find_in st key, st)"
    using na by (simp add: sen_set_at_def find_in_def)
  show "find_in st key = None \<longleftrightarrow> set_map st key = None"
    using at_key_spec [OF inv vk] by (auto simp: find_in_def set_map_None domIff)
  show "find_in st key = Some p \<Longrightarrow>
      p < length (st_index st) \<and> (\<exists>e. st_index st ! p = Ent e \<and> entry_key st e = key)"
    using at_key_spec [OF inv vk] by (auto simp: find_in_def)
qed

lemma table_del:
  assumes "table_of n st" "p < length (st_index st)" "st_index st ! p = Ent e"
  shows "sen_set_del st (Some p) = Some (sen_success, del_at st p)" "table_of n (del_at st p)"
    "set_map (del_at st p) = (set_map st)(entry_key st e := None)"
    "st_index (del_at st p) = (st_index st)[p := GARBAGE]" "entry_key (del_at st p) = entry_key st"
    "st_value_size (del_at st p) = st_value_size st"
proof -
  have "set_ok st" using assms(1) by (simp add: table_of_def)
  from del_removes [OF this assms(2,3)]
  show "sen_set_del st (Some p) = Some (sen_success, del_at st p)" "table_of n (del_at st p)"
    "set_map (del_at st p) = (set_map st)(entry_key st e := None)"
    "st_value_size (del_at st p) = st_value_size st"
    using assms(1) by (auto simp: del_at_def table_of_def)
  show "st_index (del_at st p) = (st_index st)[p := GARBAGE]" "entry_key (del_at st p) = entry_key st"
    using assms(3) by (auto simp: del_at_def sen_set_del_def fun_eq_iff entry_key_def)
qed

interpretation set_table: map_table "table_of n" "key_form n" set_map find_in del_at for n
proof
  fix s k p
  assume "table_of n s" "key_form n k"
  note T = table_at [OF this]
  show "find_in s k = None \<longleftrightarrow> set_map s k = None" by (rule T)
  assume "find_in s k = Some p"
  then show "table_of n (del_at s p) \<and> set_map (del_at s p) = (set_map s)(k := None)"
    using T(3) table_del [OF \<open>table_of n s\<close>] by blast
qed

section \<open>The loops\<close>

lemma subtract_loop_eq:
  assumes "table_of n a" "\<forall>k \<in> set (slot_keys b ep). key_form n k" "i = length (filter is_ent ep)"
  shows "subtract_loop alloc i ep b a = Some (foldl set_table.drop_key a (slot_keys b ep))"
  using assms
proof (induction ep arbitrary: a i)
  case (Cons sl ep)
  show ?case
  proof (cases sl)
    case (Ent e)
    let ?k = "entry_key b e"
    have kf: "key_form n ?k" using Cons.prems(2) Ent by simp
    note T = table_at [OF Cons.prems(1) kf]
    have ok: "table_of n (set_table.drop_key a ?k)" by (rule set_table.drop_key(1) [OF Cons.prems(1) kf])
    have i: "i = Suc (length (filter is_ent ep))" using Cons.prems(3) Ent by simp
    have IH: "subtract_loop alloc (length (filter is_ent ep)) ep b (set_table.drop_key a ?k) =
        Some (foldl set_table.drop_key (set_table.drop_key a ?k) (slot_keys b ep))"
      using Cons.IH [OF ok] Cons.prems(2) Ent by simp
    show ?thesis
    proof (cases "find_in a ?k")
      case None
      then have "set_table.drop_key a ?k = a" by (simp add: set_table.drop_key_def)
      with None show ?thesis using IH Ent i T(1) by simp
    next
      case (Some p)
      then obtain e' where "p < length (st_index a)" "st_index a ! p = Ent e'" using T(3) by blast
      moreover from Some have "set_table.drop_key a ?k = del_at a p" by (simp add: set_table.drop_key_def)
      ultimately show ?thesis using table_del(1) [OF Cons.prems(1)] IH Ent i T(1) Some by simp
    qed
  next
    case NULL
    have "subtract_loop alloc i ep b a = Some (foldl set_table.drop_key a (slot_keys b ep))"
      using Cons.IH [OF Cons.prems(1)] Cons.prems(2,3) NULL by simp
    moreover have "subtract_loop alloc i (sl # ep) b a = subtract_loop alloc i ep b a"
      using NULL by (cases i) auto
    ultimately show ?thesis using NULL by simp
  next
    case GARBAGE
    have "subtract_loop alloc i ep b a = Some (foldl set_table.drop_key a (slot_keys b ep))"
      using Cons.IH [OF Cons.prems(1)] Cons.prems(2,3) GARBAGE by simp
    moreover have "subtract_loop alloc i (sl # ep) b a = subtract_loop alloc i ep b a"
      using GARBAGE by (cases i) auto
    ultimately show ?thesis using GARBAGE by simp
  qed
qed simp

lemma slot_keys_cong: "entry_key st' = entry_key st \<Longrightarrow> slot_keys st' ep = slot_keys st ep"
proof (induction ep)
  case (Cons sl ep)
  then show ?case by (cases sl) auto
qed simp

lemma drop_nth_Cons: "sl # ep = drop p xs \<Longrightarrow> p < length xs \<and> xs ! p = sl \<and> ep = drop (Suc p) xs"
  by (metis Cons_nth_drop_Suc drop_eq_Nil linorder_not_less list.distinct(1) list.inject)

text \<open>Intersection: what is left to do is \<open>ep\<close>, the rest of the index of \<open>a\<close>.\<close>

lemma intersect_loop_ok:
  assumes "table_of n a" "table_of n b" "ep = drop p (st_index a)" "i = length (filter is_ent ep)"
    and "\<forall>k \<in> set (slot_keys a ep). key_form n k"
  shows "\<exists>a'. intersect_loop alloc i p ep b a = Some (a', b) \<and> table_of n a' \<and>
     set_map a' = set_map a |` (- (set (slot_keys a ep) - dom (set_map b)))"
  using assms
proof (induction ep arbitrary: p a i)
  case Nil
  then show ?case by (auto simp: restrict_map_def)
next
  case (Cons sl ep)
  have p: "p < length (st_index a)" "st_index a ! p = sl" "ep = drop (Suc p) (st_index a)"
    using drop_nth_Cons [OF Cons.prems(3)] by auto
  show ?case
  proof (cases sl)
    case (Ent e)
    let ?k = "entry_key a e"
    have kf: "key_form n ?k" "\<forall>k \<in> set (slot_keys a ep). key_form n k" using Cons.prems(5) Ent by simp_all
    have i: "i = Suc (length (filter is_ent ep))" using Cons.prems(4) Ent by simp
    note T = table_at [OF Cons.prems(2) kf(1)]
    show ?thesis
    proof (cases "find_in b ?k")
      case None
      note D = table_del [OF Cons.prems(1) p(1) p(2) [unfolded Ent]]
      have ep: "ep = drop (Suc p) (st_index (del_at a p))" using p(3) by (simp add: D(4))
      have keys: "slot_keys (del_at a p) ep = slot_keys a ep" using D(5) by (rule slot_keys_cong)
      obtain a' where a': "intersect_loop alloc (length (filter is_ent ep)) (Suc p) ep b (del_at a p) = Some (a', b)"
        "table_of n a'" "set_map a' = set_map (del_at a p) |` (- (set (slot_keys a ep) - dom (set_map b)))"
        using Cons.IH [OF D(2) Cons.prems(2) ep refl] kf(2) by (auto simp: keys)
      have "?k \<notin> dom (set_map b)" using None T(2) by auto
      then have "set_map a' = set_map a |` (- (set (slot_keys a (sl # ep)) - dom (set_map b)))"
        unfolding a'(3) D(3) by (auto simp: Ent restrict_map_def fun_eq_iff)
      with a' show ?thesis using None T(1) D(1) i Ent by simp
    next
      case (Some q)
      obtain a' where a': "intersect_loop alloc (length (filter is_ent ep)) (Suc p) ep b a = Some (a', b)"
        "table_of n a'" "set_map a' = set_map a |` (- (set (slot_keys a ep) - dom (set_map b)))"
        using Cons.IH [OF Cons.prems(1,2) p(3) refl kf(2)] by auto
      have "?k \<in> dom (set_map b)" using Some T(2) by auto
      then have "set_map a' = set_map a |` (- (set (slot_keys a (sl # ep)) - dom (set_map b)))"
        unfolding a'(3) by (auto simp: Ent restrict_map_def fun_eq_iff)
      with a' show ?thesis using Some T(1) i Ent by simp
    qed
  next
    case NULL
    have "\<exists>a'. intersect_loop alloc i (Suc p) ep b a = Some (a', b) \<and> table_of n a' \<and>
        set_map a' = set_map a |` (- (set (slot_keys a ep) - dom (set_map b)))"
      using Cons.IH [OF Cons.prems(1,2) p(3)] Cons.prems(4,5) NULL by simp
    moreover have "intersect_loop alloc i p (sl # ep) b a = intersect_loop alloc i (Suc p) ep b a"
      using NULL by (cases i) auto
    ultimately show ?thesis using NULL by simp
  next
    case GARBAGE
    have "\<exists>a'. intersect_loop alloc i (Suc p) ep b a = Some (a', b) \<and> table_of n a' \<and>
        set_map a' = set_map a |` (- (set (slot_keys a ep) - dom (set_map b)))"
      using Cons.IH [OF Cons.prems(1,2) p(3)] Cons.prems(4,5) GARBAGE by simp
    moreover have "intersect_loop alloc i p (sl # ep) b a = intersect_loop alloc i (Suc p) ep b a"
      using GARBAGE by (cases i) auto
    ultimately show ?thesis using GARBAGE by simp
  qed
qed

text \<open>Difference: the common keys of what is left leave both tables and are counted.\<close>

lemma difference_loop_ok:
  assumes "table_of n a" "table_of n b" "ep = drop p (st_index a)" "i = length (filter is_ent ep)"
    and "\<forall>k \<in> set (slot_keys a ep). key_form n k" "distinct (slot_keys a ep)"
  shows "\<exists>a' b'. difference_loop alloc i p ep m b a =
       Some (m + card (set (slot_keys a ep) \<inter> dom (set_map b)), a', b') \<and>
     table_of n a' \<and> table_of n b' \<and>
     set_map a' = set_map a |` (- (set (slot_keys a ep) \<inter> dom (set_map b))) \<and>
     set_map b' = set_map b |` (- set (slot_keys a ep))"
  using assms
proof (induction ep arbitrary: p a b i m)
  case Nil
  then show ?case by (auto simp: restrict_map_def)
next
  case (Cons sl ep)
  have p: "p < length (st_index a)" "st_index a ! p = sl" "ep = drop (Suc p) (st_index a)"
    using drop_nth_Cons [OF Cons.prems(3)] by auto
  show ?case
  proof (cases "\<exists>e. sl = Ent e")
    case True
    then obtain e where Ent: "sl = Ent e" by blast
    let ?k = "entry_key a e" and ?K = "set (slot_keys a ep)" and ?B = "dom (set_map b)"
    have kf: "key_form n ?k" "\<forall>k \<in> ?K. key_form n k" using Cons.prems(5) Ent by simp_all
    have dk: "?k \<notin> ?K" "distinct (slot_keys a ep)" using Cons.prems(6) Ent by simp_all
    have i: "i = Suc (length (filter is_ent ep))" using Cons.prems(4) Ent by simp
    note T = table_at [OF Cons.prems(2) kf(1)]
    show ?thesis
    proof (cases "find_in b ?k")
      case (Some q)
      obtain e' where q: "q < length (st_index b)" "st_index b ! q = Ent e'" "entry_key b e' = ?k"
        using T(3) [OF Some] by blast
      note DA = table_del [OF Cons.prems(1) p(1) p(2) [unfolded Ent]]
      note DB = table_del [OF Cons.prems(2) q(1,2), unfolded q(3)]
      have ep: "ep = drop (Suc p) (st_index (del_at a p))" using p(3) by (simp add: DA(4))
      have keys: "slot_keys (del_at a p) ep = slot_keys a ep" using DA(5) by (rule slot_keys_cong)
      have int: "?K \<inter> dom (set_map (del_at b q)) = ?K \<inter> ?B" using dk(1) DB(3) by auto
      obtain a' b' where ab: "difference_loop alloc (length (filter is_ent ep)) (Suc p) ep (m + 1) (del_at b q) (del_at a p) =
          Some (m + 1 + card (?K \<inter> ?B), a', b')" "table_of n a'" "table_of n b'"
        "set_map a' = set_map (del_at a p) |` (- (?K \<inter> ?B))"
        "set_map b' = set_map (del_at b q) |` (- ?K)"
        using Cons.IH [OF DA(2) DB(2) ep refl, of "m + 1"] kf(2) dk(2) unfolding keys int by blast
      have "?k \<in> ?B" using Some T(2) by auto
      then have c: "set (slot_keys a (sl # ep)) \<inter> ?B = insert ?k (?K \<inter> ?B)" using Ent by auto
      have "card (insert ?k (?K \<inter> ?B)) = Suc (card (?K \<inter> ?B))" using dk(1) by simp
      moreover have "set_map a' = set_map a |` (- insert ?k (?K \<inter> ?B))"
        unfolding ab(4) DA(3) by (auto simp: restrict_map_def fun_eq_iff)
      moreover have "set_map b' = set_map b |` (- set (slot_keys a (sl # ep)))"
        unfolding ab(5) DB(3) by (auto simp: Ent restrict_map_def fun_eq_iff)
      ultimately show ?thesis
        unfolding c using ab(1-3) Some T(1) DA(1) DB(1) i Ent by simp
    next
      case None
      obtain a' b' where ab: "difference_loop alloc (length (filter is_ent ep)) (Suc p) ep m b a =
          Some (m + card (?K \<inter> ?B), a', b')" "table_of n a'" "table_of n b'"
        "set_map a' = set_map a |` (- (?K \<inter> ?B))" "set_map b' = set_map b |` (- ?K)"
        using Cons.IH [OF Cons.prems(1,2) p(3) refl kf(2) dk(2), of m] by blast
      have nb: "?k \<notin> ?B" using None T(2) by auto
      then have c: "set (slot_keys a (sl # ep)) \<inter> ?B = ?K \<inter> ?B" using Ent by auto
      have "set_map b' = set_map b |` (- set (slot_keys a (sl # ep)))"
        unfolding ab(5) using nb by (auto simp: Ent restrict_map_def fun_eq_iff)
      then show ?thesis unfolding c using ab None T(1) i Ent by simp
    qed
  next
    case False
    then have sk: "slot_keys a (sl # ep) = slot_keys a ep" "\<not> is_ent sl" by (cases sl; simp)+
    have "difference_loop alloc i p (sl # ep) m b a = difference_loop alloc i (Suc p) ep m b a"
      using False by (cases i; cases sl) auto
    then show ?thesis
      using Cons.IH [OF Cons.prems(1,2) p(3), of i m] Cons.prems(4-6) sk by simp
  qed
qed

text \<open>Union: an entry of \<open>b\<close> is added unless its key is there.\<close>

lemma set_value_slot:
  assumes "table_of n st" "p < length (st_index st)" "st_index st ! p = Ent e"
    "length v = st_value_size st"
  shows "table_of n (slot_value st p v)" "set_map (slot_value st p v) = (set_map st)(entry_key st e \<mapsto> v)"
    "st_n_entries (slot_value st p v) = st_n_entries st"
    "st_value_size (slot_value st p v) = st_value_size st"
proof -
  have l: "live st e" using assms(2,3) by (auto simp: live_nth)
  have ok: "set_ok st" using assms(1) by (simp add: table_of_def)
  note V = set_value_ok [OF ok l assms(4)]
  have "slot_value st p v = set_value st e v" using assms(3) by (simp add: slot_value_def)
  with V assms(1) show "table_of n (slot_value st p v)"
    "set_map (slot_value st p v) = (set_map st)(entry_key st e \<mapsto> v)"
    "st_n_entries (slot_value st p v) = st_n_entries st"
    "st_value_size (slot_value st p v) = st_value_size st"
    by (auto simp: table_of_def)
qed

lemma union_loop_ok:
  assumes "table_of n a" "\<forall>(k, v) \<in> set (slot_pairs b ep). key_form n k \<and> length v = st_value_size a"
    and "i = length (filter is_ent ep)" "st_n_entries a + int i \<le> 2 ^ 30"
  shows "\<exists>a'. union_loop (\<lambda>_. True) i ep b a = Some a' \<and> table_of n a' \<and>
     set_map a' = map_of (slot_pairs b ep) ++ set_map a"
  using assms
proof (induction ep arbitrary: a i)
  case (Cons sl ep)
  show ?case
  proof (cases "\<exists>e. sl = Ent e")
    case False
    have "union_loop (\<lambda>_. True) i (sl # ep) b a = union_loop (\<lambda>_. True) i ep b a"
      using False by (cases i; cases sl) auto
    moreover have "slot_pairs b (sl # ep) = slot_pairs b ep" "filter is_ent (sl # ep) = filter is_ent ep"
      using False by (cases sl; simp)+
    ultimately show ?thesis using Cons by simp
  next
    case True
    then obtain e where Ent: "sl = Ent e" by blast
    let ?k = "entry_key b e" and ?v = "entry_val b e" and ?i = "length (filter is_ent ep)"
    have kf: "key_form n ?k" "length ?v = st_value_size a"
      "\<forall>(k, v) \<in> set (slot_pairs b ep). key_form n k \<and> length v = st_value_size a"
      using Cons.prems(2) Ent by simp_all
    have i: "i = Suc ?i" using Cons.prems(3) Ent by simp
    note T = table_at [OF Cons.prems(1) kf(1)]
    show ?thesis
    proof (cases "find_in a ?k")
      case (Some q)
      have "?k \<in> dom (set_map a)" using Some T(2) by auto
      then have "map_of (slot_pairs b (sl # ep)) ++ set_map a = map_of (slot_pairs b ep) ++ set_map a"
        by (auto simp: Ent fun_eq_iff map_add_def split: option.splits)
      moreover have "union_loop (\<lambda>_. True) i (sl # ep) b a = union_loop (\<lambda>_. True) ?i ep b a"
        using Some T(1) i Ent by simp
      ultimately show ?thesis using Cons.IH [OF Cons.prems(1) kf(3) refl] Cons.prems(4) i by simp
    next
      case None
      have ok: "set_ok a" and vk: "valid_key a ?k" and small: "st_n_entries a < 2 ^ 30"
        using Cons.prems(1,4) kf(1) i by (auto simp: table_of_def valid_key_def key_form_def)
      obtain r a2 where g: "sen_set_get (\<lambda>_. True) a ?k = Some (r, a2)" "r \<noteq> None" "set_ok a2"
        "\<forall>p. r = Some p \<longrightarrow> (\<exists>e. p < length (st_index a2) \<and> st_index a2 ! p = Ent e \<and> live a2 e \<and>
             entry_key a2 e = ?k) \<and>
           set_map a2 = (if ?k \<in> dom (set_map a) then set_map a
                         else (set_map a)(?k \<mapsto> replicate (st_value_size a) 0))"
        "st_key_size a2 = st_key_size a" "st_value_size a2 = st_value_size a"
        "st_n_entries a2 \<le> st_n_entries a + 1"
        using get_inserts [OF ok vk small, of "\<lambda>_. True"] by auto
      obtain p where r: "r = Some p" using g(2) by blast
      have nd: "?k \<notin> dom (set_map a)" using None T(2) by auto
      obtain e' where e': "p < length (st_index a2)" "st_index a2 ! p = Ent e'" "entry_key a2 e' = ?k"
        and m2: "set_map a2 = (set_map a)(?k \<mapsto> replicate (st_value_size a) 0)"
        using g(4) r nd by auto
      have t2: "table_of n a2" using g(3,5) Cons.prems(1) by (simp add: table_of_def)
      have lv: "length ?v = st_value_size a2" using kf(2) g(6) by simp
      note V = set_value_slot [OF t2 e'(1,2) lv]
      let ?a = "slot_value a2 p ?v"
      have "st_n_entries ?a + int ?i \<le> 2 ^ 30" using V(3) g(7) Cons.prems(4) i by simp
      then obtain a' where a': "union_loop (\<lambda>_. True) ?i ep b ?a = Some a'" "table_of n a'"
        "set_map a' = map_of (slot_pairs b ep) ++ set_map ?a"
        using Cons.IH [OF V(1) _ refl] kf(3) V(4) g(6) by auto
      have "set_map a' = map_of (slot_pairs b (sl # ep)) ++ set_map a"
        unfolding a'(3) V(2) m2 e'(3) using nd
        by (auto simp: Ent fun_eq_iff map_add_def domIff split: option.splits)
      moreover have "union_loop (\<lambda>_. True) i (sl # ep) b a = Some a'"
        using None T(1) i Ent g(1) r a'(1) by simp
      ultimately show ?thesis using a'(2) by blast
    qed
  qed
qed simp

section \<open>The loop over a cursor\<close>

lemma cursor_scan_spec:
  "cursor_scan index i ep =
     (case filter (\<lambda>p. is_ent (index ! p)) [ep..<ep + i] of
        [] \<Rightarrow> None
      | p # _ \<Rightarrow> Some (p, ep + i - p))"
proof (induction i arbitrary: ep)
  case (Suc i)
  have e: "Suc ep + i = ep + Suc i" by simp
  have "[ep..<ep + Suc i] = ep # [Suc ep..<ep + Suc i]" by (rule upt_conv_Cons) simp
  then show ?case using Suc [of "Suc ep", unfolded e] by (cases "index ! ep") (simp_all del: upt_Suc)
qed simp

lemma filter_upt_Cons:
  assumes "filter P [a..<b] = p # ps"
  shows "a \<le> p \<and> p < b \<and> ps = filter P [Suc p..<b]"
proof -
  have p: "p \<in> set (filter P [a..<b])" using assms by simp
  then have ab: "a \<le> p" "p < b" "P p" by auto
  have "[a..<b] = [a..<p] @ p # [Suc p..<b]"
    using ab by (metis upt_add_eq_append upt_conv_Cons le_add_diff_inverse less_imp_le)
  then have f: "filter P [a..<b] = filter P [a..<p] @ p # filter P [Suc p..<b]" using ab by simp
  have "filter P [a..<p] = []"
  proof (cases "filter P [a..<p]")
    case (Cons q qs)
    then have "q = p" using assms f by simp
    moreover have "q \<in> set (filter P [a..<p])" using Cons by simp
    ultimately show ?thesis by simp
  qed simp
  then show ?thesis using ab assms f by simp
qed

lemma cursor_slots_spec:
  assumes "i < n" "i \<le> 2 ^ 31"
  shows "cursor_slots n st \<lparr>cs_curr = ep, cs_rest = of_nat i\<rparr> =
     filter (\<lambda>p. is_ent (st_index st ! p)) [ep..<ep + i]"
  using assms
proof (induction n arbitrary: i ep)
  case (Suc n)
  let ?P = "\<lambda>p. is_ent (st_index st ! p)"
  have u: "unat (of_nat i :: u32) = i" using Suc.prems(2) unfolding unat_of_nat by simp
  then have z: "(of_nat i :: u32) = 0 \<longleftrightarrow> i = 0" by (metis unat_0 unat_eq_zero)
  show ?case
  proof (cases "filter ?P [ep..<ep + i]")
    case Nil
    then show ?thesis using z by (cases "i = 0") (auto simp: sen_set_cursor_next_def u cursor_scan_spec)
  next
    case (Cons p ps)
    note F = filter_upt_Cons [OF Cons]
    let ?i = "ep + i - p - 1"
    have "ep + i - p = Suc ?i" using F by (simp add: Suc_diff_Suc)
    then have c: "(of_nat (ep + i - p) - 1 :: u32) = of_nat ?i" by (metis add_diff_cancel_left' of_nat_Suc)
    have nz: "i \<noteq> 0" using Cons by (cases i) auto
    have e: "Suc p + ?i = ep + i" using F by simp
    have "cursor_slots n st \<lparr>cs_curr = Suc p, cs_rest = of_nat ?i\<rparr> = filter ?P [Suc p..<Suc p + ?i]"
      using F Suc.prems by (intro Suc.IH) auto
    then show ?thesis
      unfolding e using F nz z Cons c
      by (simp add: sen_set_cursor_next_def u cursor_scan_spec del: of_nat_diff)
  qed
qed simp

section \<open>Correctness\<close>

lemma table_keys:
  assumes "set_ok st"
  shows "\<forall>(k, v) \<in> set (slot_pairs st (st_index st)). key_form (st_key_size st) k \<and> length v = st_value_size st"
    and "\<forall>k \<in> set (slot_keys st (st_index st)). key_form (st_key_size st) k"
    and "distinct (slot_keys st (st_index st))"
proof -
  have E: "entries_ok st" using assms by (simp add: set_ok_def set_inv_def)
  have "set (slot_pairs st ep) = {(entry_key st e, entry_val st e) | e. Ent e \<in> set ep}" for ep
  proof (induction ep)
    case (Cons sl ep)
    then show ?case by (cases sl) auto
  qed simp
  then show p: "\<forall>(k, v) \<in> set (slot_pairs st (st_index st)). key_form (st_key_size st) k \<and> length v = st_value_size st"
    using E by (auto simp: entries_ok_def live_def valid_key_def key_form_def entry_val_def)
  then show "\<forall>k \<in> set (slot_keys st (st_index st)). key_form (st_key_size st) k"
    by (auto simp: slot_keys_def)
  have "distinct (slot_keys st ep)" if "distinct (filter is_ent ep)" "set ep \<subseteq> set (st_index st)" for ep
    using that
  proof (induction ep)
    case (Cons sl ep)
    show ?case
    proof (cases "\<exists>e. sl = Ent e")
      case True
      then obtain e where e: "sl = Ent e" by blast
      have "entry_key st e' \<noteq> entry_key st e" if "Ent e' \<in> set ep" for e'
      proof
        assume "entry_key st e' = entry_key st e"
        moreover have "live st e" "live st e'" using that Cons.prems(2) e by (auto simp: live_def)
        ultimately have "e' = e" using live_key_unique [OF E] by blast
        then show False using that Cons.prems(1) e by simp
      qed
      then show ?thesis using Cons e by (auto simp: in_slot_keys)
    next
      case False
      then show ?thesis using Cons by (cases sl) auto
    qed
  qed simp
  then show "distinct (slot_keys st (st_index st))" using entries_distinct [OF E] by blast
qed

text \<open>A table with one key, for the examples.\<close>

lemma one_table:
  "\<exists>st. set_ok st \<and> st_key_size st = 4 \<and> st_value_size st = 4 \<and> st_n_entries st \<le> 1 \<and>
     set_map st = [[7, 0, 0, 0] \<mapsto> [0, 0, 0, 0]]"
proof -
  have v: "valid_key empty_table [7, 0, 0, 0]" by (simp add: valid_key_def empty_table_ok)
  from get_inserts [OF empty_table_ok(1) v, of "\<lambda>_. True"]
  show ?thesis by (fastforce simp: empty_table_ok numeral_eq_Suc)
qed

text \<open>
  C17: the union of two tables with the same sizes of keys and values holds the keys of both;
  where both have a key the value of the first table stays.
\<close>

theorem sen_set_union_map:
  assumes "set_ok a" "set_ok b" "st_key_size a = st_key_size b" "st_value_size a = st_value_size b"
    and "st_n_entries a + st_n_entries b \<le> 2 ^ 30"
  shows "\<exists>a'. sen_set_union (\<lambda>_. True) a b = Some (Some a') \<and> set_ok a' \<and>
     set_map a' = set_map b ++ set_map a"
proof -
  have t: "table_of (st_key_size b) a" using assms by (simp add: table_of_def)
  have n: "0 \<le> st_n_entries b" using assms(2) by (simp add: set_ok_def set_inv_def)
  have "st_n_entries a + int (length (filter is_ent (st_index b))) \<le> 2 ^ 30"
    using n_entries_slots [OF assms(2)] n assms(5) by simp
  then show ?thesis
    using union_loop_ok [OF t table_keys(1) [OF assms(2), folded assms(4)] n_entries_slots [OF assms(2)]]
      n_entries_slots [OF assms(2)] assms(3,4)
    by (auto simp: sen_set_union_def map_of_slot_pairs table_of_def)
qed

theorem sen_set_union_map_witness:
  "\<exists>b a'. sen_set_union (\<lambda>_. True) empty_table b = Some (Some a') \<and> set_ok a' \<and>
     set_map a' = [[7, 0, 0, 0] \<mapsto> [0, 0, 0, 0]]"
proof -
  obtain b where b: "set_ok b" "st_key_size b = 4" "st_value_size b = 4" "st_n_entries b \<le> 1"
    "set_map b = [[7, 0, 0, 0] \<mapsto> [0, 0, 0, 0]]"
    using one_table by blast
  from sen_set_union_map [OF empty_table_ok(1) b(1)] b show ?thesis by (auto simp: empty_table_ok)
qed

text \<open>
  C33: subtraction keeps exactly the keys of the first table that are not in the second, and
  intersection exactly those that are; neither needs memory.
\<close>

theorem sen_set_subtract_intersect_map:
  assumes "set_ok a" "set_ok b" "st_key_size a = st_key_size b"
  shows "\<exists>a' a''. sen_set_subtract alloc a b = Some (Some a') \<and> set_ok a' \<and>
       set_map a' = set_map a |` (- dom (set_map b)) \<and>
     sen_set_intersect alloc a b = Some (Some a'') \<and> set_ok a'' \<and>
       set_map a'' = set_map a |` dom (set_map b)"
proof -
  let ?n = "st_key_size b"
  have t: "table_of ?n a" "table_of ?n b" using assms by (simp_all add: table_of_def)
  have kb: "\<forall>k \<in> set (slot_keys b (st_index b)). key_form ?n k" by (rule table_keys [OF assms(2)])
  have ka: "\<forall>k \<in> set (slot_keys a (st_index a)). key_form ?n k"
    using table_keys(2) [OF assms(1)] assms(3) by simp
  have "sen_set_subtract alloc a b = Some (Some (foldl set_table.drop_key a (slot_keys b (st_index b))))"
    using subtract_loop_eq [OF t(1) kb n_entries_slots [OF assms(2)]] assms(3)
    by (simp add: sen_set_subtract_def)
  moreover note set_table.drop_keys [OF t(1) kb, unfolded set_slot_keys]
  moreover obtain a'' where "intersect_loop alloc (nat (st_n_entries a)) 0 (st_index a) b a = Some (a'', b)"
    "table_of ?n a''" "set_map a'' = set_map a |` (- (dom (set_map a) - dom (set_map b)))"
    using intersect_loop_ok [OF t, of "st_index a" 0 "nat (st_n_entries a)"] n_entries_slots [OF assms(1)] ka
    by (simp add: set_slot_keys) blast
  moreover have "set_map a |` (- (dom (set_map a) - dom (set_map b))) = set_map a |` dom (set_map b)"
    by (auto simp: restrict_map_def fun_eq_iff)
  ultimately show ?thesis using assms(3) by (auto simp: sen_set_intersect_def table_of_def)
qed

theorem sen_set_subtract_intersect_map_witness:
  "\<exists>a a' a''. sen_set_subtract (\<lambda>_. True) a a = Some (Some a') \<and> set_map a' = Map.empty \<and>
     sen_set_intersect (\<lambda>_. True) a empty_table = Some (Some a'') \<and> set_map a'' = Map.empty \<and>
     set_map a = [[7, 0, 0, 0] \<mapsto> [0, 0, 0, 0]]"
proof -
  obtain a where a: "set_ok a" "st_key_size a = 4" "set_map a = [[7, 0, 0, 0] \<mapsto> [0, 0, 0, 0]]"
    using one_table by blast
  have "set_map a |` (- dom (set_map a)) = Map.empty" by (auto simp: restrict_map_def)
  with sen_set_subtract_intersect_map [OF a(1) a(1) refl, of "\<lambda>_. True"]
    sen_set_subtract_intersect_map [OF a(1) empty_table_ok(1), of "\<lambda>_. True"] a(2,3)
  show ?thesis by (auto simp: empty_table_ok)
qed

text \<open>
  C34: \<open>sen_set_difference\<close> takes the common keys out of both tables and returns their number.
\<close>

theorem sen_set_difference_map:
  assumes "set_ok a" "set_ok b" "st_key_size a = st_key_size b"
  shows "\<exists>a' b'. sen_set_difference alloc a b =
       Some (wrap32 (int (card (dom (set_map a) \<inter> dom (set_map b)))), a', b') \<and> set_ok a' \<and> set_ok b' \<and>
     set_map a' = set_map a |` (- dom (set_map b)) \<and> set_map b' = set_map b |` (- dom (set_map a))"
proof -
  let ?n = "st_key_size b"
  have t: "table_of ?n a" "table_of ?n b" using assms by (simp_all add: table_of_def)
  have ka: "\<forall>k \<in> set (slot_keys a (st_index a)). key_form ?n k" "distinct (slot_keys a (st_index a))"
    using table_keys(2,3) [OF assms(1)] assms(3) by simp_all
  have "set_map a |` (- (dom (set_map a) \<inter> dom (set_map b))) = set_map a |` (- dom (set_map b))"
    by (auto simp: restrict_map_def fun_eq_iff)
  then show ?thesis
    using difference_loop_ok [OF t, of "st_index a" 0 "nat (st_n_entries a)" alloc 0]
      n_entries_slots [OF assms(1)] ka assms(3)
    by (auto simp: set_slot_keys sen_set_difference_def table_of_def)
qed

theorem sen_set_difference_map_witness:
  "\<exists>a b a' b'. sen_set_difference (\<lambda>_. True) a b = Some (1, a', b') \<and>
     set_map a' = Map.empty \<and> set_map b' = Map.empty"
proof -
  obtain a where a: "set_ok a" "st_key_size a = 4" "set_map a = [[7, 0, 0, 0] \<mapsto> [0, 0, 0, 0]]"
    using one_table by blast
  have "set_map a |` (- dom (set_map a)) = Map.empty" by (auto simp: restrict_map_def)
  moreover have "wrap32 (int (card (dom (set_map a) \<inter> dom (set_map a)))) = 1"
    by (simp add: a(3) wrap32_def)
  ultimately show ?thesis
    using sen_set_difference_map [OF a(1) a(1) refl, of "\<lambda>_. True"] by (auto simp del: Int_absorb)
qed

text \<open>
  C35: a loop over a cursor visits the slot of every entry exactly once, in the order of the
  index, and then gets NULL.
\<close>

theorem cursor_visits_all:
  assumes "set_ok st" "sen_set_cursor_open alloc st = Some c" "length (st_index st) < n"
  shows "cursor_slots n st c = filter (\<lambda>p. is_ent (st_index st ! p)) [0..<length (st_index st)]"
proof -
  obtain k where g: "geom_ok st k" using assms(1) by (auto simp: set_ok_def set_inv_def)
  then have k: "k \<le> 31" "length (st_index st) = 2 ^ k" "st_max_offset st = mask k" by (auto simp: geom_ok_def)
  have "(mask k + 1 :: u32) = 2 ^ k" by (simp flip: mask_2p)
  then have "c = \<lparr>cs_curr = 0, cs_rest = of_nat (2 ^ k)\<rparr>"
    using assms(2) k(3) by (auto simp: sen_set_cursor_open_def split: if_splits)
  moreover have "(2::nat) ^ k \<le> 2 ^ 31" using k(1) by (rule power_increasing) simp
  ultimately show ?thesis using cursor_slots_spec [of "2 ^ k" n st 0] assms(3) k(2) by simp
qed

theorem cursor_visits_all_witness:
  "\<exists>c. sen_set_cursor_open (\<lambda>_. True) empty_table = Some c \<and> cursor_slots 300 empty_table c = []"
proof -
  obtain c where c: "sen_set_cursor_open (\<lambda>_. True) empty_table = Some c"
    by (simp add: sen_set_cursor_open_def)
  have "length (st_index empty_table) = 256" "\<forall>p < 256. st_index empty_table ! p = NULL"
    by (simp_all add: empty_table_def)
  with cursor_visits_all [OF empty_table_ok(1) c, of 300] c show ?thesis
    by (auto simp: filter_empty_conv)
qed

end
