(* ===== verification/Hset_Sort_Proof.thy ===== *)
theory Hset_Sort_Proof
  imports Hset_Sort Hset_Alg
begin

text \<open>
  Correctness of the sorting of lib/set.c for every comparison that is a total preorder: no read
  leaves the array, the recursion ends, the result is a permutation of the entries, and its first
  \<open>limit\<close> entries are the smallest ones in order.
\<close>

section \<open>Permutations of a segment\<close>

definition seg_perm :: "nat \<Rightarrow> nat \<Rightarrow> 'a list \<Rightarrow> 'a list \<Rightarrow> bool" where
  "seg_perm a b xs ys \<longleftrightarrow>
     length ys = length xs \<and> mset ys = mset xs \<and>
     (\<forall>i < length xs. i < a \<or> b < i \<longrightarrow> ys ! i = xs ! i)"

lemma seg_perm_refl [simp]: "seg_perm a b xs xs"
  by (simp add: seg_perm_def)

lemma seg_perm_trans: "seg_perm a b xs ys \<Longrightarrow> seg_perm a b ys zs \<Longrightarrow> seg_perm a b xs zs"
  by (auto simp: seg_perm_def)

lemma seg_perm_mono: "seg_perm a b xs ys \<Longrightarrow> a' \<le> a \<Longrightarrow> b \<le> b' \<Longrightarrow> seg_perm a' b' xs ys"
  by (auto simp: seg_perm_def)

lemma seg_perm_length: "seg_perm a b xs ys \<Longrightarrow> length ys = length xs"
  by (simp add: seg_perm_def)

lemma seg_perm_swap:
  "a \<le> i \<Longrightarrow> i \<le> b \<Longrightarrow> a \<le> j \<Longrightarrow> j \<le> b \<Longrightarrow> b < length xs \<Longrightarrow> seg_perm a b xs (swap_at xs i j)"
  unfolding seg_perm_def swap_at_def
  by (auto simp: nth_list_update mset_swap list_update_swap)

lemma swap_at_nth:
  "i < length xs \<Longrightarrow> j < length xs \<Longrightarrow> k < length xs \<Longrightarrow>
   swap_at xs i j ! k = (if k = j then xs ! i else if k = i then xs ! j else xs ! k)"
  by (auto simp: swap_at_def nth_list_update)

lemma length_swap_at [simp]: "length (swap_at xs i j) = length xs"
  by (simp add: swap_at_def)

lemma seg_perm_all:
  assumes "seg_perm a b xs ys" "b < length xs" "\<forall>i. a \<le> i \<and> i \<le> b \<longrightarrow> P (xs ! i)" "a \<le> i" "i \<le> b"
  shows "P (ys ! i)"
proof -
  have len: "length ys = length xs" and out: "\<And>i. i < length xs \<Longrightarrow> i < a \<or> b < i \<Longrightarrow> ys ! i = xs ! i"
    using assms(1) by (auto simp: seg_perm_def)
  define seg where "seg = (\<lambda>zs :: 'a list. take (Suc b - a) (drop a zs))"
  have split: "zs = take a zs @ seg zs @ drop (Suc b) zs" for zs :: "'a list"
  proof -
    have "drop (Suc b - a) (drop a zs) = drop (Suc b) zs" using assms(4,5) by simp
    then show ?thesis unfolding seg_def by (metis append_take_drop_id)
  qed
  have "take a ys = take a xs" using len out assms(2,4,5) by (intro nth_equalityI) auto
  moreover have "drop (Suc b) ys = drop (Suc b) xs" using len out by (intro nth_equalityI) auto
  moreover have "mset (take a ys @ seg ys @ drop (Suc b) ys) = mset (take a xs @ seg xs @ drop (Suc b) xs)"
    using assms(1) by (simp add: seg_perm_def flip: split)
  ultimately have "mset (seg ys) = mset (seg xs)" by simp
  then have sets: "set (seg ys) = set (seg xs)" by (metis set_mset_mset)
  have "i - a < length (seg ys)" "seg ys ! (i - a) = ys ! i"
    using len assms(2,4,5) by (auto simp: seg_def)
  then have "ys ! i \<in> set (seg xs)" using sets by (metis nth_mem)
  then obtain j where "j < length (seg xs)" "seg xs ! j = ys ! i" by (auto simp: in_set_conv_nth)
  then have "a \<le> a + j \<and> a + j \<le> b" "xs ! (a + j) = ys ! i" using assms(2) by (auto simp: seg_def)
  with assms(3) show ?thesis by metis
qed

section \<open>Quicksort for a total preorder\<close>

locale sort_order =
  fixes le lt gt :: "'a \<Rightarrow> 'a \<Rightarrow> bool"
  assumes lt_iff: "lt x y \<longleftrightarrow> \<not> le y x" and gt_iff: "gt x y \<longleftrightarrow> \<not> le x y"
    and le_trans: "le x y \<Longrightarrow> le y z \<Longrightarrow> le x z" and le_total: "le x y \<or> le y x"
begin

lemma le_refl: "le x x"
  using le_total [of x x] by simp

lemma scan_up_spec:
  assumes "b < s" "s < length res" "\<not> lt (res ! s) ck"
  shows "\<exists>b'. scan_up lt ck res b = Some b' \<and> b < b' \<and> b' \<le> s \<and> \<not> lt (res ! b') ck \<and>
     (\<forall>i. b < i \<and> i < b' \<longrightarrow> lt (res ! i) ck)"
  using assms
proof (induction "s - b" arbitrary: b)
  case (Suc n)
  show ?case
  proof (cases "lt (res ! Suc b) ck")
    case True
    then have "Suc b < s" using Suc.prems by (metis Suc_lessI)
    then obtain b' where "scan_up lt ck res (Suc b) = Some b'" "Suc b < b'" "b' \<le> s" "\<not> lt (res ! b') ck"
      "\<forall>i. Suc b < i \<and> i < b' \<longrightarrow> lt (res ! i) ck"
      using Suc.hyps(1) [of "Suc b"] Suc.hyps(2) Suc.prems(2,3) by (metis Suc_diff_Suc Suc_inject Suc.prems(1))
    then show ?thesis using True Suc.prems
      by (subst scan_up.simps) (auto, metis Suc_lessI)
  next
    case False
    then show ?thesis using Suc.prems by (subst scan_up.simps) auto
  qed
qed simp

lemma scan_down_spec:
  assumes "s < e" "\<not> gt (res ! s) ck"
  shows "\<exists>e'. scan_down gt ck res e = Some e' \<and> s \<le> e' \<and> e' < e \<and> \<not> gt (res ! e') ck \<and>
     (\<forall>i. e' < i \<and> i < e \<longrightarrow> gt (res ! i) ck)"
  using assms
proof (induction e)
  case (Suc e)
  show ?case
  proof (cases "gt (res ! e) ck")
    case True
    then have "s < e" using Suc.prems by (metis less_antisym)
    then obtain e' where "scan_down gt ck res e = Some e'" "s \<le> e'" "e' < e" "\<not> gt (res ! e') ck"
      "\<forall>i. e' < i \<and> i < e \<longrightarrow> gt (res ! i) ck"
      using Suc by blast
    then show ?thesis using True by (auto simp: less_Suc_eq)
  next
    case False
    then show ?thesis using Suc.prems by auto
  qed
qed simp

lemma part_loop_spec:
  assumes "c \<le> b" "b < e" "e \<le> tail" "tail < length res" "res ! c = p"
    and "\<forall>i. c < i \<and> i \<le> b \<longrightarrow> le (res ! i) p" "\<forall>j. e \<le> j \<and> j \<le> tail \<longrightarrow> le p (res ! j)"
  shows "\<exists>e' res'. part_loop lt gt p res b e = Some (e', res') \<and> c \<le> e' \<and> e' < tail \<and>
     seg_perm (Suc c) tail res res' \<and> (\<forall>i. c < i \<and> i \<le> e' \<longrightarrow> le (res' ! i) p) \<and>
     (\<forall>j. e' < j \<and> j \<le> tail \<longrightarrow> le p (res' ! j))"
  using assms
proof (induction "e - b" arbitrary: b e res rule: less_induct)
  case less
  note P = less.prems
  have "\<not> lt (res ! e) p" using P by (simp add: lt_iff)
  then obtain b' where b': "scan_up lt p res b = Some b'" "b < b'" "b' \<le> e" "\<not> lt (res ! b') p"
    "\<forall>i. b < i \<and> i < b' \<longrightarrow> lt (res ! i) p"
    using scan_up_spec [of b e res p] P by auto
  have "le (res ! b) p" using P le_refl by (cases "b = c") auto
  then have "\<not> gt (res ! b) p" by (simp add: gt_iff)
  then obtain e' where e': "scan_down gt p res e = Some e'" "b \<le> e'" "e' < e" "\<not> gt (res ! e') p"
    "\<forall>i. e' < i \<and> i < e \<longrightarrow> gt (res ! i) p"
    using scan_down_spec [of b e res p] P by auto
  have lo: "le (res ! i) p" if "c < i" "i < b'" for i
  proof (cases "i \<le> b")
    case False
    then have "\<not> le p (res ! i)" using that b'(5) by (simp add: lt_iff)
    then show ?thesis using le_total by blast
  qed (use that P(6) in blast)
  have hi: "le p (res ! j)" if "e' < j" "j \<le> tail" for j
  proof (cases "e \<le> j")
    case False
    then have "\<not> le (res ! j) p" using that e'(5) by (simp add: gt_iff)
    then show ?thesis using le_total by blast
  qed (use that P(7) in blast)
  have mid: "le p (res ! b')" "le (res ! e') p" using b'(4) e'(4) by (auto simp: lt_iff gt_iff)
  show ?case
  proof (cases "e' \<le> b'")
    case True
    then have r: "part_loop lt gt p res b e = Some (e', res)"
      using b'(1) e'(1) by (subst part_loop.simps) simp
    have "le (res ! i) p" if "c < i" "i \<le> e'" for i
      using that lo mid(2) True by (cases "i < b'") (auto simp: le_less_Suc_eq dest: antisym)
    with r hi e'(2,3) P(1,3) show ?thesis by auto
  next
    case False
    let ?r = "swap_at res b' e'"
    have len: "b' < length res" "e' < length res" "c < length res" using False e'(3) P by auto
    have nth: "?r ! k = (if k = e' then res ! b' else if k = b' then res ! e' else res ! k)"
      if "k < length res" for k
      using swap_at_nth [OF len(1,2) that] .
    have "e' - b' < e - b" using False b'(2) e'(3) by simp
    moreover have "c \<le> b'" "b' < e'" "e' \<le> tail" "tail < length ?r" using P b'(2) e'(3) False by auto
    moreover have "?r ! c = p" using nth [OF len(3)] P(1,5) b'(2) False by simp
    moreover have "\<forall>i. c < i \<and> i \<le> b' \<longrightarrow> le (?r ! i) p"
    proof (intro allI impI)
      fix i assume i: "c < i \<and> i \<le> b'"
      then have "i < length res" using len(1) by simp
      with i nth lo mid(2) False show "le (?r ! i) p" by auto
    qed
    moreover have "\<forall>j. e' \<le> j \<and> j \<le> tail \<longrightarrow> le p (?r ! j)"
    proof (intro allI impI)
      fix j assume j: "e' \<le> j \<and> j \<le> tail"
      then have "j < length res" using P(4) by simp
      with j nth hi mid(1) False show "le p (?r ! j)" by auto
    qed
    ultimately obtain e'' res' where r: "part_loop lt gt p ?r b' e' = Some (e'', res')" "c \<le> e''"
      "e'' < tail" "seg_perm (Suc c) tail ?r res'" "\<forall>i. c < i \<and> i \<le> e'' \<longrightarrow> le (res' ! i) p"
      "\<forall>j. e'' < j \<and> j \<le> tail \<longrightarrow> le p (res' ! j)"
      using less.hyps [of e' b' ?r] by blast
    have "seg_perm (Suc c) tail res ?r"
      using P b'(2) e'(3) False by (intro seg_perm_swap) auto
    then have "seg_perm (Suc c) tail res res'" using r(4) by (rule seg_perm_trans)
    moreover have "part_loop lt gt p res b e = part_loop lt gt p ?r b' e'"
      using b'(1) e'(1) False by (subst part_loop.simps) simp
    ultimately show ?thesis using r by auto
  qed
qed

text \<open>The first \<open>limit\<close> elements of a segment are in order and before all the others.\<close>

definition sorted_upto :: "nat \<Rightarrow> nat \<Rightarrow> int \<Rightarrow> 'a list \<Rightarrow> bool" where
  "sorted_upto head tail limit res \<longleftrightarrow>
     (\<forall>i j. head \<le> i \<and> i < j \<and> j \<le> tail \<and> int i - int head < limit \<longrightarrow> le (res ! i) (res ! j))"

definition parted :: "nat \<Rightarrow> nat \<Rightarrow> nat \<Rightarrow> 'a list \<Rightarrow> bool" where
  "parted head c tail res \<longleftrightarrow>
     (\<forall>i. head \<le> i \<and> i < c \<longrightarrow> le (res ! i) (res ! c)) \<and>
     (\<forall>j. c < j \<and> j \<le> tail \<longrightarrow> le (res ! c) (res ! j))"

lemma sorted_two: "le (res ! h) (res ! Suc h) \<Longrightarrow> sorted_upto h (Suc h) limit res"
proof -
  assume "le (res ! h) (res ! Suc h)"
  moreover have "i = h \<and> j = Suc h" if "h \<le> i" "i < j" "j \<le> Suc h" for i j
    using that by linarith
  ultimately show ?thesis unfolding sorted_upto_def by metis
qed

lemma sorted_three:
  assumes "le (res ! h) (res ! Suc h)" "le (res ! Suc h) (res ! Suc (Suc h))"
  shows "sorted_upto h (Suc (Suc h)) limit res"
proof -
  have "le (res ! h) (res ! Suc (Suc h))" using assms by (rule le_trans)
  moreover have "i = h \<and> j = Suc h \<or> i = h \<and> j = Suc (Suc h) \<or> i = Suc h \<and> j = Suc (Suc h)"
    if "h \<le> i" "i < j" "j \<le> Suc (Suc h)" for i j
    using that by linarith
  ultimately show ?thesis using assms unfolding sorted_upto_def by metis
qed

lemma median3_spec:
  assumes "b < c" "c < e" "e < length res" "le (res ! b) (res ! e)"
  shows "seg_perm b e res (median3 gt res b c e)"
    and "le (median3 gt res b c e ! b) (median3 gt res b c e ! c)"
    and "le (median3 gt res b c e ! c) (median3 gt res b c e ! e)"
proof -
  have len: "b < length res" "c < length res" "e < length res" using assms by auto
  note N = swap_at_nth [OF len(1,2)] swap_at_nth [OF len(2,3)]
  show "seg_perm b e res (median3 gt res b c e)"
    unfolding median3_def using assms by (auto intro: seg_perm_swap)
  show "le (median3 gt res b c e ! b) (median3 gt res b c e ! c)"
    unfolding median3_def using assms len le_total [of "res ! b" "res ! c"]
    by (auto simp: N gt_iff)
  show "le (median3 gt res b c e ! c) (median3 gt res b c e ! e)"
    unfolding median3_def using assms len le_total [of "res ! b" "res ! c"] le_total [of "res ! c" "res ! e"]
    by (auto simp: N gt_iff intro: le_trans)
qed

lemma part_with_spec:
  assumes "head < tail" "tail < length res"
  shows "\<exists>r res'. part_with lt gt res head tail = Some (r, res') \<and> seg_perm head tail res res' \<and>
     (case r of
        None \<Rightarrow> (\<forall>limit. sorted_upto head tail limit res')
      | Some c \<Rightarrow> head < c \<and> c < tail \<and> parted head c tail res')"
proof -
  define r0 where "r0 = (if gt (res ! head) (res ! tail) then swap_at res head tail else res)"
  have len: "head < length res" "tail < length res" using assms by auto
  have p0: "seg_perm head tail res r0" using assms by (auto simp: r0_def intro: seg_perm_swap)
  have le0: "le (r0 ! head) (r0 ! tail)"
    using le_total [of "res ! head" "res ! tail"] assms(1) swap_at_nth [OF len] len
    by (auto simp: r0_def gt_iff)
  have l0: "length r0 = length res" using p0 by (rule seg_perm_length)
  show ?thesis
  proof (cases "tail - head < 2")
    case True
    then have "tail = Suc head" using assms(1) by simp
    then have "sorted_upto head tail limit r0" for limit
      using le0 by (simp add: sorted_two)
    with True p0 show ?thesis by (auto simp: part_with_def r0_def Let_def)
  next
    case False
    define c where "c = head + (tail - head) div 2"
    have c: "head < c" "c < tail" using False by (auto simp: c_def)
    define r1 where "r1 = median3 gt r0 head c tail"
    have tl: "tail < length r0" using assms(2) l0 by simp
    note M = median3_spec [OF c tl le0, folded r1_def]
    have p1: "seg_perm head tail res r1" using p0 M(1) by (rule seg_perm_trans)
    have l1: "length r1 = length res" using p1 by (rule seg_perm_length)
    show ?thesis
    proof (cases "tail - head < 3")
      case True
      then have d: "c = Suc head" "tail = Suc (Suc head)" using False by (auto simp: c_def)
      have "le (r1 ! head) (r1 ! tail)" using M(2,3) by (rule le_trans)
      then have "sorted_upto head tail limit r1" for limit
        using M(2,3) unfolding d by (intro sorted_three) simp_all
      with False True p1 show ?thesis
        by (auto simp: part_with_def r0_def r1_def c_def Let_def)
    next
      case big: False
      define r2 where "r2 = swap_at r1 (head + 1) c"
      have idx: "head + 1 < length r1" "c < length r1" "head + 1 \<le> c" "head + 1 < tail"
        using c big assms(2) l1 by (auto simp: c_def)
      have p2: "seg_perm head tail r1 r2"
        unfolding r2_def using c idx assms(2) l1 by (intro seg_perm_swap) auto
      have l2: "length r2 = length res" using p2 l1 seg_perm_length by metis
      have r2: "r2 ! (head + 1) = r1 ! c" "r2 ! tail = r1 ! tail" "r2 ! head = r1 ! head"
        using swap_at_nth [OF idx(1,2)] c idx assms(2) l1 by (auto simp: r2_def)
      have st: "\<forall>i. head + 1 < i \<and> i \<le> head + 1 \<longrightarrow> le (r2 ! i) (r1 ! c)"
        "\<forall>j. tail \<le> j \<and> j \<le> tail \<longrightarrow> le (r1 ! c) (r2 ! j)"
        using M(3) r2(2) by (auto dest: antisym)
      obtain e' r3 where r3: "part_loop lt gt (r1 ! c) r2 (head + 1) tail = Some (e', r3)"
        "head + 1 \<le> e'" "e' < tail" "seg_perm (Suc (head + 1)) tail r2 r3"
        "\<forall>i. head + 1 < i \<and> i \<le> e' \<longrightarrow> le (r3 ! i) (r1 ! c)"
        "\<forall>j. e' < j \<and> j \<le> tail \<longrightarrow> le (r1 ! c) (r3 ! j)"
        using part_loop_spec [OF order_refl idx(4) order_refl _ r2(1) st] assms(2) l2 by auto
      have l3: "length r3 = length res" using r3(4) l2 seg_perm_length by metis
      have k3: "r3 ! (head + 1) = r1 ! c" "r3 ! head = r1 ! head"
        using r3(4) r2 idx assms(2) l2 by (auto simp: seg_perm_def)
      define r4 where "r4 = swap_at r3 (head + 1) e'"
      have len3: "head + 1 < length r3" "e' < length r3" using idx r3(3) assms(2) l3 by auto
      have nth4: "r4 ! k = (if k = e' then r3 ! (head + 1) else if k = head + 1 then r3 ! e' else r3 ! k)"
        if "k < length res" for k
        using swap_at_nth [OF len3] that l3 by (simp add: r4_def)
      have p34: "seg_perm head tail r3 r4"
        unfolding r4_def using r3(2,3) idx assms(2) l3 by (intro seg_perm_swap) auto
      have "seg_perm head tail r2 r3" using r3(4) by (rule seg_perm_mono) auto
      then have p4: "seg_perm head tail res r4"
        using p1 p2 p34 by (blast intro: seg_perm_trans)
      have piv: "r4 ! e' = r1 ! c" using nth4 [of e'] k3 len3 l3 by simp
      have "le (r4 ! i) (r4 ! e')" if i: "head \<le> i" "i < e'" for i
      proof -
        consider "i = head" | "i = head + 1" | "head + 1 < i" using i(1) by linarith
        then show ?thesis
        proof cases
          case 1
          then show ?thesis using nth4 [of i] i len3 l3 k3 M(2) piv r3(2) by auto
        next
          case 2
          then show ?thesis using nth4 [of i] i len3 l3 r3(5) piv by auto
        next
          case 3
          then show ?thesis using nth4 [of i] i len3 l3 r3(5) piv by auto
        qed
      qed
      moreover have "le (r4 ! e') (r4 ! j)" if j: "e' < j" "j \<le> tail" for j
        using nth4 [of j] j assms(2) r3(2,6) piv by auto
      ultimately have "parted head e' tail r4" by (simp add: parted_def)
      moreover have "part_with lt gt res head tail = Some (Some e', r4)"
        unfolding part_with_def Let_def r0_def [symmetric] c_def [symmetric] r1_def [symmetric] r2_def [symmetric]
        using False big r3(1) by (simp add: r4_def)
      ultimately show ?thesis using p4 r3(2,3) by auto
    qed
  qed
qed

text \<open>Sorting both sides of a partition sorts the whole.\<close>

lemma sorted_join:
  assumes pt: "parted head c tail r1" and c: "head \<le> c" "c \<le> tail" "tail < length r1"
    and r2: "if head < c then seg_perm head (c - 1) r1 r2 \<and> sorted_upto head (c - 1) limit r2 else r2 = r1"
    and r3: "seg_perm (c + 1) tail r2 r3"
      "0 < limit - 1 - (int c - int head) \<longrightarrow>
         sorted_upto (c + 1) tail (limit - 1 - (int c - int head)) r3"
  shows "sorted_upto head tail limit r3" "seg_perm head tail r1 r3"
proof -
  let ?rest = "limit - 1 - (int c - int head)"
  have l2: "length r2 = length r1" using r2 by (auto simp: seg_perm_def split: if_splits)
  have piv: "r3 ! c = r1 ! c" using r2 r3(1) c l2 by (auto simp: seg_perm_def split: if_splits)
  have left: "r3 ! i = r2 ! i" if "i < c" for i
    using r3(1) that c l2 by (auto simp: seg_perm_def)
  have lo: "le (r2 ! i) (r1 ! c)" if i: "head \<le> i" "i < c" for i
  proof -
    have "\<forall>i. head \<le> i \<and> i \<le> c - 1 \<longrightarrow> le (r1 ! i) (r1 ! c)" using pt i by (auto simp: parted_def)
    then show ?thesis
      using r2 seg_perm_all [of head "c - 1" r1 r2 "\<lambda>x. le x (r1 ! c)" i] i c by auto
  qed
  have "\<forall>j. c + 1 \<le> j \<and> j \<le> tail \<longrightarrow> le (r1 ! c) (r2 ! j)"
    using pt r2 c by (auto simp: parted_def seg_perm_def split: if_splits)
  then have hi: "le (r1 ! c) (r3 ! j)" if "c < j" "j \<le> tail" for j
    using seg_perm_all [OF r3(1), of "\<lambda>x. le (r1 ! c) x" j] that c l2 by auto
  show "sorted_upto head tail limit r3"
    unfolding sorted_upto_def
  proof (intro allI impI, elim conjE)
    fix i j assume ij: "head \<le> i" "i < j" "j \<le> tail" "int i - int head < limit"
    consider "i < c" "j < c" | "i < c" "j = c" | "i < c" "c < j" | "i = c" | "c < i" by linarith
    then show "le (r3 ! i) (r3 ! j)"
    proof cases
      case 1
      then show ?thesis using r2 ij left by (auto simp: sorted_upto_def)
    next
      case 2
      then show ?thesis using lo left piv ij by simp
    next
      case 3
      then have "le (r3 ! i) (r1 ! c)" "le (r1 ! c) (r3 ! j)" using lo left hi ij by simp_all
      then show ?thesis by (rule le_trans)
    next
      case 4
      then show ?thesis using hi piv ij by simp
    next
      case 5
      then have "0 < ?rest" "int i - int (c + 1) < ?rest" using ij by linarith+
      then show ?thesis using r3(2) 5 ij by (auto simp: sorted_upto_def)
    qed
  qed
  have "seg_perm head tail r1 r2"
    using r2 c seg_perm_mono [of head "c - 1" r1 r2 head tail] by (auto split: if_splits)
  then show "seg_perm head tail r1 r3"
    using seg_perm_mono [OF r3(1), of head tail] c by (auto intro: seg_perm_trans)
qed

lemma sort_range_spec:
  assumes "tail < length res"
  shows "\<exists>res'. sort_range lt gt res head tail limit = Some res' \<and> seg_perm head tail res res' \<and>
     sorted_upto head tail limit res'"
  using assms
proof (induction "tail - head" arbitrary: head tail res limit rule: less_induct)
  case less
  show ?case
  proof (cases "head < tail")
    case False
    then have "sorted_upto head tail limit res" by (auto simp: sorted_upto_def)
    with False show ?thesis by (subst sort_range.simps) auto
  next
    case True
    obtain r r1 where p: "part_with lt gt res head tail = Some (r, r1)" "seg_perm head tail res r1"
      "case r of None \<Rightarrow> (\<forall>limit. sorted_upto head tail limit r1)
        | Some c \<Rightarrow> head < c \<and> c < tail \<and> parted head c tail r1"
      using part_with_spec [OF True less.prems] by blast
    show ?thesis
    proof (cases r)
      case None
      with p True show ?thesis by (subst sort_range.simps) auto
    next
      case (Some c)
      have c: "head < c" "c < tail" and pt: "parted head c tail r1" using p(3) Some by simp_all
      let ?rest = "limit - 1 - (int c - int head)"
      have l1: "length r1 = length res" using p(2) by (rule seg_perm_length)
      have m: "c - 1 - head < tail - head" "c - 1 < length r1" using c less.prems l1 by linarith+
      obtain r2 where r2: "sort_range lt gt r1 head (c - 1) limit = Some r2"
        "seg_perm head (c - 1) r1 r2" "sorted_upto head (c - 1) limit r2"
        using less.hyps [OF m, of limit] by blast
      have l2: "length r2 = length res" using r2(2) l1 seg_perm_length by metis
      obtain r3 where r3: "(if 0 < ?rest then sort_range lt gt r2 (c + 1) tail ?rest else Some r2) = Some r3"
        "seg_perm (c + 1) tail r2 r3" "0 < ?rest \<longrightarrow> sorted_upto (c + 1) tail ?rest r3"
      proof (cases "0 < ?rest")
        case True
        have m: "tail - (c + 1) < tail - head" "tail < length r2" using c less.prems l2 by linarith+
        show thesis using True that less.hyps [OF m, of ?rest] by auto
      next
        case False
        with that [of r2] show thesis by simp
      qed
      have "sorted_upto head tail limit r3" "seg_perm head tail r1 r3"
        using sorted_join [OF pt _ _ _ _ r3(2,3)] r2(2,3) c less.prems l1 by auto
      moreover from this have "seg_perm head tail res r3" using p(2) by (blast intro: seg_perm_trans)
      moreover have "sort_range lt gt res head tail limit = Some r3"
        using True p(1) Some r2(1) r3(1) by (subst sort_range.simps) (simp add: Let_def)
      ultimately show ?thesis by blast
    qed
  qed
qed

end

section \<open>The round through the index\<close>

text \<open>The entries of a list of slots, in order.\<close>

fun ents :: "slot list \<Rightarrow> eid list" where
  "ents [] = []"
| "ents (sl # xs) = (case sl of Ent e \<Rightarrow> e # ents xs | _ \<Rightarrow> ents xs)"

lemma ents_append [simp]: "ents (xs @ ys) = ents xs @ ents ys"
  by (induction xs) (auto split: slot.split)

lemma ents_none: "\<forall>sl \<in> set xs. \<not> is_ent sl \<Longrightarrow> ents xs = []"
  by (induction xs) (auto split: slot.split)

lemma length_ents: "length (ents xs) = length (filter is_ent xs)"
  by (induction xs) (auto split: slot.split)

lemma mset_ents_rotate: "mset (ents (rotate n xs)) = mset (ents xs)"
proof (induction n)
  case (Suc n)
  have "mset (ents (rotate1 ys)) = mset (ents ys)" for ys by (cases ys) (auto split: slot.split)
  with Suc show ?case by simp
qed simp

lemma set_ents: "e \<in> set (ents xs) \<longleftrightarrow> Ent e \<in> set xs"
  by (induction xs) (auto split: slot.split)

lemma split_first_ent:
  assumes "ents xs = e # es"
  obtains pre post where "xs = pre @ Ent e # post" "\<forall>sl \<in> set pre. \<not> is_ent sl" "ents post = es"
proof -
  have "\<exists>pre post. xs = pre @ Ent e # post \<and> (\<forall>sl \<in> set pre. \<not> is_ent sl) \<and> ents post = es"
    using assms
  proof (induction xs)
    case (Cons sl xs)
    show ?case
    proof (cases "\<exists>e. sl = Ent e")
      case True
      with Cons.prems show ?thesis by (intro exI [of _ "[]"] exI [of _ xs]) auto
    next
      case False
      then have "ents xs = e # es" "\<not> is_ent sl" using Cons.prems by (auto simp: is_ent_iff split: slot.splits)
      with Cons.IH obtain pre post where "xs = pre @ Ent e # post" "\<forall>sl \<in> set pre. \<not> is_ent sl" "ents post = es"
        by blast
      then show ?thesis using \<open>\<not> is_ent sl\<close> by (intro exI [of _ "sl # pre"] exI [of _ post]) auto
    qed
  qed simp
  with that show thesis by blast
qed

lemma next_slot:
  assumes "k \<le> 31" "length index = 2 ^ k" "rotate (unat i) index = sl # xs"
  shows "rotate (unat ((i + 1) AND mask k :: u32)) index = xs @ [sl]"
proof -
  have "unat ((i + 1) AND mask k) = unat (i + 1) mod 2 ^ k"
    using slot_of_mod [of k "i + 1"] assms(1) by (simp add: slot_of_def)
  also have "unat (i + 1) = (unat i + 1) mod 2 ^ 32" by (simp add: unat_word_ariths)
  also have "(unat i + 1) mod 2 ^ 32 mod 2 ^ k = (unat i + 1) mod (2 ^ k :: nat)"
    using assms(1) by (intro mod_mod_cancel le_imp_power_dvd) simp
  finally have "rotate (unat ((i + 1) AND mask k)) index = rotate (Suc (unat i)) index"
    using assms(2) rotate_conv_mod [of "Suc (unat i)" index] by simp
  then show ?thesis using assms(3) by simp
qed

lemma next_live_spec:
  assumes "k \<le> 31" "length index = 2 ^ k" "rotate (unat i) index = pre @ Ent e # post"
    and "unat i < 2 ^ k" "\<forall>sl \<in> set pre. \<not> is_ent sl"
  shows "\<exists>i'. next_live index (mask k) i = Some (i', e) \<and> unat i' < 2 ^ k \<and>
     rotate (unat i') index = Ent e # post @ pre"
  using assms(3-5)
proof (induction pre arbitrary: i post)
  case Nil
  have "index ! unat i = Ent e"
    using Nil assms(2) nth_rotate [of 0 index "unat i"] by simp
  with Nil show ?case by (subst next_live.simps) simp
next
  case (Cons sl pre)
  let ?i = "(i + 1) AND mask k"
  have at: "index ! unat i = sl"
    using Cons.prems assms(2) nth_rotate [of 0 index "unat i"] by simp
  have r: "rotate (unat ?i) index = pre @ Ent e # (post @ [sl])"
    using next_slot [OF assms(1,2), of i sl "pre @ Ent e # post"] Cons.prems(1) by simp
  have "unat ?i < 2 ^ k"
    using slot_of_mod [of k "i + 1"] assms(1) by (simp add: slot_of_def)
  then obtain i' where "next_live index (mask k) ?i = Some (i', e)" "unat i' < 2 ^ k"
    "rotate (unat i') index = Ent e # (post @ [sl]) @ pre"
    using Cons.IH [OF r] Cons.prems(3) by auto
  moreover have "next_live index (mask k) i = next_live index (mask k) ?i"
    using at Cons.prems(3) by (subst next_live.simps) (auto simp: is_ent_iff split: slot.split)
  ultimately show ?case by simp
qed

section \<open>Packing\<close>

fun pack_list :: "(eid \<Rightarrow> eid \<Rightarrow> bool) \<Rightarrow> eid \<Rightarrow> eid list \<Rightarrow> nat \<Rightarrow> nat \<Rightarrow> eid list \<Rightarrow> nat \<times> eid list" where
  "pack_list lt c [] head tail res = (head, res)"
| "pack_list lt c (e # es) head tail res =
     (if lt e c then pack_list lt c es (head + 1) tail (res[head := e])
      else pack_list lt c es head (tail - 1) (res[tail := e]))"

lemma pack_loop_list:
  assumes "k \<le> 31" "length index = 2 ^ k" "rotate (unat i) index = sl # ys @ zs" "unat i < 2 ^ k"
    and "length (ents ys) = n"
  shows "pack_loop lt index (mask k) c n i head tail res = Some (pack_list lt c (ents ys) head tail res)"
  using assms(3-5)
proof (induction n arbitrary: i sl ys zs head tail res)
  case (Suc n)
  obtain e es where es: "ents ys = e # es" using Suc.prems(3) by (cases "ents ys") auto
  obtain pre post where ys: "ys = pre @ Ent e # post" "\<forall>sl \<in> set pre. \<not> is_ent sl" "ents post = es"
    using split_first_ent [OF es] .
  let ?i = "(i + 1) AND mask k"
  have r: "rotate (unat ?i) index = pre @ Ent e # (post @ zs @ [sl])"
    using next_slot [OF assms(1,2) Suc.prems(1)] ys by simp
  have "unat ?i < 2 ^ k" using slot_of_mod [of k "i + 1"] assms(1) by (simp add: slot_of_def)
  then obtain i' where i': "next_live index (mask k) ?i = Some (i', e)" "unat i' < 2 ^ k"
    "rotate (unat i') index = Ent e # post @ (zs @ [sl] @ pre)"
    using next_live_spec [OF assms(1,2) r _ ys(2)] by auto
  show ?case
    using Suc.IH [OF i'(3,2)] i'(1) es ys(3) Suc.prems(3) by simp
qed simp

lemma pack_list_spec:
  assumes "tail = head + length es" "tail < length res" "pack_list lt c es head tail res = (h, res')"
  shows "head \<le> h \<and> h \<le> tail \<and> length res' = length res \<and>
     (\<forall>i < head. res' ! i = res ! i) \<and> (\<forall>i. tail < i \<and> i < length res \<longrightarrow> res' ! i = res ! i) \<and>
     (\<forall>i. head \<le> i \<and> i < h \<longrightarrow> lt (res' ! i) c) \<and> (\<forall>j. h < j \<and> j \<le> tail \<longrightarrow> \<not> lt (res' ! j) c) \<and>
     mset (res'[h := c]) + mset (take (Suc tail - head) (drop head res)) = mset res + add_mset c (mset es)"
  using assms
proof (induction es arbitrary: head tail res)
  case Nil
  then have "h = head" "res' = res" "tail = head" by simp_all
  moreover have "take (Suc 0) (drop head res) = [res ! head]"
    using Nil by (simp add: take_Suc_conv_app_nth)
  ultimately show ?case using Nil by (auto simp: mset_update)
next
  case (Cons e es)
  show ?case
  proof (cases "lt e c")
    case True
    let ?r = "res[head := e]"
    have "pack_list lt c es (head + 1) tail ?r = (h, res')" using Cons.prems(3) True by simp
    then have IH: "head + 1 \<le> h \<and> h \<le> tail \<and> length res' = length ?r \<and>
        (\<forall>i < head + 1. res' ! i = ?r ! i) \<and> (\<forall>i. tail < i \<and> i < length ?r \<longrightarrow> res' ! i = ?r ! i) \<and>
        (\<forall>i. head + 1 \<le> i \<and> i < h \<longrightarrow> lt (res' ! i) c) \<and> (\<forall>j. h < j \<and> j \<le> tail \<longrightarrow> \<not> lt (res' ! j) c) \<and>
        mset (res'[h := c]) + mset (take (Suc tail - (head + 1)) (drop (head + 1) ?r)) =
          mset ?r + add_mset c (mset es)"
      using Cons.IH [of tail "head + 1" ?r] Cons.prems by simp
    have hd: "take (Suc tail - head) (drop head res) = res ! head # take (tail - head) (drop (Suc head) res)"
      using Cons.prems by (simp add: Cons_nth_drop_Suc [symmetric] Suc_diff_le)
    have "mset ?r = add_mset e (mset res - {#res ! head#})" using Cons.prems by (simp add: mset_update)
    moreover have "res ! head \<in># mset res" using Cons.prems by simp
    moreover have "lt (res' ! i) c" if "head \<le> i" "i < h" for i
      using IH that True Cons.prems by (cases "i = head") auto
    ultimately show ?thesis using IH hd Cons.prems by (auto simp: nth_list_update)
  next
    case False
    let ?r = "res[tail := e]"
    have "pack_list lt c es head (tail - 1) ?r = (h, res')" using Cons.prems(3) False by simp
    then have IH: "head \<le> h \<and> h \<le> tail - 1 \<and> length res' = length ?r \<and>
        (\<forall>i < head. res' ! i = ?r ! i) \<and> (\<forall>i. tail - 1 < i \<and> i < length ?r \<longrightarrow> res' ! i = ?r ! i) \<and>
        (\<forall>i. head \<le> i \<and> i < h \<longrightarrow> lt (res' ! i) c) \<and> (\<forall>j. h < j \<and> j \<le> tail - 1 \<longrightarrow> \<not> lt (res' ! j) c) \<and>
        mset (res'[h := c]) + mset (take (Suc (tail - 1) - head) (drop head ?r)) =
          mset ?r + add_mset c (mset es)"
      using Cons.IH [of "tail - 1" head ?r] Cons.prems by simp
    have tl: "take (Suc tail - head) (drop head res) = take (tail - head) (drop head res) @ [res ! tail]"
      using Cons.prems by (simp add: Suc_diff_le take_Suc_conv_app_nth)
    have "take (tail - head) (drop head ?r) = take (tail - head) (drop head res)"
      using Cons.prems by (intro nth_equalityI) auto
    moreover have "mset ?r = add_mset e (mset res - {#res ! tail#})" using Cons.prems by (simp add: mset_update)
    moreover have "res ! tail \<in># mset res" using Cons.prems by simp
    moreover have "\<not> lt (res' ! j) c" if "h < j" "j \<le> tail" for j
      using IH that False Cons.prems by (cases "j = tail") auto
    ultimately show ?thesis using IH tl Cons.prems by (auto simp: nth_list_update)
  qed
qed

section \<open>Sorting a table\<close>

lemma pack_with_spec:
  assumes "geom_ok st k" "st_n_entries st = int (length (ents (st_index st)))" "0 < st_n_entries st"
    and "length res = length (ents (st_index st))"
  obtains h res' where
    "pack_with lt st res = Some (if 2 < st_n_entries st then Some h else None, res')"
    "h < length res'" "length res' = length res" "mset res' = mset (ents (st_index st))"
    "\<forall>i < h. lt (res' ! i) (res' ! h)" "\<forall>j. h < j \<and> j < length res' \<longrightarrow> \<not> lt (res' ! j) (res' ! h)"
proof -
  let ?index = "st_index st" and ?m = "st_max_offset st"
  have g: "k \<le> 31" "length ?index = 2 ^ k" "?m = mask k" using assms(1) by (auto simp: geom_ok_def)
  define i where "i = drop_bit 1 ?m"
  have "unat i \<le> unat ?m" by (simp add: i_def drop_bit_eq_div unat_div)
  then have ui: "unat i < 2 ^ k" using unat_mask_Suc [OF g(1)] g(3) by simp
  have "mset (ents (rotate (unat i) ?index)) = mset (ents ?index)" by (rule mset_ents_rotate)
  moreover have "ents ?index \<noteq> []" using assms(2,3) by auto
  ultimately obtain c es where ce: "ents (rotate (unat i) ?index) = c # es"
    by (cases "ents (rotate (unat i) ?index)") auto
  obtain pre post where pp: "rotate (unat i) ?index = pre @ Ent c # post" "\<forall>sl \<in> set pre. \<not> is_ent sl" "ents post = es"
    using split_first_ent [OF ce] .
  obtain i' where i': "next_live ?index (mask k) i = Some (i', c)" "unat i' < 2 ^ k"
    "rotate (unat i') ?index = Ent c # post @ pre"
    using next_live_spec [OF g(1,2) pp(1) ui pp(2)] by blast
  have ee: "ents (post @ pre) = es" using pp(2,3) by (simp add: ents_none)
  have mes: "add_mset c (mset es) = mset (ents ?index)"
    using mset_ents_rotate [of "unat i" ?index] by (simp add: ce)
  have n: "length (ents ?index) = Suc (length es)" using mset_eq_length [of "c # es" "ents ?index"] mes by simp
  have di: "drop_bit 1 (mask k) = i" by (simp only: i_def g(3))
  have ni: "nat (st_n_entries st) - 1 = length es" using assms(2) n by simp
  obtain h res1 where hr: "pack_list lt c es 0 (length es) res = (h, res1)" by fastforce
  have "pack_loop lt ?index (mask k) c (length es) i' 0 (length es) res = Some (h, res1)"
    using pack_loop_list [OF g(1,2), of i' "Ent c" "post @ pre" "[]" "length es" lt c 0 "length es" res]
    unfolding ee by (simp add: i' hr)
  then have p: "pack_with lt st res = Some (if 2 < st_n_entries st then Some h else None, res1[h := c])"
    unfolding pack_with_def Let_def g(3) di ni by (simp add: i'(1))
  have "length es < length res" using assms(4) n by simp
  note S = pack_list_spec [OF _ this hr]
  have L: "h \<le> length es" "length res1 = length res" "\<forall>i < h. lt (res1 ! i) c"
    "\<forall>j. h < j \<and> j \<le> length es \<longrightarrow> \<not> lt (res1 ! j) c"
    "mset (res1[h := c]) + mset res = mset res + add_mset c (mset es)"
    using S assms(4) n by auto
  show thesis
  proof (rule that [OF p])
    show "h < length (res1[h := c])" "length (res1[h := c]) = length res" using L assms(4) n by auto
    show "mset (res1[h := c]) = mset (ents ?index)" using L(5) mes by simp
    show "\<forall>i < h. lt (res1[h := c] ! i) (res1[h := c] ! h)" using L assms(4) n by auto
    show "\<forall>j. h < j \<and> j < length (res1[h := c]) \<longrightarrow> \<not> lt (res1[h := c] ! j) (res1[h := c] ! h)"
      using L assms(4) n by auto
  qed
qed

locale entry_order = sort_order le lt gt for le lt gt :: "eid \<Rightarrow> eid \<Rightarrow> bool"
begin

lemma sort_with_spec:
  assumes "geom_ok st k" "st_n_entries st = int (length (ents (st_index st)))" "0 < st_n_entries st"
    and "length res = length (ents (st_index st))"
  shows "\<exists>res'. sort_with lt gt st res limit = Some res' \<and> mset res' = mset (ents (st_index st)) \<and>
     sorted_upto 0 (length res' - 1) limit res'"
proof -
  obtain h r1 where p: "pack_with lt st res = Some (if 2 < st_n_entries st then Some h else None, r1)"
    and h: "h < length r1" "length r1 = length res" and m: "mset r1 = mset (ents (st_index st))"
    and lo: "\<forall>i < h. lt (r1 ! i) (r1 ! h)" and hi: "\<forall>j. h < j \<and> j < length r1 \<longrightarrow> \<not> lt (r1 ! j) (r1 ! h)"
    using pack_with_spec [OF assms, of lt] by blast
  let ?n = "length r1 - 1"
  have pt: "parted 0 h ?n r1"
    unfolding parted_def using lo hi le_total h(1) by (auto simp: lt_iff)
  have n: "nat (st_n_entries st) - 1 = ?n" using assms(2,4) h(2) by simp
  show ?thesis
  proof (cases "2 < st_n_entries st")
    case False
    then have "length r1 \<le> 2" using assms(2,4) h(2) by simp
    then have "sorted_upto 0 ?n limit r1"
      unfolding sorted_upto_def
    proof (intro allI impI, elim conjE)
      fix i j assume "0 \<le> i" "i < j" "j \<le> ?n"
      then have "i = 0" "j = 1" "?n = 1" using \<open>length r1 \<le> 2\<close> by linarith+
      moreover have "h = 0 \<or> h = 1" using h(1) \<open>length r1 \<le> 2\<close> by linarith
      ultimately show "le (r1 ! i) (r1 ! j)" using pt by (auto simp: parted_def)
    qed
    with p False m show ?thesis by (simp add: sort_with_def)
  next
    case True
    have tl: "?n < length r1" using h(1) by simp
    obtain r2 where r2: "sort_range lt gt r1 0 (h - 1) limit = Some r2"
      "if 0 < h then seg_perm 0 (h - 1) r1 r2 \<and> sorted_upto 0 (h - 1) limit r2 else r2 = r1"
    proof (cases "0 < h")
      case True
      then have "h - 1 < length r1" using h(1) by simp
      with that True sort_range_spec [of "h - 1" r1 0 limit] show thesis by auto
    next
      case False
      then have "sort_range lt gt r1 0 (h - 1) limit = Some r1" by (subst sort_range.simps) simp
      with that [of r1] False show thesis by simp
    qed
    have l2: "length r2 = length r1" using r2(2) by (auto simp: seg_perm_def split: if_splits)
    let ?rest = "limit - 1 - int h"
    obtain r3 where r3: "(if 0 < ?rest then sort_range lt gt r2 (h + 1) ?n ?rest else Some r2) = Some r3"
      "seg_perm (h + 1) ?n r2 r3" "0 < ?rest \<longrightarrow> sorted_upto (h + 1) ?n ?rest r3"
    proof (cases "0 < ?rest")
      case True
      have "?n < length r2" using tl l2 by simp
      with True that sort_range_spec [of ?n r2 "h + 1" ?rest] show thesis by auto
    next
      case False
      with that [of r2] show thesis by simp
    qed
    have "sorted_upto 0 ?n limit r3" "seg_perm 0 ?n r1 r3"
      using sorted_join [OF pt _ _ tl r2(2) r3(2)] r3(3) h(1) by auto
    moreover have "sort_with lt gt st res limit = Some r3"
      unfolding sort_with_def Let_def n using p True r2(1) r3(1)
      by (cases "0 < ?rest") (simp_all del: One_nat_def)
    ultimately show ?thesis using m by (auto simp: seg_perm_def)
  qed
qed

end

section \<open>The comparisons\<close>

lemma bytes_cmp_antisym: "bytes_cmp ys xs = - bytes_cmp xs ys"
  by (induction xs ys rule: bytes_cmp.induct) auto

lemma bytes_cmp_trans: "bytes_cmp xs ys \<le> 0 \<Longrightarrow> bytes_cmp ys zs \<le> 0 \<Longrightarrow> bytes_cmp xs zs \<le> 0"
proof (induction xs ys arbitrary: zs rule: bytes_cmp.induct)
  case (4 x xs y ys)
  then show ?case by (cases zs) (auto split: if_splits)
next
  case (2 y ys)
  then show ?case by (cases zs) auto
qed auto

definition dir_of :: "bool \<Rightarrow> int" where
  "dir_of up = (if up then 1 else - 1)"

interpretation int_order: entry_order "\<lambda>x y. val x \<le> val y" "\<lambda>x y. val x < val y" "\<lambda>x y. val y < val x"
  for val :: "eid \<Rightarrow> int"
  by unfold_locales auto

interpretation key_order: entry_order "\<lambda>x y. bytes_cmp (f x) (f y) * dir_of up \<le> 0"
    "\<lambda>x y. bytes_cmp (f x) (f y) * dir_of up < 0" "\<lambda>x y. 0 < bytes_cmp (f x) (f y) * dir_of up"
  for f :: "eid \<Rightarrow> bytes" and up :: bool
proof
  fix x y z
  have a: "bytes_cmp (f y) (f x) = - bytes_cmp (f x) (f y)" for x y by (rule bytes_cmp_antisym)
  show "bytes_cmp (f x) (f y) * dir_of up < 0 \<longleftrightarrow> \<not> bytes_cmp (f y) (f x) * dir_of up \<le> 0"
    using a [of x y] by auto
  show "0 < bytes_cmp (f x) (f y) * dir_of up \<longleftrightarrow> \<not> bytes_cmp (f x) (f y) * dir_of up \<le> 0" by auto
  show "bytes_cmp (f x) (f y) * dir_of up \<le> 0 \<or> bytes_cmp (f y) (f x) * dir_of up \<le> 0"
    using a [of x y] by auto
  assume "bytes_cmp (f x) (f y) * dir_of up \<le> 0" "bytes_cmp (f y) (f z) * dir_of up \<le> 0"
  then show "bytes_cmp (f x) (f z) * dir_of up \<le> 0"
    using bytes_cmp_trans [of "f x" "f y" "f z"] bytes_cmp_trans [of "f z" "f y" "f x"] a [of x y]
      a [of y z] a [of x z]
    by (auto simp: dir_of_def split: if_splits)
qed

section \<open>Correctness\<close>

text \<open>
  The order that the optional argument asks for: by the integer at byte offset \<open>k\<close>, or by key
  when there is none (\<open>k = 0\<close>; the key of an integer set is the integer at offset 0).
\<close>

definition sort_before :: "(eid \<Rightarrow> bytes) \<Rightarrow> sen_set \<Rightarrow> bool \<Rightarrow> nat \<Rightarrow> eid \<Rightarrow> eid \<Rightarrow> bool" where
  "sort_before ptr st up k x y \<longleftrightarrow>
     (if k = 0 \<and> st_key_size st \<noteq> 4
      then bytes_cmp (entry_key st x) (entry_key st y) * dir_of up \<le> 0
      else INT_OFFSET_VAL ptr st (k div 4) (dir_of up) x \<le> INT_OFFSET_VAL ptr st (k div 4) (dir_of up) y)"

text \<open>
  C10: \<open>sen_set_sort\<close> on a table in order always returns; the result is a permutation of the
  entries, and each of its first \<open>limit\<close> entries (all of them for 0) comes before every later one.
\<close>

theorem sen_set_sort_sorts:
  assumes "set_ok st" "st_n_entries st \<noteq> 0" "alloc (8 * nat (st_n_entries st))" "0 \<le> limit"
  shows "\<exists>res. sen_set_sort alloc ptr junk st limit (Some \<lparr>so_ascending = up, so_key = Offset k\<rparr>) = Some (Some res) \<and>
     mset res = mset (ents (st_index st)) \<and>
     (\<forall>i j. i < j \<and> j < length res \<and> (limit = 0 \<or> int i < limit) \<longrightarrow>
        sort_before ptr st up k (res ! i) (res ! j))"
proof -
  obtain kk where g: "geom_ok st kk" using assms(1) by (auto simp: set_ok_def set_inv_def)
  have n: "st_n_entries st = int (length (ents (st_index st)))"
    using assms(1) by (simp add: set_ok_def set_inv_def n_slots_def length_ents)
  then have pos: "0 < st_n_entries st" using assms(2) by simp
  define lim where "lim = (if limit = 0 \<or> st_n_entries st < limit then st_n_entries st else limit)"
  let ?res = "map junk [0..<nat (st_n_entries st)]" and ?val = "INT_OFFSET_VAL ptr st (k div 4) (dir_of up)"
  have len: "length ?res = length (ents (st_index st))" using n by simp
  have key: "func_str st = (\<lambda>x y. bytes_cmp (entry_key st x) (entry_key st y))" if "st_key_size st = 0"
    using that by (simp add: fun_eq_iff func_str_def entry_key_def)
  have bin: "func_bin st = (\<lambda>x y. bytes_cmp (entry_key st x) (entry_key st y))"
    if "st_key_size st \<noteq> 0" "st_key_size st \<noteq> 4"
    using that by (simp add: fun_eq_iff func_bin_def entry_key_def)
  have upto: "int i < lim" if "limit = 0 \<or> int i < limit" "i < j" "j < length res'" "mset res' = mset (ents (st_index st))"
    for i j and res' :: "eid list"
    using that n mset_eq_length [OF that(4)] by (auto simp: lim_def)
  have call: "sen_set_sort alloc ptr junk st limit (Some \<lparr>so_ascending = up, so_key = Offset k\<rparr>) =
      map_option Some
        (if k \<noteq> 0 then sort_int ptr st ?res lim (k div 4) (dir_of up)
         else sort_default ptr st ?res lim (dir_of up))"
    using assms(2,3) by (simp add: sen_set_sort_def lim_def [symmetric] dir_of_def Let_def)
  show ?thesis
  proof (cases "k = 0 \<and> st_key_size st \<noteq> 4")
    case True
    obtain res' where r: "sort_with (\<lambda>x y. bytes_cmp (entry_key st x) (entry_key st y) * dir_of up < 0)
        (\<lambda>x y. 0 < bytes_cmp (entry_key st x) (entry_key st y) * dir_of up) st ?res lim = Some res'"
      "mset res' = mset (ents (st_index st))" "key_order.sorted_upto (entry_key st) up 0 (length res' - 1) lim res'"
      using key_order.sort_with_spec [OF g n pos len] by blast
    have "sen_set_sort alloc ptr junk st limit (Some \<lparr>so_ascending = up, so_key = Offset k\<rparr>) = Some (Some res')"
      unfolding call using True r(1) key bin by (auto simp: sort_default_def sort_func_def)
    moreover have "sort_before ptr st up k (res' ! i) (res' ! j)"
      if "i < j" "j < length res'" "limit = 0 \<or> int i < limit" for i j
      using r(3) upto [OF that(3,1,2) r(2)] that True
      by (auto simp: key_order.sorted_upto_def sort_before_def)
    ultimately show ?thesis using r(2) by blast
  next
    case False
    obtain res' where r: "sort_with (\<lambda>x y. ?val x < ?val y) (\<lambda>x y. ?val y < ?val x) st ?res lim = Some res'"
      "mset res' = mset (ents (st_index st))" "int_order.sorted_upto ?val 0 (length res' - 1) lim res'"
      using int_order.sort_with_spec [OF g n pos len] by blast
    have "sen_set_sort alloc ptr junk st limit (Some \<lparr>so_ascending = up, so_key = Offset k\<rparr>) = Some (Some res')"
      unfolding call using False r(1) by (auto simp: sort_default_def sort_int_def Let_def)
    moreover have "sort_before ptr st up k (res' ! i) (res' ! j)"
      if "i < j" "j < length res'" "limit = 0 \<or> int i < limit" for i j
      using r(3) upto [OF that(3,1,2) r(2)] that False
      by (auto simp: int_order.sorted_upto_def sort_before_def)
    ultimately show ?thesis using r(2) by blast
  qed
qed

theorem sen_set_sort_sorts_witness:
  "\<exists>st res. set_map st = [[7, 0, 0, 0] \<mapsto> [0, 0, 0, 0]] \<and>
     sen_set_sort (\<lambda>_. True) (\<lambda>_. []) (\<lambda>_. Eid 0 0) st 0 (Some \<lparr>so_ascending = True, so_key = Offset 0\<rparr>)
       = Some (Some res) \<and>
     map (entry_key st) res = [[7, 0, 0, 0]]"
proof -
  obtain st where st: "set_ok st" "st_n_entries st \<le> 1" "set_map st = [[7, 0, 0, 0] \<mapsto> [0, 0, 0, 0]]"
    using one_table by blast
  have inv: "entries_ok st" "st_n_entries st = int (length (ents (st_index st)))"
    using st(1) by (auto simp: set_ok_def set_inv_def n_slots_def length_ents)
  have keys: "entry_key st e = [7, 0, 0, 0]" if "e \<in> set (ents (st_index st))" for e
    using that set_map_live [OF inv(1), of e] st(3) by (auto simp: set_ents live_def split: if_splits)
  have "[7, 0, 0, 0] \<in> dom (set_map st)" by (simp add: st(3))
  then obtain e where "e \<in> set (ents (st_index st))" by (auto simp: dom_set_map live_def set_ents)
  then have ne: "st_n_entries st \<noteq> 0" and one: "length (ents (st_index st)) = 1"
    using inv(2) st(2) by (auto simp: le_Suc_eq)
  obtain res where r: "sen_set_sort (\<lambda>_. True) (\<lambda>_. []) (\<lambda>_. Eid 0 0) st 0
      (Some \<lparr>so_ascending = True, so_key = Offset 0\<rparr>) = Some (Some res)" "mset res = mset (ents (st_index st))"
    using sen_set_sort_sorts [where st = st and alloc = "\<lambda>_. True" and limit = 0 and ptr = "\<lambda>_. []"
        and junk = "\<lambda>_. Eid 0 0" and up = True and k = 0] st(1) ne
    by auto
  have "length res = 1" "set res = set (ents (st_index st))"
    using r(2) one mset_eq_length mset_eq_setD by metis+
  then have "map (entry_key st) res = [[7, 0, 0, 0]]"
    using keys by (cases res) auto
  with r(1) st(3) show ?thesis by (intro exI [of _ st] exI [of _ res] conjI)
qed

end
