(* ===== verification/Nstr.thy ===== *)
theory Nstr
  imports Str_Char
begin

text \<open>
  Normalised strings (\<open>sen_nstr\<close> of lib/str.h) and the normalisers of lib/str.c for the byte
  encodings: \<open>normalize_none\<close>, \<open>normalize_latin1\<close>, \<open>normalize_koi8r\<close>, \<open>normalize_euc\<close> and
  \<open>normalize_sjis\<close>. A normaliser walks over the source, and each step either drops a
  character, drops it and marks the character before it as followed by a blank, writes a
  character with its type, or replaces the last byte written (a voiced kana).
\<close>

section \<open>The structure\<close>

definition sen_str_null :: byte where "sen_str_null = 0"
definition sen_str_alpha :: byte where "sen_str_alpha = 1"
definition sen_str_digit :: byte where "sen_str_digit = 2"
definition sen_str_symbol :: byte where "sen_str_symbol = 3"
definition sen_str_hiragana :: byte where "sen_str_hiragana = 4"
definition sen_str_katakana :: byte where "sen_str_katakana = 5"
definition sen_str_kanji :: byte where "sen_str_kanji = 6"
definition sen_str_others :: byte where "sen_str_others = 7"
definition SEN_NSTR_BLANK :: byte where "SEN_NSTR_BLANK = 0x80"

text \<open>
  \<open>ns_orig\<close> is the memory from \<open>orig\<close> on; \<open>norm\<close>, \<open>ctypes\<close> and \<open>checks\<close> are \<open>None\<close> for NULL
  pointers, otherwise the part that has been filled in (\<open>norm\<close> and \<open>ctypes\<close> with their
  terminators). A check is an \<open>int16_t\<close>.
\<close>

record sen_nstr =
  ns_orig :: bytes
  ns_orig_blen :: nat
  ns_norm :: "bytes option"
  ns_norm_blen :: nat
  ns_ctypes :: "bytes option"
  ns_checks :: "int list option"
  ns_length :: nat
  ns_flags :: u32
  ns_encoding :: sen_encoding

definition SEN_STR_REMOVEBLANK :: u32 where "SEN_STR_REMOVEBLANK = 1"
definition SEN_STR_WITH_CTYPES :: u32 where "SEN_STR_WITH_CTYPES = 2"
definition SEN_STR_WITH_CHECKS :: u32 where "SEN_STR_WITH_CHECKS = 4"

definition has_flag :: "u32 \<Rightarrow> u32 \<Rightarrow> bool" where
  "has_flag flags f \<longleftrightarrow> flags AND f \<noteq> 0"

section \<open>One step of a normaliser\<close>

datatype norm_act =
    Skip
  | Blank
  | Emit bytes byte
  | Voice byte nat

text \<open>
  The local variables of the loop: what is stored from \<open>d0\<close> up to \<open>d\<close>, from \<open>ctypes\<close> up to
  \<open>cp\<close> and from \<open>checks\<close> up to \<open>ch\<close> (\<open>None\<close> when that array was not asked for), the start
  \<open>s_\<close> of the source bytes not yet accounted for, and \<open>length\<close>.
\<close>

record norm_loc =
  nl_d :: bytes
  nl_cp :: "bytes option"
  nl_ch :: "int list option"
  nl_s :: nat
  nl_len :: nat

definition mark_blank :: "bytes option \<Rightarrow> bytes option" where
  "mark_blank cp =
     (case cp of
        None \<Rightarrow> None
      | Some cs \<Rightarrow> (if cs = [] then Some [] else Some (butlast cs @ [last cs OR SEN_NSTR_BLANK])))"

text \<open>
  The end of the loop body, common to all the normalisers; \<open>next_s\<close> is the position \<open>s + 1\<close>.
  Each written byte has a check: the first one the number of source bytes since \<open>s_\<close>, the
  others 0. A voiced kana adds its source bytes to the check of the byte it replaces.
\<close>

fun norm_apply :: "norm_act \<Rightarrow> nat \<Rightarrow> norm_loc \<Rightarrow> norm_loc" where
  "norm_apply Skip next_s nl = nl"
| "norm_apply Blank next_s nl = nl\<lparr>nl_cp := mark_blank (nl_cp nl)\<rparr>"
| "norm_apply (Emit bs ctype) next_s nl =
     nl\<lparr>nl_d := nl_d nl @ bs,
        nl_len := Suc (nl_len nl),
        nl_cp := map_option (\<lambda>cs. cs @ [ctype]) (nl_cp nl),
        nl_ch := map_option (\<lambda>ks. ks @ wrap16 (int next_s - int (nl_s nl)) # replicate (length bs - 1) 0)
                   (nl_ch nl),
        nl_s := (if nl_ch nl = None then nl_s nl else next_s)\<rparr>"
| "norm_apply (Voice b n) next_s nl =
     nl\<lparr>nl_d := butlast (nl_d nl) @ [b],
        nl_ch := map_option (\<lambda>ks. butlast ks @ [wrap16 (last ks + int n)]) (nl_ch nl),
        nl_s := (if nl_ch nl = None then nl_s nl else nl_s nl + n)\<rparr>"

text \<open>
  The loop: \<open>next_act rest d\<close> is the action for the source \<open>rest\<close> when \<open>d\<close> has been written,
  with the number of source bytes it reads beyond the first.
\<close>

function norm_loop ::
  "(bytes \<Rightarrow> bytes \<Rightarrow> norm_act \<times> nat) \<Rightarrow> bytes \<Rightarrow> nat \<Rightarrow> norm_loc \<Rightarrow> norm_loc" where
  "norm_loop next_act [] s nl = nl"
| "norm_loop next_act (c # rest) s nl =
     (case next_act (c # rest) (nl_d nl) of
        (act, k) \<Rightarrow> norm_loop next_act (drop k rest) (s + k + 1) (norm_apply act (s + k + 1) nl))"
  by pat_completeness auto
termination
  by (relation "measure (\<lambda>(f, rest, s, nl). length rest)") auto

section \<open>ASCII\<close>

text \<open>The cases 0 to 7 of the switch on \<open>c >> 4\<close>, the same in all five normalisers.\<close>

definition ascii_act :: "bool \<Rightarrow> byte \<Rightarrow> norm_act" where
  "ascii_act removeblankp c =
     (let h = drop_bit 4 c in
      if h = 0 \<or> h = 1 then Blank
      else if h = 2 then
        (if c = 0x20 then
           (if removeblankp then Blank else Emit [0x20] (SEN_NSTR_BLANK OR sen_str_symbol))
         else Emit [c] sen_str_symbol)
      else if h = 3 then Emit [c] (if c \<le> 0x39 then sen_str_digit else sen_str_symbol)
      else if h = 4 then
        Emit [if 0x41 \<le> c then c + 0x20 else c] (if c = 0x40 then sen_str_symbol else sen_str_alpha)
      else if h = 5 then
        Emit [if c \<le> 0x5a then c + 0x20 else c] (if c \<le> 0x5a then sen_str_alpha else sen_str_symbol)
      else if h = 6 then Emit [c] (if c = 0x60 then sen_str_symbol else sen_str_alpha)
      else if h = 7 then
        Emit [c] (if c \<le> 0x7a then sen_str_alpha else if c = 0x7f then sen_str_others else sen_str_symbol)
      else Emit [c] sen_str_others)"

section \<open>Single-byte encodings\<close>

definition none_act :: "bool \<Rightarrow> byte \<Rightarrow> norm_act" where
  "none_act removeblankp c = ascii_act removeblankp c"

definition latin1_act :: "bool \<Rightarrow> byte \<Rightarrow> norm_act" where
  "latin1_act removeblankp c =
     (let h = drop_bit 4 c in
      if h = 8 then
        (if c = 0x8a \<or> c = 0x8c \<or> c = 0x8e then Emit [c + 0x10] sen_str_alpha
         else Emit [c] sen_str_symbol)
      else if h = 9 then
        (if c = 0x9a \<or> c = 0x9c \<or> c = 0x9e \<or> c = 0x9f then
           Emit [if c = 0x9f then c + 0x60 else c] sen_str_alpha
         else Emit [c] sen_str_symbol)
      else if h = 0xc then Emit [c + 0x20] sen_str_alpha
      else if h = 0xd then
        Emit [if c = 0xd7 \<or> c = 0xdf then c else c + 0x20]
          (if c = 0xd7 then sen_str_symbol else sen_str_alpha)
      else if h = 0xe then Emit [c] sen_str_alpha
      else if h = 0xf then Emit [c] (if c = 0xf7 then sen_str_symbol else sen_str_alpha)
      else ascii_act removeblankp c)"

definition koi8r_act :: "bool \<Rightarrow> byte \<Rightarrow> norm_act" where
  "koi8r_act removeblankp c =
     (let h = drop_bit 4 c in
      if h = 0xa then Emit [c] (if c = 0xa3 then sen_str_alpha else sen_str_others)
      else if h = 0xb then
        (if c = 0xb3 then Emit [c - 0x10] sen_str_alpha else Emit [c] sen_str_others)
      else if h = 0xc \<or> h = 0xd then Emit [c] sen_str_alpha
      else if h = 0xe \<or> h = 0xf then Emit [c - 0x20] sen_str_alpha
      else ascii_act removeblankp c)"

definition sb_next :: "(byte \<Rightarrow> norm_act) \<Rightarrow> bytes \<Rightarrow> bytes \<Rightarrow> norm_act \<times> nat" where
  "sb_next f rest d = (f (hd rest), 0)"

section \<open>EUC-JP\<close>

definition symbol_table :: "bytes" where
  "symbol_table =
     [0x2c, 0x2e, 0, 0x3a, 0x3b, 0x3f, 0x21, 0, 0, 0, 0x60, 0, 0x5e, 0x7e, 0x5f, 0,
      0, 0, 0, 0, 0, 0, 0, 0, 0, 0x2d, 0x2d, 0x2f, 0x5c, 0, 0, 0x7c, 0, 0, 0, 0x27,
      0, 0x22, 0x28, 0x29, 0, 0, 0x5b, 0x5d, 0x7b, 0x7d, 0, 0, 0, 0, 0, 0, 0, 0, 0,
      0, 0x2b, 0x2d, 0, 0, 0, 0x3d, 0, 0x3c, 0x3e, 0, 0, 0, 0, 0, 0, 0, 0, 0, 0, 0,
      0x24, 0, 0, 0x25, 0x23, 0x26, 0x2a, 0x40, 0, 0, 0, 0, 0, 0, 0, 0]"

definition euc_hankana :: "u16 list" where
  "euc_hankana =
     [0xa1a1, 0xa1a3, 0xa1d6, 0xa1d7, 0xa1a2, 0xa1a6, 0xa5f2, 0xa5a1, 0xa5a3, 0xa5a5,
      0xa5a7, 0xa5a9, 0xa5e3, 0xa5e5, 0xa5e7, 0xa5c3, 0xa1bc, 0xa5a2, 0xa5a4, 0xa5a6,
      0xa5a8, 0xa5aa, 0xa5ab, 0xa5ad, 0xa5af, 0xa5b1, 0xa5b3, 0xa5b5, 0xa5b7, 0xa5b9,
      0xa5bb, 0xa5bd, 0xa5bf, 0xa5c1, 0xa5c4, 0xa5c6, 0xa5c8, 0xa5ca, 0xa5cb, 0xa5cc,
      0xa5cd, 0xa5ce, 0xa5cf, 0xa5d2, 0xa5d5, 0xa5d8, 0xa5db, 0xa5de, 0xa5df, 0xa5e0,
      0xa5e1, 0xa5e2, 0xa5e4, 0xa5e6, 0xa5e8, 0xa5e9, 0xa5ea, 0xa5eb, 0xa5ec, 0xa5ed,
      0xa5ef, 0xa5f3, 0xa1ab, 0xa1eb]"

definition euc_dakuten :: "bytes" where
  "euc_dakuten =
     [0xf4, 0, 0, 0, 0, 0xac, 0, 0xae, 0, 0xb0, 0, 0xb2, 0, 0xb4, 0, 0xb6, 0, 0xb8,
      0, 0xba, 0, 0xbc, 0, 0xbe, 0, 0xc0, 0, 0xc2, 0, 0, 0xc5, 0, 0xc7, 0, 0xc9, 0,
      0, 0, 0, 0, 0, 0xd0, 0, 0, 0xd3, 0, 0, 0xd6, 0, 0, 0xd9, 0, 0, 0xdc]"

definition euc_handaku :: "bytes" where
  "euc_handaku =
     [0xd1, 0, 0, 0xd4, 0, 0, 0xd7, 0, 0, 0xda, 0, 0, 0xdd]"


text \<open>The two bytes of a code of the hankaku-kana table.\<close>

definition hi_lo :: "u16 \<Rightarrow> bytes" where
  "hi_lo c = [ucast (drop_bit 8 c), ucast (c AND 0xff)]"

text \<open>A sound mark that combines with the kana written last, if it is one that can be voiced.\<close>

definition combine :: "bytes \<Rightarrow> byte \<Rightarrow> byte \<Rightarrow> byte \<Rightarrow> bytes \<Rightarrow> byte" where
  "combine d lead lo hi marks =
     (if 2 \<le> length d \<and> d ! (length d - 2) = lead \<and> lo \<le> last d \<and> last d \<le> hi then
        marks ! unat (last d - lo)
      else 0)"

text \<open>A half-width kana \<open>0x8e c2\<close>.\<close>

definition euc_kana :: "byte \<Rightarrow> bytes \<Rightarrow> norm_act" where
  "euc_kana c2 d =
     (let c = euc_hankana ! unat (c2 - 0xa0) in
      if c = 0xa1ab \<and> combine d 0xa5 0xa6 0xdb euc_dakuten \<noteq> 0 then
        Voice (combine d 0xa5 0xa6 0xdb euc_dakuten) 2
      else if c = 0xa1eb \<and> combine d 0xa5 0xcf 0xdb euc_handaku \<noteq> 0 then
        Voice (combine d 0xa5 0xcf 0xdb euc_handaku) 2
      else Emit (hi_lo c) sen_str_katakana)"

definition euc_row_a :: "bool \<Rightarrow> byte \<Rightarrow> byte \<Rightarrow> norm_act" where
  "euc_row_a removeblankp c1 c2 =
     (let r = c1 AND 0x0f in
      if r = 1 then
        (if c2 = 0xbc then Emit [c1, c2] sen_str_katakana
         else if c2 = 0xb9 then Emit [c1, c2] sen_str_kanji
         else if c2 = 0xa1 then
           (if removeblankp then Blank else Emit [0x20] (SEN_NSTR_BLANK OR sen_str_symbol))
         else if 0xa4 \<le> c2 \<and> symbol_table ! unat (c2 - 0xa4) \<noteq> 0 then
           Emit [symbol_table ! unat (c2 - 0xa4)] sen_str_symbol
         else Emit [c1, c2] sen_str_others)
      else if r = 2 then Emit [c1, c2] sen_str_symbol
      else if r = 3 then
        (let c3 = c2 - 0x80 in
         if 0x61 \<le> c3 \<and> c3 \<le> 0x7a then Emit [c3] sen_str_alpha
         else if 0x41 \<le> c3 \<and> c3 \<le> 0x5a then Emit [c3 + 0x20] sen_str_alpha
         else if 0x30 \<le> c3 \<and> c3 \<le> 0x39 then Emit [c3] sen_str_digit
         else Emit [c1, c2] sen_str_others)
      else if r = 4 then Emit [c1, c2] sen_str_hiragana
      else if r = 5 then Emit [c1, c2] sen_str_katakana
      else if r = 6 \<or> r = 7 \<or> r = 8 then Emit [c1, c2] sen_str_symbol
      else Emit [c1, c2] sen_str_others)"

definition euc_multi :: "bool \<Rightarrow> byte \<Rightarrow> byte \<Rightarrow> bytes \<Rightarrow> norm_act" where
  "euc_multi removeblankp c1 c2 d =
     (let h = drop_bit 4 c1 in
      if h = 8 then
        (if c1 = 0x8e \<and> 0xa0 \<le> c2 \<and> c2 \<le> 0xdf then euc_kana c2 d
         else Emit [c1, c2] sen_str_others)
      else if h = 9 then Emit [c1, c2] sen_str_others
      else if h = 0xa then euc_row_a removeblankp c1 c2
      else Emit [c1, c2] sen_str_kanji)"

definition euc_next :: "bool \<Rightarrow> bytes \<Rightarrow> bytes \<Rightarrow> norm_act \<times> nat" where
  "euc_next removeblankp rest d =
     (case rest of
        [] \<Rightarrow> (Skip, 0)
      | c1 # rest' \<Rightarrow>
          (if c1 AND 0x80 \<noteq> 0 then
             (case rest' of
                [] \<Rightarrow> (Skip, 0)
              | c2 # _ \<Rightarrow>
                  (if c2 AND 0x80 \<noteq> 0 then (euc_multi removeblankp c1 c2 d, 1) else (Skip, 0)))
           else (ascii_act removeblankp c1, 0)))"

section \<open>Shift_JIS\<close>

definition sjis_hankana :: "u16 list" where
  "sjis_hankana =
     [0x8140, 0x8142, 0x8175, 0x8176, 0x8141, 0x8145, 0x8392, 0x8340, 0x8342, 0x8344,
      0x8346, 0x8348, 0x8383, 0x8385, 0x8387, 0x8362, 0x815b, 0x8341, 0x8343, 0x8345,
      0x8347, 0x8349, 0x834a, 0x834c, 0x834e, 0x8350, 0x8352, 0x8354, 0x8356, 0x8358,
      0x835a, 0x835c, 0x835e, 0x8360, 0x8363, 0x8365, 0x8367, 0x8369, 0x836a, 0x836b,
      0x836c, 0x836d, 0x836e, 0x8371, 0x8374, 0x8377, 0x837a, 0x837d, 0x837e, 0x8380,
      0x8381, 0x8382, 0x8384, 0x8386, 0x8388, 0x8389, 0x838a, 0x838b, 0x838c, 0x838d,
      0x838f, 0x8393, 0x814a, 0x814b]"

definition sjis_dakuten :: "bytes" where
  "sjis_dakuten =
     [0x94, 0, 0, 0, 0, 0x4b, 0, 0x4d, 0, 0x4f, 0, 0x51, 0, 0x53, 0, 0x55, 0, 0x57,
      0, 0x59, 0, 0x5b, 0, 0x5d, 0, 0x5f, 0, 0x61, 0, 0, 0x64, 0, 0x66, 0, 0x68, 0,
      0, 0, 0, 0, 0, 0x6f, 0, 0, 0x72, 0, 0, 0x75, 0, 0, 0x78, 0, 0, 0x7b]"

definition sjis_handaku :: "bytes" where
  "sjis_handaku =
     [0x70, 0, 0, 0x73, 0, 0, 0x76, 0, 0, 0x79, 0, 0, 0x7c]"

text \<open>A half-width kana is one byte.\<close>

definition sjis_kana :: "byte \<Rightarrow> bytes \<Rightarrow> norm_act" where
  "sjis_kana c1 d =
     (let c = sjis_hankana ! unat (c1 - 0xa0) in
      if c = 0x814a \<and> combine d 0x83 0x45 0x7a sjis_dakuten \<noteq> 0 then
        Voice (combine d 0x83 0x45 0x7a sjis_dakuten) 1
      else if c = 0x814b \<and> combine d 0x83 0x6e 0x7a sjis_handaku \<noteq> 0 then
        Voice (combine d 0x83 0x6e 0x7a sjis_handaku) 1
      else Emit (hi_lo c) sen_str_katakana)"

definition sjis_multi :: "bool \<Rightarrow> byte \<Rightarrow> byte \<Rightarrow> norm_act" where
  "sjis_multi removeblankp c1 c2 =
     (if 0x81 \<le> c1 \<and> c1 \<le> 0x87 then
        (let r = c1 AND 0x0f in
         if r = 1 then
           (if c2 = 0x5b then Emit [c1, c2] sen_str_katakana
            else if c2 = 0x58 then Emit [c1, c2] sen_str_kanji
            else if c2 = 0x40 then
              (if removeblankp then Blank else Emit [0x20] (SEN_NSTR_BLANK OR sen_str_symbol))
            else if 0x43 \<le> c2 \<and> c2 \<le> 0x7e \<and> symbol_table ! unat (c2 - 0x43) \<noteq> 0 then
              Emit [symbol_table ! unat (c2 - 0x43)] sen_str_symbol
            else if 0x7f \<le> c2 \<and> c2 \<le> 0x97 \<and> symbol_table ! unat (c2 - 0x44) \<noteq> 0 then
              Emit [symbol_table ! unat (c2 - 0x44)] sen_str_symbol
            else Emit [c1, c2] sen_str_others)
         else if r = 2 then
           (if 0x4f \<le> c2 \<and> c2 \<le> 0x58 then Emit [c2 - 0x1f] sen_str_digit
            else if 0x60 \<le> c2 \<and> c2 \<le> 0x79 then Emit [c2 + 0x01] sen_str_alpha
            else if 0x81 \<le> c2 \<and> c2 \<le> 0x9a then Emit [c2 - 0x20] sen_str_alpha
            else if 0x9f \<le> c2 \<and> c2 \<le> 0xf1 then Emit [c1, c2] sen_str_hiragana
            else Emit [c1, c2] sen_str_others)
         else if r = 3 then
           Emit [c1, c2] (if 0x40 \<le> c2 \<and> c2 \<le> 0x96 then sen_str_katakana else sen_str_symbol)
         else if r = 4 \<or> r = 7 then Emit [c1, c2] sen_str_symbol
         else Emit [c1, c2] sen_str_others)
      else Emit [c1, c2] sen_str_kanji)"

definition sjis_next :: "bool \<Rightarrow> bytes \<Rightarrow> bytes \<Rightarrow> norm_act \<times> nat" where
  "sjis_next removeblankp rest d =
     (case rest of
        [] \<Rightarrow> (Skip, 0)
      | c1 # rest' \<Rightarrow>
          (if c1 AND 0x80 \<noteq> 0 then
             (if 0xa0 \<le> c1 \<and> c1 \<le> 0xdf then (sjis_kana c1 d, 0)
              else
                (case rest' of
                   [] \<Rightarrow> (Skip, 0)
                 | c2 # _ \<Rightarrow>
                     (if 0x40 \<le> c2 \<and> c2 \<le> 0xfc then (sjis_multi removeblankp c1 c2, 1) else (Skip, 0))))
           else (ascii_act removeblankp c1, 0)))"

section \<open>The normalisers\<close>

text \<open>
  Allocation before the loop and termination of the arrays after it: \<open>k\<close> is the number of
  bytes reserved per source byte for \<open>norm\<close> and \<open>checks\<close>, \<open>src\<close> is the source up to \<open>e\<close>.
\<close>

definition normalize_with ::
  "alloc \<Rightarrow> nat \<Rightarrow> (bytes \<Rightarrow> bytes \<Rightarrow> norm_act \<times> nat) \<Rightarrow> bytes \<Rightarrow> sen_nstr \<Rightarrow> sen_rc \<times> sen_nstr" where
  "normalize_with alloc k next_act src nstr =
     (let sz = length src;
          with_checks = has_flag (ns_flags nstr) SEN_STR_WITH_CHECKS;
          with_ctypes = has_flag (ns_flags nstr) SEN_STR_WITH_CTYPES;
          failed = (sen_memory_exhausted, nstr\<lparr>ns_norm := None, ns_checks := None\<rparr>)
      in if \<not> alloc (sz * k + 1) then (sen_memory_exhausted, nstr\<lparr>ns_norm := None\<rparr>)
         else if with_checks \<and> \<not> alloc (sz * k * 2 + 1) then failed
         else if with_ctypes \<and> \<not> alloc (sz + 1) then failed
         else
           (let nl = norm_loop next_act src 0
                       \<lparr>nl_d = [], nl_cp = (if with_ctypes then Some [] else None),
                        nl_ch = (if with_checks then Some [] else None), nl_s = 0, nl_len = 0\<rparr>
            in (sen_success,
                nstr\<lparr>ns_norm := Some (nl_d nl @ [0]),
                     ns_norm_blen := length (nl_d nl),
                     ns_ctypes := map_option (\<lambda>cs. cs @ [sen_str_null]) (nl_cp nl),
                     ns_checks := nl_ch nl,
                     ns_length := nl_len nl\<rparr>)))"

definition removeblank :: "sen_nstr \<Rightarrow> bool" where
  "removeblank nstr = has_flag (ns_flags nstr) SEN_STR_REMOVEBLANK"

definition normalize_none :: "alloc \<Rightarrow> sen_nstr \<Rightarrow> sen_rc \<times> sen_nstr" where
  "normalize_none alloc nstr =
     normalize_with alloc 1 (sb_next (none_act (removeblank nstr)))
       (take (ns_orig_blen nstr) (ns_orig nstr)) nstr"

text \<open>
  \<open>normalize_latin1\<close> and \<open>normalize_koi8r\<close> take the length of the source from \<open>strlen(orig)\<close>
  and not from \<open>orig_blen\<close>.
\<close>

definition strlen_src :: "sen_nstr \<Rightarrow> bytes" where
  "strlen_src nstr = takeWhile (\<lambda>c. c \<noteq> 0) (ns_orig nstr)"

definition normalize_latin1 :: "alloc \<Rightarrow> sen_nstr \<Rightarrow> sen_rc \<times> sen_nstr" where
  "normalize_latin1 alloc nstr =
     normalize_with alloc 1 (sb_next (latin1_act (removeblank nstr))) (strlen_src nstr) nstr"

definition normalize_koi8r :: "alloc \<Rightarrow> sen_nstr \<Rightarrow> sen_rc \<times> sen_nstr" where
  "normalize_koi8r alloc nstr =
     normalize_with alloc 1 (sb_next (koi8r_act (removeblank nstr))) (strlen_src nstr) nstr"

definition normalize_euc :: "alloc \<Rightarrow> sen_nstr \<Rightarrow> sen_rc \<times> sen_nstr" where
  "normalize_euc alloc nstr =
     normalize_with alloc 2 (euc_next (removeblank nstr))
       (take (ns_orig_blen nstr) (ns_orig nstr)) nstr"

definition normalize_sjis :: "alloc \<Rightarrow> sen_nstr \<Rightarrow> sen_rc \<times> sen_nstr" where
  "normalize_sjis alloc nstr =
     normalize_with alloc 2 (sjis_next (removeblank nstr))
       (take (ns_orig_blen nstr) (ns_orig nstr)) nstr"

section \<open>What every normaliser keeps\<close>

text \<open>
  After \<open>pos\<close> source bytes at most \<open>k * pos\<close> bytes and \<open>pos\<close> characters have been written;
  there is one check per byte and one type per character, and the checks, the first of which is
  positive, add up to the source bytes accounted for (as long as they fit the 16 bits of a check).
\<close>

definition loc_inv :: "nat \<Rightarrow> nat \<Rightarrow> norm_loc \<Rightarrow> bool" where
  "loc_inv k pos nl \<longleftrightarrow>
     length (nl_d nl) \<le> k * pos \<and> nl_len nl \<le> pos \<and>
     (\<forall>cs. nl_cp nl = Some cs \<longrightarrow> length cs = nl_len nl) \<and>
     (\<forall>ks. nl_ch nl = Some ks \<longrightarrow>
        length ks = length (nl_d nl) \<and> nl_s nl \<le> pos \<and>
        (pos \<le> 32767 \<longrightarrow>
           (\<forall>x \<in> set ks. 0 \<le> x) \<and> sum_list ks = int (nl_s nl) \<and> (ks \<noteq> [] \<longrightarrow> 0 < hd ks)))"

definition act_ok :: "nat \<Rightarrow> bytes \<Rightarrow> norm_act \<Rightarrow> nat \<Rightarrow> bool" where
  "act_ok k d act j =
     (case act of
        Emit bs _ \<Rightarrow> bs \<noteq> [] \<and> length bs \<le> k * (j + 1)
      | Voice _ n \<Rightarrow> d \<noteq> [] \<and> n \<le> j + 1
      | _ \<Rightarrow> True)"

lemma length_mark_blank: "mark_blank cp = Some cs' \<Longrightarrow> \<exists>cs. cp = Some cs \<and> length cs' = length cs"
  by (auto simp: mark_blank_def Suc_leI Suc_pred split: option.splits if_splits)

lemma sum_list_nonneg_last:
  "ks \<noteq> [] \<Longrightarrow> \<forall>x \<in> set ks. 0 \<le> (x::int) \<Longrightarrow> 0 \<le> last ks \<and> last ks \<le> sum_list ks"
proof (induction ks)
  case (Cons a ks)
  show ?case
  proof (cases "ks = []")
    case False
    with Cons show ?thesis by auto
  qed (use Cons in simp)
qed simp

lemma sum_list_replace_last:
  "ks \<noteq> [] \<Longrightarrow> sum_list (butlast ks @ [y]) = sum_list ks - last ks + (y::int)"
proof -
  assume "ks \<noteq> []"
  then have "sum_list ks = sum_list (butlast ks) + last ks"
    by (metis append_butlast_last_id sum_list.append sum_list.Cons sum_list.Nil add_0_right)
  then show ?thesis by simp
qed

lemma apply_inv:
  assumes "loc_inv k pos nl" "act_ok k (nl_d nl) act j"
  shows "loc_inv k (pos + j + 1) (norm_apply act (pos + j + 1) nl)"
proof -
  have grow: "k * pos \<le> k * (pos + j + 1)" "k * pos + k * (j + 1) = k * (pos + j + 1)"
    by (simp_all add: algebra_simps)
  show ?thesis
  proof (cases act)
    case Skip
    then show ?thesis using assms(1) grow(1) by (fastforce simp: loc_inv_def)
  next
    case Blank
    then show ?thesis using assms(1) grow(1) by (fastforce simp: loc_inv_def dest: length_mark_blank)
  next
    case (Emit bs ct)
    then have bs: "bs \<noteq> []" "length bs \<le> k * (j + 1)" using assms(2) by (auto simp: act_ok_def)
    let ?n = "pos + j + 1"
    have w: "wrap16 (int ?n - int (nl_s nl)) = int ?n - int (nl_s nl)"
      if "?n \<le> 32767" "nl_s nl \<le> pos"
      using that by (intro wrap16_id) auto
    have l: "Suc (length bs - 1) = length bs" using bs(1) by (cases bs) auto
    show ?thesis
      unfolding Emit loc_inv_def
    proof (intro conjI allI impI)
      show "length (nl_d (norm_apply (Emit bs ct) ?n nl)) \<le> k * ?n"
        using assms(1) bs(2) grow(2) by (simp add: loc_inv_def)
      show "nl_len (norm_apply (Emit bs ct) ?n nl) \<le> ?n" using assms(1) by (simp add: loc_inv_def)
    next
      fix cs
      assume "nl_cp (norm_apply (Emit bs ct) ?n nl) = Some cs"
      then show "length cs = nl_len (norm_apply (Emit bs ct) ?n nl)"
        using assms(1) by (auto simp: loc_inv_def)
    next
      fix ks
      assume "nl_ch (norm_apply (Emit bs ct) ?n nl) = Some ks"
      then obtain ks0 where k0: "nl_ch nl = Some ks0"
        and ks: "ks = ks0 @ wrap16 (int ?n - int (nl_s nl)) # replicate (length bs - 1) 0"
        by auto
      have i: "length ks0 = length (nl_d nl)" "nl_s nl \<le> pos"
        "pos \<le> 32767 \<longrightarrow>
           (\<forall>x \<in> set ks0. 0 \<le> x) \<and> sum_list ks0 = int (nl_s nl) \<and> (ks0 \<noteq> [] \<longrightarrow> 0 < hd ks0)"
        using assms(1) k0 by (auto simp: loc_inv_def)
      show "length ks = length (nl_d (norm_apply (Emit bs ct) ?n nl))" using ks i(1) l by simp
      show "nl_s (norm_apply (Emit bs ct) ?n nl) \<le> ?n" using k0 by simp
      assume "?n \<le> 32767"
      with w i have w': "wrap16 (int ?n - int (nl_s nl)) = int ?n - int (nl_s nl)" by blast
      show "\<forall>x \<in> set ks. 0 \<le> x" using i \<open>?n \<le> 32767\<close> unfolding ks w' by auto
      show "sum_list ks = int (nl_s (norm_apply (Emit bs ct) ?n nl))"
        using i \<open>?n \<le> 32767\<close> k0 unfolding ks w' by (simp add: sum_list_replicate)
      show "0 < hd ks" using i \<open>?n \<le> 32767\<close> unfolding ks w' by (cases ks0) auto
    qed
  next
    case (Voice b n)
    then have d: "nl_d nl \<noteq> []" "n \<le> j + 1" using assms(2) by (auto simp: act_ok_def)
    then have len: "Suc (length (nl_d nl) - 1) = length (nl_d nl)" by (cases "nl_d nl") auto
    let ?n = "pos + j + 1"
    show ?thesis
      unfolding Voice loc_inv_def
    proof (intro conjI allI impI)
      show "length (nl_d (norm_apply (Voice b n) ?n nl)) \<le> k * ?n"
        using assms(1) len grow(1) by (simp add: loc_inv_def)
      show "nl_len (norm_apply (Voice b n) ?n nl) \<le> ?n" using assms(1) by (simp add: loc_inv_def)
    next
      fix cs
      assume "nl_cp (norm_apply (Voice b n) ?n nl) = Some cs"
      then show "length cs = nl_len (norm_apply (Voice b n) ?n nl)"
        using assms(1) by (auto simp: loc_inv_def)
    next
      fix ks
      assume "nl_ch (norm_apply (Voice b n) ?n nl) = Some ks"
      then obtain ks0 where k0: "nl_ch nl = Some ks0"
        and ks: "ks = butlast ks0 @ [wrap16 (last ks0 + int n)]"
        by auto
      have i: "length ks0 = length (nl_d nl)" "nl_s nl \<le> pos"
        "pos \<le> 32767 \<longrightarrow>
           (\<forall>x \<in> set ks0. 0 \<le> x) \<and> sum_list ks0 = int (nl_s nl) \<and> (ks0 \<noteq> [] \<longrightarrow> 0 < hd ks0)"
        using assms(1) k0 by (auto simp: loc_inv_def)
      then have ne: "ks0 \<noteq> []" using d by auto
      show "length ks = length (nl_d (norm_apply (Voice b n) ?n nl))" using ks i(1) ne by simp
      show "nl_s (norm_apply (Voice b n) ?n nl) \<le> ?n" using k0 i(2) d(2) by simp
      assume "?n \<le> 32767"
      with i ne have p: "\<forall>x \<in> set ks0. 0 \<le> x" "sum_list ks0 = int (nl_s nl)" "0 < hd ks0" by auto
      note l = sum_list_nonneg_last [OF ne p(1)]
      have w: "wrap16 (last ks0 + int n) = last ks0 + int n"
        using l p(2) i(2) d(2) \<open>?n \<le> 32767\<close> by (intro wrap16_id) linarith+
      show "\<forall>x \<in> set ks. 0 \<le> x" using p(1) l unfolding ks w by (auto dest: in_set_butlastD)
      show "sum_list ks = int (nl_s (norm_apply (Voice b n) ?n nl))"
        using p(2) k0 sum_list_replace_last [OF ne, of "last ks0 + int n"] unfolding ks w by simp
      show "0 < hd ks"
        using p(3) ne unfolding ks w by (cases ks0 rule: rev_cases) (auto simp: hd_append split: if_splits)
    qed
  qed
qed

text \<open>The contract of the step function of a normaliser with \<open>k\<close> bytes per source byte.\<close>

locale byte_normalizer =
  fixes next_act :: "bytes \<Rightarrow> bytes \<Rightarrow> norm_act \<times> nat" and k :: nat
  assumes next_ok: "next_act (c # rest) d = (act, j) \<Longrightarrow> j \<le> length rest \<and> act_ok k d act j"
begin

lemma loop_inv:
  "loc_inv k pos nl \<Longrightarrow> loc_inv k (pos + length rest) (norm_loop next_act rest pos nl)"
proof (induction rest arbitrary: pos nl rule: length_induct)
  case (1 rest)
  show ?case
  proof (cases rest)
    case Nil
    then show ?thesis using 1 by simp
  next
    case (Cons c cs)
    obtain act j where a: "next_act (c # cs) (nl_d nl) = (act, j)" by fastforce
    with next_ok have ok: "j \<le> length cs" "act_ok k (nl_d nl) act j" by auto
    let ?nl = "norm_apply act (pos + j + 1) nl"
    have "loc_inv k (pos + j + 1) ?nl" using apply_inv 1(2) ok(2) by blast
    moreover have "length (drop j cs) < length rest" using Cons by simp
    ultimately have "loc_inv k (pos + j + 1 + length (drop j cs)) (norm_loop next_act (drop j cs) (pos + j + 1) ?nl)"
      using 1(1) by blast
    then show ?thesis using Cons a ok(1) by (simp add: add.commute add.left_commute)
  qed
qed

text \<open>A successful normalisation stays within the arrays, and its checks locate the source.\<close>

lemma normalize_ok:
  assumes "normalize_with alloc k next_act src nstr = (sen_success, nstr')"
  shows "\<exists>d. ns_norm nstr' = Some (d @ [0]) \<and> ns_norm_blen nstr' = length d \<and>
      length d \<le> k * length src \<and> ns_length nstr' \<le> length src \<and>
      (\<forall>cs. ns_ctypes nstr' = Some cs \<longrightarrow> length cs = ns_length nstr' + 1) \<and>
      (\<forall>ks. ns_checks nstr' = Some ks \<longrightarrow> length ks = length d \<and>
         (length src \<le> 32767 \<longrightarrow> (\<forall>x \<in> set ks. 0 \<le> x) \<and> sum_list ks \<le> int (length src)))"
proof -
  let ?init = "\<lparr>nl_d = [], nl_cp = (if has_flag (ns_flags nstr) SEN_STR_WITH_CTYPES then Some [] else None),
    nl_ch = (if has_flag (ns_flags nstr) SEN_STR_WITH_CHECKS then Some [] else None), nl_s = 0, nl_len = 0\<rparr>"
  let ?nl = "norm_loop next_act src 0 ?init"
  have "loc_inv k 0 ?init" by (simp add: loc_inv_def)
  from loop_inv [OF this, of src] have inv: "loc_inv k (length src) ?nl" by simp
  have n: "nstr' = nstr\<lparr>ns_norm := Some (nl_d ?nl @ [0]), ns_norm_blen := length (nl_d ?nl),
      ns_ctypes := map_option (\<lambda>cs. cs @ [sen_str_null]) (nl_cp ?nl), ns_checks := nl_ch ?nl,
      ns_length := nl_len ?nl\<rparr>"
    using assms by (auto simp: normalize_with_def Let_def split: if_splits)
  show ?thesis unfolding n using inv by (auto simp: loc_inv_def)
qed

lemma normalize_head:
  assumes "normalize_with alloc k next_act src nstr = (sen_success, nstr')"
    and "ns_checks nstr' = Some ks" "length src \<le> 32767" "ks \<noteq> []"
  shows "0 < hd ks"
proof -
  let ?init = "\<lparr>nl_d = [], nl_cp = (if has_flag (ns_flags nstr) SEN_STR_WITH_CTYPES then Some [] else None),
    nl_ch = (if has_flag (ns_flags nstr) SEN_STR_WITH_CHECKS then Some [] else None), nl_s = 0, nl_len = 0\<rparr>"
  let ?nl = "norm_loop next_act src 0 ?init"
  have "loc_inv k 0 ?init" by (simp add: loc_inv_def)
  from loop_inv [OF this, of src] have inv: "loc_inv k (length src) ?nl" by simp
  have n: "nstr' = nstr\<lparr>ns_norm := Some (nl_d ?nl @ [0]), ns_norm_blen := length (nl_d ?nl),
      ns_ctypes := map_option (\<lambda>cs. cs @ [sen_str_null]) (nl_cp ?nl), ns_checks := nl_ch ?nl,
      ns_length := nl_len ?nl\<rparr>"
    using assms by (auto simp: normalize_with_def Let_def split: if_splits)
  show ?thesis using assms(2-4) inv unfolding n by (auto simp: loc_inv_def)
qed

end

lemma ascii_act_ok: "1 \<le> k \<Longrightarrow> act_ok k d (ascii_act rb c) 0"
  by (simp add: ascii_act_def act_ok_def Let_def)

lemma latin1_act_ok: "act_ok 1 d (latin1_act rb c) 0"
  by (simp add: latin1_act_def Let_def ascii_act_ok) (simp add: act_ok_def)

lemma koi8r_act_ok: "act_ok 1 d (koi8r_act rb c) 0"
  by (simp add: koi8r_act_def Let_def ascii_act_ok) (simp add: act_ok_def)

lemma combine_Nil [simp]: "combine [] l lo hi t = 0"
  by (simp add: combine_def)

lemma euc_multi_ok: "act_ok 2 d (euc_multi rb c1 c2 d) 1"
proof -
  have "act_ok 2 d (euc_kana c2 d) 1"
    by (auto simp: euc_kana_def act_ok_def Let_def hi_lo_def)
  moreover have "act_ok 2 d (euc_row_a rb c1 c2) 1"
    unfolding euc_row_a_def Let_def by (simp add: act_ok_def)
  ultimately show ?thesis by (simp add: euc_multi_def Let_def) (simp add: act_ok_def)
qed

lemma sjis_kana_ok: "act_ok 2 d (sjis_kana c1 d) 0"
  by (auto simp: sjis_kana_def act_ok_def Let_def hi_lo_def)

lemma sjis_multi_ok: "act_ok 2 d (sjis_multi rb c1 c2) 1"
  unfolding sjis_multi_def Let_def by (simp add: act_ok_def)

lemmas act_oks = ascii_act_ok latin1_act_ok [simplified] koi8r_act_ok [simplified]
  euc_multi_ok [simplified] sjis_kana_ok sjis_multi_ok [simplified]

interpretation none_norm: byte_normalizer "sb_next (none_act rb)" 1 for rb
  by unfold_locales (auto simp: sb_next_def none_act_def act_oks)

interpretation latin1_norm: byte_normalizer "sb_next (latin1_act rb)" 1 for rb
  by unfold_locales (auto simp: sb_next_def act_oks)

interpretation koi8r_norm: byte_normalizer "sb_next (koi8r_act rb)" 1 for rb
  by unfold_locales (auto simp: sb_next_def act_oks)

interpretation euc_norm: byte_normalizer "euc_next rb" 2 for rb
  by unfold_locales
    (auto simp: euc_next_def act_oks act_ok_def [of _ _ Skip] split: list.splits if_splits)

interpretation sjis_norm: byte_normalizer "sjis_next rb" 2 for rb
  by unfold_locales
    (auto simp: sjis_next_def act_oks act_ok_def [of _ _ Skip] split: list.splits if_splits)

section \<open>Normalising twice\<close>

lemma upper:
  assumes "0x41 \<le> unat c" "unat c < 0x5b"
  shows "ascii_act rb (c + 0x20) = Emit [c + 0x20] sen_str_alpha"
  by (rule byte_range [OF _ assms]) (simp add: upt_rec ascii_act_def)

lemma upper_latin1:
  assumes "0xc0 \<le> unat c" "unat c < 0xdf" "c \<noteq> 0xd7"
  shows "latin1_act rb (c + 0x20) = Emit [c + 0x20] sen_str_alpha"
  by (rule byte_range [OF _ assms(1,2), of "\<lambda>c. c \<noteq> 0xd7 \<longrightarrow> latin1_act rb (c + 0x20) = Emit [c + 0x20] sen_str_alpha", THEN mp])
    (simp_all add: upt_rec latin1_act_def assms)

lemma upper_koi8r:
  assumes "0xe0 \<le> unat c" "unat c < 0x100"
  shows "koi8r_act rb (c - 0x20) = Emit [c - 0x20] sen_str_alpha"
  by (rule byte_range [OF _ assms]) (simp add: upt_rec koi8r_act_def)

text \<open>Acting again on what a step of a single-byte normaliser wrote gives the same.\<close>

definition act_stable :: "(byte \<Rightarrow> norm_act) \<Rightarrow> bool" where
  "act_stable f \<longleftrightarrow> (\<forall>c. case f c of Emit bs t \<Rightarrow> (\<exists>b. bs = [b] \<and> f b = Emit bs t) | Voice _ _ \<Rightarrow> False | _ \<Rightarrow> True)"

lemma ascii_stable: "act_stable (ascii_act rb)"
proof -
  have "(\<exists>b. bs = [b] \<and> ascii_act rb b = Emit bs t)" if e: "ascii_act rb c = Emit bs t" for c bs t
  proof (cases "0x41 \<le> unat c \<and> unat c < 0x5b")
    case True
    then have "(0x41 \<le> c \<and> drop_bit 4 c = 4) \<or> (c \<le> 0x5a \<and> drop_bit 4 c = 5)"
      by (auto simp: nibble_range word_le_nat_alt)
    then have "ascii_act rb c = Emit [c + 0x20] sen_str_alpha"
      by (auto simp: ascii_act_def Let_def)
    then show ?thesis using e upper True by auto
  next
    case False
    then have "\<not> (0x41 \<le> c \<and> drop_bit 4 c = 4)" "\<not> (c \<le> 0x5a \<and> drop_bit 4 c = 5)"
      by (auto simp: nibble_range word_le_nat_alt)
    then have "bs = [c]" using e by (auto simp: ascii_act_def Let_def split: if_splits)
    then show ?thesis using e by simp
  qed
  moreover have "ascii_act rb c \<noteq> Voice b n" for c b n by (simp add: ascii_act_def Let_def)
  ultimately show ?thesis unfolding act_stable_def by (auto split: norm_act.splits)
qed

lemma latin1_stable: "act_stable (latin1_act rb)"
proof -
  have "(\<exists>b. bs = [b] \<and> latin1_act rb b = Emit bs t)" if e: "latin1_act rb c = Emit bs t" for c bs t
  proof (cases "unat c < 0x80")
    case True
    then have "latin1_act rb c = ascii_act rb c" by (simp add: latin1_act_def Let_def nibble_range)
    with e have "ascii_act rb c = Emit bs t" by simp
    moreover have "0x41 \<le> unat c \<and> unat c < 0x5b \<or> bs = [c]"
      using calculation by (auto simp: ascii_act_def Let_def nibble_range word_le_nat_alt split: if_splits)
    moreover have "latin1_act rb (c + 0x20) = Emit [c + 0x20] sen_str_alpha"
      if "0x41 \<le> unat c" "unat c < 0x5b"
      by (rule byte_range [OF _ that]) (simp add: upt_rec latin1_act_def ascii_act_def)
    moreover have "ascii_act rb c = Emit [c + 0x20] sen_str_alpha" if "0x41 \<le> unat c" "unat c < 0x5b"
      by (rule byte_range [OF _ that]) (simp add: upt_rec ascii_act_def)
    ultimately show ?thesis using e by auto
  next
    case False
    consider "0xc0 \<le> unat c" "unat c < 0xdf" "c \<noteq> 0xd7" | "c \<in> {0x8a, 0x8c, 0x8e, 0x9f}"
      | "bs = [c]"
      using e False unfolding latin1_act_def ascii_act_def Let_def nibble_range
      by (auto simp: word_le_nat_alt word_unat_eq_iff [of c] split: if_splits)
    then show ?thesis
    proof cases
      case 1
      have "latin1_act rb c = Emit [c + 0x20] sen_str_alpha"
        using 1 unfolding latin1_act_def Let_def nibble_range by (auto simp: word_unat_eq_iff [of c])
      with 1 e upper_latin1 show ?thesis by auto
    next
      case 2
      then show ?thesis using e by (auto simp: latin1_act_def)
    next
      case 3
      then show ?thesis using e by simp
    qed
  qed
  moreover have "latin1_act rb c \<noteq> Voice b n" for c b n
    by (simp add: latin1_act_def ascii_act_def Let_def)
  ultimately show ?thesis unfolding act_stable_def by (auto split: norm_act.splits)
qed

lemma koi8r_stable: "act_stable (koi8r_act rb)"
proof -
  have "(\<exists>b. bs = [b] \<and> koi8r_act rb b = Emit bs t)" if e: "koi8r_act rb c = Emit bs t" for c bs t
  proof (cases "unat c < 0x80")
    case True
    then have "koi8r_act rb c = ascii_act rb c" by (simp add: koi8r_act_def Let_def nibble_range)
    with e have "ascii_act rb c = Emit bs t" by simp
    moreover have "0x41 \<le> unat c \<and> unat c < 0x5b \<or> bs = [c]"
      using calculation by (auto simp: ascii_act_def Let_def nibble_range word_le_nat_alt split: if_splits)
    moreover have "koi8r_act rb (c + 0x20) = Emit [c + 0x20] sen_str_alpha"
      if "0x41 \<le> unat c" "unat c < 0x5b"
      by (rule byte_range [OF _ that]) (simp add: upt_rec koi8r_act_def ascii_act_def)
    moreover have "ascii_act rb c = Emit [c + 0x20] sen_str_alpha" if "0x41 \<le> unat c" "unat c < 0x5b"
      by (rule byte_range [OF _ that]) (simp add: upt_rec ascii_act_def)
    ultimately show ?thesis using e by auto
  next
    case False
    consider "0xe0 \<le> unat c" | "c = 0xb3" | "bs = [c]"
      using e False
      by (auto simp: koi8r_act_def ascii_act_def Let_def nibble_range word_le_nat_alt split: if_splits)
    then show ?thesis
    proof cases
      case 1
      have "koi8r_act rb c = Emit [c - 0x20] sen_str_alpha"
        using 1 by (auto simp: koi8r_act_def Let_def nibble_range)
      with 1 e upper_koi8r show ?thesis by auto
    next
      case 2
      then show ?thesis using e by (auto simp: koi8r_act_def)
    next
      case 3
      then show ?thesis using e by simp
    qed
  qed
  moreover have "koi8r_act rb c \<noteq> Voice b n" for c b n
    by (simp add: koi8r_act_def ascii_act_def Let_def)
  ultimately show ?thesis unfolding act_stable_def by (auto split: norm_act.splits)
qed

text \<open>
  The contract of the character function of a single-byte normaliser: its output is a fixed
  point, and it never writes a NUL.
\<close>

locale sb_normalizer =
  fixes f :: "byte \<Rightarrow> norm_act"
  assumes stable: "act_stable f"
    and no_nul: "f c = Emit bs t \<Longrightarrow> 0 \<notin> set bs"
begin

definition out :: "byte \<Rightarrow> bytes" where
  "out c = (case f c of Emit bs _ \<Rightarrow> bs | _ \<Rightarrow> [])"

lemma out_stable: "concat (map out (out c)) = out c" and out_no_nul: "0 \<notin> set (out c)"
proof -
  have "case f c of Emit bs t \<Rightarrow> (\<exists>b. bs = [b] \<and> f b = Emit bs t) | Voice _ _ \<Rightarrow> False | _ \<Rightarrow> True"
    using stable by (simp add: act_stable_def)
  then show "concat (map out (out c)) = out c" "0 \<notin> set (out c)"
    by (auto simp: out_def no_nul split: norm_act.splits)
qed

lemma sb_loop_d: "nl_d (norm_loop (sb_next f) rest s nl) = nl_d nl @ concat (map out rest)"
proof (induction rest arbitrary: s nl)
  case (Cons c rest)
  have "nl_d (norm_apply (f c) s' nl) = nl_d nl @ out c" for s'
  proof (cases "f c")
    case (Voice b n)
    have "case f c of Emit bs t \<Rightarrow> (\<exists>b. bs = [b] \<and> f b = Emit bs t) | Voice _ _ \<Rightarrow> False | _ \<Rightarrow> True"
      using stable by (simp add: act_stable_def)
    with Voice show ?thesis by simp
  qed (simp_all add: out_def)
  moreover have "sb_next f (c # rest) d = (f c, 0)" for d by (simp add: sb_next_def)
  ultimately show ?case by (simp add: Cons.IH)
qed simp

lemma norm_out:
  "normalize_with alloc 1 (sb_next f) src nstr = (sen_success, nstr') \<Longrightarrow>
     ns_norm nstr' = Some (concat (map out src) @ [0]) \<and> ns_norm_blen nstr' = length (concat (map out src))"
  by (auto simp: normalize_with_def Let_def sb_loop_d split: if_splits)

lemma norm_twice:
  assumes "normalize_with alloc 1 (sb_next f) src nstr = (sen_success, nstr1)"
    and "normalize_with alloc' 1 (sb_next f) (concat (map out src)) nstr' = (sen_success, nstr2)"
  shows "ns_norm nstr2 = ns_norm nstr1"
proof -
  have "concat (map out (concat (map out src))) = concat (map out src)"
    by (induction src) (simp_all add: out_stable)
  then show ?thesis using norm_out [OF assms(1)] norm_out [OF assms(2)] by simp
qed

lemma norm_no_nul: "0 \<notin> set (concat (map out src))"
  using out_no_nul by auto

end

lemma ascii_no_nul: "ascii_act rb c = Emit bs t \<Longrightarrow> 0 \<notin> set bs"
proof -
  assume e: "ascii_act rb c = Emit bs t"
  then have "ascii_act rb 0 \<noteq> ascii_act rb c" by (auto simp: ascii_act_def)
  moreover obtain b where "bs = [b]" "ascii_act rb b = Emit bs t"
    using ascii_stable [of rb] e unfolding act_stable_def by (force split: norm_act.splits)
  ultimately show ?thesis using e by auto
qed

lemma latin1_no_nul: "latin1_act rb c = Emit bs t \<Longrightarrow> 0 \<notin> set bs"
proof -
  assume e: "latin1_act rb c = Emit bs t"
  then have "latin1_act rb 0 \<noteq> latin1_act rb c" by (auto simp: latin1_act_def ascii_act_def)
  moreover obtain b where "bs = [b]" "latin1_act rb b = Emit bs t"
    using latin1_stable [of rb] e unfolding act_stable_def by (force split: norm_act.splits)
  ultimately show ?thesis using e by auto
qed

lemma koi8r_no_nul: "koi8r_act rb c = Emit bs t \<Longrightarrow> 0 \<notin> set bs"
proof -
  assume e: "koi8r_act rb c = Emit bs t"
  then have "koi8r_act rb 0 \<noteq> koi8r_act rb c" by (auto simp: koi8r_act_def ascii_act_def)
  moreover obtain b where "bs = [b]" "koi8r_act rb b = Emit bs t"
    using koi8r_stable [of rb] e unfolding act_stable_def by (force split: norm_act.splits)
  ultimately show ?thesis using e by auto
qed

interpretation none_sb: sb_normalizer "none_act rb" for rb
proof unfold_locales
  have "none_act rb = ascii_act rb" by (simp add: none_act_def fun_eq_iff)
  then show "act_stable (none_act rb)" using ascii_stable by simp
  show "none_act rb c = Emit bs t \<Longrightarrow> 0 \<notin> set bs" for c bs t
    using ascii_no_nul by (simp add: none_act_def)
qed

interpretation latin1_sb: sb_normalizer "latin1_act rb" for rb
  by unfold_locales (use latin1_stable latin1_no_nul in auto)

interpretation koi8r_sb: sb_normalizer "koi8r_act rb" for rb
  by unfold_locales (use koi8r_stable koi8r_no_nul in auto)

lemma strlen_no_nul: "0 \<notin> set xs \<Longrightarrow> takeWhile (\<lambda>c. c \<noteq> 0) (xs @ 0 # ys) = xs"
  by (induction xs) auto

definition new_nstr :: "bytes \<Rightarrow> nat \<Rightarrow> sen_encoding \<Rightarrow> u32 \<Rightarrow> sen_nstr" where
  "new_nstr str str_len encoding flags =
     \<lparr>ns_orig = str, ns_orig_blen = str_len, ns_norm = None, ns_norm_blen = 0, ns_ctypes = None,
      ns_checks = None, ns_length = 0, ns_flags = flags, ns_encoding = encoding\<rparr>"

section \<open>Examples\<close>

lemmas flag_defs = has_flag_def removeblank_def SEN_STR_WITH_CHECKS_def SEN_STR_WITH_CTYPES_def
  SEN_STR_REMOVEBLANK_def

text \<open>A half-width ka with a sound mark and a capital letter, in EUC-JP, with all the arrays.\<close>

lemma euc_example_loop:
  "norm_loop (euc_next False) [0x8e, 0xb6, 0x8e, 0xde, 0x41] 0
     \<lparr>nl_d = [], nl_cp = Some [], nl_ch = Some [], nl_s = 0, nl_len = 0\<rparr> =
   \<lparr>nl_d = [0xa5, 0xac, 0x61], nl_cp = Some [5, 1], nl_ch = Some [2, 2, 1], nl_s = 5, nl_len = 2\<rparr>"
  by (simp add: euc_next_def euc_multi_def Let_def euc_kana_def euc_hankana_def hi_lo_def
      combine_def euc_dakuten_def ascii_act_def sen_str_katakana_def sen_str_alpha_def wrap16_id)

lemma euc_example:
  "\<exists>nstr'. normalize_euc (\<lambda>_. True) (new_nstr [0x8e, 0xb6, 0x8e, 0xde, 0x41] 5 sen_enc_euc_jp 6) =
     (sen_success, nstr') \<and> ns_norm nstr' = Some [0xa5, 0xac, 0x61, 0] \<and>
     ns_ctypes nstr' = Some [5, 1, 0] \<and> ns_checks nstr' = Some [2, 2, 1]"
  by (simp add: normalize_euc_def normalize_with_def new_nstr_def flag_defs Let_def
      euc_example_loop sen_str_null_def del: norm_loop.simps)

lemma latin1_example_loop:
  "norm_loop (sb_next (latin1_act True)) [0x41, 0xc0, 0x20] 0
     \<lparr>nl_d = [], nl_cp = None, nl_ch = None, nl_s = 0, nl_len = 0\<rparr> =
   \<lparr>nl_d = [0x61, 0xe0], nl_cp = None, nl_ch = None, nl_s = 0, nl_len = 2\<rparr>"
  "norm_loop (sb_next (latin1_act True)) [0x61, 0xe0] 0
     \<lparr>nl_d = [], nl_cp = None, nl_ch = None, nl_s = 0, nl_len = 0\<rparr> =
   \<lparr>nl_d = [0x61, 0xe0], nl_cp = None, nl_ch = None, nl_s = 0, nl_len = 2\<rparr>"
  by (simp_all add: sb_next_def latin1_act_def ascii_act_def mark_blank_def)

lemma latin1_example:
  "normalize_latin1 (\<lambda>_. True) (new_nstr [0x41, 0xc0, 0x20] n sen_enc_latin1 1) =
     (sen_success, (new_nstr [0x41, 0xc0, 0x20] n sen_enc_latin1 1)
        \<lparr>ns_norm := Some [0x61, 0xe0, 0], ns_norm_blen := 2, ns_length := 2\<rparr>)"
  "normalize_latin1 (\<lambda>_. True) (new_nstr [0x61, 0xe0, 0] n sen_enc_latin1 1) =
     (sen_success, (new_nstr [0x61, 0xe0, 0] n sen_enc_latin1 1)
        \<lparr>ns_norm := Some [0x61, 0xe0, 0], ns_norm_blen := 2, ns_length := 2\<rparr>)"
  by (simp_all add: normalize_latin1_def normalize_with_def new_nstr_def flag_defs Let_def
      strlen_src_def latin1_example_loop del: norm_loop.simps)

section \<open>Correctness\<close>

text \<open>
  C15: a normaliser that succeeds has stayed within its arrays: the text fits the one (for
  EUC-JP and Shift_JIS two) bytes per source byte reserved for it, there are as many checks as
  text bytes, and the types with their terminator fit the size of the source plus one.
\<close>

theorem normalize_bounds:
  assumes "f alloc nstr = (sen_success, nstr')"
    and "f = normalize_none \<and> k = 1 \<and> src = take (ns_orig_blen nstr) (ns_orig nstr) \<or>
         f = normalize_latin1 \<and> k = 1 \<and> src = strlen_src nstr \<or>
         f = normalize_koi8r \<and> k = 1 \<and> src = strlen_src nstr \<or>
         f = normalize_euc \<and> k = 2 \<and> src = take (ns_orig_blen nstr) (ns_orig nstr) \<or>
         f = normalize_sjis \<and> k = 2 \<and> src = take (ns_orig_blen nstr) (ns_orig nstr)"
  shows "\<exists>d. ns_norm nstr' = Some (d @ [0]) \<and> ns_norm_blen nstr' = length d \<and>
      length d \<le> k * length src \<and> ns_length nstr' \<le> length src \<and>
      (\<forall>cs. ns_ctypes nstr' = Some cs \<longrightarrow> length cs = ns_length nstr' + 1) \<and>
      (\<forall>ks. ns_checks nstr' = Some ks \<longrightarrow> length ks = length d \<and>
         (length src \<le> 32767 \<longrightarrow> (\<forall>x \<in> set ks. 0 \<le> x) \<and> sum_list ks \<le> int (length src)))"
  using assms(2)
proof (elim disjE conjE)
  assume "f = normalize_none" "k = 1" "src = take (ns_orig_blen nstr) (ns_orig nstr)"
  with assms(1) show ?thesis unfolding normalize_none_def by (simp only: none_norm.normalize_ok)
next
  assume "f = normalize_latin1" "k = 1" "src = strlen_src nstr"
  with assms(1) show ?thesis unfolding normalize_latin1_def by (simp only: latin1_norm.normalize_ok)
next
  assume "f = normalize_koi8r" "k = 1" "src = strlen_src nstr"
  with assms(1) show ?thesis unfolding normalize_koi8r_def by (simp only: koi8r_norm.normalize_ok)
next
  assume "f = normalize_euc" "k = 2" "src = take (ns_orig_blen nstr) (ns_orig nstr)"
  with assms(1) show ?thesis unfolding normalize_euc_def by (simp only: euc_norm.normalize_ok)
next
  assume "f = normalize_sjis" "k = 2" "src = take (ns_orig_blen nstr) (ns_orig nstr)"
  with assms(1) show ?thesis unfolding normalize_sjis_def by (simp only: sjis_norm.normalize_ok)
qed

theorem normalize_bounds_witness:
  "\<exists>d. ns_norm (snd (normalize_euc (\<lambda>_. True) (new_nstr [0x8e, 0xb6, 0x8e, 0xde, 0x41] 5 sen_enc_euc_jp 6)))
         = Some (d @ [0]) \<and> length d \<le> 2 * 5"
proof -
  let ?n = "new_nstr [0x8e, 0xb6, 0x8e, 0xde, 0x41] 5 sen_enc_euc_jp 6"
  obtain nstr' where e: "normalize_euc (\<lambda>_. True) ?n = (sen_success, nstr')"
    using euc_example by blast
  have s: "take (ns_orig_blen ?n) (ns_orig ?n) = [0x8e, 0xb6, 0x8e, 0xde, 0x41]"
    by (simp add: new_nstr_def)
  from normalize_bounds [where f = normalize_euc and k = 2, OF e, of "[0x8e, 0xb6, 0x8e, 0xde, 0x41]"] s e
  show ?thesis by auto
qed

text \<open>
  C29: normalising is idempotent for the single-byte encodings: a normalised string, given
  again to the same normaliser with the same flags, comes out unchanged.
\<close>

theorem normalize_idempotent:
  assumes "f = normalize_none \<or> f = normalize_latin1 \<or> f = normalize_koi8r"
    and "f alloc nstr = (sen_success, nstr1)"
    and "ns_norm nstr1 = Some txt1"
    and "f alloc' (nstr\<lparr>ns_orig := txt1, ns_orig_blen := ns_norm_blen nstr1\<rparr>) = (sen_success, nstr2)"
  shows "ns_norm nstr2 = Some txt1"
proof -
  let ?n = "nstr\<lparr>ns_orig := txt1, ns_orig_blen := ns_norm_blen nstr1\<rparr>"
  have rb: "removeblank ?n = removeblank nstr" by (simp add: removeblank_def)
  from assms(1) show ?thesis
  proof (elim disjE)
    assume f: "f = normalize_none"
    note n1 = assms(2) [unfolded f normalize_none_def]
    have "take (ns_orig_blen ?n) (ns_orig ?n) =
        concat (map (none_sb.out (removeblank nstr)) (take (ns_orig_blen nstr) (ns_orig nstr)))"
      using none_sb.norm_out [OF n1] assms(3) by simp
    then show ?thesis
      using none_sb.norm_twice [OF n1] assms(3,4) unfolding f normalize_none_def rb by simp
  next
    assume f: "f = normalize_latin1"
    note n1 = assms(2) [unfolded f normalize_latin1_def]
    have "strlen_src ?n = concat (map (latin1_sb.out (removeblank nstr)) (strlen_src nstr))"
      using latin1_sb.norm_out [OF n1] assms(3) strlen_no_nul [OF latin1_sb.norm_no_nul, of _ _ "[]"]
      by (simp add: strlen_src_def)
    then show ?thesis
      using latin1_sb.norm_twice [OF n1] assms(3,4) unfolding f normalize_latin1_def rb by simp
  next
    assume f: "f = normalize_koi8r"
    note n1 = assms(2) [unfolded f normalize_koi8r_def]
    have "strlen_src ?n = concat (map (koi8r_sb.out (removeblank nstr)) (strlen_src nstr))"
      using koi8r_sb.norm_out [OF n1] assms(3) strlen_no_nul [OF koi8r_sb.norm_no_nul, of _ _ "[]"]
      by (simp add: strlen_src_def)
    then show ?thesis
      using koi8r_sb.norm_twice [OF n1] assms(3,4) unfolding f normalize_koi8r_def rb by simp
  qed
qed

theorem normalize_idempotent_witness:
  "ns_norm (snd (normalize_latin1 (\<lambda>_. True) (new_nstr [0x61, 0xe0, 0] 2 sen_enc_latin1 1)))
     = Some [0x61, 0xe0, 0]"
proof -
  have e: "(new_nstr [0x41, 0xc0, 0x20] 3 sen_enc_latin1 1)\<lparr>ns_orig := [0x61, 0xe0, 0], ns_orig_blen := 2\<rparr> =
      new_nstr [0x61, 0xe0, 0] 2 sen_enc_latin1 1"
    by (simp add: new_nstr_def)
  obtain nstr2 where n2: "normalize_latin1 (\<lambda>_. True) (new_nstr [0x61, 0xe0, 0] 2 sen_enc_latin1 1) =
      (sen_success, nstr2)"
    using latin1_example(2) by blast
  have "ns_norm nstr2 = Some [0x61, 0xe0, 0]"
    using normalize_idempotent [where f = normalize_latin1 and alloc' = "\<lambda>_. True",
        OF _ latin1_example(1) [of 3], of "[0x61, 0xe0, 0]" nstr2] e n2
    by simp
  with n2 show ?thesis by simp
qed

text \<open>
  \<open>normalize_latin1\<close> and \<open>normalize_koi8r\<close> do not look at the length they are given: the
  result on a prefix of a longer string is the normalisation of the whole string.
\<close>

theorem latin1_ignores_length:
  assumes "f = normalize_latin1 \<or> f = normalize_koi8r"
  shows "ns_norm (snd (f alloc (nstr\<lparr>ns_orig_blen := n\<rparr>))) = ns_norm (snd (f alloc nstr)) \<and>
         ns_norm_blen (snd (f alloc (nstr\<lparr>ns_orig_blen := n\<rparr>))) = ns_norm_blen (snd (f alloc nstr))"
proof -
  have "strlen_src (nstr\<lparr>ns_orig_blen := n\<rparr>) = strlen_src nstr"
    "removeblank (nstr\<lparr>ns_orig_blen := n\<rparr>) = removeblank nstr"
    by (simp_all add: strlen_src_def removeblank_def)
  then show ?thesis using assms
    by (auto simp: normalize_latin1_def normalize_koi8r_def normalize_with_def Let_def)
qed

theorem latin1_ignores_length_witness:
  "ns_norm (snd (normalize_latin1 (\<lambda>_. True) (new_nstr [0x41, 0xc0, 0x20] 1 sen_enc_latin1 1)))
     = Some [0x61, 0xe0, 0]"
proof -
  have "(new_nstr [0x41, 0xc0, 0x20] 3 sen_enc_latin1 1)\<lparr>ns_orig_blen := 1\<rparr> =
      new_nstr [0x41, 0xc0, 0x20] 1 sen_enc_latin1 1"
    by (simp add: new_nstr_def)
  with latin1_ignores_length [where f = normalize_latin1 and alloc = "\<lambda>_. True" and n = 1
      and nstr = "new_nstr [0x41, 0xc0, 0x20] 3 sen_enc_latin1 1"]
  show ?thesis by (simp add: latin1_example(1))
qed

end
