(* ===== verification/Nstr_Utf8.thy ===== *)
theory Nstr_Utf8
  imports Nstr
begin

text \<open>
  Normalisation of UTF-8 (lib/str.c): \<open>normalize_utf8\<close>, with the arrays of types and checks, and
  \<open>fast_normalize_utf8\<close>, which only writes the text. The NFKC tables (\<open>sen_nfkc_ctype\<close>,
  \<open>sen_nfkc_map1\<close>, \<open>sen_nfkc_map2\<close>) are the generated file lib/nfkc.c and a parameter here. The
  arrays are memory with a capacity: a store outside of it is the result \<open>U8_fault\<close>. The
  reference is \<open>nfkc_chars\<close>, a fold over the characters of the source; both normalisers are
  shown to implement it.
\<close>

section \<open>The tables\<close>

text \<open>
  The tables read the first character at a pointer into a string: an argument is the memory
  from that pointer on, and a result is the string before its terminator.
\<close>

record nfkc =
  nf_ctype :: "bytes \<Rightarrow> byte"
  nf_map1 :: "bytes \<Rightarrow> bytes option"
  nf_map2 :: "bytes \<Rightarrow> bytes \<Rightarrow> bytes option"

section \<open>Stores into an array\<close>

text \<open>
  \<open>put cap mem off xs\<close> stores \<open>xs\<close> at \<open>off\<close>: \<open>mem\<close> is the part of the array that has been filled
  in, \<open>cap\<close> its size; a store outside of them is \<open>None\<close>.
\<close>

definition put :: "nat \<Rightarrow> 'a list \<Rightarrow> nat \<Rightarrow> 'a list \<Rightarrow> 'a list option" where
  "put cap mem off xs =
     (if off \<le> length mem \<and> off + length xs \<le> cap
      then Some (take off mem @ xs @ drop (off + length xs) mem) else None)"

definition put_opt :: "nat \<Rightarrow> 'a list option \<Rightarrow> nat \<Rightarrow> 'a list \<Rightarrow> 'a list option option" where
  "put_opt cap arr off xs =
     (case arr of None \<Rightarrow> Some None | Some mem \<Rightarrow> map_option Some (put cap mem off xs))"

section \<open>The checking normaliser\<close>

text \<open>
  The local variables: \<open>ul_d\<close> and \<open>ul_len\<close> are the offsets of \<open>d\<close> in \<open>norm\<close> and of \<open>cp\<close> in
  \<open>ctypes\<close> (which moves together with \<open>length\<close>); \<open>ch\<close> is at the same offset in \<open>checks\<close> as \<open>d\<close>
  in \<open>norm\<close>. \<open>ul_dp\<close> is \<open>d_\<close> (\<open>None\<close> for NULL), \<open>ul_s\<close> is \<open>s_\<close> and \<open>ul_sp\<close> is \<open>s__\<close> (\<open>None\<close> while
  it has no value).
\<close>

record u8_loc =
  ul_norm :: bytes
  ul_d :: nat
  ul_dp :: "nat option"
  ul_ds :: nat
  ul_cp :: "bytes option"
  ul_ch :: "int list option"
  ul_len :: nat
  ul_s :: nat
  ul_sp :: "nat option"

datatype u8_result =
    U8_fault
  | U8_exhausted
  | U8_ok u8_loc

text \<open>Making room for \<open>lp\<close> more bytes; a block of checks has two bytes per element.\<close>

definition u8_reserve :: "alloc \<Rightarrow> nat \<Rightarrow> u8_loc \<Rightarrow> u8_result" where
  "u8_reserve alloc lp ul =
     (if ul_ds ul \<le> ul_d ul + lp then
        (let ds = ul_ds ul + (ul_ds ul div 2 + lp)
         in if \<not> alloc (ds + 1) then U8_exhausted
            else if ul_ch ul \<noteq> None \<and> \<not> alloc (ds * 2 + 1) then U8_exhausted
            else if ul_cp ul \<noteq> None \<and> \<not> alloc (ds + 1) then U8_exhausted
            else U8_ok (ul\<lparr>ul_ds := ds\<rparr>))
      else U8_ok ul)"

text \<open>Writing the character of \<open>lp\<close> bytes at \<open>p\<close>; \<open>next_s\<close> is \<open>s + ls\<close>.\<close>

definition u8_check :: "nat \<Rightarrow> u8_loc \<Rightarrow> int" where
  "u8_check next_s ul =
     (if ul_s ul = next_s then - 1 else wrap16 (int next_s - int (ul_s ul)))"

definition u8_emit :: "nfkc \<Rightarrow> bytes \<Rightarrow> nat \<Rightarrow> nat \<Rightarrow> u8_loc \<Rightarrow> u8_result" where
  "u8_emit nf p lp next_s ul =
     (if length p < lp then U8_fault
      else
        (case (put (ul_ds ul + 1) (ul_norm ul) (ul_d ul) (take lp p),
               put_opt (ul_ds ul + 1) (ul_cp ul) (ul_len ul) [nf_ctype nf p],
               put_opt (ul_ds ul) (ul_ch ul) (ul_d ul)
                 (u8_check next_s ul # replicate (lp - 1) 0)) of
           (Some norm, Some cp, Some ch) \<Rightarrow>
             U8_ok (ul\<lparr>ul_norm := norm, ul_dp := Some (ul_d ul), ul_d := ul_d ul + lp,
                      ul_len := Suc (ul_len ul), ul_cp := cp, ul_ch := ch,
                      ul_sp := (if ch = None \<or> ul_s ul = next_s then ul_sp ul else Some (ul_s ul)),
                      ul_s := (if ch = None then ul_s ul else next_s)\<rparr>)
         | _ \<Rightarrow> U8_fault))"

text \<open>A dropped character: the one before it is followed by a blank.\<close>

definition u8_blank :: "u8_loc \<Rightarrow> u8_loc" where
  "u8_blank ul =
     (case ul_cp ul of
        None \<Rightarrow> ul
      | Some cs \<Rightarrow>
          (if 0 < ul_len ul
           then ul\<lparr>ul_cp := Some (cs[ul_len ul - 1 := cs ! (ul_len ul - 1) OR SEN_NSTR_BLANK])\<rparr>
           else ul))"

definition u8_dropped :: "bool \<Rightarrow> byte \<Rightarrow> bool" where
  "u8_dropped removeblankp c \<longleftrightarrow> c = 0x20 \<and> removeblankp \<or> c < 0x20"

text \<open>The inner loop over the \<open>n\<close> bytes from \<open>p\<close> up to \<open>pe\<close>.\<close>

function u8_inner :: "alloc \<Rightarrow> nfkc \<Rightarrow> bool \<Rightarrow> nat \<Rightarrow> bytes \<Rightarrow> nat \<Rightarrow> u8_loc \<Rightarrow> u8_result" where
  "u8_inner alloc nf removeblankp next_s p n ul =
     (let lp = sen_str_charlen_utf8 (take n p)
      in if lp = 0 then U8_ok ul
         else if u8_dropped removeblankp (hd p) then
           u8_inner alloc nf removeblankp next_s (drop lp p) (n - lp) (u8_blank ul)
         else
           (case u8_reserve alloc lp ul of
              U8_ok ul1 \<Rightarrow>
                (case u8_emit nf p lp next_s ul1 of
                   U8_ok ul2 \<Rightarrow> u8_inner alloc nf removeblankp next_s (drop lp p) (n - lp) ul2
                 | r \<Rightarrow> r)
            | r \<Rightarrow> r))"
  by pat_completeness auto

lemma charlen_utf8_take_le: "sen_str_charlen_utf8 (take n p) \<le> n"
  using charlen_utf8_le [of "take n p"] by simp

lemma charlen_utf8_take_pos: "0 < sen_str_charlen_utf8 (take n p) \<Longrightarrow> 0 < n"
  by (cases n) auto

termination u8_inner
  by (relation "measure (\<lambda>(a, f, r, s, p, n, ul). n)") (auto intro!: diff_less dest: charlen_utf8_take_pos)

declare u8_inner.simps [simp del]

text \<open>
  Composition with the character before: the last character written is taken back. \<open>cp\<close> would
  leave its array (and \<open>length\<close> wrap around) if nothing had been written.
\<close>

definition u8_compose :: "nfkc \<Rightarrow> bytes \<Rightarrow> nat \<Rightarrow> u8_loc \<Rightarrow> (bytes \<times> nat \<times> u8_loc) option" where
  "u8_compose nf p n ul =
     (case ul_dp ul of
        None \<Rightarrow> Some (p, n, ul)
      | Some dp \<Rightarrow>
          (case nf_map2 nf (drop dp (ul_norm ul)) p of
             None \<Rightarrow> Some (p, n, ul)
           | Some m \<Rightarrow>
               (if ul_len ul = 0 \<or> ul_ch ul \<noteq> None \<and> ul_sp ul = None then None
                else Some (m @ [0], length m,
                  ul\<lparr>ul_d := dp, ul_len := ul_len ul - 1,
                     ul_s := (if ul_ch ul = None then ul_s ul else the (ul_sp ul))\<rparr>))))"

definition u8_mapped :: "nfkc \<Rightarrow> bytes \<Rightarrow> nat \<Rightarrow> bytes \<times> nat" where
  "u8_mapped nf s ls =
     (case nf_map1 nf s of Some m \<Rightarrow> (m @ [0], length m) | None \<Rightarrow> (s, ls))"

definition u8_step :: "alloc \<Rightarrow> nfkc \<Rightarrow> bool \<Rightarrow> bytes \<Rightarrow> nat \<Rightarrow> nat \<Rightarrow> u8_loc \<Rightarrow> u8_result" where
  "u8_step alloc nf removeblankp orig s ls ul =
     (case u8_mapped nf (drop s orig) ls of
        (p, n) \<Rightarrow>
          (case u8_compose nf p n ul of
             None \<Rightarrow> U8_fault
           | Some (p', n', ul') \<Rightarrow> u8_inner alloc nf removeblankp (s + ls) p' n' ul'))"

function u8_loop :: "alloc \<Rightarrow> nfkc \<Rightarrow> bool \<Rightarrow> bytes \<Rightarrow> nat \<Rightarrow> nat \<Rightarrow> u8_loc \<Rightarrow> u8_result" where
  "u8_loop alloc nf removeblankp orig e s ul =
     (let ls = sen_str_charlen_utf8 (take (e - s) (drop s orig))
      in if ls = 0 then U8_ok ul
         else
           (case u8_step alloc nf removeblankp orig s ls ul of
              U8_ok ul' \<Rightarrow> u8_loop alloc nf removeblankp orig e (s + ls) ul'
            | r \<Rightarrow> r))"
  by pat_completeness auto
termination
proof (relation "measure (\<lambda>(a, f, r, orig, e, s, ul). e - s)")
  fix orig :: bytes and e s ls :: nat and ul' and a :: alloc and f :: nfkc and r :: bool and ul :: u8_loc
  assume "ls = sen_str_charlen_utf8 (take (e - s) (drop s orig))" "ls \<noteq> 0"
  then show "((a, f, r, orig, e, s + ls, ul'), (a, f, r, orig, e, s, ul))
      \<in> measure (\<lambda>(a, f, r, orig, e, s, ul). e - s)"
    using charlen_utf8_take_le [of "e - s" "drop s orig"] by simp
qed simp

declare u8_loop.simps [simp del]

text \<open>
  The whole function. On every failure the arrays it has allocated are freed and their
  pointers reset.
\<close>

definition u8_failed :: "sen_nstr \<Rightarrow> sen_rc \<times> sen_nstr" where
  "u8_failed nstr = (sen_memory_exhausted, nstr\<lparr>ns_norm := None, ns_ctypes := None, ns_checks := None\<rparr>)"

definition u8_finish :: "sen_nstr \<Rightarrow> u8_loc \<Rightarrow> (sen_rc \<times> sen_nstr) option" where
  "u8_finish nstr ul =
     (case (put_opt (ul_ds ul + 1) (ul_cp ul) (ul_len ul) [sen_str_null],
            put (ul_ds ul + 1) (ul_norm ul) (ul_d ul) [0]) of
        (Some cp, Some norm) \<Rightarrow>
          Some (sen_success,
            nstr\<lparr>ns_norm := Some (take (ul_d ul + 1) norm), ns_norm_blen := ul_d ul,
                 ns_ctypes := map_option (take (ul_len ul + 1)) cp,
                 ns_checks := map_option (take (ul_d ul)) (ul_ch ul),
                 ns_length := ul_len ul\<rparr>)
      | _ \<Rightarrow> None)"

definition normalize_utf8 :: "alloc \<Rightarrow> nfkc \<Rightarrow> sen_nstr \<Rightarrow> (sen_rc \<times> sen_nstr) option" where
  "normalize_utf8 alloc nf nstr =
     (let ds = ns_orig_blen nstr * 3;
          with_checks = has_flag (ns_flags nstr) SEN_STR_WITH_CHECKS;
          with_ctypes = has_flag (ns_flags nstr) SEN_STR_WITH_CTYPES
      in if \<not> alloc (ds + 1) then Some (sen_memory_exhausted, nstr\<lparr>ns_norm := None\<rparr>)
         else if with_checks \<and> \<not> alloc (ds * 2 + 1) then
           Some (sen_memory_exhausted, nstr\<lparr>ns_norm := None, ns_checks := None\<rparr>)
         else if with_ctypes \<and> \<not> alloc (ds + 1) then Some (u8_failed nstr)
         else
           (case u8_loop alloc nf (removeblank nstr) (ns_orig nstr) (ns_orig_blen nstr) 0
                   \<lparr>ul_norm = [], ul_d = 0, ul_dp = None, ul_ds = ds,
                    ul_cp = (if with_ctypes then Some [] else None),
                    ul_ch = (if with_checks then Some [] else None),
                    ul_len = 0, ul_s = 0, ul_sp = None\<rparr> of
              U8_fault \<Rightarrow> None
            | U8_exhausted \<Rightarrow> Some (u8_failed nstr)
            | U8_ok ul \<Rightarrow> u8_finish nstr ul))"

section \<open>The fast normaliser\<close>

record fu_loc =
  fu_norm :: bytes
  fu_d :: nat
  fu_dp :: "nat option"
  fu_ds :: nat

datatype fu_result =
    FU_fault
  | FU_exhausted
  | FU_ok fu_loc

text \<open>Making room and copying \<open>lp\<close> bytes, on both paths of the loop.\<close>

definition fu_emit :: "alloc \<Rightarrow> bytes \<Rightarrow> nat \<Rightarrow> fu_loc \<Rightarrow> fu_result" where
  "fu_emit alloc p lp fu =
     (let grow = fu_ds fu \<le> fu_d fu + lp;
          ds = (if grow then fu_ds fu + (fu_ds fu div 2 + lp) else fu_ds fu)
      in if grow \<and> \<not> alloc (ds + 1) then FU_exhausted
         else if length p < lp then FU_fault
         else
           (case put (ds + 1) (fu_norm fu) (fu_d fu) (take lp p) of
              None \<Rightarrow> FU_fault
            | Some norm \<Rightarrow>
                FU_ok \<lparr>fu_norm = norm, fu_d = fu_d fu + lp, fu_dp = Some (fu_d fu), fu_ds = ds\<rparr>))"

text \<open>The inner loop; a character may reach beyond \<open>pe\<close>, which ends the loop.\<close>

function fu_inner :: "alloc \<Rightarrow> bytes \<Rightarrow> nat \<Rightarrow> fu_loc \<Rightarrow> fu_result" where
  "fu_inner alloc p n fu =
     (let lp = fast_sen_str_charlen_utf8 (take n p)
      in if lp = 0 then FU_ok fu
         else
           (case fu_emit alloc p lp fu of
              FU_ok fu' \<Rightarrow> fu_inner alloc (drop lp p) (n - lp) fu'
            | r \<Rightarrow> r))"
  by pat_completeness auto
termination
proof (relation "measure (\<lambda>(a, p, n, fu). n)")
  fix p :: bytes and n lp :: nat and fu fu' and a :: alloc
  assume "lp = fast_sen_str_charlen_utf8 (take n p)" "lp \<noteq> 0"
  then have "0 < n" by (cases n) (auto simp: fast_sen_str_charlen_utf8_def)
  with \<open>lp \<noteq> 0\<close> show "((a, drop lp p, n - lp, fu'), (a, p, n, fu)) \<in> measure (\<lambda>(a, p, n, fu). n)"
    by simp
qed simp

declare fu_inner.simps [simp del]

text \<open>
  One round of the loop. \<open>normed\<close> says that the character was mapped or composed; the byte
  tested against \<open>0x20\<close> is the first one of the text to be written.
\<close>

definition fu_step :: "alloc \<Rightarrow> nfkc \<Rightarrow> bytes \<Rightarrow> nat \<Rightarrow> nat \<Rightarrow> fu_loc \<Rightarrow> fu_result" where
  "fu_step alloc nf orig s ls fu =
     (let normed1 = (nf_map1 nf (drop s orig) \<noteq> None);
          (p, n) = u8_mapped nf (drop s orig) ls;
          composed = (case fu_dp fu of None \<Rightarrow> None | Some dp \<Rightarrow> nf_map2 nf (drop dp (fu_norm fu)) p)
      in (case (case composed of
                  Some m \<Rightarrow> (m @ [0], length m, fu\<lparr>fu_d := the (fu_dp fu)\<rparr>, True)
                | None \<Rightarrow> (p, n, fu, normed1)) of
            (p', n', fu', normed) \<Rightarrow>
              (if hd p' < 0x20 then FU_ok fu'
               else if normed then fu_inner alloc p' n' fu'
               else fu_emit alloc p' ls fu')))"

function fu_loop :: "alloc \<Rightarrow> nfkc \<Rightarrow> bytes \<Rightarrow> nat \<Rightarrow> nat \<Rightarrow> fu_loc \<Rightarrow> fu_result" where
  "fu_loop alloc nf orig e s fu =
     (let ls = fast_sen_str_charlen_utf8 (take (e - s) (drop s orig))
      in if ls = 0 then FU_ok fu
         else
           (case fu_step alloc nf orig s ls fu of
              FU_ok fu' \<Rightarrow> fu_loop alloc nf orig e (s + ls) fu'
            | r \<Rightarrow> r))"
  by pat_completeness auto
termination
proof (relation "measure (\<lambda>(a, f, orig, e, s, fu). e - s)")
  fix orig :: bytes and e s ls :: nat and fu fu' and a :: alloc and f :: nfkc
  assume "ls = fast_sen_str_charlen_utf8 (take (e - s) (drop s orig))" "ls \<noteq> 0"
  then have "s < e" by (cases "e - s") (auto simp: fast_sen_str_charlen_utf8_def)
  with \<open>ls \<noteq> 0\<close> show "((a, f, orig, e, s + ls, fu'), (a, f, orig, e, s, fu))
      \<in> measure (\<lambda>(a, f, orig, e, s, fu). e - s)"
    by auto
qed simp

declare fu_loop.simps [simp del]

definition fast_normalize_utf8 :: "alloc \<Rightarrow> nfkc \<Rightarrow> sen_nstr \<Rightarrow> (sen_rc \<times> sen_nstr) option" where
  "fast_normalize_utf8 alloc nf nstr =
     (let ds = ns_orig_blen nstr * 3
      in if \<not> alloc (ds + 1) then Some (sen_memory_exhausted, nstr\<lparr>ns_norm := None\<rparr>)
         else
           (case fu_loop alloc nf (ns_orig nstr) (ns_orig_blen nstr) 0
                   \<lparr>fu_norm = [], fu_d = 0, fu_dp = None, fu_ds = ds\<rparr> of
              FU_fault \<Rightarrow> None
            | FU_exhausted \<Rightarrow> Some (sen_memory_exhausted, nstr\<lparr>ns_norm := None\<rparr>)
            | FU_ok fu \<Rightarrow>
                (case put (fu_ds fu + 1) (fu_norm fu) (fu_d fu) [0] of
                   None \<Rightarrow> None
                 | Some norm \<Rightarrow>
                     Some (sen_success,
                       nstr\<lparr>ns_norm := Some (take (fu_d fu + 1) norm), ns_norm_blen := fu_d fu\<rparr>))))"

section \<open>The reference\<close>

text \<open>
  The characters of a string up to the first position that does not start one, and the
  normalisation of a list of characters: each one is mapped, composed with the last character
  of the result when the table has a composition, and otherwise appended, without the
  characters that are dropped.
\<close>

function utf8_prefix :: "bytes \<Rightarrow> bytes list" where
  "utf8_prefix s =
     (let n = sen_str_charlen_utf8 s in if n = 0 then [] else take n s # utf8_prefix (drop n s))"
  by pat_completeness auto
termination
  by (relation "measure length") (auto intro!: diff_less dest: charlen_utf8_take_pos)

declare utf8_prefix.simps [simp del]

definition utf8_one :: "bytes \<Rightarrow> bool" where
  "utf8_one c \<longleftrightarrow> c \<noteq> [] \<and> sen_str_charlen_utf8 c = length c"

definition nfkc_char :: "nfkc \<Rightarrow> bytes \<Rightarrow> bytes" where
  "nfkc_char nf c = (case nf_map1 nf c of None \<Rightarrow> c | Some m \<Rightarrow> m)"

definition nfkc_step :: "nfkc \<Rightarrow> bool \<Rightarrow> bytes list \<Rightarrow> bytes \<Rightarrow> bytes list" where
  "nfkc_step nf rb out c =
     (let t = nfkc_char nf c in
      case (if out = [] then None else nf_map2 nf (last out) t) of
        Some m \<Rightarrow> butlast out @ [m]
      | None \<Rightarrow> out @ filter (\<lambda>x. \<not> u8_dropped rb (hd x)) (utf8_prefix t))"

definition nfkc_chars :: "nfkc \<Rightarrow> bool \<Rightarrow> bytes list \<Rightarrow> bytes list" where
  "nfkc_chars nf rb cs = foldl (nfkc_step nf rb) [] cs"

text \<open>
  What the code relies on in the generated tables: they look at one character only; a mapping
  is a non-empty sequence of characters without control characters; a composition is a single
  character, not a control character or a space. (Every string in lib/nfkc.c is so.)
\<close>

definition nfkc_ok :: "nfkc \<Rightarrow> bool" where
  "nfkc_ok nf \<longleftrightarrow>
     (\<forall>c t. utf8_one c \<longrightarrow> nf_map1 nf (c @ t) = nf_map1 nf c) \<and>
     (\<forall>c t x u. utf8_one c \<longrightarrow> utf8_one x \<longrightarrow> nf_map2 nf (c @ t) (x @ u) = nf_map2 nf c x) \<and>
     (\<forall>s m. nf_map1 nf s = Some m \<longrightarrow>
        m \<noteq> [] \<and> concat (utf8_prefix m) = m \<and>
        (\<forall>x \<in> set (utf8_prefix m). 0x20 \<le> hd x \<and> length x \<le> 6)) \<and>
     (\<forall>p s m. nf_map2 nf p s = Some m \<longrightarrow> utf8_one m \<and> 0x20 < hd m \<and> length m \<le> 6)"

section \<open>Characters and stores\<close>

lemma utf8_prefix_Nil [simp]: "utf8_prefix [] = []"
  by (simp add: utf8_prefix.simps)

lemma utf8_prefix_stop: "sen_str_charlen_utf8 s = 0 \<Longrightarrow> utf8_prefix s = []"
  by (simp add: utf8_prefix.simps)

lemma utf8_prefix_step:
  "sen_str_charlen_utf8 s = n \<Longrightarrow> 0 < n \<Longrightarrow> utf8_prefix s = take n s # utf8_prefix (drop n s)"
  by (subst utf8_prefix.simps) (simp add: Let_def)

lemma utf8_one_take:
  "sen_str_charlen_utf8 s = n \<Longrightarrow> 0 < n \<Longrightarrow> utf8_one (take n s)"
  using charlen_utf8_local [of s n "[]"] charlen_utf8_le [of s] by (auto simp: utf8_one_def)

lemma utf8_one_prefix: "utf8_one c \<Longrightarrow> utf8_prefix c = [c]"
  using utf8_prefix_step [of c "length c"] by (auto simp: utf8_one_def)

lemma utf8_one_append: "utf8_one c \<Longrightarrow> sen_str_charlen_utf8 (c @ t) = length c"
  using charlen_utf8_local [of c "length c" t] by (auto simp: utf8_one_def)

lemma split_utf8_prefix: "split_chars sen_str_charlen_utf8 s = Some cs \<Longrightarrow> utf8_prefix s = cs"
proof (induction cs arbitrary: s)
  case Nil
  then have "s = []" by (auto dest: utf8_reader.split_concat)
  then show ?case by simp
next
  case (Cons c cs)
  then have "s \<noteq> []" by auto
  from utf8_reader.split_Cons [OF this Cons.prems] Cons.IH show ?case
    by (auto simp: utf8_prefix_step)
qed

lemma put_ok:
  assumes "off \<le> length mem" "off + length xs \<le> cap"
  shows "\<exists>mem'. put cap mem off xs = Some mem' \<and> take (off + length xs) mem' = take off mem @ xs \<and>
    off + length xs \<le> length mem'"
  using assms by (simp add: put_def)

lemma put_opt_ok:
  assumes "\<forall>mem. arr = Some mem \<longrightarrow> off \<le> length mem" "arr \<noteq> None \<Longrightarrow> off + length xs \<le> cap"
  obtains arr' where "put_opt cap arr off xs = Some arr'" "arr' = None \<longleftrightarrow> arr = None"
    "\<forall>mem'. arr' = Some mem' \<longrightarrow> off + length xs \<le> length mem'"
proof (cases arr)
  case None
  then show ?thesis using that by (simp add: put_opt_def)
next
  case (Some mem)
  then obtain mem' where "put cap mem off xs = Some mem'" "off + length xs \<le> length mem'"
    using put_ok [of off mem xs cap] assms by blast
  with Some show ?thesis using that by (simp add: put_opt_def)
qed

text \<open>
  What \<open>norm\<close> holds when the characters \<open>out\<close> have been written, and where \<open>d_\<close> points.
\<close>

definition text_pre :: "bytes list \<Rightarrow> bytes \<Rightarrow> nat \<Rightarrow> nat \<Rightarrow> bool" where
  "text_pre out norm d ds \<longleftrightarrow>
     d \<le> length norm \<and> take d norm = concat out \<and> d \<le> ds \<and> list_all utf8_one out"

definition last_at :: "bytes list \<Rightarrow> nat \<Rightarrow> nat option \<Rightarrow> bool" where
  "last_at out d dp \<longleftrightarrow>
     (case dp of None \<Rightarrow> out = [] | Some k \<Rightarrow> out \<noteq> [] \<and> k + length (last out) = d)"

lemma text_pre_length: "text_pre out norm d ds \<Longrightarrow> length (concat out) = d"
  unfolding text_pre_def by (metis length_take min.absorb2)

lemma length_concat_ge: "list_all utf8_one out \<Longrightarrow> length out \<le> length (concat out)"
proof (induction out)
  case (Cons c out)
  then show ?case by (cases c) (auto simp: utf8_one_def)
qed simp

lemma text_pre_count: "text_pre out norm d ds \<Longrightarrow> length out \<le> d"
  using length_concat_ge [of out] text_pre_length [of out norm d ds] by (simp add: text_pre_def)

lemma text_put:
  assumes "text_pre out norm d ds" "utf8_one c" "d + length c \<le> ds'"
  shows "\<exists>norm'. put (ds' + 1) norm d c = Some norm' \<and> text_pre (out @ [c]) norm' (d + length c) ds'"
  using put_ok [of d norm c "ds' + 1"] assms by (auto simp: text_pre_def)

lemma last_at_put: "last_at (out @ [c]) (d + length c) (Some d)"
  by (simp add: last_at_def)

text \<open>The memory at \<open>d_\<close> starts with the last character; going back to \<open>d_\<close> removes it.\<close>

lemma text_last:
  assumes "text_pre out norm d ds" "last_at out d (Some k)"
  shows "\<exists>t. drop k norm = last out @ t" "utf8_one (last out)" "text_pre (butlast out) norm k ds"
proof -
  have o: "out \<noteq> []" "d = k + length (last out)" using assms(2) by (auto simp: last_at_def)
  then obtain out' c where out: "out = out' @ [c]" by (cases out rule: rev_cases) auto
  have t: "take d norm = concat out' @ c" "d = k + length c" "d \<le> length norm"
    using assms(1) o out by (auto simp: text_pre_def)
  have l: "length (concat out') = k"
    using arg_cong [OF t(1), of length] t by simp
  have "drop k (take d norm) = c" unfolding t(1) using l by simp
  then have "drop k norm = c @ drop (length c) (drop k norm)"
    unfolding drop_take t(2) by (metis add_diff_cancel_left' append_take_drop_id)
  then show "\<exists>t. drop k norm = last out @ t" using out by auto
  show "utf8_one (last out)" using assms(1) out by (simp add: text_pre_def)
  have "take k norm = take k (take d norm)" using t(2) by simp
  also have "\<dots> = concat out'" unfolding t(1) using l by simp
  finally show "text_pre (butlast out) norm k ds"
    using assms(1) out t by (auto simp: text_pre_def)
qed

section \<open>The checking normaliser implements the reference\<close>

text \<open>
  \<open>u8_pre\<close> holds at every moment, \<open>u8_rel\<close> when \<open>d_\<close> is at the last character (not between
  taking it back and writing the composition).
\<close>

definition u8_pre :: "bytes list \<Rightarrow> u8_loc \<Rightarrow> bool" where
  "u8_pre out ul \<longleftrightarrow>
     text_pre out (ul_norm ul) (ul_d ul) (ul_ds ul) \<and> ul_len ul = length out \<and>
     (\<forall>cs. ul_cp ul = Some cs \<longrightarrow> length out \<le> length cs) \<and>
     (\<forall>ks. ul_ch ul = Some ks \<longrightarrow> ul_d ul \<le> length ks) \<and>
     (ul_ch ul \<noteq> None \<longrightarrow> ul_sp ul = None \<longrightarrow> ul_s ul = 0)"

definition u8_rel :: "bytes list \<Rightarrow> u8_loc \<Rightarrow> bool" where
  "u8_rel out ul \<longleftrightarrow>
     u8_pre out ul \<and> last_at out (ul_d ul) (ul_dp ul) \<and>
     (ul_ch ul \<noteq> None \<longrightarrow> ul_dp ul \<noteq> None \<longrightarrow> ul_sp ul \<noteq> None)"

definition same_arrays :: "u8_loc \<Rightarrow> u8_loc \<Rightarrow> bool" where
  "same_arrays ul ul' \<longleftrightarrow>
     (ul_cp ul' = None \<longleftrightarrow> ul_cp ul = None) \<and> (ul_ch ul' = None \<longleftrightarrow> ul_ch ul = None)"

lemma same_arrays_refl [simp]: "same_arrays ul ul"
  by (simp add: same_arrays_def)

lemma same_arrays_trans: "same_arrays a b \<Longrightarrow> same_arrays b c \<Longrightarrow> same_arrays a c"
  by (auto simp: same_arrays_def)

text \<open>A result that implements \<open>out\<close>, from the state \<open>ul0\<close>.\<close>

fun u8_post :: "alloc \<Rightarrow> bytes list \<Rightarrow> u8_loc \<Rightarrow> u8_result \<Rightarrow> bool" where
  "u8_post alloc out ul0 U8_fault \<longleftrightarrow> False"
| "u8_post alloc out ul0 U8_exhausted \<longleftrightarrow> (\<exists>n. \<not> alloc n)"
| "u8_post alloc out ul0 (U8_ok ul) \<longleftrightarrow> u8_rel out ul \<and> same_arrays ul0 ul"

lemma u8_post_from: "same_arrays ul0 ul \<Longrightarrow> u8_post alloc out ul r \<Longrightarrow> u8_post alloc out ul0 r"
  by (cases r) (auto intro: same_arrays_trans)

lemma u8_blank_rel: "u8_rel out ul \<Longrightarrow> u8_rel out (u8_blank ul) \<and> same_arrays ul (u8_blank ul)"
  by (auto simp: u8_blank_def u8_rel_def u8_pre_def same_arrays_def split: option.splits)

lemma u8_reserve_cases:
  assumes "u8_pre out ul"
  obtains "u8_reserve alloc lp ul = U8_exhausted" "\<exists>n. \<not> alloc n"
  | ds where "u8_reserve alloc lp ul = U8_ok (ul\<lparr>ul_ds := ds\<rparr>)" "ul_ds ul \<le> ds" "ul_d ul + lp \<le> ds"
proof (cases "ul_ds ul \<le> ul_d ul + lp")
  case True
  have le: "ul_d ul \<le> ul_ds ul" using assms by (simp add: u8_pre_def text_pre_def)
  let ?ds = "ul_ds ul + (ul_ds ul div 2 + lp)"
  have "u8_reserve alloc lp ul = U8_exhausted \<and> (\<exists>n. \<not> alloc n) \<or>
      u8_reserve alloc lp ul = U8_ok (ul\<lparr>ul_ds := ?ds\<rparr>)"
    using True by (auto simp: u8_reserve_def Let_def)
  then show ?thesis
  proof
    assume "u8_reserve alloc lp ul = U8_exhausted \<and> (\<exists>n. \<not> alloc n)"
    then show ?thesis using that(1) by blast
  next
    assume "u8_reserve alloc lp ul = U8_ok (ul\<lparr>ul_ds := ?ds\<rparr>)"
    moreover have "ul_ds ul \<le> ?ds" "ul_d ul + lp \<le> ?ds" using le by linarith+
    ultimately show ?thesis by (rule that(2))
  qed
next
  case False
  then have "u8_reserve alloc lp ul = U8_ok (ul\<lparr>ul_ds := ul_ds ul\<rparr>)" by (simp add: u8_reserve_def)
  with False that(2) [of "ul_ds ul"] show ?thesis by simp
qed

lemma u8_pre_ds: "u8_pre out ul \<Longrightarrow> ul_ds ul \<le> ds \<Longrightarrow> u8_pre out (ul\<lparr>ul_ds := ds\<rparr>)"
  by (auto simp: u8_pre_def text_pre_def)

lemma u8_preD:
  assumes "u8_pre out ul"
  shows "text_pre out (ul_norm ul) (ul_d ul) (ul_ds ul)" "ul_len ul = length out"
    and "\<forall>cs. ul_cp ul = Some cs \<longrightarrow> ul_len ul \<le> length cs"
    and "\<forall>ks. ul_ch ul = Some ks \<longrightarrow> ul_d ul \<le> length ks"
    and "ul_ch ul \<noteq> None \<longrightarrow> ul_sp ul = None \<longrightarrow> ul_s ul = 0"
  using assms by (auto simp: u8_pre_def)

lemma u8_emit_ok:
  assumes pre: "u8_pre out ul" and room: "ul_d ul + lp \<le> ul_ds ul" and next_s: "0 < next_s"
    and c: "take lp p = c" "utf8_one c" "length c = lp" "lp \<le> length p"
  shows "\<exists>ul'. u8_emit nf p lp next_s ul = U8_ok ul' \<and> u8_rel (out @ [c]) ul' \<and> same_arrays ul ul'"
proof -
  note tp = u8_preD(1) [OF pre]
  obtain norm where norm: "put (ul_ds ul + 1) (ul_norm ul) (ul_d ul) c = Some norm"
    "text_pre (out @ [c]) norm (ul_d ul + lp) (ul_ds ul)"
    using text_put [OF tp c(2), of "ul_ds ul"] room unfolding c(3) by blast
  have lp: "0 < lp" using c(2,3) by (auto simp: utf8_one_def)
  have "length out < ul_ds ul + 1" using text_pre_count [OF tp] room by simp
  with u8_preD(2) [OF pre] have "ul_len ul + length [nf_ctype nf p] \<le> ul_ds ul + 1" by simp
  then obtain cp where cp: "put_opt (ul_ds ul + 1) (ul_cp ul) (ul_len ul) [nf_ctype nf p] = Some cp"
    "cp = None \<longleftrightarrow> ul_cp ul = None"
    "\<forall>m. cp = Some m \<longrightarrow> ul_len ul + length [nf_ctype nf p] \<le> length m"
    by (rule put_opt_ok [OF u8_preD(3) [OF pre]])
  let ?k = "u8_check next_s ul # replicate (lp - 1) 0"
  have k: "length ?k = lp" using lp by simp
  have "ul_d ul + length ?k \<le> ul_ds ul" using room unfolding k .
  then obtain ch where ch: "put_opt (ul_ds ul) (ul_ch ul) (ul_d ul) ?k = Some ch"
    "ch = None \<longleftrightarrow> ul_ch ul = None" "\<forall>m. ch = Some m \<longrightarrow> ul_d ul + length ?k \<le> length m"
    by (rule put_opt_ok [OF u8_preD(4) [OF pre]])
  have "\<not> length p < lp" using c(4) by simp
  then have "u8_emit nf p lp next_s ul =
    U8_ok (ul\<lparr>ul_norm := norm, ul_dp := Some (ul_d ul), ul_d := ul_d ul + lp,
              ul_len := Suc (ul_len ul), ul_cp := cp, ul_ch := ch,
              ul_sp := (if ch = None \<or> ul_s ul = next_s then ul_sp ul else Some (ul_s ul)),
              ul_s := (if ch = None then ul_s ul else next_s)\<rparr>)" (is "_ = U8_ok ?ul'")
    unfolding u8_emit_def c(1) norm(1) cp(1) ch(1) by simp
  moreover have "u8_rel (out @ [c]) ?ul'"
  proof -
    have "last_at (out @ [c]) (ul_d ul + lp) (Some (ul_d ul))"
      using last_at_put [of out c "ul_d ul"] c(3) by simp
    moreover have "ch \<noteq> None \<longrightarrow>
        (if ch = None \<or> ul_s ul = next_s then ul_sp ul else Some (ul_s ul)) \<noteq> None"
      using u8_preD(5) [OF pre] ch(2) next_s by auto
    moreover have "u8_pre (out @ [c]) ?ul'"
      unfolding u8_pre_def
      using norm(2) cp(3) ch(2) ch(3) [unfolded k] u8_preD(2,5) [OF pre] next_s by auto
    ultimately show ?thesis by (simp add: u8_rel_def)
  qed
  moreover have "same_arrays ul ?ul'" using cp(2) ch(2) by (simp add: same_arrays_def)
  ultimately show ?thesis by blast
qed

lemma u8_write:
  assumes "u8_pre out ul" "0 < next_s"
    and "sen_str_charlen_utf8 (take n p) = lp" "0 < lp" "n \<le> length p" "\<not> u8_dropped rb (hd p)"
    and rest: "\<forall>ul2. u8_rel (out @ [take lp p]) ul2 \<longrightarrow>
      u8_post alloc out' ul2 (u8_inner alloc nf rb next_s (drop lp p) (n - lp) ul2)"
  shows "u8_post alloc out' ul (u8_inner alloc nf rb next_s p n ul)"
proof -
  have lp: "lp \<le> n" using charlen_utf8_take_le [of n p] assms(3) by simp
  have one: "utf8_one (take lp p)"
    using utf8_one_take [OF assms(3,4)] lp by (simp add: min_def)
  from assms(1) show ?thesis
  proof (rule u8_reserve_cases [where alloc = alloc and lp = lp])
    assume "u8_reserve alloc lp ul = U8_exhausted" "\<exists>n. \<not> alloc n"
    then show ?thesis using assms(3,4,6) by (subst u8_inner.simps) (simp add: Let_def)
  next
    fix ds
    let ?ul = "ul\<lparr>ul_ds := ds\<rparr>"
    assume r: "u8_reserve alloc lp ul = U8_ok ?ul" "ul_ds ul \<le> ds" "ul_d ul + lp \<le> ds"
    have "\<exists>ul2. u8_emit nf p lp next_s ?ul = U8_ok ul2 \<and> u8_rel (out @ [take lp p]) ul2 \<and>
        same_arrays ?ul ul2"
      by (rule u8_emit_ok) (use u8_pre_ds [OF assms(1) r(2)] r(3) assms(2,5) one lp in simp_all)
    then obtain ul2 where ul2: "u8_emit nf p lp next_s ?ul = U8_ok ul2"
      "u8_rel (out @ [take lp p]) ul2" "same_arrays ?ul ul2" by blast
    have "u8_inner alloc nf rb next_s p n ul = u8_inner alloc nf rb next_s (drop lp p) (n - lp) ul2"
      using assms(3,4,6) r(1) ul2(1) by (subst u8_inner.simps) (simp add: Let_def)
    moreover have "same_arrays ul ul2" using ul2(3) by (simp add: same_arrays_def)
    ultimately show ?thesis using rest ul2(2) u8_post_from by metis
  qed
qed

lemma u8_inner_chars:
  assumes "u8_rel out ul" "0 < next_s" "n \<le> length p"
  shows "u8_post alloc (out @ filter (\<lambda>x. \<not> u8_dropped rb (hd x)) (utf8_prefix (take n p))) ul
           (u8_inner alloc nf rb next_s p n ul)"
  using assms
proof (induction n arbitrary: out ul p rule: less_induct)
  case (less n)
  define lp where "lp = sen_str_charlen_utf8 (take n p)"
  have cl: "sen_str_charlen_utf8 (take n p) = lp" by (simp add: lp_def)
  show ?case
  proof (cases "lp = 0")
    case True
    then show ?thesis using less.prems(1) cl
      by (subst u8_inner.simps) (simp add: utf8_prefix_stop)
  next
    case False
    then have lp: "0 < lp" "lp \<le> n" using charlen_utf8_take_le [of n p] cl by auto
    have pre: "utf8_prefix (take n p) = take lp p # utf8_prefix (take (n - lp) (drop lp p))"
      using utf8_prefix_step [OF cl lp(1)] lp(2) by (simp add: min_def drop_take)
    have h: "hd (take lp p) = hd p" using lp(1) by simp
    note IH = less.IH [of "n - lp" _ _ "drop lp p"]
    have dec: "n - lp < n" "n - lp \<le> length (drop lp p)" using lp less.prems(3) by auto
    show ?thesis
    proof (cases "u8_dropped rb (hd p)")
      case True
      have e: "u8_inner alloc nf rb next_s p n ul =
          u8_inner alloc nf rb next_s (drop lp p) (n - lp) (u8_blank ul)"
        using cl lp(1) True by (subst u8_inner.simps) (simp add: Let_def)
      note b = u8_blank_rel [OF less.prems(1)]
      have "u8_post alloc (out @ filter (\<lambda>x. \<not> u8_dropped rb (hd x))
          (utf8_prefix (take (n - lp) (drop lp p)))) (u8_blank ul) (u8_inner alloc nf rb next_s p n ul)"
        unfolding e by (rule less.IH [OF dec(1) b [THEN conjunct1] less.prems(2) dec(2)])
      then show ?thesis
        using True h unfolding pre by (auto intro: u8_post_from [OF b [THEN conjunct2]])
    next
      case False
      show ?thesis
      proof (rule u8_write [OF _ less.prems(2) cl lp(1) less.prems(3) False])
        show "u8_pre out ul" using less.prems(1) by (simp add: u8_rel_def)
        show "\<forall>ul2. u8_rel (out @ [take lp p]) ul2 \<longrightarrow>
            u8_post alloc (out @ filter (\<lambda>x. \<not> u8_dropped rb (hd x)) (utf8_prefix (take n p))) ul2
              (u8_inner alloc nf rb next_s (drop lp p) (n - lp) ul2)"
          using less.IH [OF dec(1) _ less.prems(2) dec(2)] False h unfolding pre by fastforce
      qed
    qed
  qed
qed

text \<open>The string at \<open>p\<close> after the mapping, and the composition with the character before.\<close>

lemma nfkc_okD:
  assumes "nfkc_ok nf"
  shows "utf8_one c \<Longrightarrow> nf_map1 nf (c @ t) = nf_map1 nf c"
    and "utf8_one c \<Longrightarrow> utf8_one x \<Longrightarrow> nf_map2 nf (c @ t) (x @ u) = nf_map2 nf c x"
    and "nf_map1 nf s = Some m \<Longrightarrow> m \<noteq> [] \<and> concat (utf8_prefix m) = m"
    and "nf_map1 nf s = Some m \<Longrightarrow> x \<in> set (utf8_prefix m) \<Longrightarrow> 0x20 \<le> hd x \<and> length x \<le> 6"
    and "nf_map2 nf p s = Some m \<Longrightarrow> utf8_one m \<and> 0x20 < hd m \<and> length m \<le> 6"
  using assms unfolding nfkc_ok_def by blast+

lemma nfkc_char_first:
  assumes "nfkc_ok nf" "utf8_one c"
  obtains x t where "nfkc_char nf c = x @ t" "utf8_one x" "sen_str_charlen_utf8 (nfkc_char nf c) = length x"
proof (cases "nf_map1 nf c")
  case None
  then show ?thesis using that [of c "[]"] assms(2) by (simp add: nfkc_char_def utf8_one_def)
next
  case (Some m)
  note m = nfkc_okD(3) [OF assms(1) Some]
  then have "sen_str_charlen_utf8 m \<noteq> 0" by (metis concat.simps(1) utf8_prefix_stop)
  then have l: "0 < sen_str_charlen_utf8 m" by simp
  show ?thesis
  proof (rule that)
    show "nfkc_char nf c = take (sen_str_charlen_utf8 m) m @ drop (sen_str_charlen_utf8 m) m"
      using Some by (simp add: nfkc_char_def)
    show "utf8_one (take (sen_str_charlen_utf8 m) m)" using utf8_one_take [OF refl l] .
    show "sen_str_charlen_utf8 (nfkc_char nf c) = length (take (sen_str_charlen_utf8 m) m)"
      using Some charlen_utf8_le [of m] by (simp add: nfkc_char_def)
  qed
qed

lemma mapped_char:
  assumes "nfkc_ok nf" "utf8_one c" "take ls s = c" "length c = ls"
    and "u8_mapped nf s ls = (p, n)"
  obtains t where "p = nfkc_char nf c @ t" "n = length (nfkc_char nf c)"
proof -
  have s: "s = c @ drop ls s" using assms(3) append_take_drop_id [of ls s] by simp
  have m: "nf_map1 nf s = nf_map1 nf c" using nfkc_okD(1) [OF assms(1,2), of "drop ls s"] s by simp
  show ?thesis
  proof (cases "nf_map1 nf c")
    case None
    then have "p = c @ drop ls s" "n = ls" using assms(5) m s by (auto simp: u8_mapped_def)
    with None that [of "drop ls s"] assms(4) show ?thesis by (simp add: nfkc_char_def)
  next
    case (Some x)
    then show ?thesis using assms(5) m that [of "[0]"] by (auto simp: u8_mapped_def nfkc_char_def)
  qed
qed

lemma map2_local:
  assumes "nfkc_ok nf" "utf8_one c" "utf8_one l"
  shows "nf_map2 nf (l @ j) (nfkc_char nf c @ t) = nf_map2 nf l (nfkc_char nf c)"
proof -
  obtain x u where x: "nfkc_char nf c = x @ u" "utf8_one x"
    using nfkc_char_first [OF assms(1,2)] by blast
  note loc = nfkc_okD(2) [OF assms(1,3) x(2)]
  have "nf_map2 nf (l @ j) (x @ u @ t) = nf_map2 nf l x" by (rule loc)
  moreover have "nf_map2 nf (l @ []) (x @ u) = nf_map2 nf l x" by (rule loc)
  ultimately show ?thesis by (simp add: x(1))
qed

lemma composes_iff:
  assumes "nfkc_ok nf" "utf8_one c" "text_pre out norm d ds" "last_at out d dp"
  shows "(case dp of None \<Rightarrow> None | Some k \<Rightarrow> nf_map2 nf (drop k norm) (nfkc_char nf c @ t)) =
    (if out = [] then None else nf_map2 nf (last out) (nfkc_char nf c))"
proof (cases dp)
  case None
  then show ?thesis using assms(4) by (simp add: last_at_def)
next
  case (Some k)
  obtain j where "drop k norm = last out @ j" "utf8_one (last out)"
    using text_last [OF assms(3)] assms(4) Some by blast
  moreover have "out \<noteq> []" using assms(4) Some by (simp add: last_at_def)
  ultimately show ?thesis using Some map2_local [OF assms(1,2)] by simp
qed

lemma u8_step_ok:
  assumes nf: "nfkc_ok nf" and rel: "u8_rel out ul"
    and c: "take ls (drop s orig) = c" "utf8_one c" "length c = ls"
  shows "u8_post alloc (nfkc_step nf rb out c) ul (u8_step alloc nf rb orig s ls ul)"
proof -
  obtain p n where p: "u8_mapped nf (drop s orig) ls = (p, n)" by (cases "u8_mapped nf (drop s orig) ls")
  obtain t where t: "p = nfkc_char nf c @ t" "n = length (nfkc_char nf c)"
    using mapped_char [OF nf c(2) c(1) c(3) p] .
  have pre: "u8_pre out ul" and la: "last_at out (ul_d ul) (ul_dp ul)"
    and sp: "ul_ch ul \<noteq> None \<longrightarrow> ul_dp ul \<noteq> None \<longrightarrow> ul_sp ul \<noteq> None"
    using rel by (auto simp: u8_rel_def)
  note cmp = composes_iff [OF nf c(2) u8_preD(1) [OF pre] la, of t, folded t(1)]
  have pos: "0 < s + ls" using c(2,3) by (auto simp: utf8_one_def)
  show ?thesis
  proof (cases "if out = [] then None else nf_map2 nf (last out) (nfkc_char nf c)")
    case None
    then have "u8_compose nf p n ul = Some (p, n, ul)"
      using cmp by (auto simp: u8_compose_def split: option.splits)
    moreover have "nfkc_step nf rb out c =
        out @ filter (\<lambda>x. \<not> u8_dropped rb (hd x)) (utf8_prefix (take n p))"
      using None t by (simp add: nfkc_step_def)
    ultimately show ?thesis
      using u8_inner_chars [OF rel pos, of n p alloc rb nf] p t by (simp add: u8_step_def)
  next
    case (Some m)
    then obtain k where k: "ul_dp ul = Some k" "nf_map2 nf (drop k (ul_norm ul)) p = Some m"
      using cmp by (cases "ul_dp ul") auto
    have ne: "out \<noteq> []" using Some by (auto split: if_splits)
    note m = nfkc_okD(5) [OF nf k(2)]
    let ?ul = "ul\<lparr>ul_d := k, ul_len := ul_len ul - 1,
       ul_s := (if ul_ch ul = None then ul_s ul else the (ul_sp ul))\<rparr>"
    have comp: "u8_compose nf p n ul = Some (m @ [0], length m, ?ul)"
      using k sp u8_preD(2) [OF pre] ne by (auto simp: u8_compose_def)
    note tl = text_last [OF u8_preD(1) [OF pre] la [unfolded k(1)]]
    have kd: "k \<le> ul_d ul" using la k(1) by (simp add: last_at_def)
    have pre': "u8_pre (butlast out) ?ul"
      unfolding u8_pre_def
    proof (intro conjI)
      show "text_pre (butlast out) (ul_norm ?ul) (ul_d ?ul) (ul_ds ?ul)" using tl(3) by simp
      show "ul_len ?ul = length (butlast out)" using u8_preD(2) [OF pre] by simp
      show "\<forall>cs. ul_cp ?ul = Some cs \<longrightarrow> length (butlast out) \<le> length cs"
        using u8_preD(2,3) [OF pre] by fastforce
      show "\<forall>ks. ul_ch ?ul = Some ks \<longrightarrow> ul_d ?ul \<le> length ks"
        using u8_preD(4) [OF pre] kd by fastforce
      show "ul_ch ?ul \<noteq> None \<longrightarrow> ul_sp ?ul = None \<longrightarrow> ul_s ?ul = 0" using sp k(1) by auto
    qed
    have cl: "sen_str_charlen_utf8 (take (length m) (m @ [0])) = length m" "0 < length m"
      using m by (auto simp: utf8_one_def)
    have nd: "\<not> u8_dropped rb (hd (m @ [0]))"
      using m cl(2) by (auto simp: u8_dropped_def)
    have step: "nfkc_step nf rb out c = butlast out @ [m]" using Some by (simp add: nfkc_step_def)
    have "u8_post alloc (butlast out @ [m]) ?ul
        (u8_inner alloc nf rb (s + ls) (m @ [0]) (length m) ?ul)"
    proof (rule u8_write [OF pre' pos cl _ nd])
      show "\<forall>ul2. u8_rel (butlast out @ [take (length m) (m @ [0])]) ul2 \<longrightarrow>
          u8_post alloc (butlast out @ [m]) ul2 (u8_inner alloc nf rb (s + ls)
            (drop (length m) (m @ [0])) (length m - length m) ul2)"
        by (subst u8_inner.simps) simp
    qed simp
    then have "u8_post alloc (butlast out @ [m]) ul
        (u8_inner alloc nf rb (s + ls) (m @ [0]) (length m) ?ul)"
      by (rule u8_post_from [rotated]) (simp add: same_arrays_def)
    then show ?thesis using p comp step by (simp add: u8_step_def)
  qed
qed

lemma u8_loop_ok:
  assumes "nfkc_ok nf" "u8_rel out ul" "e \<le> length orig"
  shows "u8_post alloc (foldl (nfkc_step nf rb) out (utf8_prefix (take (e - s) (drop s orig)))) ul
    (u8_loop alloc nf rb orig e s ul)"
  using assms(2)
proof (induction "e - s" arbitrary: s out ul rule: less_induct)
  case less
  define ls where "ls = sen_str_charlen_utf8 (take (e - s) (drop s orig))"
  have cl: "sen_str_charlen_utf8 (take (e - s) (drop s orig)) = ls" by (simp add: ls_def)
  show ?case
  proof (cases "ls = 0")
    case True
    then show ?thesis using less.prems cl
      by (subst u8_loop.simps) (simp add: utf8_prefix_stop)
  next
    case False
    then have ls: "0 < ls" "ls \<le> e - s" using charlen_utf8_take_le [of "e - s" "drop s orig"] cl by auto
    define c where "c = take ls (drop s orig)"
    have c: "take ls (drop s orig) = c" by (simp add: c_def)
    have tt: "take ls (take (e - s) (drop s orig)) = c" using ls(2) by (simp add: c min_def)
    have one: "utf8_one c" using utf8_one_take [OF cl ls(1)] tt by simp
    have len: "length c = ls" using ls(2) assms(3) by (simp add: c_def)
    have "drop ls (take (e - s) (drop s orig)) = take (e - (s + ls)) (drop (s + ls) orig)"
      using ls(2) by (simp add: drop_take add.commute diff_diff_left)
    then have pre: "utf8_prefix (take (e - s) (drop s orig)) =
        c # utf8_prefix (take (e - (s + ls)) (drop (s + ls) orig))"
      using utf8_prefix_step [OF cl ls(1)] tt by simp
    note st = u8_step_ok [OF assms(1) less.prems c one len, of alloc rb]
    have dec: "e - (s + ls) < e - s" using ls by simp
    show ?thesis
    proof (cases "u8_step alloc nf rb orig s ls ul")
      case (U8_ok ul')
      with st have r: "u8_rel (nfkc_step nf rb out c) ul'" "same_arrays ul ul'" by simp_all
      have "u8_loop alloc nf rb orig e s ul = u8_loop alloc nf rb orig e (s + ls) ul'"
        using cl ls(1) U8_ok by (subst u8_loop.simps) (simp add: Let_def)
      with u8_post_from [OF r(2) less.hyps [OF dec r(1)]] show ?thesis by (simp add: pre)
    qed (use cl ls(1) st in \<open>auto simp: u8_loop.simps [of alloc nf rb orig e s] Let_def\<close>)
  qed
qed

lemma u8_finish_ok:
  assumes "u8_pre out ul"
  obtains nstr' where "u8_finish nstr ul = Some (sen_success, nstr')"
    "ns_norm nstr' = Some (concat out @ [0])" "ns_norm_blen nstr' = length (concat out)"
    "ns_length nstr' = length out"
    "\<forall>cs. ns_ctypes nstr' = Some cs \<longrightarrow> length cs = length out + 1"
    "\<forall>ks. ns_checks nstr' = Some ks \<longrightarrow> length ks = length (concat out)"
    "ns_ctypes nstr' = None \<longleftrightarrow> ul_cp ul = None" "ns_checks nstr' = None \<longleftrightarrow> ul_ch ul = None"
proof -
  note tp = u8_preD(1) [OF assms]
  have d: "ul_d ul \<le> length (ul_norm ul)" "take (ul_d ul) (ul_norm ul) = concat out"
    "ul_d ul \<le> ul_ds ul"
    using tp by (simp_all add: text_pre_def)
  have "ul_len ul + length [sen_str_null] \<le> ul_ds ul + 1"
    using u8_preD(2) [OF assms] text_pre_count [OF tp] d(3) by simp
  then obtain cp where cp: "put_opt (ul_ds ul + 1) (ul_cp ul) (ul_len ul) [sen_str_null] = Some cp"
    "cp = None \<longleftrightarrow> ul_cp ul = None"
    "\<forall>m. cp = Some m \<longrightarrow> ul_len ul + length [sen_str_null] \<le> length m"
    by (rule put_opt_ok [OF u8_preD(3) [OF assms]])
  obtain norm where norm: "put (ul_ds ul + 1) (ul_norm ul) (ul_d ul) [0] = Some norm"
    "take (ul_d ul + 1) norm = concat out @ [0]"
    using put_ok [of "ul_d ul" "ul_norm ul" "[0]" "ul_ds ul + 1"] d by auto
  show ?thesis
  proof (rule that)
    show "u8_finish nstr ul = Some (sen_success,
        nstr\<lparr>ns_norm := Some (concat out @ [0]), ns_norm_blen := length (concat out),
             ns_ctypes := map_option (take (ul_len ul + 1)) cp,
             ns_checks := map_option (take (ul_d ul)) (ul_ch ul), ns_length := length out\<rparr>)"
      using cp(1) norm u8_preD(2) [OF assms] text_pre_length [OF tp] by (simp add: u8_finish_def)
  qed (use cp u8_preD(2,4) [OF assms] text_pre_length [OF tp] in auto)
qed

definition utf8_out :: "nfkc \<Rightarrow> bool \<Rightarrow> sen_nstr \<Rightarrow> bytes list" where
  "utf8_out nf rb nstr = nfkc_chars nf rb (utf8_prefix (take (ns_orig_blen nstr) (ns_orig nstr)))"

lemma u8_start: 
  "u8_rel [] \<lparr>ul_norm = [], ul_d = 0, ul_dp = None, ul_ds = ds,
     ul_cp = (if a then Some [] else None), ul_ch = (if b then Some [] else None),
     ul_len = 0, ul_s = 0, ul_sp = None\<rparr>"
  by (simp add: u8_rel_def u8_pre_def text_pre_def last_at_def)

lemma normalize_utf8_out:
  assumes "nfkc_ok nf" "ns_orig_blen nstr \<le> length (ns_orig nstr)"
    and "ns_ctypes nstr = None" "ns_checks nstr = None"
  obtains
      nstr' where "normalize_utf8 alloc nf nstr = Some (sen_memory_exhausted, nstr')" "\<exists>n. \<not> alloc n"
        "ns_norm nstr' = None" "ns_ctypes nstr' = None" "ns_checks nstr' = None"
    | nstr' where "normalize_utf8 alloc nf nstr = Some (sen_success, nstr')"
        "ns_norm nstr' = Some (concat (utf8_out nf (removeblank nstr) nstr) @ [0])"
        "ns_norm_blen nstr' = length (concat (utf8_out nf (removeblank nstr) nstr))"
        "ns_length nstr' = length (utf8_out nf (removeblank nstr) nstr)"
        "\<forall>cs. ns_ctypes nstr' = Some cs \<longrightarrow> length cs = length (utf8_out nf (removeblank nstr) nstr) + 1"
        "\<forall>ks. ns_checks nstr' = Some ks \<longrightarrow>
           length ks = length (concat (utf8_out nf (removeblank nstr) nstr))"
        "ns_checks nstr' = None \<longleftrightarrow> \<not> has_flag (ns_flags nstr) SEN_STR_WITH_CHECKS"
proof -
  let ?ds = "ns_orig_blen nstr * 3"
  let ?c = "has_flag (ns_flags nstr) SEN_STR_WITH_CHECKS"
  let ?t = "has_flag (ns_flags nstr) SEN_STR_WITH_CTYPES"
  let ?ul = "\<lparr>ul_norm = [], ul_d = 0, ul_dp = None, ul_ds = ?ds,
     ul_cp = (if ?t then Some [] else None), ul_ch = (if ?c then Some [] else None),
     ul_len = 0, ul_s = 0, ul_sp = None\<rparr> :: u8_loc"
  let ?r = "u8_loop alloc nf (removeblank nstr) (ns_orig nstr) (ns_orig_blen nstr) 0 ?ul"
  have post: "u8_post alloc (utf8_out nf (removeblank nstr) nstr) ?ul ?r"
    using u8_loop_ok [where rb = "removeblank nstr" and alloc = alloc and s = 0,
        OF assms(1) u8_start assms(2)]
    by (simp add: utf8_out_def nfkc_chars_def)
  show ?thesis
  proof (cases "alloc (?ds + 1) \<and> (?c \<longrightarrow> alloc (?ds * 2 + 1))")
    case False
    define nstr' where "nstr' = (if alloc (?ds + 1) then nstr\<lparr>ns_norm := None, ns_checks := None\<rparr>
      else nstr\<lparr>ns_norm := None\<rparr>)"
    have "normalize_utf8 alloc nf nstr = Some (sen_memory_exhausted, nstr')"
      using False unfolding normalize_utf8_def Let_def nstr'_def by simp
    moreover have "\<exists>n. \<not> alloc n" using False by blast
    moreover have "ns_norm nstr' = None" "ns_ctypes nstr' = None" "ns_checks nstr' = None"
      using assms(3,4) by (simp_all add: nstr'_def)
    ultimately show ?thesis by (rule that(1))
  next
    case True
    then have f: "(\<not> alloc (?ds + 1)) = False" "(?c \<and> \<not> alloc (?ds * 2 + 1)) = False"
      "(?t \<and> \<not> alloc (?ds + 1)) = False"
      by blast+
    have e: "normalize_utf8 alloc nf nstr =
        (case ?r of U8_fault \<Rightarrow> None | U8_exhausted \<Rightarrow> Some (u8_failed nstr)
         | U8_ok ul \<Rightarrow> u8_finish nstr ul)"
      unfolding normalize_utf8_def Let_def f simp_thms if_False ..
    show ?thesis
    proof (cases ?r)
      case U8_fault
      with post show ?thesis by simp
    next
      case U8_exhausted
      with post e show ?thesis
        by (intro that(1) [of "snd (u8_failed nstr)"]) (simp_all add: u8_failed_def)
    next
      case (U8_ok ul)
      with post have "u8_pre (utf8_out nf (removeblank nstr) nstr) ul" "ul_ch ul = None \<longleftrightarrow> \<not> ?c"
        by (simp_all add: u8_rel_def same_arrays_def)
      then show ?thesis
        by - (rule u8_finish_ok [where nstr = nstr], assumption, rule that(2), use e U8_ok in simp_all)
    qed
  qed
qed

section \<open>The fast normaliser implements the reference\<close>

definition fu_rel :: "bytes list \<Rightarrow> fu_loc \<Rightarrow> bool" where
  "fu_rel out fu \<longleftrightarrow>
     text_pre out (fu_norm fu) (fu_d fu) (fu_ds fu) \<and> last_at out (fu_d fu) (fu_dp fu)"

fun fu_post :: "alloc \<Rightarrow> bytes list \<Rightarrow> fu_result \<Rightarrow> bool" where
  "fu_post alloc out FU_fault \<longleftrightarrow> False"
| "fu_post alloc out FU_exhausted \<longleftrightarrow> (\<exists>n. \<not> alloc n)"
| "fu_post alloc out (FU_ok fu) \<longleftrightarrow> fu_rel out fu"

lemma fu_emit_ok:
  assumes "text_pre out (fu_norm fu) (fu_d fu) (fu_ds fu)"
    and "take lp p = c" "utf8_one c" "length c = lp"
  shows "fu_post alloc (out @ [c]) (fu_emit alloc p lp fu)"
proof -
  define grow where "grow \<longleftrightarrow> fu_ds fu \<le> fu_d fu + lp"
  define ds where "ds = (if grow then fu_ds fu + (fu_ds fu div 2 + lp) else fu_ds fu)"
  have d: "fu_d fu \<le> fu_ds fu" using assms(1) by (simp add: text_pre_def)
  have "fu_d fu + length c \<le> ds" using d assms(4) by (simp add: ds_def grow_def)
  then obtain norm where norm: "put (ds + 1) (fu_norm fu) (fu_d fu) c = Some norm"
    "text_pre (out @ [c]) norm (fu_d fu + length c) ds"
    using text_put [OF assms(1,3)] by blast
  have p: "\<not> length p < lp" using assms(2,4) by auto
  have e: "fu_emit alloc p lp fu =
      (if grow \<and> \<not> alloc (ds + 1) then FU_exhausted
       else FU_ok \<lparr>fu_norm = norm, fu_d = fu_d fu + lp, fu_dp = Some (fu_d fu), fu_ds = ds\<rparr>)"
    unfolding fu_emit_def Let_def grow_def [symmetric] ds_def [symmetric] using norm(1) p assms(2)
    by simp
  show ?thesis
    using norm(2) last_at_put [of out c "fu_d fu"] assms(4) unfolding e by (auto simp: fu_rel_def)
qed

lemma fast_charlen_eq:
  assumes "sen_str_charlen_utf8 s = n" "0 < n" "n \<le> 6"
  shows "fast_sen_str_charlen_utf8 s = n"
proof (cases s)
  case (Cons c t)
  with assms charlen_utf8_lead [of s] have "utf8_lead c = n" by (simp split: if_splits)
  with Cons assms fast_charlen_lead [of c t] show ?thesis by simp
qed (use assms in simp)

lemma fast_charlen_Nil [simp]: "fast_sen_str_charlen_utf8 [] = 0"
  by (simp add: fast_sen_str_charlen_utf8_def)

lemma fu_inner_chars:
  assumes "text_pre out (fu_norm fu) (fu_d fu) (fu_ds fu)"
    and "concat (utf8_prefix (take n p)) = take n p" "n \<le> length p" "0 < n \<or> fu_rel out fu"
    and "\<forall>x \<in> set (utf8_prefix (take n p)). length x \<le> 6"
  shows "fu_post alloc (out @ utf8_prefix (take n p)) (fu_inner alloc p n fu)"
  using assms
proof (induction n arbitrary: out fu p rule: less_induct)
  case (less n)
  show ?case
  proof (cases "n = 0")
    case True
    then show ?thesis using less.prems(4) by (simp add: fu_inner.simps)
  next
    case False
    define lp where "lp = sen_str_charlen_utf8 (take n p)"
    have cl: "sen_str_charlen_utf8 (take n p) = lp" by (simp add: lp_def)
    have ne: "take n p \<noteq> []" using False less.prems(3) by auto
    have lp: "0 < lp" using ne less.prems(2) cl utf8_prefix_stop [of "take n p"] by force
    have le: "lp \<le> n" using charlen_utf8_take_le [of n p] cl by simp
    have pre: "utf8_prefix (take n p) = take lp p # utf8_prefix (take (n - lp) (drop lp p))"
      using utf8_prefix_step [OF cl lp] le by (simp add: min_def drop_take)
    have len: "length (take lp p) = lp" using le less.prems(3) by simp
    have one: "utf8_one (take lp p)" using utf8_one_take [OF cl lp] le by (simp add: min_def)
    have "lp \<le> 6" using less.prems(5) len by (simp add: pre)
    then have f: "fast_sen_str_charlen_utf8 (take n p) = lp" using fast_charlen_eq [OF cl lp] by simp
    have em: "fu_post alloc (out @ [take lp p]) (fu_emit alloc p lp fu)"
      using fu_emit_ok [OF less.prems(1) refl one len] .
    show ?thesis
    proof (cases "fu_emit alloc p lp fu")
      case (FU_ok fu')
      with em have rel: "fu_rel (out @ [take lp p]) fu'" by simp
      have "take n p = take lp p @ take (n - lp) (drop lp p)"
        using le by (metis append_take_drop_id drop_take min.absorb1 take_take)
      with less.prems(2) have cc: "concat (utf8_prefix (take (n - lp) (drop lp p))) = take (n - lp) (drop lp p)"
        unfolding pre by simp
      have "fu_post alloc ((out @ [take lp p]) @ utf8_prefix (take (n - lp) (drop lp p)))
          (fu_inner alloc (drop lp p) (n - lp) fu')"
        by (rule less.IH) (use rel cc lp le less.prems(3,5) in \<open>auto simp: fu_rel_def pre\<close>)
      then show ?thesis using FU_ok f lp by (subst fu_inner.simps) (simp add: Let_def pre)
    qed (use em f lp in \<open>auto simp: fu_inner.simps [of alloc p n] Let_def\<close>)
  qed
qed

lemma prefix_hd: "c \<noteq> [] \<Longrightarrow> hd (c @ t) = hd c"
  by (cases c) auto

lemma utf8_dropped_False [simp]: "u8_dropped False c \<longleftrightarrow> c < 0x20"
  by (simp add: u8_dropped_def)

lemma fu_step_ok:
  assumes nf: "nfkc_ok nf" and rel: "fu_rel out fu"
    and c: "take ls (drop s orig) = c" "utf8_one c" "length c = ls"
  shows "fu_post alloc (nfkc_step nf False out c) (fu_step alloc nf orig s ls fu)"
proof -
  obtain p n where p: "u8_mapped nf (drop s orig) ls = (p, n)" by (cases "u8_mapped nf (drop s orig) ls")
  obtain t where t: "p = nfkc_char nf c @ t" "n = length (nfkc_char nf c)"
    using mapped_char [OF nf c(2) c(1) c(3) p] .
  have pre: "text_pre out (fu_norm fu) (fu_d fu) (fu_ds fu)" and la: "last_at out (fu_d fu) (fu_dp fu)"
    using rel by (auto simp: fu_rel_def)
  note cmp = composes_iff [OF nf c(2) pre la, of t, folded t(1)]
  have m1: "nf_map1 nf (drop s orig) = nf_map1 nf c"
    using nfkc_okD(1) [OF nf c(2), of "drop ls (drop s orig)"] c(1) append_take_drop_id [of ls "drop s orig"]
    by simp
  obtain x u where x: "nfkc_char nf c = x @ u" "utf8_one x"
    using nfkc_char_first [OF nf c(2)] by blast
  have hd: "hd p = hd (nfkc_char nf c)" using t x by (cases x) (auto simp: utf8_one_def)
  show ?thesis
  proof (cases "if out = [] then None else nf_map2 nf (last out) (nfkc_char nf c)")
    case None
    have step: "nfkc_step nf False out c = out @ filter (\<lambda>x. \<not> hd x < 0x20) (utf8_prefix (nfkc_char nf c))"
      using None by (simp add: nfkc_step_def)
    have fs: "fu_step alloc nf orig s ls fu =
        (if hd p < 0x20 then FU_ok fu
         else if nf_map1 nf c \<noteq> None then fu_inner alloc p n fu else fu_emit alloc p ls fu)"
      unfolding fu_step_def Let_def p m1 prod.case cmp None option.case ..
    show ?thesis
    proof (cases "nf_map1 nf c")
      case None
      then have cc: "nfkc_char nf c = c" by (simp add: nfkc_char_def)
      have "fu_post alloc (out @ [c]) (fu_emit alloc p ls fu)"
        using fu_emit_ok [OF pre _ c(2,3)] t cc c(3) by simp
      then show ?thesis
        using None rel hd unfolding step fs by (simp add: cc utf8_one_prefix [OF c(2)])
    next
      case (Some m)
      then have cc: "nfkc_char nf c = m" by (simp add: nfkc_char_def)
      note m = nfkc_okD(3,4) [OF nf Some]
      have "m \<noteq> []" using m(1) by blast
      have cl: "0 < sen_str_charlen_utf8 m"
        using m(1) utf8_prefix_stop [of m] by force
      have first: "hd m \<ge> 0x20"
      proof -
        have "take (sen_str_charlen_utf8 m) m \<in> set (utf8_prefix m)"
          by (subst utf8_prefix_step [OF refl cl]) simp
        then show ?thesis using m(2) hd_take [OF cl, of m] by fastforce
      qed
      have filt: "filter (\<lambda>x. \<not> hd x < 0x20) (utf8_prefix m) = utf8_prefix m"
        using m(2) by (auto simp: not_less intro!: filter_True)
      have tp: "take n p = m" using t cc by simp
      have "fu_post alloc (out @ utf8_prefix (take n p)) (fu_inner alloc p n fu)"
      proof (rule fu_inner_chars [OF pre])
        show "concat (utf8_prefix (take n p)) = take n p" using m(1) tp by simp
        show "\<forall>x \<in> set (utf8_prefix (take n p)). length x \<le> 6" using m(2) tp by simp
        show "n \<le> length p" "0 < n \<or> fu_rel out fu" using t rel by simp_all
      qed
      then show ?thesis
        using Some first hd unfolding step fs tp cc filt by (auto dest: leD)
    qed
  next
    case (Some m)
    then obtain k where k: "fu_dp fu = Some k" "nf_map2 nf (drop k (fu_norm fu)) p = Some m"
      using cmp by (cases "fu_dp fu") auto
    note m = nfkc_okD(5) [OF nf k(2)]
    note tl = text_last [OF pre la [unfolded k(1)]]
    let ?fu = "fu\<lparr>fu_d := k\<rparr>"
    have ne: "m \<noteq> []" using m by (auto simp: utf8_one_def)
    have fs: "fu_step alloc nf orig s ls fu = fu_inner alloc (m @ [0]) (length m) ?fu"
    proof -
      have "\<not> hd m < 0x20" using m by (simp add: not_less order.strict_implies_order)
      then show ?thesis by (simp add: fu_step_def p k prefix_hd [OF ne])
    qed
    have "fu_post alloc (butlast out @ utf8_prefix (take (length m) (m @ [0])))
        (fu_inner alloc (m @ [0]) (length m) ?fu)"
      by (rule fu_inner_chars) (use tl(3) m ne utf8_one_prefix [of m] in auto)
    then show ?thesis
      using Some m utf8_one_prefix [of m] unfolding fs by (simp add: nfkc_step_def)
  qed
qed

lemma fu_loop_ok:
  assumes "nfkc_ok nf" "fu_rel out fu" "e \<le> length orig"
    and "concat (utf8_prefix (take (e - s) (drop s orig))) = take (e - s) (drop s orig)"
    and "\<forall>x \<in> set (utf8_prefix (take (e - s) (drop s orig))). length x \<le> 6"
  shows "fu_post alloc (foldl (nfkc_step nf False) out (utf8_prefix (take (e - s) (drop s orig))))
    (fu_loop alloc nf orig e s fu)"
  using assms(2,4,5)
proof (induction "e - s" arbitrary: s out fu rule: less_induct)
  case less
  show ?case
  proof (cases "take (e - s) (drop s orig) = []")
    case True
    then have "fu_loop alloc nf orig e s fu = FU_ok fu"
      by (subst fu_loop.simps) (simp only: fast_charlen_Nil Let_def if_True simp_thms)
    then show ?thesis unfolding True using less.prems(1) by simp
  next
    case False
    define ls where "ls = sen_str_charlen_utf8 (take (e - s) (drop s orig))"
    have cl: "sen_str_charlen_utf8 (take (e - s) (drop s orig)) = ls" by (simp add: ls_def)
    have ls: "0 < ls" "ls \<le> e - s"
      using False less.prems(2) utf8_prefix_stop [of "take (e - s) (drop s orig)"]
        charlen_utf8_take_le [of "e - s" "drop s orig"] cl by force+
    define c where "c = take ls (drop s orig)"
    have c: "take ls (drop s orig) = c" by (simp add: c_def)
    have tt: "take ls (take (e - s) (drop s orig)) = c" using ls(2) by (simp add: c min_def)
    have one: "utf8_one c" using utf8_one_take [OF cl ls(1)] tt by simp
    have len: "length c = ls" using ls(2) assms(3) by (simp add: c_def)
    have dr: "drop ls (take (e - s) (drop s orig)) = take (e - (s + ls)) (drop (s + ls) orig)"
      using ls(2) by (simp add: drop_take add.commute diff_diff_left)
    then have pre: "utf8_prefix (take (e - s) (drop s orig)) =
        c # utf8_prefix (take (e - (s + ls)) (drop (s + ls) orig))"
      using utf8_prefix_step [OF cl ls(1)] tt by simp
    have "take (e - s) (drop s orig) = c @ take (e - (s + ls)) (drop (s + ls) orig)"
      using append_take_drop_id [of ls "take (e - s) (drop s orig)"] unfolding tt dr by simp
    with less.prems(2) have cc: "concat (utf8_prefix (take (e - (s + ls)) (drop (s + ls) orig))) =
        take (e - (s + ls)) (drop (s + ls) orig)"
      unfolding pre by simp
    have l6: "ls \<le> 6" "\<forall>x \<in> set (utf8_prefix (take (e - (s + ls)) (drop (s + ls) orig))). length x \<le> 6"
      using less.prems(3) len unfolding pre by auto
    have f: "fast_sen_str_charlen_utf8 (take (e - s) (drop s orig)) = ls"
      using fast_charlen_eq [OF cl ls(1) l6(1)] .
    note st = fu_step_ok [OF assms(1) less.prems(1) c one len, of alloc]
    have dec: "e - (s + ls) < e - s" using ls by simp
    show ?thesis
    proof (cases "fu_step alloc nf orig s ls fu")
      case (FU_ok fu')
      with st have r: "fu_rel (nfkc_step nf False out c) fu'" by simp
      have "fu_loop alloc nf orig e s fu = fu_loop alloc nf orig e (s + ls) fu'"
        using f ls(1) FU_ok by (subst fu_loop.simps) (simp add: Let_def)
      with less.hyps [OF dec r cc l6(2)] show ?thesis by (simp add: pre)
    qed (use f ls(1) st in \<open>auto simp: fu_loop.simps [of alloc nf orig e s] Let_def\<close>)
  qed
qed

lemma fast_utf8_out:
  assumes "nfkc_ok nf" "ns_orig_blen nstr \<le> length (ns_orig nstr)"
    and "utf8_prefix (take (ns_orig_blen nstr) (ns_orig nstr)) = cs"
    and "concat cs = take (ns_orig_blen nstr) (ns_orig nstr)" "\<forall>x \<in> set cs. length x \<le> 6"
  obtains
      nstr' where "fast_normalize_utf8 alloc nf nstr = Some (sen_memory_exhausted, nstr')"
        "\<exists>n. \<not> alloc n"
    | nstr' where "fast_normalize_utf8 alloc nf nstr = Some (sen_success, nstr')"
        "ns_norm nstr' = Some (concat (utf8_out nf False nstr) @ [0])"
        "ns_norm_blen nstr' = length (concat (utf8_out nf False nstr))"
proof -
  let ?ds = "ns_orig_blen nstr * 3"
  let ?fu = "\<lparr>fu_norm = [], fu_d = 0, fu_dp = None, fu_ds = ?ds\<rparr> :: fu_loc"
  let ?r = "fu_loop alloc nf (ns_orig nstr) (ns_orig_blen nstr) 0 ?fu"
  have "fu_rel [] ?fu" by (simp add: fu_rel_def text_pre_def last_at_def)
  then have post: "fu_post alloc (utf8_out nf False nstr) ?r"
    using fu_loop_ok [of nf "[]" ?fu "ns_orig_blen nstr" "ns_orig nstr" 0 alloc] assms
    by (simp add: utf8_out_def nfkc_chars_def)
  show ?thesis
  proof (cases "alloc (?ds + 1)")
    case False
    then show ?thesis using that(1) unfolding fast_normalize_utf8_def Let_def by auto
  next
    case True
    then have f: "(\<not> alloc (?ds + 1)) = False" by blast
    note e = fast_normalize_utf8_def [of alloc nf nstr, unfolded Let_def f if_False]
    show ?thesis
    proof (cases ?r)
      case FU_fault
      with post show ?thesis by simp
    next
      case FU_exhausted
      with post show ?thesis by (intro that(1) [of "nstr\<lparr>ns_norm := None\<rparr>"]) (simp_all add: e)
    next
      case (FU_ok fu)
      with post have tp: "text_pre (utf8_out nf False nstr) (fu_norm fu) (fu_d fu) (fu_ds fu)"
        by (simp add: fu_rel_def)
      obtain norm where norm: "put (fu_ds fu + 1) (fu_norm fu) (fu_d fu) [0] = Some norm"
        "take (fu_d fu + 1) norm = concat (utf8_out nf False nstr) @ [0]"
        using put_ok [of "fu_d fu" "fu_norm fu" "[0]" "fu_ds fu + 1"] tp by (auto simp: text_pre_def)
      show ?thesis
        by (rule that(2) [of "nstr\<lparr>ns_norm := Some (take (fu_d fu + 1) norm), ns_norm_blen := fu_d fu\<rparr>"])
          (use FU_ok norm text_pre_length [OF tp] in \<open>simp_all add: e\<close>)
    qed
  qed
qed

section \<open>Example tables\<close>

text \<open>The ligature fi, and i with a combining macron.\<close>

definition nf_example :: nfkc where
  "nf_example =
     \<lparr>nf_ctype = (\<lambda>s. sen_str_alpha),
      nf_map1 = (\<lambda>s. if take 3 s = [0xef, 0xac, 0x81] then Some [0x66, 0x69] else None),
      nf_map2 = (\<lambda>p s. if take 1 p = [0x69] \<and> take 2 s = [0xcc, 0x84] then Some [0xc4, 0xab] else None)\<rparr>"

lemma utf8_one_lead: "utf8_one c \<Longrightarrow> length c = utf8_lead (hd c)"
  using charlen_utf8_lead [of c] by (auto simp: utf8_one_def split: if_splits)

lemma take_one_char:
  assumes "utf8_one c" "hd x = h" "utf8_lead h = n" "n = length x" "x \<noteq> []"
  shows "take n (c @ t) = x \<longleftrightarrow> c = x"
proof
  assume e: "take n (c @ t) = x"
  have "c \<noteq> []" using assms(1) by (simp add: utf8_one_def)
  then have "hd x = hd c" using e assms(4,5) by (cases c; cases x) auto
  then have "length c = n" using utf8_one_lead [OF assms(1)] assms(2,3) by simp
  with e show "c = x" by simp
qed (simp add: assms(4))

lemma nf_example_ok: "nfkc_ok nf_example"
proof -
  have a: "take 3 (c @ t) = [0xef, 0xac, 0x81] \<longleftrightarrow> c = [0xef, 0xac, 0x81]" if "utf8_one c" for c t
    by (rule take_one_char [OF that, of _ "0xef"]) (simp_all add: utf8_lead_def)
  have b: "take 1 (c @ t) = [0x69] \<longleftrightarrow> c = [0x69]" if "utf8_one c" for c t
    by (rule take_one_char [OF that, of _ "0x69"]) (simp_all add: utf8_lead_def)
  have d: "take 2 (c @ t) = [0xcc, 0x84] \<longleftrightarrow> c = [0xcc, 0x84]" if "utf8_one c" for c t
    by (rule take_one_char [OF that, of _ "0xcc"]) (simp_all add: utf8_lead_def)
  have m: "utf8_prefix [0x66, 0x69] = [[0x66], [0x69]]"
    by (simp add: utf8_prefix.simps sen_str_charlen_utf8_def)
  have o: "utf8_one [0xc4, 0xab]"
    by (simp add: utf8_one_def sen_str_charlen_utf8_def utf8_width.simps)
  show ?thesis
    unfolding nfkc_ok_def
  proof (intro conjI allI impI)
    show "utf8_one c \<Longrightarrow> nf_map1 nf_example (c @ t) = nf_map1 nf_example c" for c t
      using a [of c t] a [of c "[]"] by (simp add: nf_example_def)
    show "utf8_one c \<Longrightarrow> utf8_one x \<Longrightarrow>
        nf_map2 nf_example (c @ t) (x @ u) = nf_map2 nf_example c x" for c t x u
      using b [of c t] b [of c "[]"] d [of x u] d [of x "[]"] by (simp add: nf_example_def)
  qed (auto simp: nf_example_def m o split: if_splits)
qed

definition ligature :: bytes where
  "ligature = [0xef, 0xac, 0x81, 0xcc, 0x84]"

lemma ligature_prefix: "utf8_prefix ligature = [[0xef, 0xac, 0x81], [0xcc, 0x84]]"
  by (simp add: ligature_def utf8_prefix.simps sen_str_charlen_utf8_def utf8_width.simps)

lemma ligature_out: "utf8_out nf_example rb (new_nstr ligature 5 sen_enc_utf8 f) = [[0x66], [0xc4, 0xab]]"
proof -
  have p: "utf8_prefix [0x66, 0x69] = [[0x66], [0x69]]" "utf8_prefix [0xcc, 0x84] = [[0xcc, 0x84]]"
    by (simp_all add: utf8_prefix.simps sen_str_charlen_utf8_def utf8_width.simps)
  have "take 5 ligature = ligature" by (simp add: ligature_def)
  then show ?thesis
    by (simp add: utf8_out_def new_nstr_def ligature_prefix nfkc_chars_def nfkc_step_def
        nfkc_char_def nf_example_def p u8_dropped_def)
qed

section \<open>Correctness\<close>

text \<open>
  C11: \<open>normalize_utf8\<close> never stores outside its arrays, and when memory suffices it returns the
  reference normalisation of the characters of its source up to the first malformed one, with
  the number of its characters, one type per character and one check per byte; when memory
  does not suffice it says so and leaves no array behind.
\<close>

theorem normalize_utf8_refines:
  assumes "nfkc_ok nf" "ns_orig_blen nstr \<le> length (ns_orig nstr)"
    and "ns_ctypes nstr = None" "ns_checks nstr = None"
  shows "\<exists>rc nstr'. normalize_utf8 alloc nf nstr = Some (rc, nstr') \<and>
    (rc = sen_memory_exhausted \<and> (\<exists>n. \<not> alloc n) \<and>
       ns_norm nstr' = None \<and> ns_ctypes nstr' = None \<and> ns_checks nstr' = None \<or>
     rc = sen_success \<and>
       (let out = utf8_out nf (removeblank nstr) nstr in
        ns_norm nstr' = Some (concat out @ [0]) \<and> ns_norm_blen nstr' = length (concat out) \<and>
        ns_length nstr' = length out \<and>
        (\<forall>cs. ns_ctypes nstr' = Some cs \<longrightarrow> length cs = length out + 1) \<and>
        (\<forall>ks. ns_checks nstr' = Some ks \<longrightarrow> length ks = length (concat out))))"
  by (rule normalize_utf8_out [OF assms, of alloc]) (simp_all add: Let_def)

theorem normalize_utf8_refines_witness:
  "\<exists>nstr'. normalize_utf8 (\<lambda>_. True) nf_example (new_nstr ligature 5 sen_enc_utf8 6) =
     Some (sen_success, nstr') \<and> ns_norm nstr' = Some [0x66, 0xc4, 0xab, 0]"
  using normalize_utf8_refines [OF nf_example_ok, of "new_nstr ligature 5 sen_enc_utf8 6" "\<lambda>_. True"]
    ligature_out by (auto simp: new_nstr_def ligature_def Let_def)

text \<open>
  On a well-formed UTF-8 string of characters of at most six bytes \<open>fast_normalize_utf8\<close>,
  which trusts the lead bytes and skips the arrays of types and checks, stays within its
  arrays and produces the same text as \<open>normalize_utf8\<close> without flags.
\<close>

theorem fast_normalize_utf8_agrees:
  assumes "nfkc_ok nf" "ns_orig_blen nstr \<le> length (ns_orig nstr)"
    and "split_chars sen_str_charlen_utf8 (take (ns_orig_blen nstr) (ns_orig nstr)) = Some cs"
    and "\<forall>c \<in> set cs. length c \<le> 6" "\<forall>n. alloc n" "ns_flags nstr = 0"
    and "ns_ctypes nstr = None" "ns_checks nstr = None"
  shows "\<exists>nstr1 nstr2.
    normalize_utf8 alloc nf nstr = Some (sen_success, nstr1) \<and>
    fast_normalize_utf8 alloc nf nstr = Some (sen_success, nstr2) \<and>
    ns_norm nstr2 = ns_norm nstr1 \<and> ns_norm_blen nstr2 = ns_norm_blen nstr1"
proof -
  have rb: "removeblank nstr = False"
    using assms(6) by (simp add: removeblank_def has_flag_def)
  obtain nstr1 where "normalize_utf8 alloc nf nstr = Some (sen_success, nstr1)"
    "ns_norm nstr1 = Some (concat (utf8_out nf False nstr) @ [0])"
    "ns_norm_blen nstr1 = length (concat (utf8_out nf False nstr))"
    using normalize_utf8_out [OF assms(1,2,7,8), of alloc] assms(5) rb by metis
  moreover obtain nstr2 where "fast_normalize_utf8 alloc nf nstr = Some (sen_success, nstr2)"
    "ns_norm nstr2 = Some (concat (utf8_out nf False nstr) @ [0])"
    "ns_norm_blen nstr2 = length (concat (utf8_out nf False nstr))"
    using fast_utf8_out [OF assms(1,2) split_utf8_prefix [OF assms(3)]
        utf8_reader.split_concat [OF assms(3)] assms(4), of alloc] assms(5) by metis
  ultimately show ?thesis by simp
qed

theorem fast_normalize_utf8_agrees_witness:
  "\<exists>nstr1 nstr2.
    normalize_utf8 (\<lambda>_. True) nf_example (new_nstr ligature 5 sen_enc_utf8 0) = Some (sen_success, nstr1) \<and>
    fast_normalize_utf8 (\<lambda>_. True) nf_example (new_nstr ligature 5 sen_enc_utf8 0) =
      Some (sen_success, nstr2) \<and> ns_norm nstr2 = ns_norm nstr1"
proof -
  have "split_chars sen_str_charlen_utf8 ligature = Some [[0xef, 0xac, 0x81], [0xcc, 0x84]]"
    by (simp add: ligature_def split_chars.simps sen_str_charlen_utf8_def utf8_width.simps)
  then show ?thesis
    using fast_normalize_utf8_agrees [OF nf_example_ok, of "new_nstr ligature 5 sen_enc_utf8 0"
        "[[0xef, 0xac, 0x81], [0xcc, 0x84]]" "\<lambda>_. True"]
    by (auto simp: new_nstr_def ligature_def)
qed

text \<open>
  When the last character of an expanded source character is composed with the next one,
  \<open>normalize_utf8\<close> goes back to the start of the expanded character although its first part
  has already accounted for it: the checks of the five bytes of the ligature fi and a
  combining macron are 3, 5 and 0.
\<close>

theorem ligature_checks:
  assumes "nf_map1 nf ligature = Some [0x66, 0x69]" "nf_map1 nf [0xcc, 0x84] = None"
    and "nf_map2 nf [0x69] [0xcc, 0x84] = Some [0xc4, 0xab]" "\<forall>n. alloc n"
  shows "\<exists>nstr'. normalize_utf8 alloc nf (new_nstr ligature 5 sen_enc_utf8 4) =
    Some (sen_success, nstr') \<and> ns_checks nstr' = Some [3, 5, 0] \<and> ns_orig_blen nstr' = 5"
proof -
  note cl = sen_str_charlen_utf8_def utf8_width.simps
  let ?ul = "\<lparr>ul_norm = [], ul_d = 0, ul_dp = None, ul_ds = 15, ul_cp = None, ul_ch = Some [],
    ul_len = 0, ul_s = 0, ul_sp = None\<rparr> :: u8_loc"
  let ?ul1 = "\<lparr>ul_norm = [0x66, 0x69], ul_d = 2, ul_dp = Some 1, ul_ds = 15, ul_cp = None,
    ul_ch = Some [3, -1], ul_len = 2, ul_s = 3, ul_sp = Some 0\<rparr> :: u8_loc"
  let ?ul2 = "\<lparr>ul_norm = [0x66, 0xc4, 0xab], ul_d = 3, ul_dp = Some 1, ul_ds = 15, ul_cp = None,
    ul_ch = Some [3, 5, 0], ul_len = 2, ul_s = 5, ul_sp = Some 0\<rparr> :: u8_loc"
  note st = u8_step_def u8_mapped_def u8_compose_def u8_inner.simps u8_dropped_def u8_reserve_def
    u8_emit_def put_def put_opt_def u8_check_def wrap16_id
  have "u8_step alloc nf False ligature 0 3 ?ul = U8_ok ?ul1"
    using assms by (simp add: st cl)
  moreover have "u8_step alloc nf False ligature 3 2 ?ul1 = U8_ok ?ul2"
    using assms by (simp add: st cl ligature_def)
  ultimately have "u8_loop alloc nf False ligature 5 0 ?ul = U8_ok ?ul2"
  proof -
    assume 1: "u8_step alloc nf False ligature 0 3 ?ul = U8_ok ?ul1"
      and 2: "u8_step alloc nf False ligature 3 2 ?ul1 = U8_ok ?ul2"
    have c: "sen_str_charlen_utf8 (take 5 ligature) = 3"
      "sen_str_charlen_utf8 (take 2 (drop 3 ligature)) = 2"
      "sen_str_charlen_utf8 (take 0 (drop 5 ligature)) = 0"
      by (simp_all add: cl ligature_def)
    have "u8_loop alloc nf False ligature 5 0 ?ul = u8_loop alloc nf False ligature 5 3 ?ul1"
      using 1 c(1) by (subst u8_loop.simps) simp
    also have "\<dots> = u8_loop alloc nf False ligature 5 5 ?ul2"
      using 2 c(2) by (subst u8_loop.simps) simp
    also have "\<dots> = U8_ok ?ul2" using c(3) by (subst u8_loop.simps) simp
    finally show ?thesis .
  qed
  then show ?thesis
    using assms(4)
    by (simp add: normalize_utf8_def new_nstr_def flag_defs Let_def u8_finish_def put_def put_opt_def)
qed

theorem ligature_checks_witness:
  "\<exists>nstr'. normalize_utf8 (\<lambda>_. True) nf_example (new_nstr ligature 5 sen_enc_utf8 4) =
    Some (sen_success, nstr') \<and> sum_list (the (ns_checks nstr')) = 8 \<and> ns_orig_blen nstr' = 5"
  using ligature_checks [of nf_example "\<lambda>_. True"]
  by (auto simp: nf_example_def ligature_def)

end
