(* ===== verification/Nstr_Open.thy ===== *)
theory Nstr_Open
  imports Nstr_Utf8 Rbuf
begin

text \<open>
  Opening and closing normalised strings (lib/str.c): \<open>sen_nstr_open\<close>, which selects the
  normaliser of the encoding, \<open>fast_sen_nstr_open\<close>, \<open>sen_fakenstr_open\<close>, which copies the text
  and only computes the checks, \<open>sen_nstr_close\<close>, and the copies of a normalised text into a
  buffer of the caller, \<open>sen_str_normalize\<close> and \<open>fast_sen_str_normalize\<close>. A block from the
  allocator has arbitrary contents, the argument \<open>blk\<close>; a NULL result is \<open>None\<close>. The outer
  \<open>option\<close> of a result is \<open>None\<close> when the code stores outside an array.
\<close>

section \<open>Opening and closing\<close>

text \<open>\<open>sizeof(sen_nstr)\<close> with pointers and \<open>size_t\<close> of eight bytes.\<close>

definition sizeof_sen_nstr :: nat where
  "sizeof_sen_nstr = 80"

definition nstr_init :: "sen_nstr \<Rightarrow> bytes \<Rightarrow> nat \<Rightarrow> sen_encoding \<Rightarrow> u32 \<Rightarrow> sen_nstr" where
  "nstr_init blk str str_len encoding flags =
     blk\<lparr>ns_orig := str, ns_orig_blen := str_len, ns_norm := None, ns_norm_blen := 0,
         ns_checks := None, ns_ctypes := None, ns_encoding := encoding, ns_flags := flags\<rparr>"

text \<open>The blocks that \<open>sen_nstr_close\<close> frees, in order.\<close>

datatype nstr_block = Blk_norm | Blk_ctypes | Blk_checks | Blk_nstr

definition sen_nstr_close :: "sen_nstr option \<Rightarrow> sen_rc \<times> nstr_block list" where
  "sen_nstr_close nstr =
     (case nstr of
        Some n \<Rightarrow>
          (sen_success,
           (if ns_norm n \<noteq> None then [Blk_norm] else []) @
           (if ns_ctypes n \<noteq> None then [Blk_ctypes] else []) @
           (if ns_checks n \<noteq> None then [Blk_checks] else []) @ [Blk_nstr])
      | None \<Rightarrow> (sen_invalid_argument, []))"

definition normalize_by :: "alloc \<Rightarrow> nfkc \<Rightarrow> sen_nstr \<Rightarrow> (sen_rc \<times> sen_nstr) option" where
  "normalize_by alloc nf nstr =
     (case ns_encoding nstr of
        sen_enc_euc_jp \<Rightarrow> Some (normalize_euc alloc nstr)
      | sen_enc_utf8 \<Rightarrow> normalize_utf8 alloc nf nstr
      | sen_enc_sjis \<Rightarrow> Some (normalize_sjis alloc nstr)
      | sen_enc_latin1 \<Rightarrow> Some (normalize_latin1 alloc nstr)
      | sen_enc_koi8r \<Rightarrow> Some (normalize_koi8r alloc nstr)
      | _ \<Rightarrow> Some (normalize_none alloc nstr))"

definition sen_nstr_open ::
  "alloc \<Rightarrow> nfkc \<Rightarrow> sen_nstr \<Rightarrow> bytes option \<Rightarrow> nat \<Rightarrow> sen_encoding \<Rightarrow> u32 \<Rightarrow> sen_nstr option option" where
  "sen_nstr_open alloc nf blk str str_len encoding flags =
     (case str of
        None \<Rightarrow> Some None
      | Some s \<Rightarrow>
          (if \<not> alloc sizeof_sen_nstr then Some None
           else
             (case normalize_by alloc nf (nstr_init blk s str_len encoding flags) of
                None \<Rightarrow> None
              | Some (rc, nstr) \<Rightarrow> Some (if rc \<noteq> sen_success then None else Some nstr))))"

definition fast_sen_nstr_open ::
  "alloc \<Rightarrow> nfkc \<Rightarrow> sen_nstr \<Rightarrow> bytes option \<Rightarrow> nat \<Rightarrow> sen_nstr option option" where
  "fast_sen_nstr_open alloc nf blk str str_len =
     (case str of
        None \<Rightarrow> Some None
      | Some s \<Rightarrow>
          (if \<not> alloc sizeof_sen_nstr then Some None
           else
             (case fast_normalize_utf8 alloc nf (nstr_init blk s str_len sen_enc_utf8 0) of
                None \<Rightarrow> None
              | Some (rc, nstr) \<Rightarrow> Some (if rc \<noteq> sen_success then None else Some nstr))))"

section \<open>Without normalisation\<close>

text \<open>
  The number of bytes that a lead byte announces, for the encodings with multi-byte characters.
\<close>

definition fake_width :: "sen_encoding \<Rightarrow> byte \<Rightarrow> nat" where
  "fake_width encoding c =
     (case encoding of
        sen_enc_euc_jp \<Rightarrow>
          (if 0xa1 \<le> c \<and> c \<le> 0xfe \<or> c = 0x8e then 2 else if c = 0x8f then 3 else 1)
      | sen_enc_sjis \<Rightarrow>
          (if 0x81 \<le> c \<and> (c \<le> 0x9f \<or> 0xe0 \<le> c \<and> c \<le> 0xfc) then 2 else 1)
      | sen_enc_utf8 \<Rightarrow>
          (if c AND 0x80 \<noteq> 0 then
             (if c AND 0x20 \<noteq> 0 then (if c AND 0x10 \<noteq> 0 then 4 else 3) else 2)
           else 1)
      | _ \<Rightarrow> 1)"

text \<open>The loops over the bytes: \<open>f\<close> counts down the bytes of the current character.\<close>

fun fake_checks :: "sen_encoding \<Rightarrow> nat \<Rightarrow> bytes \<Rightarrow> int list" where
  "fake_checks encoding f [] = []"
| "fake_checks encoding f (c # s) =
     (if f = 0 then int (fake_width encoding c) # fake_checks encoding (fake_width encoding c - 1) s
      else 0 # fake_checks encoding (f - 1) s)"

text \<open>The function does not set \<open>length\<close> and \<open>encoding\<close>: they keep what the block held.\<close>

definition sen_fakenstr_open ::
  "alloc \<Rightarrow> sen_nstr \<Rightarrow> bytes \<Rightarrow> nat \<Rightarrow> sen_encoding \<Rightarrow> u32 \<Rightarrow> sen_nstr option" where
  "sen_fakenstr_open alloc blk str str_len encoding flags =
     (let with_checks = has_flag flags SEN_STR_WITH_CHECKS;
          text = take str_len str
      in if \<not> alloc sizeof_sen_nstr then None
         else if \<not> alloc (str_len + 1) then None
         else if with_checks \<and> \<not> alloc (2 * str_len) then None
         else Some (blk\<lparr>ns_norm := Some (text @ [0]), ns_orig := str, ns_orig_blen := str_len,
                        ns_norm_blen := str_len, ns_ctypes := None, ns_flags := flags,
                        ns_checks := (if with_checks then Some (fake_checks encoding 0 text)
                                      else None)\<rparr>))"

section \<open>Into a buffer of the caller\<close>

text \<open>
  \<open>nstrbuf\<close> is the memory of the caller's buffer, \<open>buf_size\<close> its size as an \<open>int\<close>. The result
  is the length, or -1, with the new contents of the buffer; \<open>None\<close> when \<open>memcpy\<close> would leave
  the buffer or the normalised text.
\<close>

definition copy_norm :: "sen_nstr \<Rightarrow> int \<Rightarrow> bytes \<Rightarrow> bytes option" where
  "copy_norm nstr n nstrbuf =
     (case ns_norm nstr of
        None \<Rightarrow> None
      | Some norm \<Rightarrow>
          (if n < 0 \<or> length norm < nat n then None else mem_put nstrbuf 0 (take (nat n) norm)))"

definition store_norm :: "sen_nstr option option \<Rightarrow> bytes \<Rightarrow> int \<Rightarrow> (int \<times> bytes) option" where
  "store_norm opened nstrbuf buf_size =
     (case opened of
        None \<Rightarrow> None
      | Some None \<Rightarrow> Some (- 1, nstrbuf)
      | Some (Some nstr) \<Rightarrow>
          (let len = wrap32 (int (ns_norm_blen nstr)) in
           if buf_size > len then map_option (Pair len) (copy_norm nstr (len + 1) nstrbuf)
           else if buf_size = len then map_option (Pair len) (copy_norm nstr len nstrbuf)
           else Some (len, nstrbuf)))"

definition sen_str_normalize ::
  "alloc \<Rightarrow> nfkc \<Rightarrow> sen_nstr \<Rightarrow> bytes option \<Rightarrow> nat \<Rightarrow> sen_encoding \<Rightarrow> u32 \<Rightarrow> bytes \<Rightarrow> int \<Rightarrow>
   (int \<times> bytes) option" where
  "sen_str_normalize alloc nf blk str str_len encoding flags nstrbuf buf_size =
     store_norm (sen_nstr_open alloc nf blk str str_len encoding flags) nstrbuf buf_size"

definition fast_sen_str_normalize ::
  "alloc \<Rightarrow> nfkc \<Rightarrow> sen_nstr \<Rightarrow> bytes option \<Rightarrow> nat \<Rightarrow> bytes \<Rightarrow> int \<Rightarrow> (int \<times> bytes) option" where
  "fast_sen_str_normalize alloc nf blk str str_len nstrbuf buf_size =
     store_norm (fast_sen_nstr_open alloc nf blk str str_len) nstrbuf buf_size"

section \<open>Copying the text\<close>

lemma store_norm_text:
  assumes "ns_norm nstr = Some (t @ [0])" "ns_norm_blen nstr = length t" "length t < 2 ^ 31 - 1"
    and "buf_size \<le> int (length nstrbuf)"
  shows "store_norm (Some (Some nstr)) nstrbuf buf_size =
    Some (int (length t),
      (if int (length t) < buf_size then (t @ [0]) @ drop (length t + 1) nstrbuf
       else if int (length t) = buf_size then t @ drop (length t) nstrbuf else nstrbuf))"
proof -
  have "int32_range (int (length t))" using assms(3) by (simp add: int32_range_def)
  then have w: "wrap32 (int (length t)) = int (length t)" by (rule wrap32_id)
  have n: "nat (int (length t) + 1) = length t + 1" by simp
  show ?thesis
    using assms(1,2,4) w n by (auto simp: store_norm_def copy_norm_def mem_put_def Let_def)
qed

lemma nstr_init_fields [simp]:
  "ns_orig (nstr_init blk s n e f) = s" "ns_orig_blen (nstr_init blk s n e f) = n"
  "ns_ctypes (nstr_init blk s n e f) = None" "ns_checks (nstr_init blk s n e f) = None"
  "ns_flags (nstr_init blk s n e f) = f" "ns_encoding (nstr_init blk s n e f) = e"
  by (simp_all add: nstr_init_def)

text \<open>The reference: the normal form of the first \<open>n\<close> bytes of \<open>s\<close>.\<close>

definition utf8_text :: "nfkc \<Rightarrow> bool \<Rightarrow> bytes \<Rightarrow> bytes" where
  "utf8_text nf rb s = concat (nfkc_chars nf rb (utf8_prefix s))"

lemma utf8_out_init:
  "concat (utf8_out nf rb (nstr_init blk s n e f)) = utf8_text nf rb (take n s)"
  by (simp add: utf8_out_def utf8_text_def)

lemma open_utf8:
  assumes "nfkc_ok nf" "n \<le> length s" "\<forall>k. alloc k"
  obtains nstr where "sen_nstr_open alloc nf blk (Some s) n sen_enc_utf8 flags = Some (Some nstr)"
    "ns_norm nstr = Some (utf8_text nf (has_flag flags SEN_STR_REMOVEBLANK) (take n s) @ [0])"
    "ns_norm_blen nstr = length (utf8_text nf (has_flag flags SEN_STR_REMOVEBLANK) (take n s))"
proof -
  let ?i = "nstr_init blk s n sen_enc_utf8 flags"
  have rb: "removeblank ?i = has_flag flags SEN_STR_REMOVEBLANK" by (simp add: removeblank_def)
  have "ns_orig_blen ?i \<le> length (ns_orig ?i)" "ns_ctypes ?i = None" "ns_checks ?i = None"
    using assms(2) by simp_all
  from normalize_utf8_out [OF assms(1) this, of alloc]
  obtain nstr where "normalize_utf8 alloc nf ?i = Some (sen_success, nstr)"
    "ns_norm nstr = Some (concat (utf8_out nf (removeblank ?i) ?i) @ [0])"
    "ns_norm_blen nstr = length (concat (utf8_out nf (removeblank ?i) ?i))"
    using assms(3) by metis
  then show ?thesis
    using assms(3) that [of nstr] unfolding rb utf8_out_init
    by (simp add: sen_nstr_open_def normalize_by_def)
qed

lemma fast_open_utf8:
  assumes "nfkc_ok nf" "n \<le> length s" "\<forall>k. alloc k"
    and "split_chars sen_str_charlen_utf8 (take n s) = Some cs" "\<forall>c \<in> set cs. length c \<le> 6"
  obtains nstr where "fast_sen_nstr_open alloc nf blk (Some s) n = Some (Some nstr)"
    "ns_norm nstr = Some (utf8_text nf False (take n s) @ [0])"
    "ns_norm_blen nstr = length (utf8_text nf False (take n s))"
proof -
  let ?i = "nstr_init blk s n sen_enc_utf8 0"
  have i: "ns_orig_blen ?i \<le> length (ns_orig ?i)"
    "utf8_prefix (take (ns_orig_blen ?i) (ns_orig ?i)) = cs"
    "concat cs = take (ns_orig_blen ?i) (ns_orig ?i)"
    using assms(2) split_utf8_prefix [OF assms(4)] utf8_reader.split_concat [OF assms(4)]
    by simp_all
  from fast_utf8_out [OF assms(1) i assms(5), of alloc]
  obtain nstr where "fast_normalize_utf8 alloc nf ?i = Some (sen_success, nstr)"
    "ns_norm nstr = Some (concat (utf8_out nf False ?i) @ [0])"
    "ns_norm_blen nstr = length (concat (utf8_out nf False ?i))"
    using assms(3) by metis
  then show ?thesis
    using assms(3) that [of nstr] unfolding utf8_out_init by (simp add: fast_sen_nstr_open_def)
qed

text \<open>An opened string has a text with its terminator, and checks when they were asked for.\<close>

lemma norm_loop_checks: "nl_ch (norm_loop f src pos nl) = None \<longleftrightarrow> nl_ch nl = None"
proof (induction f src pos nl rule: norm_loop.induct)
  case (2 f c rest pos nl)
  have "nl_ch (norm_apply act p nl) = None \<longleftrightarrow> nl_ch nl = None" for act p
    by (cases act) (auto simp: Let_def split: option.splits)
  then show ?case using 2 by (simp split: prod.split)
qed simp

lemma normalize_with_text:
  assumes "normalize_with alloc k f src nstr = (sen_success, nstr')"
  shows "\<exists>x. ns_norm nstr' = Some (x @ [0]) \<and> ns_norm_blen nstr' = length x \<and>
    (ns_checks nstr' = None \<longleftrightarrow> \<not> has_flag (ns_flags nstr) SEN_STR_WITH_CHECKS)"
proof -
  define nl where "nl = norm_loop f src 0
    \<lparr>nl_d = [], nl_cp = (if has_flag (ns_flags nstr) SEN_STR_WITH_CTYPES then Some [] else None),
     nl_ch = (if has_flag (ns_flags nstr) SEN_STR_WITH_CHECKS then Some [] else None), nl_s = 0, nl_len = 0\<rparr>"
  have "nstr' = nstr\<lparr>ns_norm := Some (nl_d nl @ [0]), ns_norm_blen := length (nl_d nl),
      ns_ctypes := map_option (\<lambda>cs. cs @ [sen_str_null]) (nl_cp nl), ns_checks := nl_ch nl,
      ns_length := nl_len nl\<rparr>"
    using assms unfolding nl_def by (auto simp: normalize_with_def Let_def split: if_splits)
  moreover have "nl_ch nl = None \<longleftrightarrow> \<not> has_flag (ns_flags nstr) SEN_STR_WITH_CHECKS"
    unfolding nl_def norm_loop_checks by simp
  ultimately show ?thesis by simp
qed

lemma sen_nstr_open_text:
  assumes "nfkc_ok nf" "n \<le> length s" "sen_nstr_open alloc nf blk (Some s) n enc flags = Some (Some nstr)"
  shows "\<exists>x. ns_norm nstr = Some (x @ [0]) \<and> ns_norm_blen nstr = length x \<and>
    (ns_checks nstr = None \<longleftrightarrow> \<not> has_flag flags SEN_STR_WITH_CHECKS)"
proof -
  let ?i = "nstr_init blk s n enc flags"
  have n: "normalize_by alloc nf ?i = Some (sen_success, nstr)"
    using assms(3) by (auto simp: sen_nstr_open_def split: if_splits option.splits prod.splits)
  show ?thesis
  proof (cases "enc = sen_enc_utf8")
    case True
    have i: "ns_orig_blen ?i \<le> length (ns_orig ?i)" "ns_ctypes ?i = None" "ns_checks ?i = None"
      using assms(2) by simp_all
    have "normalize_utf8 alloc nf ?i = Some (sen_success, nstr)" using n True by (simp add: normalize_by_def)
    then show ?thesis
      by - (rule normalize_utf8_out [OF assms(1) i, of alloc], simp_all)
  next
    case False
    then have "\<exists>k f src. normalize_with alloc k f src ?i = (sen_success, nstr)"
      using n
      by (cases enc) (auto simp: normalize_by_def normalize_euc_def normalize_sjis_def
          normalize_latin1_def normalize_koi8r_def normalize_none_def)
    then show ?thesis using normalize_with_text by fastforce
  qed
qed

section \<open>The checks of a text that is not normalised\<close>

definition char_checks :: "bytes list \<Rightarrow> int list" where
  "char_checks cs = concat (map (\<lambda>c. int (length c) # replicate (length c - 1) 0) cs)"

lemma fake_checks_skip: "fake_checks enc (length t) (t @ s) = replicate (length t) 0 @ fake_checks enc 0 s"
  by (induction t) simp_all

lemma fake_checks_chars:
  assumes "\<forall>c \<in> set cs. c \<noteq> [] \<and> fake_width enc (hd c) = length c"
  shows "fake_checks enc 0 (concat cs) = char_checks cs"
  using assms
proof (induction cs)
  case (Cons c cs)
  then obtain b t where c: "c = b # t" by (cases c) auto
  with Cons.prems have "fake_width enc b = Suc (length t)" by auto
  then have "fake_checks enc 0 (concat (c # cs)) =
      int (length c) # fake_checks enc (length t) (t @ concat cs)"
    by (simp add: c)
  also have "\<dots> = int (length c) # replicate (length t) 0 @ char_checks cs"
    using Cons by (simp add: fake_checks_skip)
  finally show ?case by (simp add: char_checks_def c)
qed (simp add: char_checks_def)

text \<open>
  The lead bytes on which the table of widths and \<open>sen_str_charlen_nonnull\<close> agree: not the
  three-byte characters of EUC-JP and not the bytes that start no character.
\<close>

definition plain_lead :: "sen_encoding \<Rightarrow> byte \<Rightarrow> bool" where
  "plain_lead enc c =
     (case enc of
        sen_enc_euc_jp \<Rightarrow> c < 0x80 \<or> c = 0x8e \<or> 0xa1 \<le> c \<and> c \<le> 0xfe
      | sen_enc_sjis \<Rightarrow> c \<noteq> 0x80 \<and> c \<le> 0xfc
      | sen_enc_utf8 \<Rightarrow> utf8_lead c \<le> 4
      | _ \<Rightarrow> True)"

lemma utf8_fake_width:
  "utf8_lead c \<le> 4 \<Longrightarrow> utf8_lead c \<noteq> 0 \<Longrightarrow> fake_width sen_enc_utf8 c = utf8_lead c"
  unfolding utf8_lead_def fake_width_def lead_masks width_masks
  by (cases "bit c 7"; cases "bit c 6"; cases "bit c 5"; cases "bit c 4"; cases "bit c 3")
    (simp_all split: if_splits)

lemma high_bit: "c AND 0x80 \<noteq> 0 \<longleftrightarrow> 0x80 \<le> (c::byte)"
proof -
  have "bit c 7 \<longleftrightarrow> odd (unat c div 2 ^ 7)"
    using bit_iff_odd [of "unat c" 7] by (simp only: bit_unsigned_iff) simp
  moreover have "unat c div 2 ^ 7 = (if 128 \<le> unat c then 1 else 0)"
    using unat_byte_less [of c] by (auto intro: div_nat_eqI)
  ultimately show ?thesis by (simp add: lead_masks word_le_nat_alt)
qed

lemma sjis_fake_width:
  "c \<noteq> 0x80 \<Longrightarrow> c \<le> 0xfc \<Longrightarrow> fake_width sen_enc_sjis c =
     (if c AND 0x80 \<noteq> 0 then (if 0xa0 \<le> c \<and> c \<le> 0xdf then 1 else 2) else 1)"
  unfolding high_bit by (auto simp: fake_width_def word_le_nat_alt word_unat_eq_iff)

lemma euc_fake_width:
  "c < 0x80 \<or> c = 0x8e \<or> 0xa1 \<le> c \<and> c \<le> 0xfe \<Longrightarrow>
   fake_width sen_enc_euc_jp c = (if c AND 0x80 \<noteq> 0 then 2 else 1)"
  unfolding high_bit by (auto simp: fake_width_def word_le_nat_alt word_less_nat_alt)

lemma plain_width:
  assumes "sen_str_charlen_nonnull s enc = n" "0 < n" "plain_lead enc (hd s)"
  shows "fake_width enc (hd s) = n"
proof (cases s)
  case (Cons c t)
  show ?thesis
  proof (cases enc)
    case sen_enc_utf8
    then have "sen_str_charlen_utf8 s = n" using assms(1) Cons by (simp add: sen_str_charlen_nonnull_def)
    then have "utf8_lead c = n" using charlen_utf8_lead [of s] assms(2) Cons by (simp split: if_splits)
    then show ?thesis using utf8_fake_width [of c] assms(2,3) Cons sen_enc_utf8
      by (simp add: plain_lead_def)
  next
    case sen_enc_sjis
    then show ?thesis using sjis_fake_width [of c] assms Cons
      by (auto simp: plain_lead_def sen_str_charlen_nonnull_def split: if_splits)
  next
    case sen_enc_euc_jp
    then show ?thesis using euc_fake_width [of c] assms Cons
      by (auto simp: plain_lead_def sen_str_charlen_nonnull_def split: if_splits)
  qed (use assms Cons in \<open>auto simp: sen_str_charlen_nonnull_def fake_width_def\<close>)
qed (use assms in simp)

lemma split_plain:
  "chars_of enc s = Some cs \<Longrightarrow> \<forall>c \<in> set cs. plain_lead enc (hd c) \<Longrightarrow>
     \<forall>c \<in> set cs. c \<noteq> [] \<and> fake_width enc (hd c) = length c"
proof (induction cs arbitrary: s)
  case (Cons c cs)
  then have "s \<noteq> []" by auto
  with Cons.prems(1) have c: "c = take (sen_str_charlen_nonnull s enc) s"
    "0 < sen_str_charlen_nonnull s enc" "length c = sen_str_charlen_nonnull s enc"
    and rest: "chars_of enc (drop (sen_str_charlen_nonnull s enc) s) = Some cs"
    using delimited_reader.split_Cons [of s enc "c # cs"] by auto
  have "hd c = hd s" using c(1,2) by simp
  then have "fake_width enc (hd c) = length c"
    using plain_width [OF refl c(2)] Cons.prems(2) c(3) by simp
  then show ?case using Cons.IH [OF rest] Cons.prems(2) c(2,3) by auto
qed simp

section \<open>Correctness\<close>

text \<open>
  C16: \<open>sen_str_normalize\<close> of a UTF-8 string, when memory suffices, returns the length of its
  normal form; it writes the normal form with its terminator when the buffer is longer than
  that, without the terminator when it just fits, and leaves a shorter buffer as it is.
\<close>

theorem sen_str_normalize_utf8:
  assumes "nfkc_ok nf" "n \<le> length s" "\<forall>k. alloc k" "buf_size \<le> int (length buf)"
    and "t = utf8_text nf (has_flag flags SEN_STR_REMOVEBLANK) (take n s)" "length t < 2 ^ 31 - 1"
  shows "sen_str_normalize alloc nf blk (Some s) n sen_enc_utf8 flags buf buf_size =
    Some (int (length t),
      (if int (length t) < buf_size then (t @ [0]) @ drop (length t + 1) buf
       else if int (length t) = buf_size then t @ drop (length t) buf else buf))"
proof -
  obtain nstr where "sen_nstr_open alloc nf blk (Some s) n sen_enc_utf8 flags = Some (Some nstr)"
    "ns_norm nstr = Some (t @ [0])" "ns_norm_blen nstr = length t"
    using open_utf8 [OF assms(1-3)] assms(5) by metis
  then show ?thesis using store_norm_text [OF _ _ assms(6,4)] by (simp add: sen_str_normalize_def)
qed

theorem sen_str_normalize_utf8_witness:
  "sen_str_normalize (\<lambda>_. True) nf_example (new_nstr [] 0 sen_enc_none 0) (Some ligature) 5 sen_enc_utf8 0 [1, 2, 3, 4, 5] 5 =
     Some (3, [0x66, 0xc4, 0xab, 0, 5])"
proof -
  have t: "utf8_text nf_example (has_flag 0 SEN_STR_REMOVEBLANK) (take 5 ligature) = [0x66, 0xc4, 0xab]"
    using ligature_out [of "has_flag 0 SEN_STR_REMOVEBLANK" 0]
    by (simp add: utf8_out_def utf8_text_def new_nstr_def)
  show ?thesis
    using sen_str_normalize_utf8 [OF nf_example_ok _ _ _ refl, of 5 ligature "\<lambda>_. True" 5
        "[1, 2, 3, 4, 5]" 0 "(new_nstr [] 0 sen_enc_none 0)"] t
    by (simp add: ligature_def)
qed

text \<open>
  C14: on well-formed UTF-8 of characters of at most six bytes \<open>fast_sen_str_normalize\<close> gives
  what \<open>sen_str_normalize\<close> gives for UTF-8 and no flags: the same length and the same buffer.
\<close>

theorem fast_sen_str_normalize_equiv:
  assumes "nfkc_ok nf" "n \<le> length s" "\<forall>k. alloc k" "buf_size \<le> int (length buf)"
    and "split_chars sen_str_charlen_utf8 (take n s) = Some cs" "\<forall>c \<in> set cs. length c \<le> 6"
    and "length (utf8_text nf False (take n s)) < 2 ^ 31 - 1"
  shows "\<exists>r. fast_sen_str_normalize alloc nf blk (Some s) n buf buf_size = Some r \<and>
    sen_str_normalize alloc nf blk (Some s) n sen_enc_utf8 0 buf buf_size = Some r"
proof -
  let ?t = "utf8_text nf False (take n s)"
  have "has_flag 0 SEN_STR_REMOVEBLANK = False" by (simp add: has_flag_def)
  then obtain n1 where n1: "sen_nstr_open alloc nf blk (Some s) n sen_enc_utf8 0 = Some (Some n1)"
    "ns_norm n1 = Some (?t @ [0])" "ns_norm_blen n1 = length ?t"
    using open_utf8 [OF assms(1-3), of blk 0] by metis
  obtain n2 where n2: "fast_sen_nstr_open alloc nf blk (Some s) n = Some (Some n2)"
    "ns_norm n2 = Some (?t @ [0])" "ns_norm_blen n2 = length ?t"
    using fast_open_utf8 [OF assms(1-3,5,6)] by metis
  show ?thesis
    unfolding sen_str_normalize_def fast_sen_str_normalize_def n1(1) n2(1)
      store_norm_text [OF n1(2,3) assms(7,4)] store_norm_text [OF n2(2,3) assms(7,4)]
    by blast
qed

theorem fast_sen_str_normalize_equiv_witness:
  "\<exists>r. fast_sen_str_normalize (\<lambda>_. True) nf_example (new_nstr [] 0 sen_enc_none 0) (Some ligature) 5 [1, 2, 3] 3 = Some r \<and>
    sen_str_normalize (\<lambda>_. True) nf_example (new_nstr [] 0 sen_enc_none 0) (Some ligature) 5 sen_enc_utf8 0 [1, 2, 3] 3 = Some r"
proof -
  have cs: "split_chars sen_str_charlen_utf8 (take 5 ligature) = Some [[0xef, 0xac, 0x81], [0xcc, 0x84]]"
    by (simp add: ligature_def split_chars.simps sen_str_charlen_utf8_def utf8_width.simps)
  have t: "utf8_text nf_example False (take 5 ligature) = [0x66, 0xc4, 0xab]"
    using ligature_out [of False 0] by (simp add: utf8_out_def utf8_text_def new_nstr_def)
  show ?thesis
    using fast_sen_str_normalize_equiv [OF nf_example_ok _ _ _ cs, of "\<lambda>_. True" 3 "[1, 2, 3]" "(new_nstr [] 0 sen_enc_none 0)"] t
    by (simp add: ligature_def)
qed

text \<open>
  C36: \<open>sen_fakenstr_open\<close>, asked for checks, returns NULL exactly when the structure, the copy
  of the text or the array of checks cannot be allocated, and otherwise a copy of the text with
  its NUL and checks that give the length of every character at its first byte and 0 at the
  others. The text is one that splits into characters whose first bytes are plain: those on
  which the widths of this function and \<open>sen_str_charlen_nonnull\<close> agree.
\<close>

theorem sen_fakenstr_open_checks:
  assumes "chars_of enc (take n s) = Some cs" "\<forall>c \<in> set cs. plain_lead enc (hd c)"
    and "n \<le> length s" "has_flag flags SEN_STR_WITH_CHECKS"
  shows "(sen_fakenstr_open alloc blk s n enc flags = None \<longleftrightarrow>
      \<not> alloc sizeof_sen_nstr \<or> \<not> alloc (n + 1) \<or> \<not> alloc (2 * n)) \<and>
    (case sen_fakenstr_open alloc blk s n enc flags of
      None \<Rightarrow> True
    | Some nstr \<Rightarrow>
        ns_norm nstr = Some (take n s @ [0]) \<and> ns_norm_blen nstr = n \<and>
        ns_checks nstr = Some (char_checks cs))"
proof -
  have "take n s = concat cs" using delimited_reader.split_concat [OF assms(1)] by simp
  then have "fake_checks enc 0 (take n s) = char_checks cs"
    using fake_checks_chars [OF split_plain [OF assms(1,2)]] by simp
  then show ?thesis using assms(4) by (simp add: sen_fakenstr_open_def Let_def)
qed

theorem sen_fakenstr_open_checks_witness:
  "ns_checks (the (sen_fakenstr_open (\<lambda>_. True) (new_nstr [] 0 sen_enc_none 0) [0x41, 0xe3, 0x81, 0x82] 4 sen_enc_utf8 4)) =
     Some [1, 3, 0, 0]"
proof -
  have "chars_of sen_enc_utf8 (take 4 [0x41, 0xe3, 0x81, 0x82]) = Some [[0x41], [0xe3, 0x81, 0x82]]"
    by (simp add: split_chars.simps sen_str_charlen_nonnull_def sen_str_charlen_utf8_def utf8_width.simps)
  note * = sen_fakenstr_open_checks [OF this, of 4 "\<lambda>_. True" "(new_nstr [] 0 sen_enc_none 0)"]
  have p: "\<forall>c \<in> set [[0x41], [0xe3, 0x81, 0x82 :: byte]]. plain_lead sen_enc_utf8 (hd c)"
    by (simp add: plain_lead_def utf8_lead_def)
  have k: "char_checks [[0x41], [0xe3, 0x81, 0x82]] = [1, 3, 0, 0]" by (simp add: char_checks_def)
  show ?thesis
    using * [OF p] unfolding k by (auto simp: has_flag_def SEN_STR_WITH_CHECKS_def split: option.splits)
qed

end
