(* ===== verification/Snip_Search.thy ===== *)
theory Snip_Search
  imports Nstr_Open
begin

text \<open>
  Keyword search of the snippet generator (lib/snip.c): the shift table
  \<open>sen_bm_preBmBc\<close>, the tuned Boyer-Moore search \<open>sen_bm_tunedbm\<close> with its unrolled loop, and
  the translation of a position in the normalised text into offsets of the source
  (\<open>SEN_BM_COMPARE\<close>). Pointers into the normalised text are offsets from its start. The
  search loops are \<open>partial_function\<close>s, \<open>None\<close> standing for a loop that does not end; they are
  shown to end with the first occurrence that starts a character.
\<close>

section \<open>Search conditions\<close>

datatype snip_stop =
    SNIPCOND_NONSTOP
  | SNIPCOND_STOP
  | SNIPCOND_ACROSS

text \<open>
  A tag: the default tag of the snippet generator, memory of the caller, or a copy
  (\<open>None\<close> for a NULL pointer).
\<close>

datatype snip_tag =
    Tag_default "bytes option"
  | Tag_given bytes
  | Tag_copied bytes

record snip_cond =
  sc_opentag :: snip_tag
  sc_closetag :: snip_tag
  sc_opentag_len :: nat
  sc_closetag_len :: nat
  sc_keyword :: "sen_nstr option"
  sc_bmBc :: "nat list"
  sc_shift :: nat
  sc_found :: nat
  sc_last_found :: nat
  sc_start_offset :: nat
  sc_end_offset :: nat
  sc_found_alpha_head :: nat
  sc_count :: int
  sc_stopflag :: snip_stop

definition ASIZE :: nat where "ASIZE = 256"

definition SEN_SNIP_NORMALIZE :: u32 where "SEN_SNIP_NORMALIZE = 1"
definition SEN_SNIP_COPY_TAG :: u32 where "SEN_SNIP_COPY_TAG = 2"
definition SEN_SNIP_SKIP_LEADING_SPACES :: u32 where "SEN_SNIP_SKIP_LEADING_SPACES = 4"

section \<open>The shift table\<close>

definition sen_bm_preBmBc :: "bytes \<Rightarrow> nat \<Rightarrow> nat list" where
  "sen_bm_preBmBc x m =
     fold (\<lambda>i bmBc. bmBc[unat (x ! i) := m - (i + 1)]) [0..<m - 1] (replicate ASIZE m)"

section \<open>From a position to offsets\<close>

text \<open>The loop that adds up the checks before \<open>found\<close>: the offset and the last head of a character.\<close>

definition bm_sum :: "int list \<Rightarrow> nat \<Rightarrow> nat \<Rightarrow> nat \<times> nat \<Rightarrow> nat \<times> nat" where
  "bm_sum checks lo hi start =
     fold (\<lambda>i (offset, head). if 0 < checks ! i then (offset + nat (checks ! i), i) else (offset, head))
       [lo..<hi] start"

text \<open>The loop that skips white space in front of the occurrence.\<close>

function skip_spaces :: "bytes \<Rightarrow> nat \<Rightarrow> sen_encoding \<Rightarrow> nat \<Rightarrow> nat" where
  "skip_spaces orig orig_blen encoding offset =
     (let i = sen_isspace (Some (drop offset orig)) encoding
      in if offset < orig_blen \<and> i \<noteq> 0 then skip_spaces orig orig_blen encoding (offset + i) else offset)"
  by pat_completeness auto
termination
  by (relation "measure (\<lambda>(orig, n, e, offset). n - offset)") auto

declare skip_spaces.simps [simp del]

text \<open>
  The reporting part of \<open>SEN_BM_COMPARE\<close>, for an occurrence at \<open>found\<close>; offsets are of type
  \<open>size_t\<close>, so that the subtraction wraps.
\<close>

definition bm_report :: "snip_cond \<Rightarrow> sen_nstr \<Rightarrow> u32 \<Rightarrow> nat \<Rightarrow> nat \<Rightarrow> nat \<Rightarrow> snip_cond" where
  "bm_report cond object flags m found shift =
     (let checks = the (ns_checks object);
          (offset1, head) = bm_sum checks (sc_last_found cond) found
                              (sc_start_offset cond, sc_found_alpha_head cond);
          back = checks ! found < 0;
          offset2 = (if back then nat ((int offset1 - checks ! head) mod 2 ^ 64) else offset1);
          last_found = (if back then head else found);
          offset3 = (if has_flag flags SEN_SNIP_SKIP_LEADING_SPACES
                     then skip_spaces (ns_orig object) (ns_orig_blen object) (ns_encoding object) offset2
                     else offset2);
          (offset4, _) = bm_sum checks last_found (found + m) (offset3, 0)
      in cond\<lparr>sc_last_found := last_found, sc_start_offset := offset3, sc_end_offset := offset4,
              sc_found := found + shift, sc_found_alpha_head := head\<rparr>)"

section \<open>The search\<close>

text \<open>The loop of \<open>SEN_BM_BM_COMPARE\<close>, from \<open>i = 3\<close> on.\<close>

function bm_same :: "bytes \<Rightarrow> nat \<Rightarrow> bytes \<Rightarrow> nat \<Rightarrow> nat \<Rightarrow> bool" where
  "bm_same x m y p i =
     (if i \<le> m then (if y ! (p - i) = x ! (m - i) then bm_same x m y p (i + 1) else False) else True)"
  by pat_completeness auto
termination
  by (relation "measure (\<lambda>(x, m, y, p, i). m + 1 - i)") auto

declare bm_same.simps [simp del]

text \<open>
  \<open>SEN_BM_BM_COMPARE\<close> followed by the test of \<open>SEN_BM_COMPARE\<close>: an occurrence that ends at \<open>p\<close>
  and starts a character.
\<close>

definition bm_hit :: "bytes \<Rightarrow> nat \<Rightarrow> bytes \<Rightarrow> int list \<Rightarrow> nat \<Rightarrow> bool" where
  "bm_hit x m y checks p \<longleftrightarrow>
     y ! (p - 2) = x ! (m - 2) \<and> bm_same x m y p 3 \<and> checks ! (p - m) \<noteq> 0"

definition bm_jump :: "nat list \<Rightarrow> bytes \<Rightarrow> nat \<Rightarrow> nat" where
  "bm_jump bmBc y p = bmBc ! unat (y ! (p - 1))"

text \<open>
  One round of the unrolled loop: the position after it, and whether the code goes to \<open>check\<close>
  with it.
\<close>

definition bm_round :: "nat list \<Rightarrow> bytes \<Rightarrow> nat \<Rightarrow> bool \<times> nat" where
  "bm_round bmBc y p =
     (let p = p + bm_jump bmBc y p; delta1 = bm_jump bmBc y p in
      if delta1 = 0 then (True, p)
      else
        (let p = p + delta1; p = p + bm_jump bmBc y p; p = p + bm_jump bmBc y p;
             delta1 = bm_jump bmBc y p in
         if delta1 = 0 then (True, p)
         else
           (let p = p + delta1; p = p + bm_jump bmBc y p; p = p + bm_jump bmBc y p;
                delta1 = bm_jump bmBc y p in
            if delta1 = 0 then (True, p)
            else
              (let p = p + delta1; p = p + bm_jump bmBc y p; p = p + bm_jump bmBc y p in
               (False, p)))))"

text \<open>
  The unrolled loop, up to \<open>limit\<close>; the result is the end of an occurrence (\<open>Inl\<close>) or the
  position where the loop stopped (\<open>Inr\<close>).
\<close>

partial_function (option) bm_fast ::
  "bytes \<Rightarrow> nat \<Rightarrow> bytes \<Rightarrow> int list \<Rightarrow> nat list \<Rightarrow> nat \<Rightarrow> nat \<Rightarrow> nat \<Rightarrow> (nat + nat) option" where
  "bm_fast x m y checks bmBc shift limit p =
     (if \<not> p \<le> limit then Some (Inr p)
      else if fst (bm_round bmBc y p) then
        (if bm_hit x m y checks (snd (bm_round bmBc y p)) then Some (Inl (snd (bm_round bmBc y p)))
         else bm_fast x m y checks bmBc shift limit (snd (bm_round bmBc y p) + shift))
      else bm_fast x m y checks bmBc shift limit (snd (bm_round bmBc y p)))"

text \<open>The plain loop up to the end of the text.\<close>

partial_function (option) bm_slow ::
  "bytes \<Rightarrow> nat \<Rightarrow> bytes \<Rightarrow> int list \<Rightarrow> nat list \<Rightarrow> nat \<Rightarrow> nat \<Rightarrow> nat \<Rightarrow> nat option option" where
  "bm_slow x m y checks bmBc shift limit p =
     (if \<not> p \<le> limit then Some None
      else
        (if bm_jump bmBc y p = 0 then
           (if bm_hit x m y checks p then Some (Some p)
            else bm_slow x m y checks bmBc shift limit (p + shift + bm_jump bmBc y p))
         else bm_slow x m y checks bmBc shift limit (p + bm_jump bmBc y p)))"

text \<open>
  The search for a keyword of at least two bytes, from \<open>found\<close> on: the end of the occurrence.
  \<open>found\<close> never exceeds \<open>n\<close>, so that \<open>n - found\<close> does not wrap.
\<close>

definition bm_search ::
  "bytes \<Rightarrow> nat \<Rightarrow> bytes \<Rightarrow> nat \<Rightarrow> int list \<Rightarrow> nat list \<Rightarrow> nat \<Rightarrow> nat \<Rightarrow> nat option option" where
  "bm_search x m y n checks bmBc shift found =
     (if 12 * m < n - found then
        (case bm_fast x m y checks bmBc shift (n - 11 * m) (m + found) of
           None \<Rightarrow> None
         | Some (Inl p) \<Rightarrow> Some (Some p)
         | Some (Inr p) \<Rightarrow> bm_slow x m y checks bmBc shift n p)
      else bm_slow x m y checks bmBc shift n (m + found))"

text \<open>\<open>memchr(y + from, c, n - from)\<close>, as an offset from \<open>y\<close>.\<close>

definition memchr_from :: "bytes \<Rightarrow> nat \<Rightarrow> byte \<Rightarrow> nat \<Rightarrow> nat option" where
  "memchr_from y from c n = List.find (\<lambda>i. y ! i = c) [from..<n]"

definition sen_bm_tunedbm :: "snip_cond \<Rightarrow> sen_nstr \<Rightarrow> u32 \<Rightarrow> snip_cond option" where
  "sen_bm_tunedbm cond object flags =
     (let n = ns_norm_blen object;
          keyword = the (sc_keyword cond);
          m = ns_norm_blen keyword;
          x = take m (the (ns_norm keyword));
          y = the (ns_norm object);
          checks = the (ns_checks object);
          stopped = Some (cond\<lparr>sc_stopflag := SNIPCOND_STOP\<rparr>)
      in if m = 1 then
           (if sc_found cond < n then
              (case memchr_from y (sc_found cond) (x ! 0) n of
                 Some found \<Rightarrow>
                   (if checks ! found \<noteq> 0 then Some (bm_report cond object flags m found 1) else stopped)
               | None \<Rightarrow> stopped)
            else stopped)
         else
           (case bm_search x m y n checks (sc_bmBc cond) (sc_shift cond) (sc_found cond) of
              None \<Rightarrow> None
            | Some None \<Rightarrow> stopped
            | Some (Some p) \<Rightarrow> Some (bm_report cond object flags m (p - m) (sc_shift cond))))"

section \<open>Occurrences\<close>

text \<open>
  \<open>occurs x y n e\<close>: the first \<open>n\<close> bytes of \<open>y\<close> have an occurrence of \<open>x\<close> that ends just
  before \<open>e\<close>; \<open>reported\<close> when it starts a character.
\<close>

definition occurs :: "bytes \<Rightarrow> bytes \<Rightarrow> nat \<Rightarrow> nat \<Rightarrow> bool" where
  "occurs x y n e \<longleftrightarrow>
     length x \<le> e \<and> e \<le> n \<and> (\<forall>i < length x. y ! (e - length x + i) = x ! i)"

definition reported :: "bytes \<Rightarrow> bytes \<Rightarrow> nat \<Rightarrow> int list \<Rightarrow> nat \<Rightarrow> bool" where
  "reported x y n checks e \<longleftrightarrow> occurs x y n e \<and> checks ! (e - length x) \<noteq> 0"

text \<open>The table that \<open>sen_snip_cond_init\<close> prepares: the entry of the last byte is moved to \<open>shift\<close>.\<close>

definition bm_table :: "bytes \<Rightarrow> nat list \<Rightarrow> nat \<Rightarrow> bool" where
  "bm_table x bmBc shift \<longleftrightarrow>
     (let m = length x; t = sen_bm_preBmBc x m in
      shift = t ! unat (x ! (m - 1)) \<and> bmBc = t[unat (x ! (m - 1)) := 0])"

lemma fold_list_update_length:
  "length (fold (\<lambda>i b. b[f i := g i]) is b) = length b"
  by (induction "is" arbitrary: b) simp_all

lemma preBmBc_length: "length (sen_bm_preBmBc x m) = 256"
  by (simp add: sen_bm_preBmBc_def ASIZE_def fold_list_update_length)

lemma preBmBc_fold:
  fixes x :: bytes
  assumes "k \<le> m - 1"
  shows "let t = fold (\<lambda>i b. b[unat (x ! i) := m - (i + 1)]) [0..<k] (replicate ASIZE m) in
    (\<forall>c < 256. t ! c \<le> m \<and> (0 < m \<longrightarrow> 0 < t ! c)) \<and> (\<forall>i < k. t ! unat (x ! i) \<le> m - (i + 1))"
  using assms
proof (induction k)
  case (Suc k)
  define t where "t = fold (\<lambda>i b. b[unat (x ! i) := m - (i + 1)]) [0..<k] (replicate ASIZE m)"
  have l: "length t = 256" by (simp add: t_def fold_list_update_length ASIZE_def)
  have IH: "\<forall>c < 256. t ! c \<le> m \<and> (0 < m \<longrightarrow> 0 < t ! c)" "\<forall>i < k. t ! unat (x ! i) \<le> m - (i + 1)"
    using Suc by (simp_all add: t_def Let_def)
  have e: "fold (\<lambda>i b. b[unat (x ! i) := m - (i + 1)]) [0..<Suc k] (replicate ASIZE m) =
      t[unat (x ! k) := m - (k + 1)]"
    by (simp add: t_def)
  have "t[unat (x ! k) := m - (k + 1)] ! unat (x ! i) \<le> m - (i + 1)" if "i < Suc k" for i
    using that IH(2) l by (cases "unat (x ! i) = unat (x ! k)") (auto simp: less_Suc_eq nth_list_update)
  moreover have "t[unat (x ! k) := m - (k + 1)] ! c \<le> m \<and> (0 < m \<longrightarrow> 0 < t[unat (x ! k) := m - (k + 1)] ! c)"
    if "c < 256" for c
    using that IH(1) l Suc.prems by (cases "c = unat (x ! k)") (auto simp: nth_list_update)
  ultimately show ?case unfolding e Let_def by blast
qed (simp add: ASIZE_def)

lemma preBmBc_bounds:
  fixes x :: bytes and c :: byte
  shows "sen_bm_preBmBc x m ! unat c \<le> m" "0 < m \<Longrightarrow> 0 < sen_bm_preBmBc x m ! unat c"
  "i < m - 1 \<Longrightarrow> sen_bm_preBmBc x m ! unat (x ! i) \<le> m - (i + 1)"
proof -
  have f: "(\<forall>c < 256. sen_bm_preBmBc x m ! c \<le> m \<and> (0 < m \<longrightarrow> 0 < sen_bm_preBmBc x m ! c)) \<and>
      (\<forall>i < m - 1. sen_bm_preBmBc x m ! unat (x ! i) \<le> m - (i + 1))"
    using preBmBc_fold [of "m - 1" m x] unfolding sen_bm_preBmBc_def Let_def by simp
  note c = f [THEN conjunct1, rule_format, OF unat_byte_less [of c]]
  show "sen_bm_preBmBc x m ! unat c \<le> m" "0 < m \<Longrightarrow> 0 < sen_bm_preBmBc x m ! unat c"
    using c by simp_all
  show "i < m - 1 \<Longrightarrow> sen_bm_preBmBc x m ! unat (x ! i) \<le> m - (i + 1)" using f by blast
qed

lemma bm_table_shift:
  assumes "bm_table x bmBc shift" "x \<noteq> []"
  shows "0 < shift" "shift \<le> length x"
proof -
  have s: "shift = sen_bm_preBmBc x (length x) ! unat (x ! (length x - 1))"
    using assms(1) by (simp add: bm_table_def Let_def)
  show "0 < shift" "shift \<le> length x"
    unfolding s by (rule preBmBc_bounds(2), use assms(2) in simp, rule preBmBc_bounds(1))
qed

lemma bm_table_entry:
  assumes "bm_table x bmBc shift" "x \<noteq> []"
  shows "bmBc ! unat c = (if c = x ! (length x - 1) then 0 else sen_bm_preBmBc x (length x) ! unat c)"
  using assms by (auto simp: bm_table_def Let_def preBmBc_length word_unat_eq_iff nth_list_update)

lemma bm_table_le:
  fixes c :: byte
  assumes "bm_table x bmBc shift" "x \<noteq> []"
  shows "bmBc ! unat c \<le> length x"
  using bm_table_entry [OF assms, of c] preBmBc_bounds(1) [where x = x and m = "length x" and c = c]
  by (auto split: if_splits)

text \<open>No occurrence ends between a position and the one its last byte lets the search jump to.\<close>

lemma occurs_byte:
  assumes "occurs x y n e" "p \<le> e" "e < p + length x" "0 < p"
  shows "y ! (p - 1) = x ! (length x - 1 - (e - p))"
proof -
  let ?i = "length x - 1 - (e - p)"
  have "?i < length x" using assms(2,3) by auto
  with assms(1) have "y ! (e - length x + ?i) = x ! ?i" unfolding occurs_def by blast
  moreover have "e - length x + ?i = p - 1" using assms by (auto simp: occurs_def)
  ultimately show ?thesis by simp
qed

lemma bm_jump_safe:
  assumes t: "bm_table x bmBc shift" "x \<noteq> []"
    and "occurs x y n e" "p \<le> e" "0 < p"
  shows "p + bm_jump bmBc y p \<le> e"
proof (rule ccontr)
  assume "\<not> p + bm_jump bmBc y p \<le> e"
  then have lt: "e < p + bm_jump bmBc y p" by simp
  then have len: "e < p + length x" using bm_table_le [OF t, of "y ! (p - 1)"] by (simp add: bm_jump_def)
  note b = occurs_byte [OF assms(3,4) len assms(5)]
  show False
  proof (cases "e = p")
    case True
    then show ?thesis using b lt bm_table_entry [OF t] by (simp add: bm_jump_def)
  next
    case False
    then have i: "length x - 1 - (e - p) < length x - 1" using assms(4) len by auto
    have "bm_jump bmBc y p \<le> sen_bm_preBmBc x (length x) ! unat (y ! (p - 1))"
      using bm_table_entry [OF t] by (simp add: bm_jump_def)
    also have "\<dots> \<le> e - p" using preBmBc_bounds(3) [OF i, where x = x] len assms(4) unfolding b by auto
    finally show ?thesis using lt assms(4) by linarith
  qed
qed

lemma bm_shift_safe:
  assumes t: "bm_table x bmBc shift" "x \<noteq> []"
    and "occurs x y n e" "p < e" "0 < p" "bm_jump bmBc y p = 0"
  shows "p + shift \<le> e"
proof (rule ccontr)
  assume "\<not> p + shift \<le> e"
  then have lt: "e < p + shift" by simp
  then have len: "e < p + length x" using bm_table_shift(2) [OF t] by simp
  note b = occurs_byte [OF assms(3) less_imp_le [OF assms(4)] len assms(5)]
  have "y ! (p - 1) = x ! (length x - 1)"
    using assms(6) bm_table_entry [OF t, of "y ! (p - 1)"] preBmBc_bounds(2) [where x = x and m = "length x" and c = "y ! (p - 1)"] t(2)
    by (auto simp: bm_jump_def split: if_splits)
  then have "shift = sen_bm_preBmBc x (length x) ! unat (y ! (p - 1))"
    using t(1) by (simp add: bm_table_def Let_def)
  also have "\<dots> \<le> e - p"
    using preBmBc_bounds(3) [where i = "length x - 1 - (e - p)" and m = "length x" and x = x] len assms(4) unfolding b by auto
  finally show False using lt assms(4) by simp
qed

lemma bm_same_iff: "bm_same x m y p i \<longleftrightarrow> (\<forall>j. i \<le> j \<and> j \<le> m \<longrightarrow> y ! (p - j) = x ! (m - j))"
proof (induction x m y p i rule: bm_same.induct)
  case (1 x m y p i)
  show ?case
  proof (cases "i \<le> m")
    case True
    have "(\<forall>j. i \<le> j \<and> j \<le> m \<longrightarrow> y ! (p - j) = x ! (m - j)) \<longleftrightarrow>
        y ! (p - i) = x ! (m - i) \<and> (\<forall>j. i + 1 \<le> j \<and> j \<le> m \<longrightarrow> y ! (p - j) = x ! (m - j))"
      using True by (metis Suc_eq_plus1 Suc_leI le_neq_implies_less le_refl less_imp_le_nat Suc_le_lessD)
    then show ?thesis using 1 True by (subst bm_same.simps) auto
  next
    case False
    then show ?thesis by (subst bm_same.simps) auto
  qed
qed

lemma bm_hit_iff:
  assumes t: "bm_table x bmBc shift" and "2 \<le> length x" "length x \<le> p" "p \<le> n" "bm_jump bmBc y p = 0"
  shows "bm_hit x (length x) y checks p \<longleftrightarrow> reported x y n checks p"
proof -
  have ne: "x \<noteq> []" using assms(2) by auto
  have last: "y ! (p - 1) = x ! (length x - 1)"
    using assms(5) bm_table_entry [OF t ne, of "y ! (p - 1)"]
      preBmBc_bounds(2) [where x = x and m = "length x" and c = "y ! (p - 1)"] ne
    by (auto simp: bm_jump_def split: if_splits)
  have "(y ! (p - 2) = x ! (length x - 2) \<and> bm_same x (length x) y p 3) \<longleftrightarrow>
      (\<forall>j. 1 \<le> j \<and> j \<le> length x \<longrightarrow> y ! (p - j) = x ! (length x - j))" (is "?l \<longleftrightarrow> ?r")
  proof
    assume l: ?l
    show ?r
    proof (intro allI impI)
      fix j assume j: "1 \<le> j \<and> j \<le> length x"
      consider "j = 1" | "j = 2" | "3 \<le> j" using j by linarith
      then show "y ! (p - j) = x ! (length x - j)"
        using last l j unfolding bm_same_iff by cases simp_all
    qed
  qed (use assms(2) in \<open>simp add: bm_same_iff\<close>)
  also have "\<dots> \<longleftrightarrow> occurs x y n p"
  proof
    assume r: ?r
    have "y ! (p - length x + i) = x ! i" if "i < length x" for i
      using r [rule_format, of "length x - i"] that assms(3) by simp
    then show "occurs x y n p" using assms(3,4) by (simp add: occurs_def)
  next
    assume o: "occurs x y n p"
    show ?r
    proof (intro allI impI)
      fix j assume j: "1 \<le> j \<and> j \<le> length x"
      then have "p - length x + (length x - j) = p - j" using assms(3) by simp
      with o j show "y ! (p - j) = x ! (length x - j)" unfolding occurs_def
        by (metis diff_less less_le_trans zero_less_one)
    qed
  qed
  finally show ?thesis by (auto simp: bm_hit_def reported_def)
qed

section \<open>The search finds the first occurrence\<close>

text \<open>\<open>clear_to a b\<close>: nothing is to be reported that ends at \<open>a\<close> or later, and before \<open>b\<close>.\<close>

definition clear_to :: "bytes \<Rightarrow> bytes \<Rightarrow> nat \<Rightarrow> int list \<Rightarrow> nat \<Rightarrow> nat \<Rightarrow> bool" where
  "clear_to x y n checks a b \<longleftrightarrow> (\<forall>e. reported x y n checks e \<longrightarrow> a \<le> e \<longrightarrow> b \<le> e)"

lemma clear_jump:
  assumes "bm_table x bmBc shift" "x \<noteq> []" "clear_to x y n checks a p" "0 < p"
  shows "clear_to x y n checks a (p + bm_jump bmBc y p)"
  using bm_jump_safe [OF assms(1,2)] assms(3,4) unfolding clear_to_def reported_def by blast

lemma clear_shift:
  assumes "bm_table x bmBc shift" "x \<noteq> []" "clear_to x y n checks a p" "0 < p"
    and "bm_jump bmBc y p = 0" "\<not> reported x y n checks p"
  shows "clear_to x y n checks a (p + shift)"
  unfolding clear_to_def
proof (intro allI impI)
  fix e assume e: "reported x y n checks e" "a \<le> e"
  then have "p \<le> e" using assms(3) unfolding clear_to_def by blast
  moreover have "e \<noteq> p" using e assms(6) by auto
  ultimately show "p + shift \<le> e"
    using bm_shift_safe [OF assms(1,2) _ _ assms(4,5)] e(1) unfolding reported_def
    by (metis le_neq_implies_less)
qed

lemma bm_round_ok:
  assumes t: "bm_table x bmBc shift" "x \<noteq> []" and p: "clear_to x y n checks a p" "0 < p"
    and r: "bm_round bmBc y p = (stop, q)"
  shows "clear_to x y n checks a q \<and> p \<le> q \<and> q \<le> p + 10 * length x \<and>
    (if stop then bm_jump bmBc y q = 0 \<and> q \<le> p + 8 * length x else p < q)"
proof -
  let ?j = "bm_jump bmBc y"
  have le: "?j q \<le> length x" for q using bm_table_le [OF t] by (simp add: bm_jump_def)
  define p1 where "p1 = p + ?j p"
  define p2 where "p2 = p1 + ?j p1"
  define p3 where "p3 = p2 + ?j p2"
  define p4 where "p4 = p3 + ?j p3"
  define p5 where "p5 = p4 + ?j p4"
  define p6 where "p6 = p5 + ?j p5"
  define p7 where "p7 = p6 + ?j p6"
  define p8 where "p8 = p7 + ?j p7"
  define p9 where "p9 = p8 + ?j p8"
  define p10 where "p10 = p9 + ?j p9"
  note ps = p1_def p2_def p3_def p4_def p5_def p6_def p7_def p8_def p9_def p10_def
  have mono: "0 < p1" "0 < p2" "0 < p3" "0 < p4" "0 < p5" "0 < p6" "0 < p7" "0 < p8" "0 < p9"
    using p(2) by (simp_all add: ps)
  note clear = clear_jump [OF t]
  have c1: "clear_to x y n checks a p1" unfolding p1_def by (rule clear [OF p])
  have c2: "clear_to x y n checks a p2" unfolding p2_def by (rule clear [OF c1 mono(1)])
  have c3: "clear_to x y n checks a p3" unfolding p3_def by (rule clear [OF c2 mono(2)])
  have c4: "clear_to x y n checks a p4" unfolding p4_def by (rule clear [OF c3 mono(3)])
  have c5: "clear_to x y n checks a p5" unfolding p5_def by (rule clear [OF c4 mono(4)])
  have c6: "clear_to x y n checks a p6" unfolding p6_def by (rule clear [OF c5 mono(5)])
  have c7: "clear_to x y n checks a p7" unfolding p7_def by (rule clear [OF c6 mono(6)])
  have c8: "clear_to x y n checks a p8" unfolding p8_def by (rule clear [OF c7 mono(7)])
  have c9: "clear_to x y n checks a p9" unfolding p9_def by (rule clear [OF c8 mono(8)])
  have c10: "clear_to x y n checks a p10" unfolding p10_def by (rule clear [OF c9 mono(9)])
  have up: "p \<le> p1" "p1 \<le> p2" "p2 \<le> p3" "p3 \<le> p4" "p4 \<le> p5" "p5 \<le> p6" "p6 \<le> p7" "p7 \<le> p8"
    "p8 \<le> p9" "p9 \<le> p10"
    by (simp_all add: ps)
  have bound: "p1 \<le> p + length x" "p2 \<le> p1 + length x" "p3 \<le> p2 + length x" "p4 \<le> p3 + length x"
    "p5 \<le> p4 + length x" "p6 \<le> p5 + length x" "p7 \<le> p6 + length x" "p8 \<le> p7 + length x"
    "p9 \<le> p8 + length x" "p10 \<le> p9 + length x"
    using le by (simp_all add: ps)
  have e: "bm_round bmBc y p =
      (if ?j p1 = 0 then (True, p1) else if ?j p4 = 0 then (True, p4)
       else if ?j p7 = 0 then (True, p7) else (False, p10))"
    by (simp add: bm_round_def Let_def ps)
  consider "?j p1 = 0" "stop" "q = p1" | "?j p4 = 0" "stop" "q = p4" | "?j p7 = 0" "stop" "q = p7"
    | "0 < ?j p1" "\<not> stop" "q = p10"
    using r unfolding e by (auto split: if_splits)
  then show ?thesis
  proof cases
    case 1
    with c1 up bound show ?thesis by simp
  next
    case 2
    with c4 up bound show ?thesis by simp
  next
    case 3
    with c7 up bound show ?thesis by simp
  next
    case 4
    then have "p1 < p2" by (simp add: p2_def)
    with 4 c10 up bound show ?thesis by simp
  qed
qed

lemma bm_fast_ok:
  assumes t: "bm_table x bmBc shift" "2 \<le> length x" and lim: "limit + 11 * length x \<le> n"
    and "length x \<le> p" "a \<le> p" "clear_to x y n checks a p"
  shows "\<exists>r. bm_fast x (length x) y checks bmBc shift limit p = Some r \<and>
    (case r of
       Inl e \<Rightarrow> reported x y n checks e \<and> a \<le> e \<and> clear_to x y n checks a e
     | Inr q \<Rightarrow> p \<le> q \<and> clear_to x y n checks a q)"
  using assms(4-6)
proof (induction "limit + 1 - p" arbitrary: p rule: less_induct)
  case less
  have ne: "x \<noteq> []" and pos: "0 < p" using t(2) less.prems(1) by auto
  show ?case
  proof (cases "p \<le> limit")
    case False
    then show ?thesis using less.prems by (subst bm_fast.simps) simp
  next
    case True
    obtain stop q where r: "bm_round bmBc y p = (stop, q)" by (cases "bm_round bmBc y p")
    note ok = bm_round_ok [OF t(1) ne less.prems(3) pos r]
    show ?thesis
    proof (cases "stop")
      case False
      then have q: "p < q" "clear_to x y n checks a q" using ok by simp_all
      have "bm_fast x (length x) y checks bmBc shift limit p =
          bm_fast x (length x) y checks bmBc shift limit q"
        using True False r by (subst bm_fast.simps) simp
      moreover have "\<exists>r. bm_fast x (length x) y checks bmBc shift limit q = Some r \<and>
        (case r of Inl e \<Rightarrow> reported x y n checks e \<and> a \<le> e \<and> clear_to x y n checks a e
         | Inr u \<Rightarrow> q \<le> u \<and> clear_to x y n checks a u)"
        using less.hyps [of q] less.prems q True by simp
      ultimately show ?thesis using q(1) by (force split: sum.splits)
    next
      case stop: True
      then have q: "p \<le> q" "clear_to x y n checks a q" "bm_jump bmBc y q = 0" "q \<le> n"
        using ok True lim by simp_all
      have hit: "bm_hit x (length x) y checks q \<longleftrightarrow> reported x y n checks q"
        using bm_hit_iff [OF t _ q(4,3)] less.prems(1) q(1) by simp
      show ?thesis
      proof (cases "reported x y n checks q")
        case rep: True
        then have "bm_fast x (length x) y checks bmBc shift limit p = Some (Inl q)"
          using True stop r hit by (subst bm_fast.simps) simp
        then show ?thesis using rep q less.prems(2) by simp
      next
        case False
        have e: "bm_fast x (length x) y checks bmBc shift limit p =
            bm_fast x (length x) y checks bmBc shift limit (q + shift)"
          using True stop r hit False by (subst bm_fast.simps) simp
        have sh: "0 < shift" using bm_table_shift [OF t(1) ne] by simp
        have "clear_to x y n checks a (q + shift)"
          using clear_shift [OF t(1) ne q(2) _ q(3) False] pos q(1) by simp
        then have "\<exists>r. bm_fast x (length x) y checks bmBc shift limit (q + shift) = Some r \<and>
          (case r of Inl e \<Rightarrow> reported x y n checks e \<and> a \<le> e \<and> clear_to x y n checks a e
           | Inr u \<Rightarrow> q + shift \<le> u \<and> clear_to x y n checks a u)"
          using less.hyps [of "q + shift"] less.prems q sh True by simp
        then show ?thesis unfolding e using q(1) by (force split: sum.splits)
      qed
    qed
  qed
qed

lemma bm_slow_ok:
  assumes t: "bm_table x bmBc shift" "2 \<le> length x"
    and "length x \<le> p" "a \<le> p" "clear_to x y n checks a p"
  shows "\<exists>r. bm_slow x (length x) y checks bmBc shift n p = Some r \<and>
    (case r of
       Some e \<Rightarrow> reported x y n checks e \<and> a \<le> e \<and> clear_to x y n checks a e
     | None \<Rightarrow> clear_to x y n checks a (n + 1))"
  using assms(3-5)
proof (induction "n + 1 - p" arbitrary: p rule: less_induct)
  case less
  have ne: "x \<noteq> []" and pos: "0 < p" using t(2) less.prems(1) by auto
  show ?case
  proof (cases "p \<le> n")
    case False
    then have "clear_to x y n checks a (n + 1)"
      using less.prems(3) unfolding clear_to_def reported_def occurs_def by fastforce
    then show ?thesis using False by (subst bm_slow.simps) simp
  next
    case True
    show ?thesis
    proof (cases "bm_jump bmBc y p = 0")
      case False
      have "bm_slow x (length x) y checks bmBc shift n p =
          bm_slow x (length x) y checks bmBc shift n (p + bm_jump bmBc y p)"
        using True False by (subst bm_slow.simps) simp
      then show ?thesis
        using less.hyps [of "p + bm_jump bmBc y p"] clear_jump [OF t(1) ne less.prems(3) pos]
          less.prems False True by simp
    next
      case j: True
      have hit: "bm_hit x (length x) y checks p \<longleftrightarrow> reported x y n checks p"
        using bm_hit_iff [OF t less.prems(1) True j] .
      show ?thesis
      proof (cases "reported x y n checks p")
        case rep: True
        then have "bm_slow x (length x) y checks bmBc shift n p = Some (Some p)"
          using True j hit by (subst bm_slow.simps) simp
        then show ?thesis using rep less.prems by simp
      next
        case False
        have "bm_slow x (length x) y checks bmBc shift n p =
            bm_slow x (length x) y checks bmBc shift n (p + shift)"
          using True j hit False by (subst bm_slow.simps) simp
        then show ?thesis
          using less.hyps [of "p + shift"] clear_shift [OF t(1) ne less.prems(3) pos j False]
            bm_table_shift [OF t(1) ne] less.prems True by simp
      qed
    qed
  qed
qed

lemma bm_search_ok:
  assumes t: "bm_table x bmBc shift" "2 \<le> length x"
  shows "\<exists>r. bm_search x (length x) y n checks bmBc shift found = Some r \<and>
    (case r of
       Some e \<Rightarrow> reported x y n checks e \<and> length x + found \<le> e \<and>
         clear_to x y n checks (length x + found) e
     | None \<Rightarrow> clear_to x y n checks (length x + found) (n + 1))"
proof -
  let ?a = "length x + found"
  have c: "clear_to x y n checks ?a ?a" by (simp add: clear_to_def)
  show ?thesis
  proof (cases "12 * length x < n - found")
    case False
    then show ?thesis using bm_slow_ok [OF t _ _ c] by (simp add: bm_search_def)
  next
    case True
    have "n - 11 * length x + 11 * length x \<le> n" using True by simp
    note fast = bm_fast_ok [OF t this le_add1 le_refl c]
    have e: "bm_search x (length x) y n checks bmBc shift found =
        (case bm_fast x (length x) y checks bmBc shift (n - 11 * length x) ?a of
           None \<Rightarrow> None
         | Some (Inl p) \<Rightarrow> Some (Some p)
         | Some (Inr p) \<Rightarrow> bm_slow x (length x) y checks bmBc shift n p)"
      using True unfolding bm_search_def by simp
    show ?thesis
    proof (cases "bm_fast x (length x) y checks bmBc shift (n - 11 * length x) ?a")
      case None
      with fast show ?thesis by simp
    next
      case (Some r)
      show ?thesis
      proof (cases r)
        case (Inl q)
        then show ?thesis using fast Some unfolding e by simp
      next
        case (Inr q)
        then have q: "?a \<le> q" "clear_to x y n checks ?a q" using fast Some by simp_all
        then have "length x \<le> q" by simp
        from bm_slow_ok [OF t this q] show ?thesis using Some Inr unfolding e by simp
      qed
    qed
  qed
qed

section \<open>The offsets of an occurrence\<close>

text \<open>
  The source bytes accounted for by the first \<open>j\<close> checks, and the start of the character that
  the byte \<open>j\<close> of the normalised text comes from.
\<close>

definition src_off :: "int list \<Rightarrow> nat \<Rightarrow> nat" where
  "src_off checks j = (\<Sum>i<j. nat (checks ! i))"

fun char_head :: "int list \<Rightarrow> nat \<Rightarrow> nat" where
  "char_head checks 0 = 0"
| "char_head checks (Suc j) = (if 0 < checks ! Suc j then Suc j else char_head checks j)"

lemma src_off_simps [simp]: "src_off ks 0 = 0" "src_off ks (Suc j) = src_off ks j + nat (ks ! j)"
  by (simp_all add: src_off_def)

lemma src_off_mono: "i \<le> j \<Longrightarrow> src_off ks i \<le> src_off ks j"
  by (induction j rule: dec_induct) auto

lemma char_head_le: "char_head ks j \<le> j"
  by (induction j) auto

lemma char_head_self: "0 < ks ! j \<Longrightarrow> char_head ks j = j"
  by (cases j) auto

lemma char_head_pos: "0 < ks ! 0 \<Longrightarrow> 0 < ks ! char_head ks j"
  by (induction j) auto

lemma src_off_head: "src_off ks (Suc (char_head ks j)) = src_off ks (Suc j)"
  by (induction j) auto

lemma bm_sum_Suc:
  "lo \<le> hi \<Longrightarrow> bm_sum ks lo (Suc hi) st =
     (case bm_sum ks lo hi st of (off, h) \<Rightarrow>
        if 0 < ks ! hi then (off + nat (ks ! hi), hi) else (off, h))"
  by (simp add: bm_sum_def)

lemma bm_sum_off:
  assumes "lo \<le> hi"
  shows "fst (bm_sum ks lo hi (src_off ks lo + c, h)) = src_off ks hi + c"
  using assms
proof (induction hi rule: dec_induct)
  case (step hi)
  then show ?case by (auto simp: bm_sum_Suc split: prod.splits)
qed (simp add: bm_sum_def)

lemma bm_sum_head:
  assumes "lo \<le> hi" "0 < ks ! lo"
  shows "snd (bm_sum ks lo (Suc hi) st) = char_head ks hi"
  using assms
proof (induction hi rule: dec_induct)
  case base
  then show ?case using char_head_self [of ks lo] by (simp add: bm_sum_def split: prod.splits)
next
  case (step hi)
  then show ?case by (simp add: bm_sum_Suc [of lo "Suc hi"] split: prod.splits)
qed

text \<open>What a condition remembers: the offset of the last character it has looked at.\<close>

definition cond_ok :: "int list \<Rightarrow> snip_cond \<Rightarrow> bool" where
  "cond_ok checks cond \<longleftrightarrow>
     sc_last_found cond \<le> sc_found cond \<and> 0 < checks ! sc_last_found cond \<and> 0 < checks ! 0 \<and>
     sc_start_offset cond = src_off checks (sc_last_found cond)"

text \<open>The offset of the occurrence before white space is skipped, and its head.\<close>

lemma report_head:
  assumes ok: "cond_ok ks cond" and f: "sc_found cond \<le> found" "ks ! found \<noteq> 0"
    and b: "src_off ks found < 2 ^ 64"
    and s: "bm_sum ks (sc_last_found cond) found (sc_start_offset cond, sc_found_alpha_head cond) = (off, h)"
  shows "(if ks ! found < 0 then nat ((int off - ks ! h) mod 2 ^ 64) else off) =
      src_off ks (char_head ks found)"
    and "(if ks ! found < 0 then h else found) = char_head ks found"
proof -
  let ?l = "sc_last_found cond"
  have le: "?l \<le> found" using ok f(1) by (simp add: cond_ok_def)
  have off: "off = src_off ks found"
    using bm_sum_off [OF le, of ks 0 "sc_found_alpha_head cond"] s ok by (simp add: cond_ok_def)
  have "(if ks ! found < 0 then nat ((int off - ks ! h) mod 2 ^ 64) else off) =
      src_off ks (char_head ks found) \<and> (if ks ! found < 0 then h else found) = char_head ks found"
  proof (cases "ks ! found < 0")
    case False
    then have "0 < ks ! found" using f(2) by simp
    then show ?thesis using off char_head_self [of ks found] by simp
  next
    case True
    then have "?l < found" using le ok by (metis cond_ok_def le_neq_implies_less order_less_asym)
    then obtain j where j: "found = Suc j" "?l \<le> j" by (cases found) auto
    have h: "h = char_head ks j"
      using bm_sum_head [OF j(2), of ks "(sc_start_offset cond, sc_found_alpha_head cond)"] s ok j(1)
      by (simp add: cond_ok_def)
    have pos: "0 < ks ! h" using char_head_pos [of ks j] ok h by (simp add: cond_ok_def)
    have "src_off ks found = src_off ks h + nat (ks ! h)"
      using src_off_head [of ks j] h j(1) by simp
    then have "int off - ks ! h = int (src_off ks h)" using off pos by simp
    moreover have "src_off ks h < 2 ^ 64"
      using \<open>src_off ks found = _\<close> b by simp
    ultimately have "nat ((int off - ks ! h) mod 2 ^ 64) = src_off ks h" by simp
    moreover have "char_head ks found = h" using True h j(1) by simp
    ultimately show ?thesis using True by simp
  qed
  then show "(if ks ! found < 0 then nat ((int off - ks ! h) mod 2 ^ 64) else off) =
      src_off ks (char_head ks found)" "(if ks ! found < 0 then h else found) = char_head ks found"
    by blast+
qed

lemma bm_report_offsets:
  assumes "cond_ok ks cond" "sc_found cond \<le> found" "ks ! found \<noteq> 0"
    and "src_off ks found < 2 ^ 64" "ns_checks object = Some ks"
    and "start = (if has_flag flags SEN_SNIP_SKIP_LEADING_SPACES
                  then skip_spaces (ns_orig object) (ns_orig_blen object) (ns_encoding object)
                         (src_off ks (char_head ks found))
                  else src_off ks (char_head ks found))"
  obtains h where "bm_report cond object flags m found shift =
      cond\<lparr>sc_last_found := char_head ks found, sc_start_offset := start,
           sc_end_offset := src_off ks (found + m) + start - src_off ks (char_head ks found),
           sc_found := found + shift, sc_found_alpha_head := h\<rparr>"
proof -
  obtain off h where s: "bm_sum ks (sc_last_found cond) found
      (sc_start_offset cond, sc_found_alpha_head cond) = (off, h)"
    by (cases "bm_sum ks (sc_last_found cond) found (sc_start_offset cond, sc_found_alpha_head cond)")
  note rh = report_head [OF assms(1-4) s]
  have le: "char_head ks found \<le> found + m" using char_head_le [of ks found] by simp
  have skip: "o' \<le> skip_spaces orig n e o'" for orig n e o'
    by (induction orig n e o' rule: skip_spaces.induct) (subst skip_spaces.simps, auto simp: Let_def)
  then have st: "src_off ks (char_head ks found) \<le> start" using assms(6) by simp
  then obtain c where c: "start = src_off ks (char_head ks found) + c" using le_Suc_ex by blast
  have f: "fst (bm_sum ks (char_head ks found) (found + m) (start, 0)) =
      src_off ks (found + m) + start - src_off ks (char_head ks found)"
    using bm_sum_off [OF le, of ks c 0] by (simp add: c)
  obtain z where z: "bm_sum ks (char_head ks found) (found + m) (start, 0) =
      (src_off ks (found + m) + start - src_off ks (char_head ks found), z)"
    using f by (cases "bm_sum ks (char_head ks found) (found + m) (start, 0)") simp
  show ?thesis
    by (rule that [of h], unfold bm_report_def Let_def assms(5) option.sel s prod.case rh
        assms(6) [symmetric] z) (rule refl)
qed

text \<open>A character of the text \<open>t\<close> that starts at \<open>j\<close> with the keyword \<open>x\<close>.\<close>

definition found_at :: "bytes \<Rightarrow> bytes \<Rightarrow> int list \<Rightarrow> nat \<Rightarrow> bool" where
  "found_at x t checks j \<longleftrightarrow>
     j + length x \<le> length t \<and> take (length x) (drop j t) = x \<and> checks ! j \<noteq> 0"

lemma reported_found:
  "reported x (t @ [0]) (length t) ks e \<longleftrightarrow> length x \<le> e \<and> found_at x t ks (e - length x)"
proof -
  have "occurs x (t @ [0]) (length t) e \<longleftrightarrow>
      length x \<le> e \<and> e \<le> length t \<and> take (length x) (drop (e - length x) t) = x"
  proof (cases "length x \<le> e \<and> e \<le> length t")
    case True
    then have "length x \<le> length t - (e - length x)" by linarith
    then have l: "length (take (length x) (drop (e - length x) t)) = length x" by simp
    have "(t @ [0]) ! (e - length x + i) = take (length x) (drop (e - length x) t) ! i"
      if "i < length x" for i
    proof -
      have "e - length x + i < length t" using that True by linarith
      then show ?thesis using that True by (simp add: nth_append)
    qed
    then show ?thesis
      using True l unfolding occurs_def by (metis nth_equalityI)
  qed (auto simp: occurs_def)
  then show ?thesis by (auto simp: reported_def found_at_def)
qed

lemma tunedbm_search:
  assumes kw: "sc_keyword cond = Some kw" "ns_norm kw = Some (x @ [0])" "ns_norm_blen kw = length x"
    and x: "2 \<le> length x" "bm_table x (sc_bmBc cond) (sc_shift cond)"
    and obj: "ns_norm object = Some (t @ [0])" "ns_norm_blen object = length t" "ns_checks object = Some ks"
  shows "(\<forall>j \<ge> sc_found cond. \<not> found_at x t ks j) \<and>
      sen_bm_tunedbm cond object flags = Some (cond\<lparr>sc_stopflag := SNIPCOND_STOP\<rparr>) \<or>
    (\<exists>j \<ge> sc_found cond. found_at x t ks j \<and> (\<forall>i. sc_found cond \<le> i \<and> i < j \<longrightarrow> \<not> found_at x t ks i) \<and>
      sen_bm_tunedbm cond object flags =
        Some (bm_report cond object flags (length x) j (sc_shift cond)))"
proof -
  have m: "(length x = 1) = False" using x(1) by simp
  let ?s = "bm_search x (length x) (t @ [0]) (length t) ks (sc_bmBc cond) (sc_shift cond) (sc_found cond)"
  have tk: "take (length x) (x @ [0]) = x" by simp
  have e: "sen_bm_tunedbm cond object flags =
      (case ?s of None \<Rightarrow> None | Some None \<Rightarrow> Some (cond\<lparr>sc_stopflag := SNIPCOND_STOP\<rparr>)
       | Some (Some p) \<Rightarrow> Some (bm_report cond object flags (length x) (p - length x) (sc_shift cond)))"
    unfolding sen_bm_tunedbm_def Let_def kw obj option.sel tk m if_False ..
  have clear: "\<not> found_at x t ks j"
    if "clear_to x (t @ [0]) (length t) ks (length x + sc_found cond) b" "sc_found cond \<le> j"
      "j + length x < b" for b j
    using that reported_found [of x t ks "j + length x"] unfolding clear_to_def by fastforce
  from bm_search_ok [OF x(2,1), of "t @ [0]" "length t" ks "sc_found cond"] obtain r where
    r: "?s = Some r" "case r of
       Some e \<Rightarrow> reported x (t @ [0]) (length t) ks e \<and> length x + sc_found cond \<le> e \<and>
         clear_to x (t @ [0]) (length t) ks (length x + sc_found cond) e
     | None \<Rightarrow> clear_to x (t @ [0]) (length t) ks (length x + sc_found cond) (length t + 1)"
    by blast
  show ?thesis
  proof (cases r)
    case None
    have "\<not> found_at x t ks j" if "sc_found cond \<le> j" for j
    proof (cases "j + length x < length t + 1")
      case True
      then show ?thesis using clear [of "length t + 1" j] r(2) None that by simp
    qed (simp add: found_at_def)
    then show ?thesis using e r(1) None by simp
  next
    case (Some q)
    with r(2) have q: "reported x (t @ [0]) (length t) ks q" "length x + sc_found cond \<le> q"
      "clear_to x (t @ [0]) (length t) ks (length x + sc_found cond) q" by simp_all
    have "found_at x t ks (q - length x)" using q(1) reported_found by blast
    moreover have "sc_found cond \<le> q - length x" using q(2) by simp
    moreover have "\<forall>i. sc_found cond \<le> i \<and> i < q - length x \<longrightarrow> \<not> found_at x t ks i"
      using clear [OF q(3)] by auto
    ultimately show ?thesis using e r(1) Some by auto
  qed
qed

section \<open>Examples\<close>

definition plain_nstr :: "bytes \<Rightarrow> int list \<Rightarrow> sen_nstr" where
  "plain_nstr t checks =
     (new_nstr t (length t) sen_enc_none 4)
       \<lparr>ns_norm := Some (t @ [0]), ns_norm_blen := length t, ns_checks := Some checks\<rparr>"

definition cond_for :: "bytes \<Rightarrow> snip_cond" where
  "cond_for x =
     (let m = length x; t = sen_bm_preBmBc x m; last = unat (x ! (m - 1)) in
      \<lparr>sc_opentag = Tag_default None, sc_closetag = Tag_default None, sc_opentag_len = 0,
       sc_closetag_len = 0, sc_keyword = Some (plain_nstr x []),
       sc_bmBc = t[last := 0], sc_shift = t ! last, sc_found = 0, sc_last_found = 0,
       sc_start_offset = 0, sc_end_offset = 0, sc_found_alpha_head = 0, sc_count = 0,
       sc_stopflag = SNIPCOND_NONSTOP\<rparr>)"

lemma plain_nstr_fields [simp]:
  "ns_norm (plain_nstr t ks) = Some (t @ [0])" "ns_norm_blen (plain_nstr t ks) = length t"
  "ns_checks (plain_nstr t ks) = Some ks" "ns_orig (plain_nstr t ks) = t"
  "ns_orig_blen (plain_nstr t ks) = length t" "ns_encoding (plain_nstr t ks) = sen_enc_none"
  by (simp_all add: plain_nstr_def new_nstr_def)

lemma cond_for_fields [simp]:
  "sc_keyword (cond_for x) = Some (plain_nstr x [])" "sc_found (cond_for x) = 0"
  "bm_table x (sc_bmBc (cond_for x)) (sc_shift (cond_for x))"
  by (simp_all add: cond_for_def Let_def bm_table_def)

lemma cond_for_ok: "0 < ks ! 0 \<Longrightarrow> cond_ok ks (cond_for x)"
  by (simp add: cond_ok_def cond_for_def Let_def)

section \<open>Correctness\<close>

text \<open>
  C12: \<open>sen_bm_tunedbm\<close>, for a keyword of at least two bytes and without the flag to skip
  spaces, always returns: either it marks the condition as stopped, and no occurrence from
  \<open>found\<close> on starts at a character of the text, or it reports the first such occurrence with
  the source offsets of the head of its first character and of its end, and a condition ready
  for the next search.
\<close>

theorem tunedbm_first:
  assumes "sc_keyword cond = Some kw" "ns_norm kw = Some (x @ [0])" "ns_norm_blen kw = length x"
    and "2 \<le> length x" "bm_table x (sc_bmBc cond) (sc_shift cond)"
    and "ns_norm object = Some (t @ [0])" "ns_norm_blen object = length t" "ns_checks object = Some ks"
    and "cond_ok ks cond" "src_off ks (length t) < 2 ^ 64"
    and "\<not> has_flag flags SEN_SNIP_SKIP_LEADING_SPACES"
  shows "\<exists>cond'. sen_bm_tunedbm cond object flags = Some cond' \<and>
    ((\<forall>j \<ge> sc_found cond. \<not> found_at x t ks j) \<and> cond' = cond\<lparr>sc_stopflag := SNIPCOND_STOP\<rparr> \<or>
     (\<exists>j \<ge> sc_found cond. found_at x t ks j \<and>
        (\<forall>i. sc_found cond \<le> i \<and> i < j \<longrightarrow> \<not> found_at x t ks i) \<and>
        sc_stopflag cond' = sc_stopflag cond \<and> j < sc_found cond' \<and> cond_ok ks cond' \<and>
        sc_start_offset cond' = src_off ks (char_head ks j) \<and>
        sc_end_offset cond' = src_off ks (j + length x)))"
  using tunedbm_search [OF assms(1-8), of flags]
proof (elim disjE exE conjE)
  fix j
  assume j: "sc_found cond \<le> j" "found_at x t ks j"
    and first: "\<forall>i. sc_found cond \<le> i \<and> i < j \<longrightarrow> \<not> found_at x t ks i"
    and e: "sen_bm_tunedbm cond object flags = Some (bm_report cond object flags (length x) j (sc_shift cond))"
  have k: "ks ! j \<noteq> 0" "j + length x \<le> length t" using j(2) by (simp_all add: found_at_def)
  have "src_off ks j < 2 ^ 64" using src_off_mono [of j "length t" ks] k(2) assms(10) by linarith
  then obtain h where h: "bm_report cond object flags (length x) j (sc_shift cond) =
      cond\<lparr>sc_last_found := char_head ks j, sc_start_offset := src_off ks (char_head ks j),
           sc_end_offset := src_off ks (j + length x) + src_off ks (char_head ks j) - src_off ks (char_head ks j),
           sc_found := j + sc_shift cond, sc_found_alpha_head := h\<rparr>"
    by (rule bm_report_offsets [OF assms(9) j(1) k(1) _ assms(8), where flags = flags])
      (use assms(11) in simp)
  have "0 < sc_shift cond" using bm_table_shift [OF assms(5)] assms(4) by fastforce
  moreover have "0 < ks ! char_head ks j" "0 < ks ! 0"
    using char_head_pos assms(9) unfolding cond_ok_def by blast+
  moreover have "char_head ks j \<le> j + sc_shift cond" using char_head_le [of ks j] by simp
  ultimately show ?thesis using e h j first by (auto simp: cond_ok_def)
qed simp

theorem tunedbm_first_witness:
  "\<exists>cond'. sen_bm_tunedbm (cond_for [0x61, 0x62]) (plain_nstr [0x78, 0x61, 0x62] [1, 1, 1]) 0 = Some cond' \<and>
     sc_start_offset cond' = 1 \<and> sc_end_offset cond' = 3"
proof -
  let ?x = "[0x61, 0x62] :: bytes" and ?t = "[0x78, 0x61, 0x62] :: bytes" and ?k = "[1, 1, 1] :: int list"
  have f: "found_at ?x ?t ?k j \<longleftrightarrow> j = 1" for j
  proof -
    have "found_at ?x ?t ?k j \<Longrightarrow> j \<le> 1" by (simp add: found_at_def)
    then show ?thesis by (cases j) (auto simp: found_at_def)
  qed
  have s: "src_off ?k (char_head ?k 1) = 1" "src_off ?k (1 + length ?x) = 3"
    by (simp_all add: numeral_2_eq_2 numeral_3_eq_3)
  have "src_off ?k (length ?t) < 2 ^ 64" by simp
  from tunedbm_first [where cond = "cond_for ?x" and object = "plain_nstr ?t ?k" and flags = 0
      and ks = ?k and x = ?x and t = ?t and kw = "plain_nstr ?x []", OF _ _ _ _ _ _ _ _ cond_for_ok this]
  show ?thesis unfolding f using s by (auto simp: has_flag_def)
qed

text \<open>
  For a keyword of one byte \<open>sen_bm_tunedbm\<close> gives up at the first equal byte that does not
  start a character, whatever follows: the condition is stopped although later characters may
  be occurrences of the keyword.
\<close>

theorem tunedbm_one_byte_stops:
  assumes "sc_keyword cond = Some kw" "ns_norm kw = Some [c, 0]" "ns_norm_blen kw = 1"
    and "ns_norm object = Some (t @ [0])" "ns_norm_blen object = length t" "ns_checks object = Some ks"
    and "sc_found cond \<le> j" "j < length t" "t ! j = c" "ks ! j = 0"
    and "\<forall>i. sc_found cond \<le> i \<and> i < j \<longrightarrow> t ! i \<noteq> c"
  shows "sen_bm_tunedbm cond object flags = Some (cond\<lparr>sc_stopflag := SNIPCOND_STOP\<rparr>)"
proof -
  let ?a = "sc_found cond"
  have "memchr_from (t @ [0]) ?a c (length t) = Some j"
    unfolding memchr_from_def find_Some_iff
  proof (intro exI conjI allI impI)
    show "j - ?a < length [?a..<length t]" "j = [?a..<length t] ! (j - ?a)"
      using assms(7,8) by simp_all
    show "(t @ [0]) ! ([?a..<length t] ! (j - ?a)) = c" using assms(7-9) by (simp add: nth_append)
    show "(t @ [0]) ! ([?a..<length t] ! i) \<noteq> c" if "i < j - ?a" for i
    proof -
      have l: "?a + i < j" "?a + i < length t" using that assms(8) by linarith+
      then show ?thesis using that assms(8) assms(11) [rule_format, of "?a + i"] by (simp add: nth_append)
    qed
  qed
  then show ?thesis
    using assms(7,8,10) by (simp add: sen_bm_tunedbm_def Let_def assms(1-6))
qed

theorem tunedbm_one_byte_stops_witness:
  "sen_bm_tunedbm (cond_for [0x41]) (plain_nstr [0x83, 0x41, 0x41] [2, 0, 1]) 0 =
     Some ((cond_for [0x41])\<lparr>sc_stopflag := SNIPCOND_STOP\<rparr>) \<and>
   found_at [0x41] [0x83, 0x41, 0x41] [2, 0, 1] 2"
proof -
  have "\<forall>i. 0 \<le> i \<and> i < 1 \<longrightarrow> [0x83, 0x41, 0x41] ! i \<noteq> (0x41 :: byte)" by simp
  then show ?thesis
    using tunedbm_one_byte_stops [of "cond_for [0x41]" "plain_nstr [0x41] []" "0x41"
        "plain_nstr [0x83, 0x41, 0x41] [2, 0, 1]" "[0x83, 0x41, 0x41]" "[2, 0, 1]" 1 0]
    by (simp add: found_at_def)
qed

text \<open>
  With the flag to skip leading spaces the spaces in front of an occurrence are counted
  twice: the start offset moves over them, and the checks, which include them, are then added
  to the moved offset, so that the end offset is too large by the number of skipped bytes.
\<close>

theorem skipped_spaces_counted_twice:
  assumes "cond_ok ks cond" "sc_found cond \<le> j" "0 < ks ! j" "src_off ks j < 2 ^ 64"
    and "ns_checks object = Some ks" "has_flag flags SEN_SNIP_SKIP_LEADING_SPACES"
    and "cond' = bm_report cond object flags m j shift"
  shows "sc_start_offset cond' =
      skip_spaces (ns_orig object) (ns_orig_blen object) (ns_encoding object) (src_off ks j) \<and>
    sc_end_offset cond' = src_off ks (j + m) + sc_start_offset cond' - src_off ks j"
proof -
  have k: "ks ! j \<noteq> 0" "char_head ks j = j" using assms(3) char_head_self by auto
  obtain h where "cond' = cond\<lparr>sc_last_found := char_head ks j,
      sc_start_offset := skip_spaces (ns_orig object) (ns_orig_blen object) (ns_encoding object)
        (src_off ks (char_head ks j)),
      sc_end_offset := src_off ks (j + m) + skip_spaces (ns_orig object) (ns_orig_blen object)
        (ns_encoding object) (src_off ks (char_head ks j)) - src_off ks (char_head ks j),
      sc_found := j + shift, sc_found_alpha_head := h\<rparr>"
    unfolding assms(7)
    by (rule bm_report_offsets [OF assms(1,2) k(1) assms(4,5), where flags = flags and m = m and shift = shift])
      (use assms(6) in simp_all)
  then show ?thesis by (simp add: k(2))
qed

text \<open>The text a, space, space, b (normalised to ab): b is found at the bytes 3 up to 6 of 4.\<close>

theorem skipped_spaces_counted_twice_witness:
  "sc_start_offset (bm_report (cond_for [0x62]) ((plain_nstr [0x61, 0x62] [1, 3])
     \<lparr>ns_orig := [0x61, 0x20, 0x20, 0x62], ns_orig_blen := 4\<rparr>) 4 1 1 1) = 3 \<and>
   sc_end_offset (bm_report (cond_for [0x62]) ((plain_nstr [0x61, 0x62] [1, 3])
     \<lparr>ns_orig := [0x61, 0x20, 0x20, 0x62], ns_orig_blen := 4\<rparr>) 4 1 1 1) = 6"
proof -
  let ?o = "(plain_nstr [0x61, 0x62] [1, 3])\<lparr>ns_orig := [0x61, 0x20, 0x20, 0x62], ns_orig_blen := 4\<rparr>"
  have s: "skip_spaces [0x61, 0x20, 0x20, 0x62] 4 sen_enc_none 1 = 3"
    by (simp add: skip_spaces.simps sen_isspace_def)
  have off: "src_off [1, 3] 1 = 1" "src_off [1, 3] (1 + 1) = 4" by (simp_all add: numeral_2_eq_2)
  have c: "cond_ok [1, 3] (cond_for [0x62])" by (rule cond_for_ok) simp
  have f: "has_flag 4 SEN_SNIP_SKIP_LEADING_SPACES"
    by (simp add: has_flag_def SEN_SNIP_SKIP_LEADING_SPACES_def)
  note w = skipped_spaces_counted_twice [OF c _ _ _ _ f refl, of 1 ?o 1 1]
  show ?thesis using w s off by simp
qed

end
