(* ===== verification/Snip.thy ===== *)
theory Snip
  imports Snip_Search
begin

text \<open>
  The snippet generator (lib/snip.c): opening and closing a \<open>sen_snip\<close>, adding keywords with
  their tags, \<open>sen_snip_exec\<close>, which cuts snippets out of a text, and \<open>sen_snip_get_result\<close>,
  which writes a snippet with its tags. The arrays of conditions, tags and results are lists of
  the elements in use, and lengths are natural numbers (they are assumed to stay below 2 to the power of 32,
  the range of \<open>*max_tagged_len\<close>). A result is \<open>Snip_fault\<close> when the code would read outside of a string;
  the loops of \<open>sen_snip_exec\<close> take fuel, and \<open>Snip_more\<close> says that it was used up.
\<close>

section \<open>The structure\<close>

definition MAX_SNIP_TAG_COUNT :: nat where "MAX_SNIP_TAG_COUNT = 512"
definition MAX_SNIP_COND_COUNT :: nat where "MAX_SNIP_COND_COUNT = 32"
definition MAX_SNIP_RESULT_COUNT :: nat where "MAX_SNIP_RESULT_COUNT = 16"

text \<open>\<open>tr_cond\<close> is the index of the condition in the array.\<close>

record snip_tag_result =
  tr_start_offset :: nat
  tr_end_offset :: nat
  tr_cond :: nat

record snip_result =
  sr_start_offset :: nat
  sr_end_offset :: nat
  sr_first_tag :: nat
  sr_last_tag :: nat
  sr_tag_count :: nat

text \<open>\<open>sn_html\<close>: the mapping is the pointer -1, which stands for the escaping of HTML.\<close>

record sen_snip =
  sn_encoding :: sen_encoding
  sn_flags :: u32
  sn_width :: nat
  sn_max_results :: nat
  sn_defaultopentag :: "bytes option"
  sn_defaultclosetag :: "bytes option"
  sn_defaultopentag_len :: nat
  sn_defaultclosetag_len :: nat
  sn_html :: bool
  sn_cond :: "snip_cond list"
  sn_snip_count :: nat
  sn_string :: bytes
  sn_nstr :: "sen_nstr option"
  sn_snip_result :: "snip_result list"
  sn_tag_result :: "snip_tag_result list"
  sn_max_tagged_len :: nat

section \<open>Opening, closing and keywords\<close>

text \<open>
  The copy of a default tag (also made of a NULL pointer, with length 0), and \<open>sen_snip_open\<close>;
  \<open>sz\<close> is \<open>sizeof(sen_snip)\<close>.
\<close>

definition copy_tag :: "bytes option \<Rightarrow> nat \<Rightarrow> bytes option" where
  "copy_tag t len = Some ((case t of None \<Rightarrow> [] | Some b \<Rightarrow> take len b) @ [0])"

definition sen_snip_open ::
  "alloc \<Rightarrow> nat \<Rightarrow> sen_encoding \<Rightarrow> u32 \<Rightarrow> nat \<Rightarrow> nat \<Rightarrow> bytes option \<Rightarrow> nat \<Rightarrow> bytes option \<Rightarrow> nat \<Rightarrow>
   bool \<Rightarrow> sen_snip option" where
  "sen_snip_open alloc sz encoding flags width max_results opentag opentag_len closetag closetag_len html =
     (let copy = has_flag flags SEN_SNIP_COPY_TAG in
      if \<not> alloc sz then None
      else if max_results > MAX_SNIP_RESULT_COUNT \<or> max_results = 0 then None
      else if copy \<and> \<not> alloc (opentag_len + 1) then None
      else if copy \<and> \<not> alloc (closetag_len + 1) then None
      else Some
        \<lparr>sn_encoding = encoding, sn_flags = flags, sn_width = width, sn_max_results = max_results,
         sn_defaultopentag = (if copy then copy_tag opentag opentag_len else opentag),
         sn_defaultclosetag = (if copy then copy_tag closetag closetag_len else closetag),
         sn_defaultopentag_len = opentag_len, sn_defaultclosetag_len = closetag_len,
         sn_html = html, sn_cond = [], sn_snip_count = 0, sn_string = [], sn_nstr = None,
         sn_snip_result = [], sn_tag_result = [], sn_max_tagged_len = 0\<rparr>)"

definition sen_snip_cond_close :: "snip_cond option \<Rightarrow> sen_rc \<times> nstr_block list" where
  "sen_snip_cond_close cond =
     (case cond of
        None \<Rightarrow> (sen_invalid_argument, [])
      | Some c \<Rightarrow>
          (sen_success,
           (case sc_keyword c of None \<Rightarrow> [] | Some k \<Rightarrow> snd (sen_nstr_close (Some k)))))"

text \<open>\<open>memset(sc, 0, sizeof(snip_cond))\<close>.\<close>

definition snip_cond_zero :: snip_cond where
  "snip_cond_zero =
     \<lparr>sc_opentag = Tag_default None, sc_closetag = Tag_default None, sc_opentag_len = 0,
      sc_closetag_len = 0, sc_keyword = None, sc_bmBc = replicate ASIZE 0, sc_shift = 0,
      sc_found = 0, sc_last_found = 0, sc_start_offset = 0, sc_end_offset = 0,
      sc_found_alpha_head = 0, sc_count = 0, sc_stopflag = SNIPCOND_NONSTOP\<rparr>"

text \<open>The two ways to open a string, chosen by the flag \<open>SEN_SNIP_NORMALIZE\<close>.\<close>

definition snip_nstr_open ::
  "alloc \<Rightarrow> nfkc \<Rightarrow> sen_nstr \<Rightarrow> bytes \<Rightarrow> nat \<Rightarrow> sen_encoding \<Rightarrow> u32 \<Rightarrow> u32 \<Rightarrow> sen_nstr option option" where
  "snip_nstr_open alloc nf blk str str_len encoding flags nflags =
     (if has_flag flags SEN_SNIP_NORMALIZE
      then sen_nstr_open alloc nf blk (Some str) str_len encoding nflags
      else Some (sen_fakenstr_open alloc blk str str_len encoding nflags))"

definition sen_snip_cond_init ::
  "alloc \<Rightarrow> nfkc \<Rightarrow> sen_nstr \<Rightarrow> bytes \<Rightarrow> nat \<Rightarrow> sen_encoding \<Rightarrow> u32 \<Rightarrow> (sen_rc \<times> snip_cond) option" where
  "sen_snip_cond_init alloc nf blk keyword keyword_len enc flags =
     (case snip_nstr_open alloc nf blk keyword keyword_len enc flags SEN_STR_REMOVEBLANK of
        None \<Rightarrow> None
      | Some None \<Rightarrow> Some (sen_memory_exhausted, snip_cond_zero)
      | Some (Some k) \<Rightarrow>
          (let sc = snip_cond_zero\<lparr>sc_keyword := Some k\<rparr>;
               norm_blen = ns_norm_blen k;
               norm = the (ns_norm k)
           in Some
             (if norm_blen = 0 then (sen_invalid_argument, sc)
              else if norm_blen \<noteq> 1 then
                (let bmBc = sen_bm_preBmBc norm norm_blen;
                     last = unat (norm ! (norm_blen - 1))
                 in (sen_success, sc\<lparr>sc_bmBc := bmBc[last := 0], sc_shift := bmBc ! last\<rparr>))
              else (sen_success, sc))))"

definition sen_snip_cond_reinit :: "snip_cond \<Rightarrow> snip_cond" where
  "sen_snip_cond_reinit cond =
     cond\<lparr>sc_found := 0, sc_last_found := 0, sc_start_offset := 0, sc_end_offset := 0,
          sc_count := 0, sc_stopflag := SNIPCOND_NONSTOP\<rparr>"

text \<open>The tag that a condition gets: a given one, copied on request, or the default one.\<close>

definition cond_tag :: "u32 \<Rightarrow> bytes option \<Rightarrow> nat \<Rightarrow> bytes option \<Rightarrow> nat \<Rightarrow> snip_tag \<times> nat" where
  "cond_tag flags t len dflt dflt_len =
     (case t of
        Some b \<Rightarrow>
          (if has_flag flags SEN_SNIP_COPY_TAG then (Tag_copied (take len b @ [0]), len)
           else (Tag_given b, len))
      | None \<Rightarrow> (Tag_default dflt, dflt_len))"

definition sen_snip_add_cond ::
  "alloc \<Rightarrow> nfkc \<Rightarrow> sen_nstr \<Rightarrow> sen_snip option \<Rightarrow> bytes option \<Rightarrow> nat \<Rightarrow> bytes option \<Rightarrow> nat \<Rightarrow>
   bytes option \<Rightarrow> nat \<Rightarrow> (sen_rc \<times> sen_snip option) option" where
  "sen_snip_add_cond alloc nf blk snip keyword keyword_len opentag opentag_len closetag closetag_len =
     (case (snip, keyword) of
        (Some sn, Some kw) \<Rightarrow>
          (if keyword_len = 0 \<or> length (sn_cond sn) \<ge> MAX_SNIP_COND_COUNT
           then Some (sen_invalid_argument, snip)
           else
             (let copy = has_flag (sn_flags sn) SEN_SNIP_COPY_TAG in
              case sen_snip_cond_init alloc nf blk kw keyword_len (sn_encoding sn) (sn_flags sn) of
                None \<Rightarrow> None
              | Some (rc, cond) \<Rightarrow>
                  Some
                    (if rc \<noteq> sen_success then (rc, snip)
                     else if ns_norm_blen (the (sc_keyword cond)) > sn_width sn
                       then (sen_invalid_argument, snip)
                     else if opentag \<noteq> None \<and> copy \<and> \<not> alloc (opentag_len + 1)
                       then (sen_memory_exhausted, snip)
                     else if closetag \<noteq> None \<and> copy \<and> \<not> alloc (closetag_len + 1)
                       then (sen_memory_exhausted, snip)
                     else
                       (let (ot, ol) = cond_tag (sn_flags sn) opentag opentag_len
                                         (sn_defaultopentag sn) (sn_defaultopentag_len sn);
                            (ct, cl) = cond_tag (sn_flags sn) closetag closetag_len
                                         (sn_defaultclosetag sn) (sn_defaultclosetag_len sn)
                        in (sen_success,
                            Some (sn\<lparr>sn_cond := sn_cond sn @
                              [cond\<lparr>sc_opentag := ot, sc_opentag_len := ol,
                                    sc_closetag := ct, sc_closetag_len := cl\<rparr>]\<rparr>))))))
      | _ \<Rightarrow> Some (sen_invalid_argument, snip))"

text \<open>The blocks that \<open>sen_snip_close\<close> frees: copied tags and the strings of the conditions.\<close>

datatype snip_block =
    Blk_tag bytes
  | Blk_string nstr_block
  | Blk_snip

fun own_tag :: "snip_tag \<Rightarrow> snip_block list" where
  "own_tag (Tag_copied b) = [Blk_tag b]"
| "own_tag _ = []"

definition sen_snip_close :: "sen_snip option \<Rightarrow> sen_rc \<times> snip_block list" where
  "sen_snip_close snip =
     (case snip of
        None \<Rightarrow> (sen_invalid_argument, [])
      | Some sn \<Rightarrow>
          (sen_success,
           (if has_flag (sn_flags sn) SEN_SNIP_COPY_TAG then
              concat (map (\<lambda>c. own_tag (sc_opentag c) @ own_tag (sc_closetag c)) (sn_cond sn)) @
              (case sn_defaultopentag sn of None \<Rightarrow> [] | Some b \<Rightarrow> [Blk_tag b]) @
              (case sn_defaultclosetag sn of None \<Rightarrow> [] | Some b \<Rightarrow> [Blk_tag b])
            else []) @
           (case sn_nstr sn of None \<Rightarrow> [] | Some n \<Rightarrow> map Blk_string (snd (sen_nstr_close (Some n)))) @
           concat (map (\<lambda>c. map Blk_string (snd (sen_snip_cond_close (Some c)))) (sn_cond sn)) @
           [Blk_snip]))"

definition exec_clean :: "sen_snip \<Rightarrow> sen_snip" where
  "exec_clean snip =
     snip\<lparr>sn_nstr := None, sn_tag_result := [], sn_snip_count := 0,
          sn_cond := map sen_snip_cond_reinit (sn_cond snip)\<rparr>"

section \<open>Character boundaries in the source\<close>

text \<open>The number of bytes in front of \<open>y\<close> that satisfy \<open>P\<close>, the loop over \<open>p\<close> downwards.\<close>

fun run_before :: "(byte \<Rightarrow> bool) \<Rightarrow> bytes \<Rightarrow> nat \<Rightarrow> nat" where
  "run_before P x 0 = 0"
| "run_before P x (Suc y) = (if P (x ! y) then Suc (run_before P x y) else 0)"

text \<open>\<open>x + y - p\<close> is one more than that number.\<close>

definition sen_bm_check_euc :: "bytes \<Rightarrow> nat \<Rightarrow> nat" where
  "sen_bm_check_euc x y = (run_before (\<lambda>c. 0x80 \<le> c) x y + 1) mod 2"

definition sen_bm_check_sjis :: "bytes \<Rightarrow> nat \<Rightarrow> nat" where
  "sen_bm_check_sjis x y =
     (run_before (\<lambda>c. \<not> (c < 0x81 \<or> 0x9f < c \<and> c < 0xe0 \<or> 0xfc < c)) x y + 1) mod 2"

text \<open>
  \<open>sen_snip_find_firstbyte\<close> with \<open>doffset\<close> 1 or -1; \<open>None\<close> when it reads outside the memory
  of the string. \<open>char\<close> is signed, so that \<open>string[offset] <= (char)0xc0\<close> holds of 0x80 to 0xc0.
\<close>

function sen_snip_find_firstbyte :: "bytes \<Rightarrow> sen_encoding \<Rightarrow> nat \<Rightarrow> bool \<Rightarrow> nat option" where
  "sen_snip_find_firstbyte string encoding offset back =
     (case encoding of
        sen_enc_euc_jp \<Rightarrow>
          (if length string < offset then None
           else if sen_bm_check_euc string offset = 0 then
             (if back then
                (if offset = 0 then None else sen_snip_find_firstbyte string encoding (offset - 1) back)
              else sen_snip_find_firstbyte string encoding (offset + 1) back)
           else Some offset)
      | sen_enc_sjis \<Rightarrow>
          (if length string < offset then None
           else if sen_bm_check_sjis string offset = 0 then
             Some (if back then offset - 1 else offset + 1)
           else Some offset)
      | sen_enc_utf8 \<Rightarrow>
          (if length string \<le> offset then None
           else if sint (string ! offset) \<le> - 64 then
             (if back then
                (if offset = 0 then None else sen_snip_find_firstbyte string encoding (offset - 1) back)
              else sen_snip_find_firstbyte string encoding (offset + 1) back)
           else Some offset)
      | _ \<Rightarrow> Some offset)"
  by pat_completeness auto
termination
  by (relation "measure (\<lambda>(s, e, offset, back). if back then offset else length s + 1 - offset)") auto

declare sen_snip_find_firstbyte.simps [simp del]

text \<open>The length of a byte in HTML, and of the bytes from \<open>start\<close> up to \<open>stop\<close>.\<close>

definition mapped_len :: "byte \<Rightarrow> nat" where
  "mapped_len c =
     (if c = 0x3c \<or> c = 0x3e then 4 else if c = 0x26 then 5 else if c = 0x22 then 6 else 1)"

definition count_mapped_chars :: "bytes \<Rightarrow> nat \<Rightarrow> nat \<Rightarrow> nat option" where
  "count_mapped_chars string start stop =
     (if start \<le> stop \<and> stop \<le> length string
      then Some (fold (\<lambda>c dl. dl + mapped_len c) (take (stop - start) (drop start string)) 0)
      else None)"

section \<open>Cutting snippets\<close>

datatype 'a snip_run =
    Snip_fault
  | Snip_more
  | Snip_done 'a

text \<open>
  The variables of the loops: \<open>se_snip\<close> holds the conditions and tags, \<open>se_sr\<close> the snippet that
  is being built (\<open>*snip_result\<close>).
\<close>

record snip_exec =
  se_snip :: sen_snip
  se_sr :: snip_result
  se_results :: "snip_result list"
  se_last_end :: nat
  se_last_last_end :: nat
  se_unfound :: nat
  se_max_tagged :: nat
  se_tagged :: nat
  se_last_tag_end :: nat
  se_found_cond :: bool

text \<open>The condition with the least start offset (and then the greatest end offset) that goes on.\<close>

definition pick_cond :: "snip_cond list \<Rightarrow> nat option" where
  "pick_cond conds =
     snd (snd (fold (\<lambda>i (min_start, max_end, c).
        (let cond = conds ! i in
         if sc_stopflag cond = SNIPCOND_NONSTOP \<and>
            (min_start > sc_start_offset cond \<or>
             min_start = sc_start_offset cond \<and> max_end < sc_end_offset cond)
         then (sc_start_offset cond, sc_end_offset cond, Some i)
         else (min_start, max_end, c)))
      [0..<length conds] (2 ^ 64 - 1, 0, None)))"

definition exclude_other_cond :: "snip_cond list \<Rightarrow> nat \<Rightarrow> nat \<Rightarrow> bool" where
  "exclude_other_cond conds ci width =
     list_all (\<lambda>i. \<not> (i \<noteq> ci \<and> sc_end_offset (conds ! i) \<le> sc_start_offset (conds ! ci) + width \<and>
                        sc_count (conds ! i) = 0))
       [0..<length conds]"

datatype inner_result =
    In_fault
  | In_break snip_exec
  | In_next snip_exec

text \<open>\<open>sen_bm_tunedbm(cond, snip->nstr, snip->flags)\<close> on the condition \<open>ci\<close>.\<close>

definition advance_cond :: "nat \<Rightarrow> snip_exec \<Rightarrow> snip_exec option" where
  "advance_cond ci se =
     (let snip = se_snip se in
      case sen_bm_tunedbm (sn_cond snip ! ci) (the (sn_nstr snip)) (sn_flags snip) of
        None \<Rightarrow> None
      | Some c \<Rightarrow> Some (se\<lparr>se_snip := snip\<lparr>sn_cond := (sn_cond snip)[ci := c]\<rparr>\<rparr>))"

definition advance_next :: "nat \<Rightarrow> snip_exec \<Rightarrow> inner_result" where
  "advance_next ci se = (case advance_cond ci se of None \<Rightarrow> In_fault | Some se' \<Rightarrow> In_next se')"

text \<open>Tagging the occurrence of the condition \<open>ci\<close>, or marking it as across the end.\<close>

definition tag_cond :: "nat \<Rightarrow> snip_exec \<Rightarrow> inner_result" where
  "tag_cond ci se =
     (let snip = se_snip se; cond = sn_cond snip ! ci; sr = se_sr se in
      if sc_end_offset cond > sr_start_offset sr + sn_width snip then
        advance_next ci
          (se\<lparr>se_snip := snip\<lparr>sn_cond := (sn_cond snip)[ci := cond\<lparr>sc_stopflag := SNIPCOND_ACROSS\<rparr>]\<rparr>\<rparr>)
      else
        (let se' = se\<lparr>se_found_cond := True,
                      se_unfound := (if sc_count cond = 0 then se_unfound se - 1 else se_unfound se),
                      se_last_end := sc_end_offset cond,
                      se_last_tag_end := sc_end_offset cond,
                      se_tagged := se_tagged se + (sc_opentag_len cond + sc_closetag_len cond),
                      se_sr := sr\<lparr>sr_tag_count := sr_tag_count sr + 1\<rparr>,
                      se_snip := snip
                        \<lparr>sn_cond := (sn_cond snip)[ci := cond\<lparr>sc_count := sc_count cond + 1\<rparr>],
                         sn_tag_result := sn_tag_result snip @
                           [\<lparr>tr_start_offset = sc_start_offset cond,
                             tr_end_offset = sc_end_offset cond, tr_cond = ci\<rparr>]\<rparr>\<rparr>
         in if length (sn_tag_result (se_snip se')) \<ge> MAX_SNIP_TAG_COUNT then In_break se'
            else advance_next ci se'))"

text \<open>One round of the inner loop.\<close>

definition inner_step :: "snip_exec \<Rightarrow> inner_result" where
  "inner_step se =
     (let snip = se_snip se; conds = sn_cond snip; sr = se_sr se in
      case pick_cond conds of
        None \<Rightarrow> In_break se
      | Some ci \<Rightarrow>
          (let cond = conds ! ci in
           if sr_tag_count sr = 0 then
             (if sn_max_results snip - length (se_results se) \<le> se_unfound se \<and> sc_count cond > 0 \<and>
                 exclude_other_cond conds ci (sn_width snip)
              then advance_next ci se
              else tag_cond ci (se\<lparr>se_sr := sr\<lparr>sr_start_offset := sc_start_offset cond,
                                               sr_first_tag := length (sn_tag_result snip)\<rparr>\<rparr>))
           else if sc_start_offset cond \<ge> sr_start_offset sr + sn_width snip then In_break se
           else if sc_start_offset cond < se_last_tag_end se then advance_next ci se
           else tag_cond ci se))"

fun inner_loop :: "nat \<Rightarrow> snip_exec \<Rightarrow> snip_exec snip_run" where
  "inner_loop 0 se = Snip_more"
| "inner_loop (Suc fuel) se =
     (case inner_step se of
        In_fault \<Rightarrow> Snip_fault
      | In_break se' \<Rightarrow> Snip_done se'
      | In_next se' \<Rightarrow> inner_loop fuel se')"

text \<open>
  The end of a snippet: its offsets, moved to the first bytes of characters, and the room it
  needs. \<open>string_len - width\<close> is computed in \<open>size_t\<close>.
\<close>

definition snip_start :: "nat \<Rightarrow> nat \<Rightarrow> snip_exec \<Rightarrow> nat" where
  "snip_start string_len width se =
     (if sr_start_offset (se_sr se) + se_last_end se < width then 0
      else max (min ((sr_start_offset (se_sr se) + se_last_end se - width) div 2)
                    (nat ((int string_len - int width) mod 2 ^ 64)))
               (se_last_last_end se))"

definition finish_snip :: "bytes \<Rightarrow> nat \<Rightarrow> snip_exec \<Rightarrow> snip_exec option" where
  "finish_snip string string_len se =
     (let snip = se_snip se; width = sn_width snip; enc = sn_encoding snip in
      case sen_snip_find_firstbyte string enc (snip_start string_len width se) False of
        None \<Rightarrow> None
      | Some start \<Rightarrow>
          (case (if start + width < string_len
                 then sen_snip_find_firstbyte string enc (start + width) True
                 else Some string_len) of
             None \<Rightarrow> None
           | Some stop \<Rightarrow>
               (case count_mapped_chars string start stop of
                  None \<Rightarrow> None
                | Some k \<Rightarrow>
                    (let tagged = se_tagged se + (k + 1);
                         sr = (se_sr se)\<lparr>sr_start_offset := start, sr_end_offset := stop,
                                sr_last_tag := length (sn_tag_result snip) - 1\<rparr>
                     in Some (se\<lparr>se_sr := sr, se_last_last_end := stop, se_tagged := tagged,
                                 se_max_tagged := max (se_max_tagged se) tagged,
                                 se_results := se_results se @ [sr]\<rparr>)))))"

text \<open>The outer loop; the conditions that were stopped at the end of a snippet go on.\<close>

definition restart_conds :: "snip_exec \<Rightarrow> snip_exec" where
  "restart_conds se =
     se\<lparr>se_snip := (se_snip se)\<lparr>sn_cond :=
          map (\<lambda>c. if sc_stopflag c \<noteq> SNIPCOND_STOP then c\<lparr>sc_stopflag := SNIPCOND_NONSTOP\<rparr> else c)
            (sn_cond (se_snip se))\<rparr>\<rparr>"

definition new_snip :: "snip_exec \<Rightarrow> snip_exec" where
  "new_snip se =
     se\<lparr>se_tagged := 0, se_last_tag_end := 0, se_found_cond := False,
        se_sr := (se_sr se)\<lparr>sr_tag_count := 0\<rparr>\<rparr>"

fun outer_loop :: "nat \<Rightarrow> nat \<Rightarrow> bytes \<Rightarrow> nat \<Rightarrow> snip_exec \<Rightarrow> snip_exec snip_run" where
  "outer_loop fuel 0 string string_len se = Snip_more"
| "outer_loop fuel (Suc k) string string_len se =
     (case inner_loop fuel (new_snip se) of
        Snip_done se1 \<Rightarrow>
          (if \<not> se_found_cond se1 then Snip_done se1
           else
             (case finish_snip string string_len se1 of
                None \<Rightarrow> Snip_fault
              | Some se2 \<Rightarrow>
                  (if length (se_results se2) = sn_max_results (se_snip se2) \<or>
                      length (sn_tag_result (se_snip se2)) = MAX_SNIP_TAG_COUNT
                   then Snip_done se2
                   else if list_all (\<lambda>c. sc_stopflag c = SNIPCOND_STOP) (sn_cond (se_snip se2))
                   then Snip_done se2
                   else outer_loop fuel k string string_len (restart_conds se2))))
      | r \<Rightarrow> r)"

text \<open>The first search of every condition.\<close>

fun advance_all :: "nat list \<Rightarrow> snip_exec \<Rightarrow> snip_exec option" where
  "advance_all [] se = Some se"
| "advance_all (ci # cis) se =
     (case advance_cond ci se of None \<Rightarrow> None | Some se' \<Rightarrow> advance_all cis se')"

text \<open>
  The whole function, for pointers that are not NULL. The first component of the result is the
  return code, the second \<open>*nresults\<close> with \<open>*max_tagged_len\<close> (\<open>None\<close> when it is not written).
\<close>

definition sen_snip_exec ::
  "alloc \<Rightarrow> nfkc \<Rightarrow> sen_nstr \<Rightarrow> nat \<Rightarrow> sen_snip \<Rightarrow> bytes \<Rightarrow> nat \<Rightarrow>
   (sen_rc \<times> (nat \<times> nat option) \<times> sen_snip) snip_run" where
  "sen_snip_exec alloc nf blk fuel snip0 string string_len =
     (let snip = exec_clean snip0 in
      case snip_nstr_open alloc nf blk string string_len (sn_encoding snip) (sn_flags snip)
             (SEN_STR_WITH_CHECKS OR SEN_STR_REMOVEBLANK) of
        None \<Rightarrow> Snip_fault
      | Some None \<Rightarrow> Snip_done (sen_memory_exhausted, (0, None), exec_clean snip)
      | Some (Some nstr) \<Rightarrow>
          (let se = \<lparr>se_snip = snip\<lparr>sn_nstr := Some nstr\<rparr>,
                     se_sr = \<lparr>sr_start_offset = 0, sr_end_offset = 0, sr_first_tag = 0, sr_last_tag = 0,
                             sr_tag_count = 0\<rparr>,
                     se_results = [], se_last_end = 0, se_last_last_end = 0,
                     se_unfound = length (sn_cond snip), se_max_tagged = 0, se_tagged = 0,
                     se_last_tag_end = 0, se_found_cond = False\<rparr>
           in case advance_all [0..<length (sn_cond snip)] se of
                None \<Rightarrow> Snip_fault
              | Some se1 \<Rightarrow>
                  (case outer_loop fuel fuel string string_len se1 of
                     Snip_done se2 \<Rightarrow>
                       Snip_done (sen_success, (length (se_results se2), Some (se_max_tagged se2)),
                         (se_snip se2)\<lparr>sn_snip_count := length (se_results se2), sn_string := string,
                                       sn_snip_result := se_results se2,
                                       sn_max_tagged_len := se_max_tagged se2\<rparr>)
                   | Snip_fault \<Rightarrow> Snip_fault
                   | Snip_more \<Rightarrow> Snip_more)))"

section \<open>Writing a snippet\<close>

definition html_byte :: "byte \<Rightarrow> bytes" where
  "html_byte c =
     (if c = 0x3c then [0x26, 0x6c, 0x74, 0x3b]
      else if c = 0x3e then [0x26, 0x67, 0x74, 0x3b]
      else if c = 0x26 then [0x26, 0x61, 0x6d, 0x70, 0x3b]
      else if c = 0x22 then [0x26, 0x71, 0x75, 0x6f, 0x74, 0x3b]
      else [c])"

text \<open>The bytes of a tag that \<open>memcpy\<close> copies, \<open>None\<close> when it would read beyond its memory.\<close>

fun tag_mem :: "snip_tag \<Rightarrow> bytes option" where
  "tag_mem (Tag_default t) = t"
| "tag_mem (Tag_given b) = Some b"
| "tag_mem (Tag_copied b) = Some b"

definition tag_bytes :: "snip_tag \<Rightarrow> nat \<Rightarrow> bytes option" where
  "tag_bytes t len =
     (if len = 0 then Some []
      else case tag_mem t of
        None \<Rightarrow> None
      | Some b \<Rightarrow> if length b < len then None else Some (take len b))"

text \<open>The opening tags at \<open>i\<close>, from the tag \<open>j\<close> on: the text and the next \<open>j\<close>.\<close>

function open_tags :: "sen_snip \<Rightarrow> snip_result \<Rightarrow> nat \<Rightarrow> nat \<Rightarrow> (bytes \<times> nat) option" where
  "open_tags snip sres i j =
     (if j \<le> sr_last_tag sres \<and> tr_start_offset (sn_tag_result snip ! j) = i then
        (let tag = sn_tag_result snip ! j; cond = sn_cond snip ! tr_cond tag in
         if tr_end_offset tag > sr_end_offset sres then open_tags snip sres i (j + 1)
         else
           (case tag_bytes (sc_opentag cond) (sc_opentag_len cond) of
              None \<Rightarrow> None
            | Some t \<Rightarrow> map_option (\<lambda>(r, j'). (t @ r, j')) (open_tags snip sres i (j + 1))))
      else Some ([], j))"
  by pat_completeness auto
termination
  by (relation "measure (\<lambda>(snip, sres, i, j). sr_last_tag sres + 1 - j)") auto

declare open_tags.simps [simp del]

text \<open>The closing tags after \<open>i\<close>, from the tag \<open>k\<close> down to the first one of the snippet.\<close>

fun close_tags :: "sen_snip \<Rightarrow> snip_result \<Rightarrow> nat \<Rightarrow> nat \<Rightarrow> bytes option" where
  "close_tags snip sres i k =
     (let tag = sn_tag_result snip ! k; cond = sn_cond snip ! tr_cond tag in
      if tr_end_offset tag \<le> sr_end_offset sres then
        (case (if tr_end_offset tag = i + 1 then tag_bytes (sc_closetag cond) (sc_closetag_len cond)
               else Some []) of
           None \<Rightarrow> None
         | Some t \<Rightarrow>
             (if k \<le> sr_first_tag sres then Some t
              else (case k of 0 \<Rightarrow> Some t
                    | Suc k' \<Rightarrow> map_option (\<lambda>r. t @ r) (close_tags snip sres i k'))))
      else Some [])"

function write_snip :: "sen_snip \<Rightarrow> snip_result \<Rightarrow> nat \<Rightarrow> nat \<Rightarrow> bytes option" where
  "write_snip snip sres i j =
     (if i < sr_end_offset sres then
        (case open_tags snip sres i j of
           None \<Rightarrow> None
         | Some (t1, j') \<Rightarrow>
             (if length (sn_string snip) \<le> i then None
              else
                (let c = sn_string snip ! i; t2 = (if sn_html snip then html_byte c else [c]) in
                 case close_tags snip sres i (sr_last_tag sres) of
                   None \<Rightarrow> None
                 | Some t3 \<Rightarrow> map_option (\<lambda>r. t1 @ t2 @ t3 @ r) (write_snip snip sres (i + 1) j'))))
      else Some [])"
  by pat_completeness auto
termination
  by (relation "measure (\<lambda>(snip, sres, i, j). sr_end_offset sres - i)") auto

declare write_snip.simps [simp del] close_tags.simps [simp del]

text \<open>
  The bytes written to \<open>result\<close>, with the terminator; their number without it is
  \<open>*result_len\<close>. A result index out of range is refused.
\<close>

definition sen_snip_get_result :: "sen_snip \<Rightarrow> nat \<Rightarrow> (sen_rc \<times> bytes) option" where
  "sen_snip_get_result snip index =
     (if sn_snip_count snip \<le> index \<or> sn_nstr snip = None then Some (sen_invalid_argument, [])
      else
        (let sres = sn_snip_result snip ! index in
         map_option (\<lambda>t. (sen_success, t @ [0]))
           (write_snip snip sres (sr_start_offset sres) (sr_first_tag sres))))"

end
