(* ===== verification/Query_Parse.thy ===== *)
theory Query_Parse
  imports Str_Num Hset_Api Snip
begin

text \<open>
  The parser of query strings (lib/query.c): the structure \<open>sen_query\<close> with its pool of cells,
  the tokens (words, phrases, operators), expressions in parentheses, the pragmas in front of a
  query with its vector or set of section weights, opening and closing.

  The string of the query is the list of its \<open>str_len\<close> bytes, followed in memory by a NUL (what
  \<open>rd\<close> reads after the end); pointers into it are offsets. A cell is a value of the datatype
  \<open>qcell\<close>; of the pool only the number of cells in use matters, because the place of a new cell
  decides whether it is still a cell: the cell with the index \<open>max_cells\<close>, which \<open>cell_new\<close> gives
  out, lies over the first bytes of the string. Storing into it is \<open>Q_overlap\<close>. A loop that never
  ends is \<open>Q_hang\<close>, and \<open>Q_more\<close> says that the fuel of the recursion of \<open>get_expr\<close> is used up.
\<close>

section \<open>Data\<close>

datatype sen_sel_operator = sen_sel_or | sen_sel_and | sen_sel_but | sen_sel_adjust

datatype sen_sel_mode =
    sen_sel_exact
  | sen_sel_partial
  | sen_sel_unsplit
  | sen_sel_near
  | sen_sel_near2
  | sen_sel_similar
  | sen_sel_term_extract
  | sen_sel_prefix
  | sen_sel_suffix

text \<open>\<open>so_func\<close>: the callback is \<open>section_weight_cb\<close> on the weights of the query.\<close>

record sen_select_optarg =
  so_mode :: sen_sel_mode
  so_similarity_threshold :: int
  so_max_interval :: int
  so_weight_vector :: "int list option"
  so_vector_size :: int
  so_func :: bool

text \<open>
  The mode of an operator is \<open>None\<close> for -1. A bulk is the offset and the size of a text in
  the string of the query.
\<close>

datatype qcell =
    Q_nil
  | Q_op sen_sel_operator int "sen_sel_mode option" int
  | Q_bulk nat nat
  | Q_list qcell qcell

record sen_query =
  q_str :: bytes
  q_cur :: nat
  q_default_op :: sen_sel_operator
  q_opt :: sen_select_optarg
  q_default_mode :: sen_sel_mode
  q_escalation_threshold :: int
  q_escalation_decaystep :: int
  q_weight_offset :: int
  q_weight_set :: "sen_set option"
  q_encoding :: sen_encoding
  q_expr :: qcell
  q_max_exprs :: nat
  q_cur_expr :: nat
  q_max_cells :: nat
  q_cur_cell :: nat
  q_snip_conds :: "snip_cond list option"

definition DEFAULT_WEIGHT :: int where "DEFAULT_WEIGHT = 5"
definition DEFAULT_DECAYSTEP :: int where "DEFAULT_DECAYSTEP = 2"
definition DEFAULT_MAX_INTERVAL :: int where "DEFAULT_MAX_INTERVAL = 10"
definition DEFAULT_SIMILARITY_THRESHOLD :: int where "DEFAULT_SIMILARITY_THRESHOLD = 10"
definition DEFAULT_TERM_EXTRACT_POLICY :: int where "DEFAULT_TERM_EXTRACT_POLICY = 0"
definition DEFAULT_WEIGHT_VECTOR_SIZE :: nat where "DEFAULT_WEIGHT_VECTOR_SIZE = 4096"
definition SEN_ID_MAX :: u32 where "SEN_ID_MAX = 0x3fffffff"

text \<open>The characters of the query language: \<open>+ - > < ~ * ( ) " \\<close>.\<close>

definition SEN_QUERY_AND :: byte where "SEN_QUERY_AND = 0x2b"
definition SEN_QUERY_BUT :: byte where "SEN_QUERY_BUT = 0x2d"
definition SEN_QUERY_ADJ_INC :: byte where "SEN_QUERY_ADJ_INC = 0x3e"
definition SEN_QUERY_ADJ_DEC :: byte where "SEN_QUERY_ADJ_DEC = 0x3c"
definition SEN_QUERY_ADJ_NEG :: byte where "SEN_QUERY_ADJ_NEG = 0x7e"
definition SEN_QUERY_PREFIX :: byte where "SEN_QUERY_PREFIX = 0x2a"
definition SEN_QUERY_PARENL :: byte where "SEN_QUERY_PARENL = 0x28"
definition SEN_QUERY_PARENR :: byte where "SEN_QUERY_PARENR = 0x29"
definition SEN_QUERY_QUOTEL :: byte where "SEN_QUERY_QUOTEL = 0x22"
definition SEN_QUERY_QUOTER :: byte where "SEN_QUERY_QUOTER = 0x22"
definition SEN_QUERY_ESCAPE :: byte where "SEN_QUERY_ESCAPE = 0x5c"

lemmas query_chars =
  SEN_QUERY_AND_def SEN_QUERY_BUT_def SEN_QUERY_ADJ_INC_def SEN_QUERY_ADJ_DEC_def
  SEN_QUERY_ADJ_NEG_def SEN_QUERY_PREFIX_def SEN_QUERY_PARENL_def SEN_QUERY_PARENR_def
  SEN_QUERY_QUOTEL_def SEN_QUERY_QUOTER_def SEN_QUERY_ESCAPE_def

section \<open>Cells\<close>

datatype 'a q_run =
    Q_overlap
  | Q_hang
  | Q_more
  | Q_ok 'a

fun q_bind :: "'a q_run \<Rightarrow> ('a \<Rightarrow> 'b q_run) \<Rightarrow> 'b q_run" where
  "q_bind Q_overlap f = Q_overlap"
| "q_bind Q_hang f = Q_hang"
| "q_bind Q_more f = Q_more"
| "q_bind (Q_ok a) f = f a"

text \<open>
  \<open>cell_new\<close> followed by the stores into the cell; NIL when the pool is used up. The result of
  the other functions is a cell with the query.
\<close>

definition cell_new :: "sen_query \<Rightarrow> qcell \<Rightarrow> (qcell \<times> sen_query) q_run" where
  "cell_new q c =
     (if q_cur_cell q \<le> q_max_cells q then
        (if q_cur_cell q = q_max_cells q then Q_overlap
         else Q_ok (c, q\<lparr>q_cur_cell := q_cur_cell q + 1\<rparr>))
      else Q_ok (Q_nil, q))"

definition cell_del :: "sen_query \<Rightarrow> sen_query" where
  "cell_del q = (if q_cur_cell q > 0 then q\<lparr>q_cur_cell := q_cur_cell q - 1\<rparr> else q)"

definition cons :: "sen_query \<Rightarrow> qcell \<Rightarrow> qcell \<Rightarrow> (qcell \<times> sen_query) q_run" where
  "cons q car cdr = cell_new q (Q_list car cdr)"

definition token_new :: "sen_query \<Rightarrow> nat \<Rightarrow> nat \<Rightarrow> (qcell \<times> sen_query) q_run" where
  "token_new q start end' =
     (if start \<ge> end' then Q_ok (Q_nil, q)
      else q_bind (cell_new q (Q_bulk start (end' - start)))
        (\<lambda>(c, q). Q_ok (c, if c = Q_nil then q else q\<lparr>q_cur_expr := q_cur_expr q + 1\<rparr>)))"

definition op_new ::
  "sen_query \<Rightarrow> sen_sel_operator \<Rightarrow> int \<Rightarrow> sen_sel_mode option \<Rightarrow> int \<Rightarrow> (qcell \<times> sen_query) q_run" where
  "op_new q op weight mode option = cell_new q (Q_op op weight mode option)"

text \<open>The first of a list of cells and the rest of it.\<close>

definition POP :: "qcell \<Rightarrow> qcell \<times> qcell" where
  "POP c = (case c of Q_list a d \<Rightarrow> (a, d) | _ \<Rightarrow> (Q_nil, c))"

section \<open>Tokens\<close>

abbreviation q_end :: "sen_query \<Rightarrow> nat" where
  "q_end q \<equiv> length (q_str q)"

abbreviation q_rest :: "sen_query \<Rightarrow> bytes" where
  "q_rest q \<equiv> drop (q_cur q) (q_str q)"

function skip_space_loop :: "sen_encoding \<Rightarrow> bytes \<Rightarrow> nat \<Rightarrow> nat" where
  "skip_space_loop enc str cur =
     (if cur < length str \<and> sen_isspace (Some (drop cur str)) enc \<noteq> 0 then
        (let len = sen_str_charlen_nonnull (drop cur str) enc in
         if len = 0 then length str else skip_space_loop enc str (cur + len))
      else cur)"
  by pat_completeness auto
termination
  by (relation "measure (\<lambda>(enc, str, cur). length str - cur)") auto

definition skip_space :: "sen_query \<Rightarrow> sen_query" where
  "skip_space q = q\<lparr>q_cur := skip_space_loop (q_encoding q) (q_str q) (q_cur q)\<rparr>"

text \<open>\<open>while (len--) { *d++ = *s++; }\<close>, from \<open>s\<close> to \<open>d\<close> within the string.\<close>

fun copy_down :: "nat \<Rightarrow> bytes \<Rightarrow> nat \<Rightarrow> nat \<Rightarrow> bytes" where
  "copy_down 0 str s d = str"
| "copy_down (Suc len) str s d = copy_down len (str[d := str ! s]) (s + 1) (d + 1)"

text \<open>
  The loop of \<open>get_phrase\<close>: the string, \<open>d\<close> and \<open>q->cur\<close> after it. When the length of the
  character is 0 nothing is copied and the loop goes on at the same place.
\<close>

partial_function (option) phrase_loop ::
  "sen_encoding \<Rightarrow> bytes \<Rightarrow> nat \<Rightarrow> nat \<Rightarrow> (bytes \<times> nat \<times> nat) option" where
  "phrase_loop enc str s d =
     (if length str \<le> s then Some (str, d, s)
      else if sen_str_charlen_nonnull (drop s str) enc = 1 \<and> str ! s = SEN_QUERY_QUOTER
        then Some (str, d, s + 1)
      else if sen_str_charlen_nonnull (drop s str) enc = 1 \<and> str ! s = SEN_QUERY_ESCAPE \<and>
          s + 1 < length str
        then phrase_loop enc (copy_down (sen_str_charlen_nonnull (drop (s + 1) str) enc) str (s + 1) d)
               (s + 1 + sen_str_charlen_nonnull (drop (s + 1) str) enc)
               (d + sen_str_charlen_nonnull (drop (s + 1) str) enc)
      else phrase_loop enc (copy_down (sen_str_charlen_nonnull (drop s str) enc) str s d)
             (s + sen_str_charlen_nonnull (drop s str) enc)
             (d + sen_str_charlen_nonnull (drop s str) enc))"

definition get_phrase :: "sen_query \<Rightarrow> (qcell \<times> sen_query) q_run" where
  "get_phrase q =
     (case phrase_loop (q_encoding q) (q_str q) (q_cur q) (q_cur q) of
        None \<Rightarrow> Q_hang
      | Some (str, d, cur) \<Rightarrow> token_new (q\<lparr>q_str := str, q_cur := cur\<rparr>) (q_cur q) d)"

text \<open>The loop of \<open>get_word\<close>: \<open>end\<close>, \<open>q->cur\<close> after it and \<open>*prefixp\<close>.\<close>

function word_loop :: "sen_encoding \<Rightarrow> bytes \<Rightarrow> nat \<Rightarrow> nat \<times> nat \<times> bool" where
  "word_loop enc str p =
     (let len = sen_str_charlen_nonnull (drop p str) enc in
      if len = 0 then (p, length str, False)
      else if sen_isspace (Some (drop p str)) enc \<noteq> 0 \<or> rd str p = SEN_QUERY_PARENR then (p, p, False)
      else if rd str p = SEN_QUERY_PREFIX then (p, p + 1, True)
      else word_loop enc str (p + len))"
  by pat_completeness auto
termination
proof (relation "measure (\<lambda>(enc, str, p). length str - p)")
  fix enc str p x
  assume "x = sen_str_charlen_nonnull (drop p str) enc" "x \<noteq> 0"
  then show "((enc, str, p + x), (enc, str, p)) \<in> measure (\<lambda>(enc, str, p). length str - p)"
    using charlen_nonnull_le [of "drop p str" enc] by auto
qed simp

declare skip_space_loop.simps [simp del] word_loop.simps [simp del]

definition get_word :: "sen_query \<Rightarrow> ((qcell \<times> sen_query) \<times> bool) q_run" where
  "get_word q =
     (case word_loop (q_encoding q) (q_str q) (q_cur q) of
        (end', cur, prefixp) \<Rightarrow>
          q_bind (token_new (q\<lparr>q_cur := cur\<rparr>) (q_cur q) end') (\<lambda>r. Q_ok (r, prefixp)))"

text \<open>
  A mode with its option behind the prefix character; \<open>start = ++end\<close>, and a default when
  \<open>sen_atoi\<close> reads nothing.
\<close>

definition get_op :: "sen_query \<Rightarrow> sen_sel_operator \<Rightarrow> int \<Rightarrow> (qcell \<times> sen_query) q_run" where
  "get_op q op weight =
     (let c = rd (q_str q) (q_cur q);
          (n, len) = sen_atoi (drop (q_cur q + 1) (q_str q));
          go = (\<lambda>mode dflt. op_new (q\<lparr>q_cur := q_cur q + 1 + len\<rparr>) op weight (Some mode)
                              (if len = 0 then dflt else n))
      in if c = 0x53 then go sen_sel_similar DEFAULT_SIMILARITY_THRESHOLD
         else if c = 0x4e then go sen_sel_near DEFAULT_MAX_INTERVAL
         else if c = 0x6e then go sen_sel_near2 DEFAULT_MAX_INTERVAL
         else if c = 0x54 then go sen_sel_term_extract DEFAULT_TERM_EXTRACT_POLICY
         else Q_ok (Q_nil, q))"

text \<open>
  The default case of \<open>get_token\<close>: a word, or the operator OR. NIL is an object whose \<open>value\<close> is
  the address of NIL itself, which does not start with an O.
\<close>

definition or_token :: "qcell \<Rightarrow> sen_query \<Rightarrow> (qcell \<times> sen_query) q_run" where
  "or_token token q =
     (case token of
        Q_bulk start sz \<Rightarrow>
          (if rd (q_str q) start = 0x4f \<and> rd (q_str q) (start + 1) = 0x52 \<and> sz = 2 then
             (let q1 = cell_del q in
              op_new (q1\<lparr>q_cur_expr := q_cur_expr q1 - 1\<rparr>) sen_sel_or DEFAULT_WEIGHT None 0)
           else Q_ok (token, q))
      | _ \<Rightarrow> Q_ok (token, q))"

definition word_token :: "sen_query \<Rightarrow> (qcell \<times> sen_query) q_run" where
  "word_token q = q_bind (get_word q) (\<lambda>((token, q1), prefixp). or_token token q1)"

definition q_step :: "sen_query \<Rightarrow> sen_query" where
  "q_step q = q\<lparr>q_cur := q_cur q + 1\<rparr>"

definition q_cons :: "(qcell \<times> sen_query) q_run \<Rightarrow> (qcell \<times> sen_query) q_run" where
  "q_cons r = q_bind r (\<lambda>(token, q). cons q token Q_nil)"

text \<open>
  \<open>get_token\<close> and \<open>get_expr\<close>. The list that \<open>get_expr\<close> builds by storing into \<open>c->u.l.cdr\<close> of the
  cell before is built here from the front; its cells are the same.
\<close>

fun get_token :: "nat \<Rightarrow> sen_query \<Rightarrow> (qcell \<times> sen_query) q_run"
and get_expr :: "nat \<Rightarrow> sen_query \<Rightarrow> (qcell \<times> sen_query) q_run" where
  "get_token 0 q0 = Q_more"
| "get_token (Suc fuel) q0 =
     (let q = skip_space q0; op = q_default_op q0; weight = DEFAULT_WEIGHT; c = rd (q_str q) (q_cur q) in
      if q_cur_expr q \<ge> q_max_exprs q \<or> q_cur_cell q \<ge> q_max_cells q \<or> q_cur q \<ge> q_end q
        then Q_ok (Q_nil, q)
      else if c = 0 then Q_ok (Q_nil, q)
      else if c = SEN_QUERY_PARENR then Q_ok (Q_nil, q_step q)
      else if c = SEN_QUERY_QUOTEL then q_cons (get_phrase (q_step q))
      else if c = SEN_QUERY_PREFIX then q_cons (get_op (q_step q) op weight)
      else if c = SEN_QUERY_AND then q_cons (op_new (q_step q) sen_sel_and weight None 0)
      else if c = SEN_QUERY_BUT then q_cons (op_new (q_step q) sen_sel_but weight None 0)
      else if c = SEN_QUERY_ADJ_INC then
        q_cons (op_new (q_step q) sen_sel_adjust (if weight < 127 then weight + 1 else weight) None 0)
      else if c = SEN_QUERY_ADJ_DEC then
        q_cons (op_new (q_step q) sen_sel_adjust (if weight > - 128 then weight - 1 else weight) None 0)
      else if c = SEN_QUERY_ADJ_NEG then q_cons (op_new (q_step q) sen_sel_adjust (- 1) None 0)
      else if c = SEN_QUERY_PARENL then q_cons (get_expr fuel (q_step q))
      else q_cons (word_token q))"
| "get_expr 0 q = Q_more"
| "get_expr (Suc fuel) q =
     q_bind (get_token fuel q)
       (\<lambda>(c, q1).
          if c = Q_nil then Q_ok (c, q1)
          else q_bind (get_expr fuel q1) (\<lambda>(r, q2). Q_ok (Q_list (fst (POP c)) r, q2)))"

section \<open>Pragmas\<close>

text \<open>
  \<open>get_weight_vector\<close>: the loop, from \<open>p\<close> on; \<open>source\<close> is where a reparse starts, when the
  weights are moved from the vector to a set. The first component of the result is the pointer
  that is returned; \<open>None\<close> when a lookup in the set does not return.
\<close>

definition weight_store :: "sen_set \<Rightarrow> nat option \<Rightarrow> int \<Rightarrow> sen_set" where
  "weight_store st ep v =
     (case ep of
        None \<Rightarrow> st
      | Some p \<Rightarrow>
          (case st_index st ! p of
             Ent e \<Rightarrow> set_value st e (store32 (word_of_int v))
           | _ \<Rightarrow> st))"

text \<open>The value behind a key, and where it ends.\<close>

definition weight_value :: "bytes \<Rightarrow> nat \<Rightarrow> int \<times> nat" where
  "weight_value str p =
     (if rd str p = 0x3a then
        (case sen_atoi (drop (p + 1) str) of (v, len) \<Rightarrow> (v, p + 1 + len))
      else (1, p))"

lemma atoui_len: "snd (atoui_loop s v p) \<le> p + length s"
  by (induction s v p rule: atoui_loop.induct) (auto simp: Let_def)

lemma atoui_pos: "fst (sen_atoui s) \<noteq> 0 \<Longrightarrow> 0 < snd (sen_atoui s)"
proof -
  have "p \<le> snd (atoui_loop s v p)" for s v p
    by (induction s v p rule: atoui_loop.induct) (auto simp: Let_def)
  then have "0 < snd (atoui_loop s v (Suc 0))" for s v by (meson Suc_le_eq)
  then show "fst (sen_atoui s) \<noteq> 0 \<Longrightarrow> 0 < snd (sen_atoui s)"
    by (cases s) (auto simp: sen_atoui_def Let_def split: if_splits)
qed

lemma weight_value_ge: "p \<le> snd (weight_value str p)"
  by (auto simp: weight_value_def split: prod.split)

lemma weight_value_after:
  "p \<le> snd (weight_value (q_str q) (p + snd (sen_atoui (drop p (q_str q)))))"
  using weight_value_ge [of "p + snd (sen_atoui (drop p (q_str q)))" "q_str q"] by linarith

function weight_loop :: "alloc \<Rightarrow> nat \<Rightarrow> nat \<Rightarrow> sen_query \<Rightarrow> (nat \<times> sen_query) option" where
  "weight_loop alloc source p q =
     (if p < q_end q then
        (let key = fst (sen_atoui (drop p (q_str q)));
             p1 = p + snd (sen_atoui (drop p (q_str q)));
             v = fst (weight_value (q_str q) p1);
             p2 = snd (weight_value (q_str q) p1)
         in if key = 0 \<or> key > SEN_ID_MAX then Some (p1, q)
            else
              (case q_weight_set q of
                 Some st \<Rightarrow>
                   (case sen_set_get alloc st (store32 key) of
                      None \<Rightarrow> None
                    | Some (ep, st1) \<Rightarrow>
                        (let q1 = q\<lparr>q_weight_set := Some (weight_store st1 ep v)\<rparr> in
                         if rd (q_str q) p2 \<noteq> 0x2c then Some (p2, q1)
                         else weight_loop alloc source (p2 + 1) q1))
               | None \<Rightarrow>
                   (if unat key < DEFAULT_WEIGHT_VECTOR_SIZE then
                      (let q1 = q\<lparr>q_opt := (q_opt q)\<lparr>so_weight_vector :=
                             map_option (\<lambda>w. w[unat key - 1 := v]) (so_weight_vector (q_opt q))\<rparr>\<rparr>
                       in if rd (q_str q) p2 \<noteq> 0x2c then Some (p2, q1)
                          else weight_loop alloc source (p2 + 1) q1)
                    else
                      (let q1 = q\<lparr>q_opt := (q_opt q)\<lparr>so_weight_vector := None\<rparr>\<rparr> in
                       case sen_set_open alloc 4 4 0 of
                         None \<Rightarrow> None
                       | Some None \<Rightarrow> Some (source, q1)
                       | Some (Some st) \<Rightarrow>
                           weight_loop alloc source source (q1\<lparr>q_weight_set := Some st\<rparr>)))))
      else Some (p, q))"
  by pat_completeness auto
termination
proof (relation "measures [\<lambda>(alloc, source, p, q). if q_weight_set q = None then 1 else 0,
    \<lambda>(alloc, source, p, q). q_end q - p]", goal_cases)
  case 1
  then show ?case by simp
qed (auto simp: diff_less_mono2 less_Suc_eq_le weight_value_after)

declare weight_loop.simps [simp del]

definition get_weight_vector :: "alloc \<Rightarrow> sen_query \<Rightarrow> nat \<Rightarrow> (nat \<times> sen_query) option" where
  "get_weight_vector alloc q source =
     (if so_weight_vector (q_opt q) = None \<and> q_weight_set q = None then
        (if \<not> alloc (4 * DEFAULT_WEIGHT_VECTOR_SIZE) then Some (source, q)
         else weight_loop alloc source source
                (q\<lparr>q_opt := (q_opt q)\<lparr>so_weight_vector := Some (replicate DEFAULT_WEIGHT_VECTOR_SIZE 0)\<rparr>\<rparr>))
      else weight_loop alloc source source q)"

text \<open>
  One pragma, at \<open>p\<close> just behind the prefix character: the new value of \<open>end\<close>. For a letter
  that is none of E, D, W nothing is read, and \<open>q->cur\<close> does not move.
\<close>

definition skip_while :: "(bytes \<Rightarrow> bool) \<Rightarrow> bytes \<Rightarrow> nat \<Rightarrow> nat" where
  "skip_while P str p =
     (case List.find (\<lambda>i. \<not> P (drop i str)) [p..<length str] of
        Some i \<Rightarrow> i
      | None \<Rightarrow> max p (length str))"

definition pragma_E :: "sen_query \<Rightarrow> nat \<Rightarrow> nat \<times> sen_query" where
  "pragma_E q p =
     (let t = sen_atoi (drop (p + 1) (q_str q));
          q1 = q\<lparr>q_escalation_threshold := fst t\<rparr>;
          e1 = skip_while (\<lambda>s. is_digit (hd s) \<or> hd s = 0x2d) (q_str q) (p + 1 + snd t)
      in if rd (q_str q) e1 = 0x2c then
           (let d = sen_atoi (drop (e1 + 1) (q_str q)); e2 = e1 + 1 + snd d
            in (e2, q1\<lparr>q_escalation_decaystep := fst d, q_cur := e2\<rparr>))
         else (e1, q1\<lparr>q_cur := e1\<rparr>))"

definition pragma_D :: "sen_query \<Rightarrow> nat \<Rightarrow> nat \<times> sen_query" where
  "pragma_D q p =
     (let start = p + 1;
          e = skip_while (\<lambda>s. hd s \<noteq> SEN_QUERY_PREFIX \<and> sen_isspace (Some s) (q_encoding q) = 0)
                (q_str q) start;
          c = rd (q_str q) start;
          op = (if e > start then
                  (if c = 0x4f then sen_sel_or
                   else if c = SEN_QUERY_AND then sen_sel_and
                   else if c = SEN_QUERY_BUT then sen_sel_but
                   else if c = SEN_QUERY_ADJ_INC then sen_sel_adjust
                   else q_default_op q)
                else q_default_op q)
      in (e, q\<lparr>q_default_op := op, q_cur := e\<rparr>))"

definition pragma_step :: "alloc \<Rightarrow> sen_query \<Rightarrow> nat \<Rightarrow> (nat \<times> sen_query) option" where
  "pragma_step alloc q p =
     (let c = rd (q_str q) p in
      if c = 0x45 then Some (pragma_E q p)
      else if c = 0x44 then Some (pragma_D q p)
      else if c = 0x57 then
        map_option (\<lambda>(e, q). (e, q\<lparr>q_cur := e\<rparr>)) (get_weight_vector alloc q (p + 1))
      else Some (p, q))"

lemma weight_loop_end:
  "weight_loop alloc source p q = Some (e, q') \<Longrightarrow> source \<le> p \<Longrightarrow> source \<le> e \<and> q_str q' = q_str q"
proof (induction alloc source p q rule: weight_loop.induct)
  case (1 alloc source p q)
  let ?key = "fst (sen_atoui (drop p (q_str q)))"
  let ?p2 = "snd (weight_value (q_str q) (p + snd (sen_atoui (drop p (q_str q)))))"
  have p2: "source \<le> ?p2" using weight_value_after [of p q] 1(5) by linarith
  note e = 1(4) [unfolded weight_loop.simps [of alloc source p q] Let_def]
  show ?case
  proof (cases "p < q_end q \<and> \<not> (?key = 0 \<or> ?key > SEN_ID_MAX)")
    case False
    then show ?thesis using e 1(5) by (auto split: if_splits)
  next
    case True
    then have t: "p < q_end q" "\<not> (?key = 0 \<or> ?key > SEN_ID_MAX)" by blast+
    show ?thesis
    proof (cases "q_weight_set q")
      case None
      note IH = 1(1,2) [OF t(1) refl refl refl refl t(2) None]
      show ?thesis
        using e t None p2 IH by (auto split: if_splits option.splits)
    next
      case (Some st)
      note IH = 1(3) [OF t(1) refl refl refl refl t(2) Some]
      show ?thesis
        using e t Some p2 IH by (auto split: if_splits option.splits)
    qed
  qed
qed

lemma get_weight_vector_end:
  "get_weight_vector alloc q p = Some (e, q') \<Longrightarrow> p \<le> e \<and> q_str q' = q_str q"
  by (auto simp: get_weight_vector_def dest: weight_loop_end split: if_splits)

lemma skip_while_ge: "p \<le> skip_while P str p"
  by (auto simp: skip_while_def find_Some_iff split: option.splits)

lemma pragma_step_end: "pragma_step alloc q p = Some (e, q') \<Longrightarrow> p \<le> e \<and> q_str q' = q_str q"
proof -
  have "p + 1 \<le> fst (pragma_D q p)" "q_str (snd (pragma_D q p)) = q_str q"
    using skip_while_ge [of "p + 1"] by (simp_all add: pragma_D_def Let_def)
  moreover have "p + 1 \<le> fst (pragma_E q p)"
  proof -
    let ?e1 = "skip_while (\<lambda>s. is_digit (hd s) \<or> hd s = 0x2d) (q_str q)
      (p + 1 + snd (sen_atoi (drop (p + 1) (q_str q))))"
    have "p + 1 + snd (sen_atoi (drop (p + 1) (q_str q))) \<le> ?e1" by (rule skip_while_ge)
    then show ?thesis by (simp add: pragma_E_def Let_def del: One_nat_def)
  qed
  moreover have "q_str (snd (pragma_E q p)) = q_str q"
    by (simp add: pragma_E_def Let_def)
  ultimately show "pragma_step alloc q p = Some (e, q') \<Longrightarrow> p \<le> e \<and> q_str q' = q_str q"
    by (cases "pragma_D q p"; cases "pragma_E q p")
      (auto simp: pragma_step_def Let_def dest: get_weight_vector_end split: if_splits)
qed

function pragma_loop :: "alloc \<Rightarrow> sen_query \<Rightarrow> nat \<Rightarrow> sen_query option" where
  "pragma_loop alloc q p =
     (if p < q_end q \<and> rd (q_str q) p = SEN_QUERY_PREFIX \<and> p + 1 < q_end q then
        (case pragma_step alloc q (p + 1) of
           None \<Rightarrow> None
         | Some (e, q1) \<Rightarrow> pragma_loop alloc q1 e)
      else Some q)"
  by pat_completeness auto
termination
proof (relation "measure (\<lambda>(alloc, q, p). q_end q - p)", goal_cases)
  case (2 alloc q p r e q1)
  then show ?case using pragma_step_end [of alloc q "p + 1" e q1] by auto
qed simp

declare pragma_loop.simps [simp del]

definition get_pragma :: "alloc \<Rightarrow> sen_query \<Rightarrow> sen_query option" where
  "get_pragma alloc q = pragma_loop alloc q (q_cur q)"

text \<open>The weight of a section, from the set; the set may have to leave its array form.\<close>

definition section_weight_cb :: "alloc \<Rightarrow> sen_set option \<Rightarrow> u32 \<Rightarrow> int option" where
  "section_weight_cb alloc s sid =
     (case s of
        None \<Rightarrow> Some 0
      | Some st \<Rightarrow>
          map_option
            (\<lambda>(ep, st1). case ep of
               None \<Rightarrow> 0
             | Some p \<Rightarrow>
                 (case st_index st1 ! p of
                    Ent e \<Rightarrow> sint (load32 (drop (key_bytes st1) (en_dummy (st_mem st1 e))))
                  | _ \<Rightarrow> 0))
            (sen_set_at alloc st (store32 sid)))"

section \<open>Opening and closing\<close>

text \<open>
  \<open>sen_query_open\<close>; \<open>sz\<close> is the size of the block that is requested, \<open>blk\<close> what it holds (the
  fields that are not set keep it), \<open>threshold\<close> the escalation threshold chosen when the
  library is configured. The fuel is for \<open>get_expr\<close>.
\<close>

definition query_init ::
  "sen_query \<Rightarrow> int \<Rightarrow> bytes \<Rightarrow> sen_sel_operator \<Rightarrow> nat \<Rightarrow> sen_encoding \<Rightarrow> sen_query" where
  "query_init blk threshold str default_op max_exprs encoding =
     blk\<lparr>q_str := str, q_cur := 0, q_default_op := default_op, q_encoding := encoding,
         q_max_exprs := max_exprs, q_max_cells := max_exprs * 4, q_cur_cell := 0, q_cur_expr := 0,
         q_escalation_threshold := threshold, q_escalation_decaystep := DEFAULT_DECAYSTEP,
         q_weight_offset := 0, q_opt := (q_opt blk)\<lparr>so_weight_vector := None\<rparr>, q_weight_set := None\<rparr>"

definition sen_query_open ::
  "alloc \<Rightarrow> nat \<Rightarrow> sen_query \<Rightarrow> int \<Rightarrow> nat \<Rightarrow> bytes \<Rightarrow> nat \<Rightarrow> sen_sel_operator \<Rightarrow> nat \<Rightarrow> sen_encoding \<Rightarrow>
   sen_query option q_run" where
  "sen_query_open alloc sz blk threshold fuel str str_len default_op max_exprs encoding =
     (if \<not> alloc sz then Q_ok None
      else
        (case get_pragma alloc (query_init blk threshold (take str_len str) default_op max_exprs encoding) of
           None \<Rightarrow> Q_hang
         | Some q \<Rightarrow>
             q_bind (get_expr fuel q)
               (\<lambda>(expr, q). Q_ok (Some
                  (q\<lparr>q_expr := expr,
                     q_opt := (q_opt q)\<lparr>so_vector_size := int DEFAULT_WEIGHT_VECTOR_SIZE,
                                        so_func := q_weight_set q \<noteq> None\<rparr>,
                     q_snip_conds := None\<rparr>)))))"

text \<open>The bytes that are left, with the pointer to them (\<open>rest\<close> not NULL).\<close>

definition sen_query_rest :: "sen_query option \<Rightarrow> nat \<times> nat option" where
  "sen_query_rest q =
     (case q of
        None \<Rightarrow> (0, None)
      | Some q \<Rightarrow> (q_end q - q_cur q, Some (q_cur q)))"

definition sen_query_str :: "sen_query \<Rightarrow> sen_rc \<times> bytes \<times> nat" where
  "sen_query_str q = (sen_success, q_str q, q_end q)"

datatype query_block =
    Blk_weights
  | Blk_weight_set
  | Blk_cond nstr_block
  | Blk_conds
  | Blk_query

definition sen_query_close :: "sen_query option \<Rightarrow> sen_rc \<times> query_block list" where
  "sen_query_close q =
     (case q of
        None \<Rightarrow> (sen_invalid_argument, [])
      | Some q \<Rightarrow>
          (sen_success,
           (if so_weight_vector (q_opt q) \<noteq> None then [Blk_weights] else []) @
           (if q_weight_set q \<noteq> None then [Blk_weight_set] else []) @
           (case q_snip_conds q of
              None \<Rightarrow> []
            | Some conds \<Rightarrow>
                concat (map (\<lambda>c. map Blk_cond (snd (sen_snip_cond_close (Some c))))
                  (take (q_cur_expr q) conds)) @ [Blk_conds]) @
           [Blk_query]))"

text \<open>
  The terms of a query: the callback gets every bulk, until it answers 0. The result is
  whether to go on, with the terms that were passed.
\<close>

fun query_term_rec :: "(bytes \<Rightarrow> bool) \<Rightarrow> bytes \<Rightarrow> qcell \<Rightarrow> bool \<times> bytes list" where
  "query_term_rec func str (Q_bulk start sz) =
     (let t = take sz (drop start str) in (func t, [t]))"
| "query_term_rec func str (Q_list car cdr) =
     (let (go, ts) = query_term_rec func str car in
      if \<not> go then (False, ts)
      else (let (go', ts') = (case cdr of
              Q_list _ _ \<Rightarrow> query_term_rec func str cdr
            | _ \<Rightarrow> (True, []))
            in (go', ts @ ts')))"
| "query_term_rec func str c = (True, [])"

definition sen_query_term :: "sen_query \<Rightarrow> (bytes \<Rightarrow> bool) \<Rightarrow> bytes list" where
  "sen_query_term q func = snd (query_term_rec func (q_str q) (q_expr q))"

end
