(* ===== verification/Snip_Room.thy ===== *)
theory Snip_Room
  imports Snip
begin

text \<open>
  The room that \<open>sen_snip_exec\<close> announces is enough: a snippet written by
  \<open>sen_snip_get_result\<close> has at most \<open>max_tagged_len\<close> bytes. Part one bounds what is written by
  the lengths of the tags of the snippet and of its mapped bytes, part two shows that the loops
  of \<open>sen_snip_exec\<close> count exactly these.
\<close>

section \<open>What is written\<close>

abbreviation tag_at :: "sen_snip \<Rightarrow> nat \<Rightarrow> snip_tag_result" where
  "tag_at snip t \<equiv> sn_tag_result snip ! t"

definition open_len :: "sen_snip \<Rightarrow> nat \<Rightarrow> nat" where
  "open_len snip t = sc_opentag_len (sn_cond snip ! tr_cond (tag_at snip t))"

definition close_len :: "sen_snip \<Rightarrow> nat \<Rightarrow> nat" where
  "close_len snip t = sc_closetag_len (sn_cond snip ! tr_cond (tag_at snip t))"

definition mapped_sum :: "bytes \<Rightarrow> nat \<Rightarrow> nat \<Rightarrow> nat" where
  "mapped_sum s a b = (\<Sum>i \<in> {a..<b}. mapped_len (s ! i))"

lemma tag_bytes_length: "tag_bytes t len = Some b \<Longrightarrow> length b = len"
  by (auto simp: tag_bytes_def split: if_splits option.splits)

lemma html_byte_length: "length (html_byte c) = mapped_len c"
  by (simp add: html_byte_def mapped_len_def)

lemma mapped_len_pos: "1 \<le> mapped_len c"
  by (simp add: mapped_len_def)

lemma sum_first: "a < (b::nat) \<Longrightarrow> (\<Sum>t \<in> {a..<b}. f t) = f a + (\<Sum>t \<in> {Suc a..<b}. f t :: nat)"
  by (simp add: sum.atLeast_Suc_lessThan)

lemma open_tags_length:
  "open_tags snip sres i j = Some (t, j') \<Longrightarrow>
     j \<le> j' \<and> (j \<le> sr_last_tag sres + 1 \<longrightarrow> j' \<le> sr_last_tag sres + 1) \<and>
     length t \<le> (\<Sum>u \<in> {j..<j'}. open_len snip u)"
proof (induction snip sres i j arbitrary: t j' rule: open_tags.induct)
  case (1 snip sres i j)
  note unf = open_tags.simps [of snip sres i j]
  show ?case
  proof (cases "j \<le> sr_last_tag sres \<and> tr_start_offset (tag_at snip j) = i")
    case False
    then have "t = [] \<and> j' = j" using 1(3) unf by auto
    then show ?thesis by simp
  next
    case True
    show ?thesis
    proof (cases "tr_end_offset (tag_at snip j) > sr_end_offset sres")
      case over: True
      then have "open_tags snip sres i (j + 1) = Some (t, j')" using 1(3) True unf by simp
      from 1(1) [OF True refl refl over this] True
      have "j + 1 \<le> j'" "j' \<le> sr_last_tag sres + 1" "length t \<le> (\<Sum>u \<in> {j + 1..<j'}. open_len snip u)"
        by simp_all
      then show ?thesis using sum_first [of j j' "open_len snip"] True by simp
    next
      case False
      let ?c = "sn_cond snip ! tr_cond (tag_at snip j)"
      obtain t1 t2 where t: "tag_bytes (sc_opentag ?c) (sc_opentag_len ?c) = Some t1"
        "open_tags snip sres i (j + 1) = Some (t2, j')" "t = t1 @ t2"
        using 1(3) True False unf by (auto simp: Let_def split: option.splits)
      from 1(2) [OF True refl refl False t(1) t(2)] True
      have "j + 1 \<le> j'" "j' \<le> sr_last_tag sres + 1" "length t2 \<le> (\<Sum>u \<in> {j + 1..<j'}. open_len snip u)"
        by simp_all
      moreover have "length t1 = open_len snip j" using tag_bytes_length [OF t(1)] by (simp add: open_len_def)
      ultimately show ?thesis using sum_first [of j j' "open_len snip"] True t(3) by simp
    qed
  qed
qed

lemma close_tags_length:
  "close_tags snip sres i k = Some t \<Longrightarrow> sr_first_tag sres \<le> k \<Longrightarrow>
     length t \<le> (\<Sum>u \<in> {sr_first_tag sres..<Suc k}.
       if tr_end_offset (tag_at snip u) = i + 1 then close_len snip u else 0)"
proof (induction k arbitrary: t)
  case 0
  then show ?case
    by (subst (asm) close_tags.simps)
      (auto simp: close_len_def Let_def dest: tag_bytes_length split: if_splits option.splits)
next
  case (Suc k)
  let ?f = "\<lambda>u. if tr_end_offset (tag_at snip u) = i + 1 then close_len snip u else 0"
  let ?c = "sn_cond snip ! tr_cond (tag_at snip (Suc k))"
  let ?b = "if tr_end_offset (tag_at snip (Suc k)) = i + 1
            then tag_bytes (sc_closetag ?c) (sc_closetag_len ?c) else Some []"
  have split: "(\<Sum>u \<in> {sr_first_tag sres..<Suc (Suc k)}. ?f u) =
      (\<Sum>u \<in> {sr_first_tag sres..<Suc k}. ?f u) + ?f (Suc k)"
    using Suc.prems(2) by simp
  have b: "length t1 = ?f (Suc k)" if "?b = Some t1" for t1
    using that by (auto simp: close_len_def dest: tag_bytes_length split: if_splits)
  show ?case
  proof (cases "tr_end_offset (tag_at snip (Suc k)) \<le> sr_end_offset sres")
    case False
    then have "t = []" using Suc.prems(1) by (subst (asm) close_tags.simps) (simp add: Let_def)
    then show ?thesis by simp
  next
    case True
    then obtain t1 where t1: "?b = Some t1"
      using Suc.prems(1) by (subst (asm) close_tags.simps) (auto simp: Let_def split: option.splits)
    have e: "(if Suc k \<le> sr_first_tag sres then Some t1
              else map_option (\<lambda>r. t1 @ r) (close_tags snip sres i k)) = Some t"
      using Suc.prems(1) True t1 by (subst (asm) close_tags.simps) (simp only: Let_def if_True option.case nat.case)
    show ?thesis
    proof (cases "Suc k \<le> sr_first_tag sres")
      case True
      then show ?thesis using e b [OF t1] split by simp
    next
      case False
      then obtain r where "close_tags snip sres i k = Some r" "t = t1 @ r" using e by auto
      then show ?thesis using Suc.IH [of r] False b [OF t1] split by simp
    qed
  qed
qed

lemma write_snip_length:
  assumes "write_snip snip sres i j = Some t" "sr_first_tag sres \<le> sr_last_tag sres"
    and "j \<le> sr_last_tag sres + 1"
  shows "length t \<le> (\<Sum>u \<in> {j..<sr_last_tag sres + 1}. open_len snip u) +
    (\<Sum>u \<in> {sr_first_tag sres..<sr_last_tag sres + 1}.
       if i < tr_end_offset (tag_at snip u) then close_len snip u else 0) +
    mapped_sum (sn_string snip) i (sr_end_offset sres)"
  using assms
proof (induction snip sres i j arbitrary: t rule: write_snip.induct)
  case (1 snip sres i j)
  let ?last = "sr_last_tag sres" and ?first = "sr_first_tag sres" and ?s = "sn_string snip"
  show ?case
  proof (cases "i < sr_end_offset sres")
    case False
    then have "t = []" using "1.prems"(1) by (subst (asm) write_snip.simps) simp
    then show ?thesis by simp
  next
    case True
    let ?c = "?s ! i"
    obtain t1 j' t3 r where t: "open_tags snip sres i j = Some (t1, j')"
      "close_tags snip sres i ?last = Some t3" "write_snip snip sres (i + 1) j' = Some r"
      "\<not> length ?s \<le> i" "t = t1 @ (if sn_html snip then html_byte ?c else [?c]) @ t3 @ r"
      using "1.prems"(1) True
      by (subst (asm) write_snip.simps) (auto simp: Let_def split: option.splits prod.splits if_splits)
    note ot = open_tags_length [OF t(1)]
    have j': "j \<le> j'" "j' \<le> ?last + 1" using ot "1.prems"(3) by simp_all
    have IH: "length r \<le> (\<Sum>u \<in> {j'..<?last + 1}. open_len snip u) +
        (\<Sum>u \<in> {?first..<?last + 1}. if i + 1 < tr_end_offset (tag_at snip u) then close_len snip u else 0) +
        mapped_sum ?s (i + 1) (sr_end_offset sres)"
      using "1.IH" [OF True t(1) refl t(4) refl refl t(2) t(3) "1.prems"(2) j'(2)] .
    have opens: "(\<Sum>u \<in> {j..<?last + 1}. open_len snip u) =
        (\<Sum>u \<in> {j..<j'}. open_len snip u) + (\<Sum>u \<in> {j'..<?last + 1}. open_len snip u)"
      by (rule sum.atLeastLessThan_concat [OF j', symmetric])
    have closes: "(\<Sum>u \<in> {?first..<?last + 1}. if i < tr_end_offset (tag_at snip u) then close_len snip u else 0) =
        (\<Sum>u \<in> {?first..<?last + 1}. if tr_end_offset (tag_at snip u) = i + 1 then close_len snip u else 0) +
        (\<Sum>u \<in> {?first..<?last + 1}. if i + 1 < tr_end_offset (tag_at snip u) then close_len snip u else 0)"
      unfolding sum.distrib [symmetric] by (rule sum.cong) auto
    have maps: "mapped_sum ?s i (sr_end_offset sres) =
        mapped_len ?c + mapped_sum ?s (i + 1) (sr_end_offset sres)"
      using sum_first [OF True] by (simp add: mapped_sum_def)
    have c: "length (if sn_html snip then html_byte ?c else [?c]) \<le> mapped_len ?c"
      using mapped_len_pos [of ?c] by (simp add: html_byte_length)
    have "length t3 \<le> (\<Sum>u \<in> {?first..<?last + 1}.
        if tr_end_offset (tag_at snip u) = i + 1 then close_len snip u else 0)"
      using close_tags_length [OF t(2) "1.prems"(2)] by simp
    then show ?thesis
      unfolding t(5) opens closes maps using IH ot c by simp
  qed
qed

text \<open>The room that a snippet needs: its tags, its bytes and the terminator.\<close>

definition snip_room :: "sen_snip \<Rightarrow> bytes \<Rightarrow> snip_result \<Rightarrow> nat" where
  "snip_room snip s sres =
     (\<Sum>u \<in> {sr_first_tag sres..<sr_last_tag sres + 1}. open_len snip u + close_len snip u) +
     mapped_sum s (sr_start_offset sres) (sr_end_offset sres) + 1"

lemma get_result_length:
  assumes "sen_snip_get_result snip k = Some (sen_success, t)" "k < length (sn_snip_result snip)"
    and "\<forall>sres \<in> set (sn_snip_result snip). sr_first_tag sres \<le> sr_last_tag sres \<and>
      snip_room snip (sn_string snip) sres \<le> room"
  shows "length t \<le> room"
proof -
  let ?r = "sn_snip_result snip ! k"
  have r: "sr_first_tag ?r \<le> sr_last_tag ?r" "snip_room snip (sn_string snip) ?r \<le> room"
    using assms(2,3) nth_mem by blast+
  obtain w where w: "write_snip snip ?r (sr_start_offset ?r) (sr_first_tag ?r) = Some w" "t = w @ [0]"
    using assms(1) by (auto simp: sen_snip_get_result_def Let_def split: if_splits)
  have "length w \<le> (\<Sum>u \<in> {sr_first_tag ?r..<sr_last_tag ?r + 1}. open_len snip u) +
    (\<Sum>u \<in> {sr_first_tag ?r..<sr_last_tag ?r + 1}.
       if sr_start_offset ?r < tr_end_offset (tag_at snip u) then close_len snip u else 0) +
    mapped_sum (sn_string snip) (sr_start_offset ?r) (sr_end_offset ?r)"
    using write_snip_length [OF w(1) r(1)] r(1) by simp
  also have "\<dots> \<le> (\<Sum>u \<in> {sr_first_tag ?r..<sr_last_tag ?r + 1}. open_len snip u) +
    (\<Sum>u \<in> {sr_first_tag ?r..<sr_last_tag ?r + 1}. close_len snip u) +
    mapped_sum (sn_string snip) (sr_start_offset ?r) (sr_end_offset ?r)"
    by (intro add_mono sum_mono order_refl) simp_all
  finally show ?thesis using r(2) w(2) by (simp add: snip_room_def sum.distrib)
qed

section \<open>What the loops count\<close>

definition tag_lens :: "snip_cond list \<Rightarrow> (nat \<times> nat) list" where
  "tag_lens conds = map (\<lambda>c. (sc_opentag_len c, sc_closetag_len c)) conds"

lemma tag_lens_length: "length (tag_lens conds) = length conds"
  by (simp add: tag_lens_def)

lemma tag_lens_update:
  "ci < length conds \<Longrightarrow> sc_opentag_len c = sc_opentag_len (conds ! ci) \<Longrightarrow>
   sc_closetag_len c = sc_closetag_len (conds ! ci) \<Longrightarrow> tag_lens (conds[ci := c]) = tag_lens conds"
  by (simp add: tag_lens_def map_update list_update_same_conv [of ci])

lemma tunedbm_tags:
  assumes "sen_bm_tunedbm cond object flags = Some cond'"
  shows "sc_opentag_len cond' = sc_opentag_len cond" "sc_closetag_len cond' = sc_closetag_len cond"
proof -
  have "sc_opentag_len (bm_report cond object flags m f s) = sc_opentag_len cond \<and>
      sc_closetag_len (bm_report cond object flags m f s) = sc_closetag_len cond" for m f s
    by (simp add: bm_report_def Let_def split: prod.splits)
  then show "sc_opentag_len cond' = sc_opentag_len cond" "sc_closetag_len cond' = sc_closetag_len cond"
    using assms by (auto simp: sen_bm_tunedbm_def Let_def split: if_splits option.splits)
qed

text \<open>The room of the tag \<open>t\<close>, from the lengths \<open>L\<close> of the tags of the conditions.\<close>

definition room_of :: "(nat \<times> nat) list \<Rightarrow> snip_tag_result list \<Rightarrow> nat \<Rightarrow> nat" where
  "room_of L tags t = fst (L ! tr_cond (tags ! t)) + snd (L ! tr_cond (tags ! t))"

definition tags_room :: "(nat \<times> nat) list \<Rightarrow> snip_tag_result list \<Rightarrow> nat \<Rightarrow> nat \<Rightarrow> nat" where
  "tags_room L tags a b = (\<Sum>t \<in> {a..<b}. room_of L tags t)"

lemma tags_room_append:
  "b \<le> length tags \<Longrightarrow> tags_room L (tags @ [x]) a b = tags_room L tags a b"
  unfolding tags_room_def by (rule sum.cong) (auto simp: room_of_def nth_append)

lemma tags_room_snoc:
  "a \<le> length tags \<Longrightarrow> tags_room L (tags @ [x]) a (Suc (length tags)) =
     tags_room L tags a (length tags) + (fst (L ! tr_cond x) + snd (L ! tr_cond x))"
  using tags_room_append [of "length tags" tags L x a]
  by (simp add: tags_room_def room_of_def)

definition result_ok :: "(nat \<times> nat) list \<Rightarrow> snip_tag_result list \<Rightarrow> bytes \<Rightarrow> nat \<Rightarrow> snip_result \<Rightarrow> bool" where
  "result_ok L tags s m sr \<longleftrightarrow>
     sr_first_tag sr \<le> sr_last_tag sr \<and> sr_last_tag sr < length tags \<and>
     tags_room L tags (sr_first_tag sr) (sr_last_tag sr + 1) +
       mapped_sum s (sr_start_offset sr) (sr_end_offset sr) + 1 \<le> m"

lemma result_ok_append: "result_ok L tags s m sr \<Longrightarrow> result_ok L (tags @ [x]) s m sr"
  by (auto simp: result_ok_def tags_room_append)

text \<open>
  The invariant: the finished snippets have room, and the room counted for the current one is
  that of its tags.
\<close>

definition room_inv :: "(nat \<times> nat) list \<Rightarrow> bytes \<Rightarrow> snip_exec \<Rightarrow> bool" where
  "room_inv L s se \<longleftrightarrow>
     tag_lens (sn_cond (se_snip se)) = L \<and>
     (\<forall>tag \<in> set (sn_tag_result (se_snip se)). tr_cond tag < length L) \<and>
     (\<forall>sr \<in> set (se_results se). result_ok L (sn_tag_result (se_snip se)) s (se_max_tagged se) sr)"

definition current_inv :: "(nat \<times> nat) list \<Rightarrow> snip_exec \<Rightarrow> bool" where
  "current_inv L se \<longleftrightarrow>
     (if sr_tag_count (se_sr se) = 0 then se_tagged se = 0 \<and> \<not> se_found_cond se
      else sr_first_tag (se_sr se) < length (sn_tag_result (se_snip se)) \<and>
        se_tagged se = tags_room L (sn_tag_result (se_snip se)) (sr_first_tag (se_sr se))
                         (length (sn_tag_result (se_snip se))))"

lemma advance_cond_inv:
  assumes "advance_cond ci se = Some se'" "ci < length (sn_cond (se_snip se))"
  shows "room_inv L s se \<Longrightarrow> room_inv L s se'" "current_inv L se \<Longrightarrow> current_inv L se'"
    "length (sn_cond (se_snip se')) = length (sn_cond (se_snip se))"
    "se_results se' = se_results se"
proof -
  obtain c where c: "sen_bm_tunedbm (sn_cond (se_snip se) ! ci) (the (sn_nstr (se_snip se)))
      (sn_flags (se_snip se)) = Some c"
    "se' = se\<lparr>se_snip := (se_snip se)\<lparr>sn_cond := (sn_cond (se_snip se))[ci := c]\<rparr>\<rparr>"
    using assms(1) by (auto simp: advance_cond_def Let_def split: option.splits)
  have "tag_lens ((sn_cond (se_snip se))[ci := c]) = tag_lens (sn_cond (se_snip se))"
    by (rule tag_lens_update [OF assms(2) tunedbm_tags [OF c(1)]])
  then show "room_inv L s se \<Longrightarrow> room_inv L s se'" by (simp add: room_inv_def c(2))
  show "current_inv L se \<Longrightarrow> current_inv L se'" by (simp add: current_inv_def c(2))
  show "length (sn_cond (se_snip se')) = length (sn_cond (se_snip se))" "se_results se' = se_results se"
    by (simp_all add: c(2))
qed

lemma pick_cond_less: "pick_cond conds = Some ci \<Longrightarrow> ci < length conds"
proof -
  have "snd (snd (fold (\<lambda>i (a, b, c).
      (let cond = conds ! i in
       if sc_stopflag cond = SNIPCOND_NONSTOP \<and>
          (a > sc_start_offset cond \<or> a = sc_start_offset cond \<and> b < sc_end_offset cond)
       then (sc_start_offset cond, sc_end_offset cond, Some i) else (a, b, c))) is (a, b, c))) = Some ci
    \<Longrightarrow> ci \<in> set is \<or> c = Some ci" for "is" a b c
    by (induction "is" arbitrary: a b c) (auto simp: Let_def split: if_splits)
  then show "pick_cond conds = Some ci \<Longrightarrow> ci < length conds"
    unfolding pick_cond_def by fastforce
qed

fun in_ok :: "(snip_exec \<Rightarrow> bool) \<Rightarrow> inner_result \<Rightarrow> bool" where
  "in_ok P In_fault = True"
| "in_ok P (In_break se) = P se"
| "in_ok P (In_next se) = P se"

definition loop_inv :: "(nat \<times> nat) list \<Rightarrow> bytes \<Rightarrow> snip_exec \<Rightarrow> bool" where
  "loop_inv L s se \<longleftrightarrow> room_inv L s se \<and> current_inv L se"

lemma advance_next_inv:
  "loop_inv L s se \<Longrightarrow> ci < length (sn_cond (se_snip se)) \<Longrightarrow> in_ok (loop_inv L s) (advance_next ci se)"
  using advance_cond_inv [of ci se] by (auto simp: advance_next_def loop_inv_def split: option.splits)

lemma tag_cond_inv:
  assumes "room_inv L s se" and ci: "ci < length (sn_cond (se_snip se))"
    and cur: "sr_tag_count (se_sr se) = 0 \<Longrightarrow>
      se_tagged se = 0 \<and> \<not> se_found_cond se \<and> sr_first_tag (se_sr se) = length (sn_tag_result (se_snip se))"
    "sr_tag_count (se_sr se) \<noteq> 0 \<Longrightarrow> current_inv L se"
  shows "in_ok (loop_inv L s) (tag_cond ci se)"
proof -
  let ?snip = "se_snip se"
  let ?cond = "sn_cond ?snip ! ci" and ?sr = "se_sr se" and ?tags = "sn_tag_result ?snip"
  show ?thesis
  proof (cases "sc_end_offset ?cond > sr_start_offset ?sr + sn_width ?snip")
    case True
    let ?se = "se\<lparr>se_snip := ?snip\<lparr>sn_cond := (sn_cond ?snip)[ci := ?cond\<lparr>sc_stopflag := SNIPCOND_ACROSS\<rparr>]\<rparr>\<rparr>"
    have "tag_lens ((sn_cond ?snip)[ci := ?cond\<lparr>sc_stopflag := SNIPCOND_ACROSS\<rparr>]) = tag_lens (sn_cond ?snip)"
      by (rule tag_lens_update [OF ci]) simp_all
    moreover have "current_inv L se" using cur by (auto simp: current_inv_def)
    ultimately have "loop_inv L s ?se" using assms(1) by (simp add: loop_inv_def room_inv_def current_inv_def)
    then show ?thesis
      using True advance_next_inv [of L s ?se ci] ci by (simp add: tag_cond_def Let_def)
  next
    case False
    let ?tag = "\<lparr>tr_start_offset = sc_start_offset ?cond, tr_end_offset = sc_end_offset ?cond, tr_cond = ci\<rparr>"
    define se' where "se' = se\<lparr>se_found_cond := True,
      se_unfound := (if sc_count ?cond = 0 then se_unfound se - 1 else se_unfound se),
      se_last_end := sc_end_offset ?cond, se_last_tag_end := sc_end_offset ?cond,
      se_tagged := se_tagged se + (sc_opentag_len ?cond + sc_closetag_len ?cond),
      se_sr := ?sr\<lparr>sr_tag_count := sr_tag_count ?sr + 1\<rparr>,
      se_snip := ?snip\<lparr>sn_cond := (sn_cond ?snip)[ci := ?cond\<lparr>sc_count := sc_count ?cond + 1\<rparr>],
        sn_tag_result := ?tags @ [?tag]\<rparr>\<rparr>"
    have e: "tag_cond ci se =
        (if length (?tags @ [?tag]) \<ge> MAX_SNIP_TAG_COUNT then In_break se' else advance_next ci se')"
      using False by (simp add: tag_cond_def Let_def se'_def)
    have L: "tag_lens ((sn_cond ?snip)[ci := ?cond\<lparr>sc_count := sc_count ?cond + 1\<rparr>]) = L"
      using tag_lens_update [OF ci, of "?cond\<lparr>sc_count := sc_count ?cond + 1\<rparr>"] assms(1)
      by (simp add: room_inv_def)
    have Lci: "L ! ci = (sc_opentag_len ?cond, sc_closetag_len ?cond)" "ci < length L"
      using assms(1) ci by (auto simp: room_inv_def tag_lens_def)
    have "room_inv L s se'"
      using assms(1) L Lci(2) by (auto simp: room_inv_def se'_def intro: result_ok_append)
    moreover have first: "sr_first_tag ?sr \<le> length ?tags \<and>
        se_tagged se = tags_room L ?tags (sr_first_tag ?sr) (length ?tags)"
      using cur by (cases "sr_tag_count ?sr = 0") (auto simp: current_inv_def tags_room_def)
    then have "current_inv L se'"
      using tags_room_snoc [of "sr_first_tag ?sr" ?tags L ?tag] Lci(1)
      by (simp add: current_inv_def se'_def)
    ultimately have inv: "loop_inv L s se'" by (simp add: loop_inv_def)
    then show ?thesis using e advance_next_inv [OF inv, of ci] ci by (simp add: se'_def)
  qed
qed

lemma inner_step_inv:
  assumes "loop_inv L s se"
  shows "in_ok (loop_inv L s) (inner_step se)"
proof (cases "pick_cond (sn_cond (se_snip se))")
  case None
  then show ?thesis using assms by (simp add: inner_step_def Let_def)
next
  case (Some ci)
  note ci = pick_cond_less [OF Some]
  note adv = advance_next_inv [OF assms ci]
  have "in_ok (loop_inv L s) (tag_cond ci se)" if "sr_tag_count (se_sr se) \<noteq> 0"
    using that assms by (intro tag_cond_inv [OF _ ci]) (auto simp: loop_inv_def)
  moreover have "in_ok (loop_inv L s) (tag_cond ci (se\<lparr>se_sr := (se_sr se)
      \<lparr>sr_start_offset := a, sr_first_tag := length (sn_tag_result (se_snip se))\<rparr>\<rparr>))"
    if "sr_tag_count (se_sr se) = 0" for a
    using that assms ci by (intro tag_cond_inv) (auto simp: loop_inv_def room_inv_def current_inv_def)
  ultimately show ?thesis
    using Some adv assms by (simp add: inner_step_def Let_def)
qed

lemma inner_loop_inv:
  "loop_inv L s se \<Longrightarrow> inner_loop fuel se = Snip_done se' \<Longrightarrow> loop_inv L s se'"
proof (induction fuel arbitrary: se)
  case (Suc fuel)
  with inner_step_inv [OF Suc.prems(1)] show ?case by (auto split: inner_result.splits)
qed simp

lemma count_mapped_sum:
  assumes "count_mapped_chars s a b = Some k"
  shows "k = mapped_sum s a b"
proof -
  have ab: "a \<le> b" "b \<le> length s" and k: "k = fold (\<lambda>c dl. dl + mapped_len c) (take (b - a) (drop a s)) 0"
    using assms by (auto simp: count_mapped_chars_def split: if_splits)
  have f: "fold (\<lambda>c dl. dl + mapped_len c) cs d = d + (\<Sum>c\<leftarrow>cs. mapped_len c)" for cs d
    by (induction cs arbitrary: d) simp_all
  have "take (b - a) (drop a s) = map ((!) s) [a..<b]"
    using ab by (intro nth_equalityI) simp_all
  then show ?thesis
    unfolding k f mapped_sum_def by (simp add: comp_def interv_sum_list_conv_sum_set_nat)
qed

lemma finish_snip_inv:
  assumes "loop_inv L s se" "se_found_cond se" "finish_snip s n se = Some se'"
  shows "room_inv L s se'"
proof -
  let ?tags = "sn_tag_result (se_snip se)"
  obtain start stop k where k: "count_mapped_chars s start stop = Some k"
    and se': "se' = se\<lparr>se_sr := (se_sr se)\<lparr>sr_start_offset := start, sr_end_offset := stop,
                         sr_last_tag := length ?tags - 1\<rparr>,
        se_last_last_end := stop, se_tagged := se_tagged se + (k + 1),
        se_max_tagged := max (se_max_tagged se) (se_tagged se + (k + 1)),
        se_results := se_results se @ [(se_sr se)\<lparr>sr_start_offset := start, sr_end_offset := stop,
                         sr_last_tag := length ?tags - 1\<rparr>]\<rparr>"
    using assms(3) by (auto simp: finish_snip_def Let_def split: option.splits)
  have cur: "sr_first_tag (se_sr se) < length ?tags"
    "se_tagged se = tags_room L ?tags (sr_first_tag (se_sr se)) (length ?tags)"
    using assms(1,2) by (auto simp: loop_inv_def current_inv_def split: if_splits)
  then have "length ?tags - 1 + 1 = length ?tags" by simp
  then have "result_ok L ?tags s (se_max_tagged se')
      ((se_sr se)\<lparr>sr_start_offset := start, sr_end_offset := stop, sr_last_tag := length ?tags - 1\<rparr>)"
    using cur count_mapped_sum [OF k] by (simp add: result_ok_def se')
  moreover have "result_ok L ?tags s (se_max_tagged se') sr" if "sr \<in> set (se_results se)" for sr
    using that assms(1) by (force simp: loop_inv_def room_inv_def result_ok_def se')
  ultimately show ?thesis using assms(1) by (simp add: loop_inv_def room_inv_def se')
qed

lemma new_snip_inv: "room_inv L s se \<Longrightarrow> loop_inv L s (new_snip se)"
  by (simp add: loop_inv_def room_inv_def current_inv_def new_snip_def)

lemma restart_conds_inv: "room_inv L s se \<Longrightarrow> room_inv L s (restart_conds se)"
  by (auto simp: room_inv_def restart_conds_def tag_lens_def comp_def if_distrib cong: if_cong)

lemma outer_loop_inv:
  "room_inv L s se \<Longrightarrow> outer_loop fuel k s n se = Snip_done se' \<Longrightarrow> room_inv L s se'"
proof (induction k arbitrary: se)
  case (Suc k)
  obtain se1 where se1: "inner_loop fuel (new_snip se) = Snip_done se1"
    using Suc.prems(2) by (auto split: snip_run.splits)
  note inv = inner_loop_inv [OF new_snip_inv [OF Suc.prems(1)] se1]
  show ?case
  proof (cases "se_found_cond se1")
    case False
    then show ?thesis using Suc.prems(2) se1 inv by (simp add: loop_inv_def)
  next
    case True
    then obtain se2 where se2: "finish_snip s n se1 = Some se2"
      using Suc.prems(2) se1 by (auto split: option.splits)
    note inv2 = finish_snip_inv [OF inv True se2]
    show ?thesis
      using Suc.prems(2) se1 True se2 inv2 Suc.IH [OF restart_conds_inv [OF inv2]]
      by (simp split: if_splits)
  qed
qed simp

lemma advance_all_inv:
  "room_inv L s se \<Longrightarrow> advance_all cis se = Some se' \<Longrightarrow>
     \<forall>ci \<in> set cis. ci < length (sn_cond (se_snip se)) \<Longrightarrow> room_inv L s se'"
proof (induction cis arbitrary: se)
  case (Cons ci cis)
  then obtain se1 where se1: "advance_cond ci se = Some se1" "advance_all cis se1 = Some se'"
    by (auto split: option.splits)
  show ?case
    using Cons.IH [OF advance_cond_inv(1) [OF se1(1) _ Cons.prems(1)] se1(2)] Cons.prems(3)
      advance_cond_inv(3) [OF se1(1)] by simp
qed simp

lemma exec_room:
  assumes "sen_snip_exec alloc nf blk fuel snip s n = Snip_done (sen_success, (nres, m), snip')"
  obtains L room where "m = Some room" "sn_string snip' = s"
    "tag_lens (sn_cond snip') = L"
    "\<forall>tag \<in> set (sn_tag_result snip'). tr_cond tag < length L"
    "\<forall>sr \<in> set (sn_snip_result snip'). result_ok L (sn_tag_result snip') s room sr"
    "nres = length (sn_snip_result snip')" "sn_snip_count snip' = nres"
proof -
  let ?L = "tag_lens (sn_cond snip)"
  obtain nstr se1 se2 where
    ini: "advance_all [0..<length (sn_cond (exec_clean snip))]
      \<lparr>se_snip = (exec_clean snip)\<lparr>sn_nstr := Some nstr\<rparr>,
       se_sr = \<lparr>sr_start_offset = 0, sr_end_offset = 0, sr_first_tag = 0, sr_last_tag = 0, sr_tag_count = 0\<rparr>,
       se_results = [], se_last_end = 0, se_last_last_end = 0, se_unfound = length (sn_cond (exec_clean snip)),
       se_max_tagged = 0, se_tagged = 0, se_last_tag_end = 0, se_found_cond = False\<rparr> = Some se1"
    and run: "outer_loop fuel fuel s n se1 = Snip_done se2"
    and r: "snip' = (se_snip se2)\<lparr>sn_snip_count := length (se_results se2), sn_string := s,
        sn_snip_result := se_results se2, sn_max_tagged_len := se_max_tagged se2\<rparr>"
      "nres = length (se_results se2)" "m = Some (se_max_tagged se2)"
    using assms by (auto simp: sen_snip_exec_def Let_def split: option.splits snip_run.splits)
  have "tag_lens (sn_cond (exec_clean snip)) = ?L"
    by (simp add: exec_clean_def tag_lens_def sen_snip_cond_reinit_def comp_def)
  then have "room_inv ?L s se1"
    by (intro advance_all_inv [OF _ ini]) (simp_all add: room_inv_def exec_clean_def)
  from outer_loop_inv [OF this run] show ?thesis
    using that r by (simp add: room_inv_def)
qed

lemma room_of_lens:
  assumes "tag_lens (sn_cond snip) = L" "tr_cond (tag_at snip u) < length L"
  shows "room_of L (sn_tag_result snip) u = open_len snip u + close_len snip u"
  using assms by (auto simp: room_of_def tag_lens_def open_len_def close_len_def)

text \<open>
  C13: after \<open>sen_snip_exec\<close>, every snippet that \<open>sen_snip_get_result\<close> writes, with its tags, its
  escaped characters and its terminator, has at most \<open>max_tagged_len\<close> bytes: the assertion at
  the end of \<open>sen_snip_get_result\<close> never fails, and a buffer of that size is enough.
\<close>

theorem snip_result_fits:
  assumes "sen_snip_exec alloc nf blk fuel snip s n = Snip_done (sen_success, (nres, m), snip')"
    and "sen_snip_get_result snip' k = Some (sen_success, t)"
  shows "k < nres \<and> length t \<le> the m"
  using assms(1)
proof (rule exec_room)
  fix L room
  assume e: "m = Some room" "sn_string snip' = s" "tag_lens (sn_cond snip') = L"
    "\<forall>tag \<in> set (sn_tag_result snip'). tr_cond tag < length L"
    "\<forall>sr \<in> set (sn_snip_result snip'). result_ok L (sn_tag_result snip') s room sr"
    "nres = length (sn_snip_result snip')" "sn_snip_count snip' = nres"
  have k: "k < nres" using assms(2) e(7) by (auto simp: sen_snip_get_result_def split: if_splits)
  have "length t \<le> room"
  proof (rule get_result_length [OF assms(2)])
    show "k < length (sn_snip_result snip')" using k e(6) by simp
    show "\<forall>sres \<in> set (sn_snip_result snip'). sr_first_tag sres \<le> sr_last_tag sres \<and>
        snip_room snip' (sn_string snip') sres \<le> room"
    proof
      fix sr assume "sr \<in> set (sn_snip_result snip')"
      then have ok: "result_ok L (sn_tag_result snip') s room sr" using e(5) by blast
      have "tags_room L (sn_tag_result snip') (sr_first_tag sr) (sr_last_tag sr + 1) =
          (\<Sum>u \<in> {sr_first_tag sr..<sr_last_tag sr + 1}. open_len snip' u + close_len snip' u)"
        unfolding tags_room_def
        by (rule sum.cong) (use ok e(4) in \<open>auto simp: result_ok_def intro!: room_of_lens [OF e(3)]\<close>)
      then show "sr_first_tag sr \<le> sr_last_tag sr \<and> snip_room snip' (sn_string snip') sr \<le> room"
        using ok e(2) by (auto simp: result_ok_def snip_room_def)
    qed
  qed
  then show "k < nres \<and> length t \<le> the m" using k e(1) by simp
qed

section \<open>Example\<close>

text \<open>The keyword b with the tags < and > in the text ab, without normalisation.\<close>

definition example_snip :: sen_snip where
  "example_snip = the (sen_snip_open (\<lambda>_. True) 0 sen_enc_none 0 10 2 None 0 None 0 True)"

definition example_cond :: sen_snip where
  "example_cond =
     the (snd (the (sen_snip_add_cond (\<lambda>_. True) nf_example (plain_nstr [] []) (Some example_snip)
       (Some [0x62]) 1 (Some [0x3c]) 1 (Some [0x3e]) 1)))"

definition example_exec :: "(sen_rc \<times> (nat \<times> nat option) \<times> sen_snip) snip_run" where
  "example_exec =
     sen_snip_exec (\<lambda>_. True) nf_example (plain_nstr [] []) 5 example_cond [0x61, 0x62] 2"

lemma has_flag_0 [simp]: "has_flag 0 f = False"
  by (simp add: has_flag_def)

lemma fake_example:
  "sen_fakenstr_open (\<lambda>_. True) (plain_nstr [] []) [0x62] 1 sen_enc_none SEN_STR_REMOVEBLANK =
     Some ((new_nstr [0x62] 1 sen_enc_none 1)\<lparr>ns_norm := Some [0x62, 0], ns_norm_blen := 1\<rparr>)"
  "sen_fakenstr_open (\<lambda>_. True) (plain_nstr [] []) [0x61, 0x62] 2 sen_enc_none
     (SEN_STR_WITH_CHECKS OR SEN_STR_REMOVEBLANK) =
     Some ((new_nstr [0x61, 0x62] 2 sen_enc_none 5)
       \<lparr>ns_norm := Some [0x61, 0x62, 0], ns_norm_blen := 2, ns_checks := Some [1, 1]\<rparr>)"
  by (simp_all add: sen_fakenstr_open_def flag_defs plain_nstr_def new_nstr_def Let_def fake_width_def)

definition example_kw :: sen_nstr where
  "example_kw = (new_nstr [0x62] 1 sen_enc_none 1)\<lparr>ns_norm := Some [0x62, 0], ns_norm_blen := 1\<rparr>"

definition example_text :: sen_nstr where
  "example_text = (new_nstr [0x61, 0x62] 2 sen_enc_none 5)
     \<lparr>ns_norm := Some [0x61, 0x62, 0], ns_norm_blen := 2, ns_checks := Some [1, 1]\<rparr>"

definition kw_cond :: snip_cond where
  "kw_cond = snip_cond_zero\<lparr>sc_keyword := Some example_kw, sc_opentag := Tag_given [0x3c],
     sc_opentag_len := 1, sc_closetag := Tag_given [0x3e], sc_closetag_len := 1\<rparr>"

lemma example_cond_value: "example_cond = example_snip\<lparr>sn_cond := [kw_cond]\<rparr>"
proof -
  have "sen_snip_cond_init (\<lambda>_. True) nf_example (plain_nstr [] []) [0x62] 1 sen_enc_none 0 =
      Some (sen_success, snip_cond_zero\<lparr>sc_keyword := Some example_kw\<rparr>)"
    by (simp add: sen_snip_cond_init_def snip_nstr_open_def fake_example [unfolded One_nat_def]
        example_kw_def new_nstr_def)
  then show ?thesis
    by (simp add: example_cond_def example_snip_def sen_snip_open_def sen_snip_add_cond_def
        MAX_SNIP_RESULT_COUNT_def MAX_SNIP_COND_COUNT_def cond_tag_def kw_cond_def example_kw_def)
qed

lemma example_search:
  "sc_found c = 0 \<Longrightarrow> sc_keyword c = Some example_kw \<Longrightarrow> sc_last_found c = 0 \<Longrightarrow> sc_start_offset c = 0 \<Longrightarrow>
     sen_bm_tunedbm c example_text 0 =
       Some (c\<lparr>sc_last_found := 1, sc_start_offset := 1, sc_end_offset := 2, sc_found := 2,
               sc_found_alpha_head := 0\<rparr>)"
  "sc_found c = 2 \<Longrightarrow> sc_keyword c = Some example_kw \<Longrightarrow>
     sen_bm_tunedbm c example_text 0 = Some (c\<lparr>sc_stopflag := SNIPCOND_STOP\<rparr>)"
  by (simp_all add: sen_bm_tunedbm_def example_text_def example_kw_def memchr_from_def
      bm_report_def bm_sum_def Let_def numeral_2_eq_2 new_nstr_def)

definition found_cond :: snip_cond where
  "found_cond = kw_cond\<lparr>sc_last_found := 1, sc_start_offset := 1, sc_end_offset := 2, sc_found := 2\<rparr>"

definition stopped_cond :: snip_cond where
  "stopped_cond = found_cond\<lparr>sc_count := 1, sc_stopflag := SNIPCOND_STOP\<rparr>"

definition example_state :: "sen_nstr \<Rightarrow> snip_exec" where
  "example_state n = \<lparr>se_snip = example_snip\<lparr>sn_cond := [found_cond], sn_nstr := Some n\<rparr>,
     se_sr = \<lparr>sr_start_offset = 0, sr_end_offset = 0, sr_first_tag = 0, sr_last_tag = 0, sr_tag_count = 0\<rparr>,
     se_results = [], se_last_end = 0, se_last_last_end = 0, se_unfound = 1, se_max_tagged = 0,
     se_tagged = 0, se_last_tag_end = 0, se_found_cond = False\<rparr>"

definition example_tagged :: snip_exec where
  "example_tagged = (example_state example_text)
     \<lparr>se_snip := example_snip\<lparr>sn_cond := [stopped_cond], sn_nstr := Some example_text,
        sn_tag_result := [\<lparr>tr_start_offset = 1, tr_end_offset = 2, tr_cond = 0\<rparr>]\<rparr>,
      se_sr := \<lparr>sr_start_offset = 1, sr_end_offset = 0, sr_first_tag = 0, sr_last_tag = 0, sr_tag_count = 1\<rparr>,
      se_last_end := 2, se_unfound := 0, se_tagged := 2, se_last_tag_end := 2, se_found_cond := True\<rparr>"

definition example_done :: snip_exec where
  "example_done =
     (let sr = \<lparr>sr_start_offset = 0, sr_end_offset = 2, sr_first_tag = 0, sr_last_tag = 0, sr_tag_count = 1\<rparr>
      in example_tagged\<lparr>se_sr := sr, se_results := [sr], se_last_last_end := 2, se_tagged := 5,
           se_max_tagged := 5\<rparr>)"

lemmas example_defs = example_snip_def sen_snip_open_def MAX_SNIP_RESULT_COUNT_def found_cond_def
  kw_cond_def snip_cond_zero_def example_state_def

lemma example_first_search:
  "sen_bm_tunedbm kw_cond example_text 0 = Some found_cond"
  "sen_bm_tunedbm (found_cond\<lparr>sc_count := 1\<rparr>) example_text 0 = Some stopped_cond"
proof -
  show "sen_bm_tunedbm kw_cond example_text 0 = Some found_cond"
    by (subst example_search(1)) (simp_all add: kw_cond_def found_cond_def snip_cond_zero_def)
  show "sen_bm_tunedbm (found_cond\<lparr>sc_count := 1\<rparr>) example_text 0 = Some stopped_cond"
    by (subst example_search(2)) (simp_all add: kw_cond_def found_cond_def stopped_cond_def)
qed

lemma example_inner: "inner_loop 5 (new_snip (example_state example_text)) = Snip_done example_tagged"
proof -
  have f: "sn_flags example_snip = 0" "sn_width example_snip = 10" "sn_max_results example_snip = 2"
    "sn_tag_result example_snip = []"
    by (simp_all add: example_snip_def sen_snip_open_def MAX_SNIP_RESULT_COUNT_def)
  have c: "sc_start_offset found_cond = 1" "sc_end_offset found_cond = 2" "sc_count found_cond = 0"
    "sc_stopflag found_cond = SNIPCOND_NONSTOP" "sc_opentag_len found_cond = 1"
    "sc_closetag_len found_cond = 1" "sc_stopflag stopped_cond = SNIPCOND_STOP"
    by (simp_all add: found_cond_def kw_cond_def snip_cond_zero_def stopped_cond_def)
  have 1: "inner_step (new_snip (example_state example_text)) = In_next example_tagged"
    by (simp add: inner_step_def new_snip_def example_state_def Let_def pick_cond_def f c tag_cond_def
        MAX_SNIP_TAG_COUNT_def advance_next_def advance_cond_def example_first_search example_tagged_def)
  have 2: "inner_step example_tagged = In_break example_tagged"
    by (simp add: inner_step_def example_tagged_def Let_def pick_cond_def c)
  show ?thesis using 1 2 by (simp add: numeral_eq_Suc)
qed

lemma example_outer: "outer_loop 5 5 [0x61, 0x62] 2 (example_state example_text) = Snip_done example_done"
proof -
  have f: "sn_width example_snip = 10" "sn_max_results example_snip = 2" "sn_encoding example_snip = sen_enc_none"
    by (simp_all add: example_snip_def sen_snip_open_def MAX_SNIP_RESULT_COUNT_def)
  have m: "mapped_len 0x61 = 1" "mapped_len 0x62 = 1" by (simp_all add: mapped_len_def)
  have k: "count_mapped_chars [0x61, 0x62] 0 2 = Some 2" by (simp add: count_mapped_chars_def m)
  have fs: "finish_snip [0x61, 0x62] 2 example_tagged = Some example_done"
    by (simp add: finish_snip_def example_tagged_def example_state_def Let_def f snip_start_def
        sen_snip_find_firstbyte.simps k example_done_def)
  have s: "se_found_cond example_tagged" "list_all (\<lambda>c. sc_stopflag c = SNIPCOND_STOP)
      (sn_cond (se_snip example_done))"
    by (simp_all add: example_tagged_def example_done_def stopped_cond_def Let_def)
  have "outer_loop 5 (Suc 4) [0x61, 0x62] 2 (example_state example_text) = Snip_done example_done"
    unfolding outer_loop.simps example_inner using s fs by simp
  then show ?thesis by simp
qed

lemma example_exec_value:
  "example_exec = Snip_done (sen_success, (1, Some 5),
     (se_snip example_done)\<lparr>sn_snip_count := 1, sn_string := [0x61, 0x62],
        sn_snip_result := se_results example_done, sn_max_tagged_len := 5\<rparr>)"
proof -
  have f: "sn_flags example_snip = 0" "sn_encoding example_snip = sen_enc_none"
    by (simp_all add: example_snip_def sen_snip_open_def MAX_SNIP_RESULT_COUNT_def)
  have kw: "sen_snip_cond_reinit kw_cond = kw_cond"
    by (simp add: sen_snip_cond_reinit_def kw_cond_def snip_cond_zero_def)
  have n: "snip_nstr_open (\<lambda>_. True) nf_example (plain_nstr [] []) [0x61, 0x62] 2 sen_enc_none 0
      (SEN_STR_WITH_CHECKS OR SEN_STR_REMOVEBLANK) = Some (Some example_text)"
    by (simp add: snip_nstr_open_def fake_example example_text_def)
  have ec: "exec_clean (example_snip\<lparr>sn_cond := [kw_cond]\<rparr>) = example_snip\<lparr>sn_cond := [kw_cond]\<rparr>"
    by (simp add: exec_clean_def kw example_snip_def sen_snip_open_def MAX_SNIP_RESULT_COUNT_def)
  have a: "advance_all [0] ((example_state example_text)
      \<lparr>se_snip := example_snip\<lparr>sn_cond := [kw_cond], sn_nstr := Some example_text\<rparr>\<rparr>) =
      Some (example_state example_text)"
    by (simp add: advance_cond_def Let_def example_state_def f example_first_search)
  have d: "se_max_tagged example_done = 5" "length (se_results example_done) = 1"
    by (simp_all add: example_done_def Let_def)
  show ?thesis
    using a unfolding example_exec_def example_cond_value sen_snip_exec_def Let_def ec
    by (simp add: f n example_state_def)
      (simp add: example_outer [unfolded example_state_def One_nat_def] d)
qed

lemma example_write:
  assumes "sn_nstr p = Some example_text" "sn_string p = [0x61, 0x62]" "sn_html p = True"
    and "sn_cond p = [stopped_cond]"
    and "sn_tag_result p = [\<lparr>tr_start_offset = 1, tr_end_offset = 2, tr_cond = 0\<rparr>]"
    and "sn_snip_result p = [sr]" "sr_start_offset sr = 0" "sr_end_offset sr = 2"
    and "sr_first_tag sr = 0" "sr_last_tag sr = 0" "sn_snip_count p = 1"
  shows "sen_snip_get_result p 0 = Some (sen_success, [0x61, 0x3c, 0x62, 0x3e, 0])"
proof -
  have c: "tag_bytes (sc_opentag stopped_cond) (sc_opentag_len stopped_cond) = Some [0x3c]"
    "tag_bytes (sc_closetag stopped_cond) (sc_closetag_len stopped_cond) = Some [0x3e]"
    by (simp_all add: stopped_cond_def found_cond_def kw_cond_def tag_bytes_def)
  have h: "html_byte 0x61 = [0x61]" "html_byte 0x62 = [0x62]" by (simp_all add: html_byte_def)
  have "open_tags p sr 0 0 = Some ([], 0)" "open_tags p sr 1 1 = Some ([], 1)"
    by (simp_all add: open_tags.simps assms)
  moreover have "open_tags p sr 1 0 = Some ([0x3c], 1)"
    using \<open>open_tags p sr 1 1 = Some ([], 1)\<close>
    by (subst open_tags.simps) (simp add: assms Let_def c del: open_tags.simps)
  moreover have "close_tags p sr 0 0 = Some []" "close_tags p sr 1 0 = Some [0x3e]"
    by (simp_all add: close_tags.simps assms Let_def c)
  moreover have "write_snip p sr (Suc (Suc 0)) 1 = Some []" by (simp add: write_snip.simps assms)
  ultimately have "write_snip p sr 1 0 = Some [0x3c, 0x62, 0x3e]"
    by (subst write_snip.simps) (simp add: assms Let_def h)
  then have "write_snip p sr 0 0 = Some [0x61, 0x3c, 0x62, 0x3e]"
    using \<open>open_tags p sr 0 0 = Some ([], 0)\<close> \<open>close_tags p sr 0 0 = Some []\<close>
    by (subst write_snip.simps) (simp add: assms Let_def h)
  then show ?thesis using assms by (simp add: sen_snip_get_result_def)
qed

theorem snip_result_fits_witness:
  "\<exists>snip'. example_exec = Snip_done (sen_success, (1, Some 5), snip') \<and>
     (\<exists>t. sen_snip_get_result snip' 0 = Some (sen_success, t) \<and> length t \<le> 5)"
proof -
  let ?snip = "(se_snip example_done)\<lparr>sn_snip_count := 1, sn_string := [0x61, 0x62],
        sn_snip_result := se_results example_done, sn_max_tagged_len := 5\<rparr>"
  have "sen_snip_get_result ?snip 0 = Some (sen_success, [0x61, 0x3c, 0x62, 0x3e, 0])"
    by (rule example_write [where sr = "\<lparr>sr_start_offset = 0, sr_end_offset = 2, sr_first_tag = 0,
        sr_last_tag = 0, sr_tag_count = 1\<rparr>"])
      (simp_all add: example_done_def example_tagged_def Let_def example_snip_def sen_snip_open_def
        MAX_SNIP_RESULT_COUNT_def)
  then show ?thesis
    using snip_result_fits [OF example_exec_value [unfolded example_exec_def]] example_exec_value by auto
qed

end
