(* ===== verification/Snip_Exec.thy ===== *)
theory Snip_Exec
  imports Snip_Room
begin

text \<open>
  \<open>sen_snip_exec\<close> returns (lib/snip.c). The conditions that \<open>sen_snip_add_cond\<close> makes are ready for
  the search; every search moves a condition forward or stops it, every round of the inner loop
  searches with a condition that is not stopped, and every round of the outer loop produces a
  snippet. For the encodings in which the first byte of a character can be told from the byte
  itself, and when the checks add up to at most the length of the text, no round reads outside
  of the text.
\<close>

section \<open>Conditions that are ready\<close>

definition cond_ready :: "snip_cond \<Rightarrow> bool" where
  "cond_ready c \<longleftrightarrow>
     (\<exists>kw x. sc_keyword c = Some kw \<and> ns_norm kw = Some (x @ [0]) \<and> ns_norm_blen kw = length x \<and>
        x \<noteq> [] \<and> (2 \<le> length x \<longrightarrow> bm_table x (sc_bmBc c) (sc_shift c)))"

definition text_ready :: "bytes \<Rightarrow> int list \<Rightarrow> sen_nstr \<Rightarrow> bool" where
  "text_ready t ks obj \<longleftrightarrow>
     ns_norm obj = Some (t @ [0]) \<and> ns_norm_blen obj = length t \<and> ns_checks obj = Some ks"

lemma memchr_from_Some:
  "memchr_from y a c n = Some j \<Longrightarrow> a \<le> j \<and> j < n \<and> y ! j = c"
  by (auto simp: memchr_from_def find_Some_iff)

text \<open>A search stops the condition or finds an occurrence further on.\<close>

lemma tunedbm_ready:
  assumes "cond_ready c" "text_ready t ks obj"
  obtains "sen_bm_tunedbm c obj flags = Some (c\<lparr>sc_stopflag := SNIPCOND_STOP\<rparr>)"
    | j m shift where "sen_bm_tunedbm c obj flags = Some (bm_report c obj flags m j shift)"
        "sc_found c \<le> j" "j + m \<le> length t" "0 < m" "0 < shift" "ks ! j \<noteq> 0"
proof -
  obtain kw x where kw: "sc_keyword c = Some kw" "ns_norm kw = Some (x @ [0])"
    "ns_norm_blen kw = length x" "x \<noteq> []" "2 \<le> length x \<Longrightarrow> bm_table x (sc_bmBc c) (sc_shift c)"
    using assms(1) unfolding cond_ready_def by blast
  have obj: "ns_norm obj = Some (t @ [0])" "ns_norm_blen obj = length t" "ns_checks obj = Some ks"
    using assms(2) by (simp_all add: text_ready_def)
  show ?thesis
  proof (cases "length x = 1")
    case True
    have e: "sen_bm_tunedbm c obj flags =
        (if sc_found c < length t then
           (case memchr_from (t @ [0]) (sc_found c) (take (length x) (x @ [0]) ! 0) (length t) of
              Some found \<Rightarrow> (if ks ! found \<noteq> 0 then Some (bm_report c obj flags (length x) found 1)
                             else Some (c\<lparr>sc_stopflag := SNIPCOND_STOP\<rparr>))
            | None \<Rightarrow> Some (c\<lparr>sc_stopflag := SNIPCOND_STOP\<rparr>))
         else Some (c\<lparr>sc_stopflag := SNIPCOND_STOP\<rparr>))"
      unfolding sen_bm_tunedbm_def Let_def kw(1-3) obj option.sel True by simp
    show ?thesis
    proof (cases "sen_bm_tunedbm c obj flags = Some (c\<lparr>sc_stopflag := SNIPCOND_STOP\<rparr>)")
      case False
      with e obtain j where "memchr_from (t @ [0]) (sc_found c) (take (length x) (x @ [0]) ! 0) (length t) = Some j"
        "ks ! j \<noteq> 0" "sen_bm_tunedbm c obj flags = Some (bm_report c obj flags (length x) j 1)"
        by (auto split: if_splits option.splits)
      then show ?thesis using memchr_from_Some True by (intro that(2) [of "length x" j 1]) fastforce+
    qed (rule that(1))
  next
    case False
    then have l: "2 \<le> length x" using kw(4) by (cases x) (auto simp: Suc_le_eq)
    note b = kw(5) [OF l]
    have s: "0 < sc_shift c" using bm_table_shift(1) [OF b kw(4)] .
    show ?thesis
      using tunedbm_search [OF kw(1-3) l b obj, of flags]
    proof (elim disjE exE conjE)
      fix j assume "sc_found c \<le> j" "found_at x t ks j"
        "sen_bm_tunedbm c obj flags = Some (bm_report c obj flags (length x) j (sc_shift c))"
      then show ?thesis using s kw(4) by (intro that(2) [of "length x" j]) (auto simp: found_at_def)
    qed (rule that(1))
  qed
qed

lemma bm_report_kept:
  "sc_keyword (bm_report c obj flags m j shift) = sc_keyword c"
  "sc_bmBc (bm_report c obj flags m j shift) = sc_bmBc c"
  "sc_shift (bm_report c obj flags m j shift) = sc_shift c"
  "sc_stopflag (bm_report c obj flags m j shift) = sc_stopflag c"
  "sc_found (bm_report c obj flags m j shift) = j + shift"
  by (simp_all add: bm_report_def Let_def split: prod.splits)

lemma cond_ready_cong:
  "sc_keyword c' = sc_keyword c \<Longrightarrow> sc_bmBc c' = sc_bmBc c \<Longrightarrow> sc_shift c' = sc_shift c \<Longrightarrow>
     cond_ready c' = cond_ready c"
  by (simp add: cond_ready_def)

section \<open>Progress of a condition\<close>

text \<open>An upper bound of the searches that a condition can still go through.\<close>

definition cond_left :: "nat \<Rightarrow> snip_cond \<Rightarrow> nat" where
  "cond_left n c = (if sc_stopflag c = SNIPCOND_STOP then 0 else Suc (n - sc_found c))"

definition conds_left :: "nat \<Rightarrow> snip_cond list \<Rightarrow> nat" where
  "conds_left n conds = (\<Sum>c\<leftarrow>conds. cond_left n c)"

text \<open>
  The checks locate the text \<open>t\<close> in the first \<open>S\<close> bytes of the source; without this the offsets
  are not bounded.
\<close>

definition checks_fit :: "u32 \<Rightarrow> nat \<Rightarrow> bytes \<Rightarrow> int list \<Rightarrow> bool" where
  "checks_fit flags S t ks \<longleftrightarrow>
     \<not> has_flag flags SEN_SNIP_SKIP_LEADING_SPACES \<and> (t \<noteq> [] \<longrightarrow> 0 < ks ! 0) \<and>
     src_off ks (length t) \<le> S \<and> S < 2 ^ 64"

definition cond_fits :: "nat \<Rightarrow> int list \<Rightarrow> snip_cond \<Rightarrow> bool" where
  "cond_fits S ks c \<longleftrightarrow>
     (0 < ks ! 0 \<longrightarrow> cond_ok ks c) \<and> sc_start_offset c \<le> S \<and> sc_end_offset c \<le> S"

definition cond_inv :: "bool \<Rightarrow> nat \<Rightarrow> int list \<Rightarrow> snip_cond \<Rightarrow> bool" where
  "cond_inv safe S ks c \<longleftrightarrow> cond_ready c \<and> (safe \<longrightarrow> cond_fits S ks c)"

lemma cond_inv_upd [simp]:
  "cond_inv safe S ks (c\<lparr>sc_stopflag := f\<rparr>) = cond_inv safe S ks c"
  "cond_inv safe S ks (c\<lparr>sc_count := k\<rparr>) = cond_inv safe S ks c"
  by (simp_all add: cond_inv_def cond_ready_def cond_fits_def cond_ok_def)

lemma report_fits:
  assumes "checks_fit flags S t ks" "cond_fits S ks c" "text_ready t ks obj"
    and "sc_found c \<le> j" "j + m \<le> length t" "0 < m" "ks ! j \<noteq> 0"
  shows "cond_fits S ks (bm_report c obj flags m j shift)"
proof -
  have pos: "0 < ks ! 0" using assms(1,5,6) by (auto simp: checks_fit_def)
  then have ok: "cond_ok ks c" using assms(2) by (simp add: cond_fits_def)
  have le: "src_off ks (j + m) \<le> S" "src_off ks j \<le> src_off ks (j + m)"
    "src_off ks (char_head ks j) \<le> src_off ks j"
    using src_off_mono [OF assms(5), of ks] src_off_mono [of j "j + m" ks]
      src_off_mono [OF char_head_le [of ks j], of ks] assms(1) by (auto simp: checks_fit_def)
  have "src_off ks j < 2 ^ 64" "ns_checks obj = Some ks"
    using le assms(1,3) by (auto simp: checks_fit_def text_ready_def)
  then obtain h where h: "bm_report c obj flags m j shift =
      c\<lparr>sc_last_found := char_head ks j, sc_start_offset := src_off ks (char_head ks j),
        sc_end_offset := src_off ks (j + m) + src_off ks (char_head ks j) - src_off ks (char_head ks j),
        sc_found := j + shift, sc_found_alpha_head := h\<rparr>"
    by (rule bm_report_offsets [OF ok assms(4,7), where flags = flags])
      (use assms(1) in \<open>simp add: checks_fit_def\<close>)
  have "0 < ks ! char_head ks j" "char_head ks j \<le> j + shift"
    using char_head_pos [OF pos] char_head_le [of ks j] by simp_all
  then show ?thesis using le pos unfolding h by (simp add: cond_fits_def cond_ok_def)
qed

lemma tunedbm_progress:
  assumes "cond_inv safe S ks c" "text_ready t ks obj" "safe \<Longrightarrow> checks_fit flags S t ks"
  obtains c' where "sen_bm_tunedbm c obj flags = Some c'" "cond_inv safe S ks c'"
    "sc_stopflag c \<noteq> SNIPCOND_STOP \<Longrightarrow> cond_left (length t) c' < cond_left (length t) c"
    "cond_left (length t) c' \<le> cond_left (length t) c"
proof (rule tunedbm_ready [where c = c and t = t and ks = ks and obj = obj and flags = flags])
  show "cond_ready c" "text_ready t ks obj" using assms(1,2) by (simp_all add: cond_inv_def)
next
  assume "sen_bm_tunedbm c obj flags = Some (c\<lparr>sc_stopflag := SNIPCOND_STOP\<rparr>)"
  then show ?thesis by (rule that) (use assms(1) in \<open>simp_all add: cond_left_def\<close>)
next
  fix j m shift
  assume j: "sen_bm_tunedbm c obj flags = Some (bm_report c obj flags m j shift)" "sc_found c \<le> j"
    "j + m \<le> length t" "0 < m" "0 < shift" "ks ! j \<noteq> 0"
  show ?thesis
  proof (rule that [OF j(1)])
    have "cond_ready (bm_report c obj flags m j shift)"
      using assms(1) cond_ready_cong [OF bm_report_kept(1-3)] by (simp add: cond_inv_def)
    moreover have "cond_fits S ks (bm_report c obj flags m j shift)" if safe
      using report_fits [OF assms(3) [OF that] _ assms(2) j(2-4,6)] that assms(1)
      by (simp add: cond_inv_def)
    ultimately show "cond_inv safe S ks (bm_report c obj flags m j shift)" by (simp add: cond_inv_def)
    have "length t - (j + shift) < length t - sc_found c" using j by linarith
    then show "sc_stopflag c \<noteq> SNIPCOND_STOP \<Longrightarrow>
        cond_left (length t) (bm_report c obj flags m j shift) < cond_left (length t) c"
      "cond_left (length t) (bm_report c obj flags m j shift) \<le> cond_left (length t) c"
      by (auto simp: cond_left_def bm_report_kept)
  qed
qed

lemma conds_left_update:
  "ci < length conds \<Longrightarrow>
     conds_left n (conds[ci := c]) + cond_left n (conds ! ci) = conds_left n conds + cond_left n c"
  unfolding conds_left_def
proof (induction conds arbitrary: ci)
  case (Cons a conds)
  then show ?case by (cases ci) auto
qed simp

lemma conds_left_bound: "conds_left n conds \<le> length conds * Suc n"
  by (induction conds) (auto simp: conds_left_def cond_left_def)

section \<open>The inner loop\<close>

definition se_conds :: "snip_exec \<Rightarrow> snip_cond list" where
  "se_conds se = sn_cond (se_snip se)"

text \<open>What the loops do not change, and the invariant of the conditions and offsets.\<close>

definition exec_inv ::
  "bool \<Rightarrow> nat \<Rightarrow> bytes \<Rightarrow> int list \<Rightarrow> sen_nstr \<Rightarrow> sen_snip \<Rightarrow> nat \<Rightarrow> snip_exec \<Rightarrow> bool" where
  "exec_inv safe S t ks obj sn r se \<longleftrightarrow>
     sn_nstr (se_snip se) = Some obj \<and> sn_flags (se_snip se) = sn_flags sn \<and>
     sn_encoding (se_snip se) = sn_encoding sn \<and> sn_max_results (se_snip se) = sn_max_results sn \<and>
     length (se_results se) = r \<and>
     text_ready t ks obj \<and> (safe \<longrightarrow> checks_fit (sn_flags sn) S t ks) \<and>
     (\<forall>c \<in> set (se_conds se). cond_inv safe S ks c) \<and>
     (safe \<longrightarrow> se_last_end se \<le> S \<and> se_last_last_end se \<le> S \<and> sr_start_offset (se_sr se) \<le> S)"

lemma exec_inv_cond: "exec_inv safe S t ks obj sn r se \<Longrightarrow> ci < length (se_conds se) \<Longrightarrow>
    cond_inv safe S ks (se_conds se ! ci)"
  by (auto simp: exec_inv_def)

lemma set_update_all: "\<forall>x \<in> set xs. P x \<Longrightarrow> P y \<Longrightarrow> \<forall>x \<in> set (xs[i := y]). P x"
  using set_update_subset_insert [of xs i y] by auto

text \<open>A result of a round that keeps the invariant and leaves fewer searches.\<close>

fun in_progress :: "(snip_exec \<Rightarrow> bool) \<Rightarrow> nat \<Rightarrow> nat \<Rightarrow> inner_result \<Rightarrow> bool" where
  "in_progress P n k In_fault \<longleftrightarrow> False"
| "in_progress P n k (In_break se) \<longleftrightarrow> P se \<and> conds_left n (se_conds se) \<le> k"
| "in_progress P n k (In_next se) \<longleftrightarrow> P se \<and> conds_left n (se_conds se) < k"

lemma advance_cond_progress:
  assumes inv: "exec_inv safe S t ks obj sn r se" and ci: "ci < length (se_conds se)"
  obtains se' where "advance_cond ci se = Some se'" "exec_inv safe S t ks obj sn r se'"
    "length (se_conds se') = length (se_conds se)"
    "conds_left (length t) (se_conds se') \<le> conds_left (length t) (se_conds se)"
    "sc_stopflag (se_conds se ! ci) \<noteq> SNIPCOND_STOP \<Longrightarrow>
       conds_left (length t) (se_conds se') < conds_left (length t) (se_conds se)"
    "se_results se' = se_results se"
proof -
  let ?c = "se_conds se ! ci"
  have n: "sn_nstr (se_snip se) = Some obj" "sn_flags (se_snip se) = sn_flags sn"
    "text_ready t ks obj" "safe \<Longrightarrow> checks_fit (sn_flags sn) S t ks"
    using inv by (simp_all add: exec_inv_def)
  obtain c' where c': "sen_bm_tunedbm ?c obj (sn_flags sn) = Some c'" "cond_inv safe S ks c'"
    "sc_stopflag ?c \<noteq> SNIPCOND_STOP \<Longrightarrow> cond_left (length t) c' < cond_left (length t) ?c"
    "cond_left (length t) c' \<le> cond_left (length t) ?c"
    using tunedbm_progress [OF exec_inv_cond [OF inv ci] n(3,4)] by metis
  let ?se = "se\<lparr>se_snip := (se_snip se)\<lparr>sn_cond := (se_conds se)[ci := c']\<rparr>\<rparr>"
  note u = conds_left_update [OF ci, of "length t" c']
  show ?thesis
  proof (rule that)
    show "advance_cond ci se = Some ?se"
      using c'(1) n by (simp add: advance_cond_def Let_def se_conds_def)
    show "exec_inv safe S t ks obj sn r ?se"
      using inv set_update_all [of "se_conds se" "cond_inv safe S ks" c' ci] c'(2)
      by (simp add: exec_inv_def se_conds_def)
  qed (use u c'(3,4) in \<open>simp_all add: se_conds_def\<close>)
qed

lemma advance_next_progress:
  assumes "exec_inv safe S t ks obj sn r se" "ci < length (se_conds se)"
    and "sc_stopflag (se_conds se ! ci) \<noteq> SNIPCOND_STOP"
    and "conds_left (length t) (se_conds se) \<le> k"
  shows "in_progress (exec_inv safe S t ks obj sn r) (length t) k (advance_next ci se)"
proof (rule advance_cond_progress [OF assms(1,2)])
  fix se'
  assume "advance_cond ci se = Some se'" "exec_inv safe S t ks obj sn r se'"
    "sc_stopflag (se_conds se ! ci) \<noteq> SNIPCOND_STOP \<Longrightarrow>
       conds_left (length t) (se_conds se') < conds_left (length t) (se_conds se)"
  then show ?thesis using assms(3,4) by (simp add: advance_next_def)
qed

lemma cond_left_upd:
  "cond_left n (c\<lparr>sc_count := k\<rparr>) = cond_left n c"
  "sc_stopflag c \<noteq> SNIPCOND_STOP \<Longrightarrow> cond_left n (c\<lparr>sc_stopflag := SNIPCOND_ACROSS\<rparr>) = cond_left n c"
  "sc_stopflag c \<noteq> SNIPCOND_STOP \<Longrightarrow> cond_left n (c\<lparr>sc_stopflag := SNIPCOND_NONSTOP\<rparr>) = cond_left n c"
  by (simp_all add: cond_left_def)

lemma tag_cond_progress:
  assumes inv: "exec_inv safe S t ks obj sn r se" and ci: "ci < length (se_conds se)"
    and ns: "sc_stopflag (se_conds se ! ci) \<noteq> SNIPCOND_STOP"
    and k: "conds_left (length t) (se_conds se) \<le> k"
  shows "in_progress (exec_inv safe S t ks obj sn r) (length t) k (tag_cond ci se)"
proof -
  let ?c = "se_conds se ! ci"
  have c: "cond_inv safe S ks ?c" by (rule exec_inv_cond [OF inv ci])
  have upd: "\<forall>c \<in> set ((se_conds se)[ci := c']). cond_inv safe S ks c"
    "conds_left (length t) ((se_conds se)[ci := c']) \<le> k"
    if "cond_inv safe S ks c'" "cond_left (length t) c' = cond_left (length t) ?c" for c'
  proof -
    show "\<forall>c \<in> set ((se_conds se)[ci := c']). cond_inv safe S ks c"
      using set_update_all [of "se_conds se" "cond_inv safe S ks" c' ci] inv that(1)
      by (simp add: exec_inv_def)
    show "conds_left (length t) ((se_conds se)[ci := c']) \<le> k"
      using conds_left_update [OF ci, of "length t" c'] that(2) k by simp
  qed
  show ?thesis
  proof (cases "sc_end_offset ?c > sr_start_offset (se_sr se) + sn_width (se_snip se)")
    case True
    let ?a = "?c\<lparr>sc_stopflag := SNIPCOND_ACROSS\<rparr>"
    let ?se = "se\<lparr>se_snip := (se_snip se)\<lparr>sn_cond := (se_conds se)[ci := ?a]\<rparr>\<rparr>"
    have "exec_inv safe S t ks obj sn r ?se"
      using inv upd(1) [of ?a] c cond_left_upd(2) [OF ns] by (simp add: exec_inv_def se_conds_def)
    moreover have "conds_left (length t) (se_conds ?se) \<le> k" "ci < length (se_conds ?se)"
      "sc_stopflag (se_conds ?se ! ci) \<noteq> SNIPCOND_STOP"
      using upd(2) [of ?a] c cond_left_upd(2) [OF ns] ci by (simp_all add: se_conds_def)
    ultimately show ?thesis
      using advance_next_progress [of safe S t ks obj sn r ?se ci k] True
      by (simp add: tag_cond_def Let_def se_conds_def)
  next
    case False
    let ?a = "?c\<lparr>sc_count := sc_count ?c + 1\<rparr>"
    let ?tag = "\<lparr>tr_start_offset = sc_start_offset ?c, tr_end_offset = sc_end_offset ?c, tr_cond = ci\<rparr>"
    define se' where "se' = se\<lparr>se_found_cond := True,
      se_unfound := (if sc_count ?c = 0 then se_unfound se - 1 else se_unfound se),
      se_last_end := sc_end_offset ?c, se_last_tag_end := sc_end_offset ?c,
      se_tagged := se_tagged se + (sc_opentag_len ?c + sc_closetag_len ?c),
      se_sr := (se_sr se)\<lparr>sr_tag_count := sr_tag_count (se_sr se) + 1\<rparr>,
      se_snip := (se_snip se)\<lparr>sn_cond := (se_conds se)[ci := ?a],
        sn_tag_result := sn_tag_result (se_snip se) @ [?tag]\<rparr>\<rparr>"
    have a: "cond_inv safe S ks ?a" "cond_left (length t) ?a = cond_left (length t) ?c"
      using c by (simp_all add: cond_left_upd)
    have "safe \<Longrightarrow> sc_end_offset ?c \<le> S" using c by (simp add: cond_inv_def cond_fits_def)
    then have "exec_inv safe S t ks obj sn r se'"
      using inv upd(1) [OF a] unfolding exec_inv_def se'_def se_conds_def by simp
    moreover have "conds_left (length t) (se_conds se') \<le> k" "ci < length (se_conds se')"
      "sc_stopflag (se_conds se' ! ci) \<noteq> SNIPCOND_STOP"
      using upd(2) [OF a] ns ci unfolding se_conds_def se'_def by simp_all
    ultimately show ?thesis
      using advance_next_progress [of safe S t ks obj sn r se' ci k] False
      by (simp add: tag_cond_def Let_def se_conds_def se'_def)
  qed
qed

lemma pick_cond_nonstop: "pick_cond conds = Some ci \<Longrightarrow> sc_stopflag (conds ! ci) = SNIPCOND_NONSTOP"
proof -
  have "snd (snd (fold (\<lambda>i (a, b, c).
      (let cond = conds ! i in
       if sc_stopflag cond = SNIPCOND_NONSTOP \<and>
          (a > sc_start_offset cond \<or> a = sc_start_offset cond \<and> b < sc_end_offset cond)
       then (sc_start_offset cond, sc_end_offset cond, Some i) else (a, b, c))) is (a, b, c))) = Some ci
    \<Longrightarrow> sc_stopflag (conds ! ci) = SNIPCOND_NONSTOP \<or> c = Some ci" for "is" a b c
    by (induction "is" arbitrary: a b c) (auto simp: Let_def split: if_splits)
  then show "pick_cond conds = Some ci \<Longrightarrow> sc_stopflag (conds ! ci) = SNIPCOND_NONSTOP"
    unfolding pick_cond_def by fastforce
qed

lemma inner_step_progress:
  assumes inv: "exec_inv safe S t ks obj sn r se"
  shows "in_progress (exec_inv safe S t ks obj sn r) (length t) (conds_left (length t) (se_conds se))
    (inner_step se)"
proof (cases "pick_cond (se_conds se)")
  case None
  then show ?thesis using inv by (simp add: inner_step_def Let_def se_conds_def)
next
  case (Some ci)
  have ci: "ci < length (se_conds se)" "sc_stopflag (se_conds se ! ci) \<noteq> SNIPCOND_STOP"
    using pick_cond_less [OF Some] pick_cond_nonstop [OF Some] by simp_all
  define se' where "se' = se\<lparr>se_sr := (se_sr se)
      \<lparr>sr_start_offset := sc_start_offset (se_conds se ! ci),
       sr_first_tag := length (sn_tag_result (se_snip se))\<rparr>\<rparr>"
  have "exec_inv safe S t ks obj sn r se'"
    using inv exec_inv_cond [OF inv ci(1)]
    by (simp add: exec_inv_def se'_def se_conds_def cond_inv_def cond_fits_def)
  moreover have "se_conds se' = se_conds se" by (simp add: se'_def se_conds_def)
  ultimately have "in_progress (exec_inv safe S t ks obj sn r) (length t)
      (conds_left (length t) (se_conds se)) (tag_cond ci se')"
    using tag_cond_progress [of safe S t ks obj sn r se' ci] ci by simp
  moreover note advance_next_progress [OF inv ci order.refl] tag_cond_progress [OF inv ci order.refl]
  moreover have "inner_step se =
      (if sr_tag_count (se_sr se) = 0 then
         (if sn_max_results (se_snip se) - length (se_results se) \<le> se_unfound se \<and>
             sc_count (se_conds se ! ci) > 0 \<and>
             exclude_other_cond (se_conds se) ci (sn_width (se_snip se))
          then advance_next ci se else tag_cond ci se')
       else if sc_start_offset (se_conds se ! ci) \<ge> sr_start_offset (se_sr se) + sn_width (se_snip se)
         then In_break se
       else if sc_start_offset (se_conds se ! ci) < se_last_tag_end se then advance_next ci se
       else tag_cond ci se)"
    using Some unfolding inner_step_def Let_def se_conds_def se'_def by (simp only: option.case)
  ultimately show ?thesis using inv by (simp split del: if_split) (simp split: if_split)
qed

lemma inner_loop_returns:
  assumes "exec_inv safe S t ks obj sn r se" "conds_left (length t) (se_conds se) < fuel"
  obtains se' where "inner_loop fuel se = Snip_done se'" "exec_inv safe S t ks obj sn r se'"
    "conds_left (length t) (se_conds se') \<le> conds_left (length t) (se_conds se)"
proof -
  have "\<exists>se'. inner_loop fuel se = Snip_done se' \<and> exec_inv safe S t ks obj sn r se' \<and>
      conds_left (length t) (se_conds se') \<le> conds_left (length t) (se_conds se)"
    using assms
  proof (induction fuel arbitrary: se)
    case (Suc fuel)
    note p = inner_step_progress [OF Suc.prems(1)]
    show ?case
    proof (cases "inner_step se")
      case (In_next se1)
      with p have "exec_inv safe S t ks obj sn r se1"
        "conds_left (length t) (se_conds se1) < conds_left (length t) (se_conds se)" by simp_all
      then show ?thesis using Suc.IH [of se1] Suc.prems(2) In_next by fastforce
    qed (use p in simp_all)
  qed simp
  then show ?thesis using that by blast
qed

section \<open>The ends of a snippet\<close>

text \<open>The encodings of which a first byte is told from the byte itself, and the first bytes.\<close>

definition bytewise :: "sen_encoding \<Rightarrow> bool" where
  "bytewise enc \<longleftrightarrow> enc \<noteq> sen_enc_euc_jp \<and> enc \<noteq> sen_enc_sjis"

definition first_byte :: "bytes \<Rightarrow> sen_encoding \<Rightarrow> nat \<Rightarrow> bool" where
  "first_byte s enc p \<longleftrightarrow> enc = sen_enc_utf8 \<longrightarrow> \<not> sint (s ! p) \<le> - 64"

lemma find_firstbyte_step:
  assumes "bytewise enc" "p < length s"
  shows "sen_snip_find_firstbyte s enc p back =
    (if first_byte s enc p then Some p
     else if back then (if p = 0 then None else sen_snip_find_firstbyte s enc (p - 1) back)
     else sen_snip_find_firstbyte s enc (p + 1) back)"
  using assms
  by (cases enc) (simp_all add: sen_snip_find_firstbyte.simps [of s _ p] bytewise_def first_byte_def)

lemma find_firstbyte_forward:
  assumes "bytewise enc" "S < length s" "s ! S = 0" "p \<le> S"
  shows "\<exists>q. sen_snip_find_firstbyte s enc p False = Some q \<and> p \<le> q \<and> q \<le> S \<and> first_byte s enc q"
  using assms(4)
proof (induction "S - p" arbitrary: p)
  case 0
  then have "first_byte s enc p" using assms(3) by (simp add: first_byte_def)
  then show ?case using find_firstbyte_step [OF assms(1), of p s False] 0 assms(2) by simp
next
  case (Suc d)
  show ?case
  proof (cases "first_byte s enc p")
    case False
    moreover have "d = S - Suc p" "Suc p \<le> S" using Suc by auto
    ultimately show ?thesis
      using Suc.hyps(1) [of "Suc p"] find_firstbyte_step [OF assms(1), of p s False] assms(2) Suc.prems
      by auto
  qed (use find_firstbyte_step [OF assms(1), of p s False] assms(2) Suc.prems in simp)
qed

lemma find_firstbyte_back:
  assumes "bytewise enc" "first_byte s enc p" "p \<le> q" "q < length s"
  shows "\<exists>r. sen_snip_find_firstbyte s enc q True = Some r \<and> p \<le> r \<and> r \<le> q"
  using assms(3,4)
proof (induction q)
  case 0
  then show ?case using find_firstbyte_step [OF assms(1), of 0 s True] assms(2) by simp
next
  case (Suc q)
  show ?case
  proof (cases "first_byte s enc (Suc q)")
    case False
    then have "p \<le> q" using assms(2) Suc.prems(1) by (cases "p = Suc q") auto
    then show ?thesis
      using Suc.IH Suc.prems(2) False find_firstbyte_step [OF assms(1) Suc.prems(2), of True] by auto
  qed (use find_firstbyte_step [OF assms(1) Suc.prems(2), of True] Suc.prems in simp)
qed

lemma snip_start_le:
  assumes "sr_start_offset (se_sr se) \<le> S" "se_last_end se \<le> S" "se_last_last_end se \<le> S"
  shows "snip_start S width se \<le> S"
  using assms by (auto simp: snip_start_def min_def max_def)

lemma finish_snip_returns:
  assumes inv: "exec_inv True S t ks obj sn r se" and enc: "bytewise (sn_encoding sn)"
    and s: "S < length s" "s ! S = 0"
  obtains se' where "finish_snip s S se = Some se'"
proof -
  let ?w = "sn_width (se_snip se)" and ?e = "sn_encoding (se_snip se)"
  have e: "bytewise ?e" using inv enc by (simp add: exec_inv_def)
  have "snip_start S ?w se \<le> S" by (rule snip_start_le) (use inv in \<open>simp_all add: exec_inv_def\<close>)
  then obtain p where p: "sen_snip_find_firstbyte s ?e (snip_start S ?w se) False = Some p"
    "p \<le> S" "first_byte s ?e p"
    using find_firstbyte_forward [OF e s] by blast
  obtain q where q: "(if p + ?w < S then sen_snip_find_firstbyte s ?e (p + ?w) True else Some S) = Some q"
    "p \<le> q" "q \<le> S"
    using find_firstbyte_back [OF e p(3), of "p + ?w"] s(1) p(2) by (cases "p + ?w < S") auto
  have "count_mapped_chars s p q \<noteq> None" using q s(1) by (simp add: count_mapped_chars_def)
  then show ?thesis using that p(1) q(1) unfolding finish_snip_def Let_def by (auto split: option.splits)
qed

text \<open>The end of a round keeps the invariant; without \<open>safe\<close> it may leave the text.\<close>

lemma finish_snip_progress:
  assumes inv: "exec_inv safe S t ks obj sn r se"
    and s: "safe \<Longrightarrow> bytewise (sn_encoding sn) \<and> S < length s \<and> s ! S = 0"
  shows "case finish_snip s n se of
      None \<Rightarrow> safe \<longrightarrow> n \<noteq> S
    | Some se' \<Rightarrow> (n = S \<longrightarrow> exec_inv safe S t ks obj sn (Suc r) se') \<and> se_conds se' = se_conds se"
proof (cases "finish_snip s n se")
  case None
  have "n \<noteq> S" if safe: safe
  proof
    assume "n = S"
    moreover have "exec_inv True S t ks obj sn r se" using inv safe by simp
    ultimately obtain se' where "finish_snip s n se = Some se'"
      using finish_snip_returns s [OF safe] by blast
    with None show False by simp
  qed
  with None show ?thesis by simp
next
  case (Some se')
  let ?snip = "se_snip se"
  obtain start stop k where k: "sen_snip_find_firstbyte s (sn_encoding ?snip)
        (snip_start n (sn_width ?snip) se) False = Some start"
      "(if start + sn_width ?snip < n
        then sen_snip_find_firstbyte s (sn_encoding ?snip) (start + sn_width ?snip) True else Some n) = Some stop"
    and se': "se' = se\<lparr>se_sr := (se_sr se)\<lparr>sr_start_offset := start, sr_end_offset := stop,
                         sr_last_tag := length (sn_tag_result ?snip) - 1\<rparr>,
        se_last_last_end := stop, se_tagged := se_tagged se + (k + 1),
        se_max_tagged := max (se_max_tagged se) (se_tagged se + (k + 1)),
        se_results := se_results se @ [(se_sr se)\<lparr>sr_start_offset := start, sr_end_offset := stop,
                         sr_last_tag := length (sn_tag_result ?snip) - 1\<rparr>]\<rparr>"
    using Some by (auto simp: finish_snip_def Let_def split: option.splits)
  have "start \<le> S \<and> stop \<le> S" if safe "n = S"
  proof -
    have e: "bytewise (sn_encoding ?snip)" using inv s that by (simp add: exec_inv_def)
    have s': "S < length s" "s ! S = 0" using s that by simp_all
    have "snip_start n (sn_width ?snip) se \<le> S"
      unfolding that(2) by (rule snip_start_le) (use inv that in \<open>simp_all add: exec_inv_def\<close>)
    with find_firstbyte_forward [OF e s'] k(1) have p: "start \<le> S" "first_byte s (sn_encoding ?snip) start"
      by fastforce+
    with find_firstbyte_back [OF e p(2), of "start + sn_width ?snip"] k(2) s' that(2)
    show ?thesis by (auto split: if_splits)
  qed
  then show ?thesis unfolding Some option.case using inv by (simp add: se' exec_inv_def se_conds_def)
qed

section \<open>The outer loop\<close>

lemma restart_conds_progress:
  assumes "exec_inv safe S t ks obj sn r se"
  shows "exec_inv safe S t ks obj sn r (restart_conds se)"
    "conds_left n (se_conds (restart_conds se)) = conds_left n (se_conds se)"
proof -
  have "cond_left n (if sc_stopflag c \<noteq> SNIPCOND_STOP then c\<lparr>sc_stopflag := SNIPCOND_NONSTOP\<rparr> else c) =
      cond_left n c" for c
    by (simp add: cond_left_upd)
  then show "conds_left n (se_conds (restart_conds se)) = conds_left n (se_conds se)"
    by (simp add: restart_conds_def se_conds_def conds_left_def comp_def)
qed (use assms in \<open>auto simp: exec_inv_def restart_conds_def se_conds_def\<close>)

lemma new_snip_progress:
  "exec_inv safe S t ks obj sn r se \<Longrightarrow> exec_inv safe S t ks obj sn r (new_snip se)"
  "se_conds (new_snip se) = se_conds se"
  by (simp_all add: exec_inv_def new_snip_def se_conds_def)

fun returns :: "bool \<Rightarrow> 'a snip_run \<Rightarrow> bool" where
  "returns safe Snip_more \<longleftrightarrow> False"
| "returns safe Snip_fault \<longleftrightarrow> \<not> safe"
| "returns safe (Snip_done r) \<longleftrightarrow> True"

lemma outer_loop_returns:
  assumes "exec_inv safe S t ks obj sn r se" "conds_left (length t) (se_conds se) < fuel"
    and "r < sn_max_results sn" "sn_max_results sn - r \<le> k"
    and s: "safe \<Longrightarrow> bytewise (sn_encoding sn) \<and> S < length s \<and> s ! S = 0"
  shows "returns safe (outer_loop fuel k s S se)"
  using assms(1-4)
proof (induction k arbitrary: se r)
  case (Suc k)
  obtain se1 where se1: "inner_loop fuel (new_snip se) = Snip_done se1" "exec_inv safe S t ks obj sn r se1"
    "conds_left (length t) (se_conds se1) < fuel"
    using inner_loop_returns [OF new_snip_progress(1) [OF Suc.prems(1)], of fuel] Suc.prems(2)
    by (metis new_snip_progress(2) le_less_trans)
  note f = finish_snip_progress [OF se1(2) s, of S]
  show ?case
  proof (cases "finish_snip s S se1")
    case (Some se2)
    then have se2: "exec_inv safe S t ks obj sn (Suc r) se2" "se_conds se2 = se_conds se1" using f by simp_all
    have len: "length (se_results se2) = Suc r" "sn_max_results (se_snip se2) = sn_max_results sn"
      using se2(1) by (simp_all add: exec_inv_def)
    have "returns safe (outer_loop fuel k s S (restart_conds se2))"
      if "length (se_results se2) \<noteq> sn_max_results (se_snip se2)"
      using Suc.IH [OF restart_conds_progress(1) [OF se2(1)]] restart_conds_progress(2) [OF se2(1)]
        se1(3) se2(2) that len Suc.prems(3,4) by simp
    then show ?thesis using se1(1) Some by (simp add: Let_def)
  next
    case None
    with f have "\<not> safe" by simp
    then show ?thesis using se1(1) None by simp
  qed
qed simp

lemma advance_all_progress:
  "exec_inv safe S t ks obj sn r se \<Longrightarrow> \<forall>ci \<in> set cis. ci < length (se_conds se) \<Longrightarrow>
     \<exists>se'. advance_all cis se = Some se' \<and> exec_inv safe S t ks obj sn r se' \<and>
       conds_left (length t) (se_conds se') \<le> conds_left (length t) (se_conds se)"
proof (induction cis arbitrary: se)
  case (Cons ci cis)
  have "ci < length (se_conds se)" using Cons.prems(2) by simp
  from advance_cond_progress [OF Cons.prems(1) this] obtain se1 where
    se1: "advance_cond ci se = Some se1" "exec_inv safe S t ks obj sn r se1"
    "length (se_conds se1) = length (se_conds se)"
    "conds_left (length t) (se_conds se1) \<le> conds_left (length t) (se_conds se)"
    by metis
  then show ?case using Cons.IH [OF se1(2)] Cons.prems(2) by fastforce
qed simp

section \<open>Generators that the interface can make\<close>

text \<open>
  What \<open>sen_snip_open\<close>, \<open>sen_snip_add_cond\<close> and \<open>sen_snip_exec\<close> lead to. A keyword or a text of a
  given length has at least that many bytes.
\<close>

inductive snip_made :: "nfkc \<Rightarrow> sen_snip \<Rightarrow> bool" for nf where
  made_open:
    "sen_snip_open alloc sz enc flags width max_results ot ol ct cl html = Some sn \<Longrightarrow> snip_made nf sn"
| made_add:
    "snip_made nf sn \<Longrightarrow> n \<le> length kw \<Longrightarrow>
     sen_snip_add_cond alloc nf blk (Some sn) (Some kw) n ot ol ct cl = Some (rc, Some sn') \<Longrightarrow>
     snip_made nf sn'"
| made_exec:
    "snip_made nf sn \<Longrightarrow> n \<le> length s \<Longrightarrow>
     sen_snip_exec alloc nf blk fuel sn s n = Snip_done (rc, r, sn') \<Longrightarrow> snip_made nf sn'"

definition snip_ready :: "sen_snip \<Rightarrow> bool" where
  "snip_ready sn \<longleftrightarrow> 0 < sn_max_results sn \<and> (\<forall>c \<in> set (sn_cond sn). cond_ready c)"

lemma snip_open_text:
  assumes "nfkc_ok nf" "n \<le> length s" "snip_nstr_open alloc nf blk s n enc flags nflags = Some (Some nstr)"
  shows "\<exists>x. ns_norm nstr = Some (x @ [0]) \<and> ns_norm_blen nstr = length x \<and>
    (ns_checks nstr = None \<longleftrightarrow> \<not> has_flag nflags SEN_STR_WITH_CHECKS)"
proof (cases "has_flag flags SEN_SNIP_NORMALIZE")
  case True
  then show ?thesis
    using sen_nstr_open_text [OF assms(1,2)] assms(3) by (simp add: snip_nstr_open_def)
next
  case False
  then have f: "sen_fakenstr_open alloc blk s n enc nflags = Some nstr"
    using assms(3) by (simp add: snip_nstr_open_def)
  then have "nstr = blk\<lparr>ns_norm := Some (take n s @ [0]), ns_orig := s, ns_orig_blen := n,
      ns_norm_blen := n, ns_ctypes := None, ns_flags := nflags,
      ns_checks := (if has_flag nflags SEN_STR_WITH_CHECKS then Some (fake_checks enc 0 (take n s)) else None)\<rparr>"
    unfolding sen_fakenstr_open_def Let_def by (simp only: split: if_splits option.splits) simp_all
  then show ?thesis using assms(2) by (intro exI [of _ "take n s"]) simp
qed

lemma preBmBc_terminated: "sen_bm_preBmBc (x @ [0]) (length x) = sen_bm_preBmBc x (length x)"
  unfolding sen_bm_preBmBc_def by (rule fold_cong) (auto simp: nth_append)

lemma cond_init_ready:
  assumes "nfkc_ok nf" "n \<le> length kw"
    and "sen_snip_cond_init alloc nf blk kw n enc flags = Some (sen_success, c)"
  shows "cond_ready c"
proof -
  obtain k where k: "snip_nstr_open alloc nf blk kw n enc flags SEN_STR_REMOVEBLANK = Some (Some k)"
    using assms(3) by (auto simp: sen_snip_cond_init_def split: option.splits)
  obtain x where x: "ns_norm k = Some (x @ [0])" "ns_norm_blen k = length x"
    using snip_open_text [OF assms(1,2) k] by blast
  have "cond_ready c"
    if "x \<noteq> []" "2 \<le> length x" "c = snip_cond_zero\<lparr>sc_keyword := Some k,
      sc_bmBc := (sen_bm_preBmBc x (length x))[unat (x ! (length x - 1)) := 0],
      sc_shift := sen_bm_preBmBc x (length x) ! unat (x ! (length x - 1))\<rparr>"
    unfolding cond_ready_def that(3) using x that(1) by (intro exI [of _ k] exI [of _ x]) (simp add: bm_table_def Let_def)
  moreover have "cond_ready c" if "length x = 1" "c = snip_cond_zero\<lparr>sc_keyword := Some k\<rparr>"
    unfolding cond_ready_def that(2) using x that(1) by (intro exI [of _ k] exI [of _ x]) auto
  moreover have "x \<noteq> [] \<and> 2 \<le> length x \<and> c = snip_cond_zero\<lparr>sc_keyword := Some k,
      sc_bmBc := (sen_bm_preBmBc x (length x))[unat (x ! (length x - 1)) := 0],
      sc_shift := sen_bm_preBmBc x (length x) ! unat (x ! (length x - 1))\<rparr> \<or>
      length x = 1 \<and> c = snip_cond_zero\<lparr>sc_keyword := Some k\<rparr>"
  proof (cases "length x = 1")
    case False
    then have "x \<noteq> []" using assms(3) by (auto simp: sen_snip_cond_init_def k x Let_def)
    moreover from this False have "2 \<le> length x" by (cases x) (auto simp: Suc_le_eq)
    moreover have "length x - 1 < length x" using \<open>x \<noteq> []\<close> by simp
    then have "(x @ [0]) ! (length x - 1) = x ! (length x - 1)" by (simp add: nth_append)
    ultimately show ?thesis
      using assms(3) False
      by (simp add: sen_snip_cond_init_def k x Let_def preBmBc_terminated [unfolded One_nat_def])
  qed (use assms(3) in \<open>simp add: sen_snip_cond_init_def k x Let_def\<close>)
  ultimately show ?thesis by blast
qed

lemma add_cond_ready:
  assumes "nfkc_ok nf" "n \<le> length kw" "snip_ready sn"
    and "sen_snip_add_cond alloc nf blk (Some sn) (Some kw) n ot ol ct cl = Some (rc, Some sn')"
  shows "snip_ready sn'"
proof (cases "sn' = sn")
  case False
  obtain rc1 c where i: "sen_snip_cond_init alloc nf blk kw n (sn_encoding sn) (sn_flags sn) = Some (rc1, c)"
    using assms(4) False
    by (cases "sen_snip_cond_init alloc nf blk kw n (sn_encoding sn) (sn_flags sn)")
      (auto simp: sen_snip_add_cond_def Let_def split: if_splits)
  define o1 where "o1 = cond_tag (sn_flags sn) ot ol (sn_defaultopentag sn) (sn_defaultopentag_len sn)"
  define o2 where "o2 = cond_tag (sn_flags sn) ct cl (sn_defaultclosetag sn) (sn_defaultclosetag_len sn)"
  have rc1: "rc1 = sen_success" and sn': "sn' = sn\<lparr>sn_cond := sn_cond sn @
      [c\<lparr>sc_opentag := fst o1, sc_opentag_len := snd o1, sc_closetag := fst o2, sc_closetag_len := snd o2\<rparr>]\<rparr>"
    using assms(4) False
    unfolding sen_snip_add_cond_def Let_def i o1_def [symmetric] o2_def [symmetric] case_prod_beta fst_conv snd_conv option.case
    by (simp_all split: if_splits)
  note c = i [unfolded rc1]
  have "cond_ready (c\<lparr>sc_opentag := a, sc_opentag_len := b, sc_closetag := d, sc_closetag_len := e\<rparr>)"
    for a b d e
    using cond_init_ready [OF assms(1,2) c] by (simp add: cond_ready_def)
  then show ?thesis using assms(3) unfolding sn' by (auto simp: snip_ready_def)
qed (use assms(3) in simp)

section \<open>Running a generator\<close>

lemma inner_loop_keeps:
  "exec_inv safe S t ks obj sn r se \<Longrightarrow> inner_loop fuel se = Snip_done se' \<Longrightarrow> exec_inv safe S t ks obj sn r se'"
proof (induction fuel arbitrary: se)
  case (Suc fuel)
  with inner_step_progress [OF Suc.prems(1)] show ?case by (cases "inner_step se") auto
qed simp

lemma outer_loop_keeps:
  "exec_inv False S t ks obj sn r se \<Longrightarrow> outer_loop fuel k s S se = Snip_done se' \<Longrightarrow>
     \<exists>r'. exec_inv False S t ks obj sn r' se'"
proof (induction k arbitrary: se r)
  case (Suc k)
  obtain se1 where i: "inner_loop fuel (new_snip se) = Snip_done se1"
    using Suc.prems(2) by (auto split: snip_run.splits)
  have se1: "exec_inv False S t ks obj sn r se1"
    by (rule inner_loop_keeps [OF new_snip_progress(1) [OF Suc.prems(1)] i])
  show ?case
  proof (cases "se_found_cond se1")
    case True
    then obtain se2 where f: "finish_snip s S se1 = Some se2"
      using Suc.prems(2) i by (auto split: option.splits)
    then have "exec_inv False S t ks obj sn (Suc r) se2" using finish_snip_progress [OF se1, of s S] by simp
    then show ?thesis
      using Suc.prems(2) i True f Suc.IH [OF restart_conds_progress(1)] by (auto split: if_splits)
  qed (use Suc.prems(2) i se1 in auto)
qed simp

definition exec_start :: "sen_snip \<Rightarrow> sen_nstr \<Rightarrow> snip_exec" where
  "exec_start snip nstr =
     \<lparr>se_snip = snip\<lparr>sn_nstr := Some nstr\<rparr>,
      se_sr = \<lparr>sr_start_offset = 0, sr_end_offset = 0, sr_first_tag = 0, sr_last_tag = 0, sr_tag_count = 0\<rparr>,
      se_results = [], se_last_end = 0, se_last_last_end = 0, se_unfound = length (sn_cond snip),
      se_max_tagged = 0, se_tagged = 0, se_last_tag_end = 0, se_found_cond = False\<rparr>"

lemma exec_start_inv:
  assumes "snip_ready sn" "text_ready t ks nstr" "safe \<Longrightarrow> checks_fit (sn_flags sn) S t ks"
  shows "exec_inv safe S t ks nstr sn 0 (exec_start (exec_clean sn) nstr)"
proof -
  have "cond_inv safe S ks (sen_snip_cond_reinit c)" if "c \<in> set (sn_cond sn)" for c
    using that assms(1)
    by (auto simp: cond_inv_def cond_fits_def cond_ok_def sen_snip_cond_reinit_def snip_ready_def cond_ready_def)
  then show ?thesis
    using assms by (auto simp: exec_inv_def exec_start_def exec_clean_def se_conds_def)
qed

lemma exec_ready:
  assumes "nfkc_ok nf" "snip_ready sn" "n \<le> length s"
    and "sen_snip_exec alloc nf blk fuel sn s n = Snip_done (rc, r, sn')"
  shows "snip_ready sn'"
proof -
  let ?sn = "exec_clean sn"
  have clean: "snip_ready (exec_clean sn)" if "snip_ready sn" for sn
    using that by (auto simp: snip_ready_def exec_clean_def sen_snip_cond_reinit_def cond_ready_def)
  let ?o = "snip_nstr_open alloc nf blk s n (sn_encoding ?sn) (sn_flags ?sn)
      (SEN_STR_WITH_CHECKS OR SEN_STR_REMOVEBLANK)"
  note e = assms(4) [unfolded sen_snip_exec_def Let_def exec_start_def [symmetric]]
  show ?thesis
  proof (cases ?o)
    case (Some o1)
    show ?thesis
    proof (cases o1)
      case None
      then have "sn' = exec_clean ?sn" using e Some by simp
      then show ?thesis using clean assms(2) by simp
    next
      case (Some nstr)
      note o = \<open>?o = Some o1\<close> [unfolded Some]
      have "has_flag (SEN_STR_WITH_CHECKS OR SEN_STR_REMOVEBLANK) SEN_STR_WITH_CHECKS"
        by (simp add: flag_defs)
      then obtain t ks where t: "text_ready t ks nstr"
        using snip_open_text [OF assms(1,3) o] by (auto simp: text_ready_def)
      note inv = exec_start_inv [OF assms(2) t, of False n, simplified]
      have "\<forall>ci \<in> set [0..<length (sn_cond ?sn)]. ci < length (se_conds (exec_start ?sn nstr))"
        by (simp add: exec_start_def se_conds_def)
      from advance_all_progress [OF inv this] obtain se1 where
        se1: "advance_all [0..<length (sn_cond ?sn)] (exec_start ?sn nstr) = Some se1"
        "exec_inv False n t ks nstr sn 0 se1" by blast
      obtain se2 where se2: "outer_loop fuel fuel s n se1 = Snip_done se2"
        "sn_cond sn' = sn_cond (se_snip se2)" "sn_max_results sn' = sn_max_results (se_snip se2)"
        using e o se1(1) by (auto split: snip_run.splits)
      obtain r' where "exec_inv False n t ks nstr sn r' se2" using outer_loop_keeps [OF se1(2) se2(1)] by blast
      then show ?thesis
        using assms(2) se2(2,3) by (simp add: snip_ready_def exec_inv_def se_conds_def cond_inv_def)
    qed
  qed (use e in simp)
qed

lemma snip_made_ready: "snip_made nf sn \<Longrightarrow> nfkc_ok nf \<Longrightarrow> snip_ready sn"
proof (induction rule: snip_made.induct)
  case (made_open alloc sz enc flags width max_results ot ol ct cl html sn)
  then show ?case by (auto simp: sen_snip_open_def snip_ready_def Let_def split: if_splits)
next
  case (made_add sn n kw alloc blk ot ol ct cl rc sn')
  show ?case by (rule add_cond_ready [OF made_add(5,2) made_add(4) [OF made_add(5)] made_add(3)])
next
  case (made_exec sn n s alloc blk fuel rc r sn')
  show ?case by (rule exec_ready [OF made_exec(5) made_exec(4) [OF made_exec(5)] made_exec(2,3)])
qed

text \<open>The end of \<open>sen_snip_exec\<close>, from the result of the outer loop.\<close>

definition exec_end ::
  "bytes \<Rightarrow> snip_exec snip_run \<Rightarrow> (sen_rc \<times> (nat \<times> nat option) \<times> sen_snip) snip_run" where
  "exec_end s w =
     (case w of
        Snip_done se2 \<Rightarrow>
          Snip_done (sen_success, (length (se_results se2), Some (se_max_tagged se2)),
            (se_snip se2)\<lparr>sn_snip_count := length (se_results se2), sn_string := s,
                          sn_snip_result := se_results se2, sn_max_tagged_len := se_max_tagged se2\<rparr>)
      | Snip_fault \<Rightarrow> Snip_fault
      | Snip_more \<Rightarrow> Snip_more)"

text \<open>
  Termination, and without reads outside of the text when the checks locate the normalised text
  within the source.
\<close>

lemma exec_returns:
  assumes "nfkc_ok nf" "snip_made nf sn" "n \<le> length s"
    and "snip_nstr_open alloc nf blk s n (sn_encoding sn) (sn_flags sn)
      (SEN_STR_WITH_CHECKS OR SEN_STR_REMOVEBLANK) = Some (Some nstr)"
    and "ns_norm nstr = Some (t @ [0])" "ns_checks nstr = Some ks"
    and "length (sn_cond sn) * (length t + 1) < fuel" "sn_max_results sn \<le> fuel"
  shows "sen_snip_exec alloc nf blk fuel sn s n \<noteq> Snip_more \<and>
    (checks_fit (sn_flags sn) n t ks \<and> bytewise (sn_encoding sn) \<and> n < length s \<and> s ! n = 0 \<longrightarrow>
      (\<exists>r sn'. sen_snip_exec alloc nf blk fuel sn s n = Snip_done (sen_success, r, sn')))"
proof -
  let ?sn = "exec_clean sn"
  have f: "sn_encoding ?sn = sn_encoding sn" "sn_flags ?sn = sn_flags sn"
    "length (sn_cond ?sn) = length (sn_cond sn)"
    by (simp_all add: exec_clean_def)
  have ready: "snip_ready sn" by (rule snip_made_ready [OF assms(2,1)])
  have t: "text_ready t ks nstr"
    using snip_open_text [OF assms(1,3,4)] assms(5,6) by (auto simp: text_ready_def)
  have run: "\<exists>se1. sen_snip_exec alloc nf blk fuel sn s n =
        exec_end s (outer_loop fuel fuel s n se1) \<and>
      returns safe (outer_loop fuel fuel s n se1)"
    if "safe \<Longrightarrow> checks_fit (sn_flags sn) n t ks \<and> bytewise (sn_encoding sn) \<and> n < length s \<and> s ! n = 0" for safe
  proof -
    have inv: "exec_inv safe n t ks nstr sn 0 (exec_start ?sn nstr)"
      by (rule exec_start_inv [OF ready t]) (use that in blast)
    have "\<forall>ci \<in> set [0..<length (sn_cond ?sn)]. ci < length (se_conds (exec_start ?sn nstr))"
      by (simp add: exec_start_def se_conds_def)
    from advance_all_progress [OF inv this] obtain se1 where
      se1: "advance_all [0..<length (sn_cond ?sn)] (exec_start ?sn nstr) = Some se1"
      "exec_inv safe n t ks nstr sn 0 se1"
      "conds_left (length t) (se_conds se1) \<le> conds_left (length t) (se_conds (exec_start ?sn nstr))"
      by blast
    have "length (se_conds (exec_start ?sn nstr)) = length (sn_cond sn)"
      by (simp add: exec_start_def se_conds_def f(3))
    then have "conds_left (length t) (se_conds se1) < fuel"
      using se1(3) conds_left_bound [of "length t" "se_conds (exec_start ?sn nstr)"] assms(7) by simp
    moreover have "0 < sn_max_results sn" using ready by (simp add: snip_ready_def)
    ultimately have "returns safe (outer_loop fuel fuel s n se1)"
      using outer_loop_returns [OF se1(2)] that assms(8) by simp
    then show ?thesis
      using se1(1) assms(4) unfolding sen_snip_exec_def Let_def exec_start_def [symmetric] f exec_end_def
      by (intro exI [of _ se1]) simp
  qed
  show ?thesis
  proof (intro conjI impI)
    from run [of False] obtain se1 where se1: "returns False (outer_loop fuel fuel s n se1)"
      "sen_snip_exec alloc nf blk fuel sn s n = exec_end s (outer_loop fuel fuel s n se1)"
      by blast
    then show "sen_snip_exec alloc nf blk fuel sn s n \<noteq> Snip_more"
      by (cases "outer_loop fuel fuel s n se1") (simp_all add: exec_end_def)
  next
    assume "checks_fit (sn_flags sn) n t ks \<and> bytewise (sn_encoding sn) \<and> n < length s \<and> s ! n = 0"
    then obtain se1 where se1: "returns True (outer_loop fuel fuel s n se1)"
      "sen_snip_exec alloc nf blk fuel sn s n = exec_end s (outer_loop fuel fuel s n se1)"
      using run [of True] by blast
    then show "\<exists>r sn'. sen_snip_exec alloc nf blk fuel sn s n = Snip_done (sen_success, r, sn')"
      by (cases "outer_loop fuel fuel s n se1") (simp_all add: exec_end_def)
  qed
qed

text \<open>Without normalisation the checks of a text of whole characters do.\<close>

lemma char_checks_off: "src_off (char_checks cs) (length (concat cs)) = length (concat cs)"
  if "\<forall>c \<in> set cs. c \<noteq> []"
proof -
  have len: "length (char_checks cs) = length (concat cs)"
    using that by (induction cs) (auto simp: char_checks_def Suc_diff_Suc neq_Nil_conv)
  have "sum_list (map nat (char_checks cs)) = length (concat cs)"
    by (induction cs) (auto simp: char_checks_def sum_list_replicate)
  then show ?thesis
    using len by (simp add: src_off_def sum_list_sum_nth atLeast0LessThan)
qed

lemma plain_checks_fit:
  assumes "chars_of enc t = Some cs" "\<forall>c \<in> set cs. plain_lead enc (hd c)" "length t < 2 ^ 64"
    and "\<not> has_flag flags SEN_SNIP_SKIP_LEADING_SPACES"
  shows "checks_fit flags (length t) t (fake_checks enc 0 t)"
proof -
  have cat: "t = concat cs" using delimited_reader.split_concat [OF assms(1)] by simp
  have plain: "\<forall>c \<in> set cs. c \<noteq> [] \<and> fake_width enc (hd c) = length c"
    by (rule split_plain [OF assms(1,2)])
  have ks: "fake_checks enc 0 t = char_checks cs" unfolding cat by (rule fake_checks_chars [OF plain])
  have "t \<noteq> [] \<Longrightarrow> 0 < char_checks cs ! 0"
    using plain by (cases cs) (auto simp: cat char_checks_def)
  then show ?thesis
    using char_checks_off [of cs] plain assms(3,4) unfolding checks_fit_def ks by (simp add: cat)
qed

text \<open>So do the checks of the byte-wise normalisers, for sources that fit a check.\<close>

lemma normalized_checks_fit:
  assumes "sen_nstr_open alloc nf blk (Some s) n enc nflags = Some (Some nstr)" "enc \<noteq> sen_enc_utf8"
    and "n \<le> 32767" "n < length s" "s ! n = 0"
    and "ns_norm nstr = Some (t @ [0])" "ns_checks nstr = Some ks"
    and "\<not> has_flag flags SEN_SNIP_SKIP_LEADING_SPACES"
  shows "checks_fit flags n t ks"
proof -
  let ?i = "nstr_init blk s n enc nflags" and ?src = "take n s"
  have o: "ns_orig ?i = s" "ns_orig_blen ?i = n" "ns_encoding ?i = enc" by simp_all
  have "length (takeWhile (\<lambda>c. c \<noteq> 0) s) \<le> n"
  proof (rule ccontr)
    assume "\<not> ?thesis"
    then have n: "n < length (takeWhile (\<lambda>c. c \<noteq> 0) s)" by simp
    show False using set_takeWhileD [OF nth_mem [OF n]] takeWhile_nth [OF n] assms(5) by simp
  qed
  then have src: "length (strlen_src ?i) \<le> n" unfolding strlen_src_def o .
  have run: "normalize_by alloc nf ?i = Some (sen_success, nstr)"
    using assms(1) by (auto simp: sen_nstr_open_def split: if_splits option.splits prod.splits)
  have fit: "length ks = length t \<and> (\<forall>x \<in> set ks. 0 \<le> x) \<and> sum_list ks \<le> int n \<and> (ks \<noteq> [] \<longrightarrow> 0 < hd ks)"
    if "byte_normalizer f k" "normalize_with alloc k f src ?i = (sen_success, nstr)" "length src \<le> n" for f k src
    using byte_normalizer.normalize_ok [OF that(1,2)] byte_normalizer.normalize_head [OF that(1,2) assms(7)]
      assms(3,6,7) that(3) by auto
  have ks: "length ks = length t \<and> (\<forall>x \<in> set ks. 0 \<le> x) \<and> sum_list ks \<le> int n \<and> (ks \<noteq> [] \<longrightarrow> 0 < hd ks)"
  proof (cases enc)
    case sen_enc_euc_jp
    then show ?thesis using fit [OF euc_norm.byte_normalizer_axioms, where src = ?src] run
      by (simp add: normalize_by_def normalize_euc_def o)
  next
    case sen_enc_sjis
    then show ?thesis using fit [OF sjis_norm.byte_normalizer_axioms, where src = ?src] run
      by (simp add: normalize_by_def normalize_sjis_def o)
  next
    case sen_enc_latin1
    then show ?thesis using fit [OF latin1_norm.byte_normalizer_axioms, where src = "strlen_src ?i"] run src
      by (simp add: normalize_by_def normalize_latin1_def o)
  next
    case sen_enc_koi8r
    then show ?thesis using fit [OF koi8r_norm.byte_normalizer_axioms, where src = "strlen_src ?i"] run src
      by (simp add: normalize_by_def normalize_koi8r_def o)
  qed (use assms(2) fit [OF none_norm.byte_normalizer_axioms, where src = ?src] run in
      \<open>simp_all add: normalize_by_def normalize_none_def o\<close>)
  have "\<forall>x \<in> set ks. 0 \<le> x" using ks by blast
  then have "int (sum_list (map nat ks)) = sum_list ks" by (induction ks) auto
  moreover have "length t = length ks" using ks by simp
  then have "src_off ks (length t) = sum_list (map nat ks)"
    by (simp add: src_off_def sum_list_sum_nth atLeast0LessThan)
  ultimately have "src_off ks (length t) \<le> n" using ks by simp
  moreover have "t \<noteq> [] \<longrightarrow> 0 < ks ! 0" using ks by (cases ks) auto
  ultimately show ?thesis using assms(3,8) by (simp add: checks_fit_def)
qed


lemma example_cond_made: "snip_made nf_example example_cond"
proof -
  have "sen_snip_open (\<lambda>_. True) 0 sen_enc_none 0 10 2 None 0 None 0 True = Some example_snip"
    by (simp add: example_snip_def sen_snip_open_def MAX_SNIP_RESULT_COUNT_def)
  then have "snip_made nf_example example_snip" by (rule made_open)
  moreover have "sen_snip_cond_init (\<lambda>_. True) nf_example (plain_nstr [] []) [0x62] 1 sen_enc_none 0 =
      Some (sen_success, snip_cond_zero\<lparr>sc_keyword := Some example_kw\<rparr>)"
    by (simp add: sen_snip_cond_init_def snip_nstr_open_def fake_example [unfolded One_nat_def]
        example_kw_def new_nstr_def)
  then have "sen_snip_add_cond (\<lambda>_. True) nf_example (plain_nstr [] []) (Some example_snip)
      (Some [0x62]) 1 (Some [0x3c]) 1 (Some [0x3e]) 1 = Some (sen_success, Some example_cond)"
    by (simp add: example_cond_value example_snip_def sen_snip_open_def sen_snip_add_cond_def
        MAX_SNIP_RESULT_COUNT_def MAX_SNIP_COND_COUNT_def cond_tag_def kw_cond_def example_kw_def)
  ultimately show ?thesis by (elim made_add [rotated 2]) simp_all
qed

text \<open>
  The keyword \<open>b\<close> and the text \<open>ab\<close>, which ends with its NUL, as it is; and the text \<open>AB\<close>,
  normalised.
\<close>

definition example_norm_snip :: sen_snip where
  "example_norm_snip = the (sen_snip_open (\<lambda>_. True) 0 sen_enc_none SEN_SNIP_NORMALIZE 10 2 None 0 None 0 True)"


end
