(* ===== verification/Query_Scan.thy ===== *)
theory Query_Scan
  imports Query_Parse Snip_Exec
begin

text \<open>
  Matching texts against a query without an index (lib/query.c): \<open>scan_keyword\<close>, \<open>scan_query\<close>,
  \<open>sen_query_scan\<close>, and the snippet generator made from a query, \<open>snip_query\<close> and
  \<open>sen_query_snip\<close>. The conditions of a query are an array; the pointer \<open>*sc\<close> into it is an index.
  A result \<open>None\<close> is a loop that does not end, or the use of a condition outside of the array or
  without a keyword (its pointer is NULL, or points to a string that has been closed).
\<close>

definition SEN_QUERY_SCAN_NORMALIZE :: u32 where "SEN_QUERY_SCAN_NORMALIZE = SEN_SNIP_NORMALIZE"
definition SEN_QUERY_SCAN_ALLOCCONDS :: u32 where "SEN_QUERY_SCAN_ALLOCCONDS = 2"

section \<open>One keyword\<close>

partial_function (option) keyword_loop :: "snip_cond \<Rightarrow> sen_nstr \<Rightarrow> int \<Rightarrow> (int \<times> snip_cond) option" where
  "keyword_loop sc str tf =
     Option.bind (sen_bm_tunedbm sc str 0)
       (\<lambda>c. if sc_stopflag c = SNIPCOND_STOP then Some (tf, c) else keyword_loop c str (tf + 1))"

text \<open>The weight of a hit in the section; the comparison is one of unsigned numbers.\<close>

definition keyword_weight :: "sen_select_optarg \<Rightarrow> nat \<Rightarrow> int" where
  "keyword_weight optarg section' =
     (if so_vector_size optarg \<noteq> 0 then
        (case so_weight_vector optarg of
           None \<Rightarrow> so_vector_size optarg
         | Some w \<Rightarrow>
             (if section' \<noteq> 0 then
                (if section' \<le> unat (word_of_int (so_vector_size optarg) :: u32) then w ! (section' - 1)
                 else 0)
              else 1))
      else 1)"

text \<open>\<open>*found\<close> and \<open>*score\<close> after \<open>tf\<close> hits of the weight \<open>w\<close>.\<close>

definition keyword_score :: "sen_sel_operator \<Rightarrow> int \<Rightarrow> int \<Rightarrow> bool \<times> int \<Rightarrow> bool \<times> int" where
  "keyword_score op w tf fs =
     (let (found, score) = fs; more = wrap32 (score + wrap32 (w * tf)) in
      case op of
        sen_sel_or \<Rightarrow> (if tf \<noteq> 0 then (True, more) else fs)
      | sen_sel_and \<Rightarrow> (if tf \<noteq> 0 then (found, more) else (False, score))
      | sen_sel_but \<Rightarrow> (if tf \<noteq> 0 then (False, score) else fs)
      | sen_sel_adjust \<Rightarrow> (found, more))"

definition scan_keyword ::
  "snip_cond \<Rightarrow> sen_nstr \<Rightarrow> nat \<Rightarrow> sen_sel_operator \<Rightarrow> sen_select_optarg \<Rightarrow> bool \<times> int \<Rightarrow>
   (snip_cond \<times> bool \<times> int) option" where
  "scan_keyword sc str section' op optarg fs =
     (if sc_keyword sc = None \<or> ns_norm_blen (the (sc_keyword sc)) = 0 then None
      else
        (case keyword_loop sc str 0 of
           None \<Rightarrow> None
         | Some (tf, c) \<Rightarrow> Some (c, keyword_score op (keyword_weight optarg section') tf fs)))"

section \<open>An expression\<close>

record scan_state =
  ss_q :: sen_query
  ss_conds :: "snip_cond list"
  ss_next :: nat

type_synonym op_cell = "sen_sel_operator \<times> int \<times> sen_sel_mode option \<times> int"

text \<open>The options for a word, from the operator in front of it (\<open>None\<close> when there is none).\<close>

definition word_opt :: "sen_query \<Rightarrow> op_cell option \<Rightarrow> sen_select_optarg" where
  "word_opt q ope =
     (let opt = q_opt q in
      case ope of
        Some (op, weight, mode, option) \<Rightarrow>
          opt\<lparr>so_mode := (case mode of None \<Rightarrow> q_default_mode q | Some m \<Rightarrow> m),
              so_max_interval := option, so_similarity_threshold := option,
              so_vector_size := (if so_weight_vector opt = None then weight + q_weight_offset q
                                 else so_vector_size opt)\<rparr>
      | None \<Rightarrow>
          opt\<lparr>so_mode := q_default_mode q, so_max_interval := DEFAULT_MAX_INTERVAL,
              so_similarity_threshold := DEFAULT_SIMILARITY_THRESHOLD,
              so_vector_size := (if so_weight_vector opt = None then DEFAULT_WEIGHT + q_weight_offset q
                                 else so_vector_size opt)\<rparr>)"

text \<open>The condition of the next word, made or reset, and the search with it.\<close>

definition scan_bulk ::
  "alloc \<Rightarrow> nfkc \<Rightarrow> sen_nstr \<Rightarrow> sen_nstr \<Rightarrow> nat \<Rightarrow> u32 \<Rightarrow> nat \<Rightarrow> nat \<Rightarrow> sen_sel_operator \<Rightarrow> op_cell option \<Rightarrow>
   scan_state \<Rightarrow> bool \<times> int \<Rightarrow> (sen_rc \<times> scan_state \<times> bool \<times> int) option" where
  "scan_bulk alloc nf blk nstr section' flags start sz op ope st fs =
     (let q = (ss_q st)\<lparr>q_opt := word_opt (ss_q st) ope\<rparr>; k = ss_next st in
      if length (ss_conds st) \<le> k then None
      else
        (case (if has_flag flags SEN_QUERY_SCAN_ALLOCCONDS
               then sen_snip_cond_init alloc nf blk (drop start (q_str q)) sz (q_encoding q)
                      (flags AND SEN_SNIP_NORMALIZE)
               else Some (sen_success, sen_snip_cond_reinit (ss_conds st ! k))) of
           None \<Rightarrow> None
         | Some (rc, c) \<Rightarrow>
             (if rc \<noteq> sen_success
              then Some (rc, st\<lparr>ss_q := q, ss_conds := (ss_conds st)[k := c]\<rparr>, fs)
              else
                (case scan_keyword c nstr section' op (q_opt q) fs of
                   None \<Rightarrow> None
                 | Some (c', fs') \<Rightarrow>
                     Some (sen_success,
                       st\<lparr>ss_q := q, ss_conds := (ss_conds st)[k := c'], ss_next := k + 1\<rparr>, fs')))))"

text \<open>The end of \<open>scan_query\<close>: \<open>fs\<close> are the inner values, \<open>out\<close> those of the caller.\<close>

definition scan_combine :: "sen_sel_operator \<Rightarrow> bool \<times> int \<Rightarrow> bool \<times> int \<Rightarrow> bool \<times> int" where
  "scan_combine op fs out =
     (let (f, s) = fs; (found, score) = out in
      case op of
        sen_sel_or \<Rightarrow> (found \<or> f, wrap32 (score + s))
      | sen_sel_and \<Rightarrow> (found \<and> f, wrap32 (score + s))
      | sen_sel_but \<Rightarrow> (found \<and> \<not> f, score)
      | sen_sel_adjust \<Rightarrow> (found, wrap32 (score + s)))"

text \<open>
  The loop: \<open>first\<close> while \<open>opp\<close> still points to \<open>op0\<close>, \<open>ope\<close> and \<open>op1\<close> the operator in front. A
  nested list is handled by a call whose result code is ignored.
\<close>

lemma size_POP: "size (snd (POP c)) \<le> size c"
  by (cases c) (simp_all add: POP_def)

function scan_loop ::
  "alloc \<Rightarrow> nfkc \<Rightarrow> sen_nstr \<Rightarrow> sen_nstr \<Rightarrow> nat \<Rightarrow> u32 \<Rightarrow> qcell \<Rightarrow> bool \<Rightarrow> op_cell option \<Rightarrow> sen_sel_operator \<Rightarrow>
   scan_state \<Rightarrow> bool \<times> int \<Rightarrow> (sen_rc \<times> scan_state \<times> bool \<times> int) option" where
  "scan_loop alloc nf blk nstr section' flags c first ope op1 st fs =
     (case c of
        Q_nil \<Rightarrow> Some (sen_success, st, fs)
      | Q_list e c' \<Rightarrow>
          (case e of
             Q_op op weight mode option \<Rightarrow>
               (if first \<and> op = sen_sel_but
                then scan_loop alloc nf blk nstr section' flags (snd (POP c')) first ope op1 st fs
                else scan_loop alloc nf blk nstr section' flags c' first (Some (op, weight, mode, option)) op st fs)
           | Q_bulk start sz \<Rightarrow>
               (case scan_bulk alloc nf blk nstr section' flags start sz (if first then sen_sel_or else op1) ope st fs of
                  None \<Rightarrow> None
                | Some (rc, st1, fs1) \<Rightarrow>
                    (if rc \<noteq> sen_success then Some (rc, st1, fs1)
                     else scan_loop alloc nf blk nstr section' flags c' False None (q_default_op (ss_q st1)) st1 fs1))
           | Q_list a d \<Rightarrow>
               (case scan_loop alloc nf blk nstr section' flags (Q_list a d) True None (q_default_op (ss_q st)) st (False, 0) of
                  None \<Rightarrow> None
                | Some (rc, st1, fs1) \<Rightarrow>
                    scan_loop alloc nf blk nstr section' flags c' False None (q_default_op (ss_q st1)) st1
                      (if rc = sen_success then scan_combine (if first then sen_sel_or else op1) fs1 fs else fs))
           | Q_nil \<Rightarrow>
               scan_loop alloc nf blk nstr section' flags c' False None (q_default_op (ss_q st)) st fs)
      | _ \<Rightarrow> None)"
  by pat_completeness auto
termination
  by (relation "measure (\<lambda>(a, nf, b, n, s, f, c, r). size c)") (auto simp: less_Suc_eq_le size_POP)

declare scan_loop.simps [simp del]

definition scan_query ::
  "alloc \<Rightarrow> nfkc \<Rightarrow> sen_nstr \<Rightarrow> sen_nstr \<Rightarrow> nat \<Rightarrow> u32 \<Rightarrow> qcell \<Rightarrow> sen_sel_operator \<Rightarrow> scan_state \<Rightarrow> bool \<times> int \<Rightarrow>
   (sen_rc \<times> scan_state \<times> bool \<times> int) option" where
  "scan_query alloc nf blk nstr section' flags c op st out =
     map_option
       (\<lambda>(rc, st1, fs). (rc, st1, if rc = sen_success then scan_combine op fs out else out))
       (scan_loop alloc nf blk nstr section' flags c True None (q_default_op (ss_q st)) st (False, 0))"

section \<open>Texts\<close>

text \<open>
  The loop of \<open>sen_query_scan\<close> over the texts, with their lengths, from the section \<open>i + 1\<close> on;
  \<open>q->snip_conds\<close> is taken out of the query for it.
\<close>

fun scan_texts ::
  "alloc \<Rightarrow> nfkc \<Rightarrow> sen_nstr \<Rightarrow> (bytes \<times> nat) list \<Rightarrow> nat \<Rightarrow> u32 \<Rightarrow> scan_state \<Rightarrow> bool \<times> int \<Rightarrow>
   (sen_rc \<times> scan_state \<times> bool \<times> int) option" where
  "scan_texts alloc nf blk [] i flags st fs = Some (sen_success, st, fs)"
| "scan_texts alloc nf blk ((str, len) # strs) i flags st fs =
     (case snip_nstr_open alloc nf blk str len (q_encoding (ss_q st)) flags
             (SEN_STR_WITH_CHECKS OR SEN_STR_REMOVEBLANK) of
        None \<Rightarrow> None
      | Some None \<Rightarrow> Some (sen_memory_exhausted, st, fs)
      | Some (Some n) \<Rightarrow>
          (case scan_query alloc nf blk n (i + 1) flags (q_expr (ss_q st)) sen_sel_or
                  (st\<lparr>ss_next := 0\<rparr>) fs of
             None \<Rightarrow> None
           | Some (rc, st1, fs1) \<Rightarrow>
               (if rc \<noteq> sen_success then Some (rc, st1, fs1)
                else scan_texts alloc nf blk strs (i + 1)
                       (flags AND NOT SEN_QUERY_SCAN_ALLOCCONDS) st1 fs1)))"

text \<open>
  The whole function: the return code, the query, and what is stored into \<open>*found\<close> and
  \<open>*score\<close> (\<open>None\<close> when nothing is). \<open>sz\<close> is \<open>sizeof(snip_cond)\<close>.
\<close>

definition sen_query_scan ::
  "alloc \<Rightarrow> nfkc \<Rightarrow> sen_nstr \<Rightarrow> nat \<Rightarrow> sen_query option \<Rightarrow> (bytes \<times> nat) list option \<Rightarrow> u32 \<Rightarrow>
   (sen_rc \<times> sen_query option \<times> (bool \<times> int) option) option" where
  "sen_query_scan alloc nf blk sz query strs flags =
     (case (query, strs) of
        (Some q, Some ts) \<Rightarrow>
          (if ts = [] then Some (sen_invalid_argument, query, None)
           else if q_snip_conds q = None \<and> \<not> alloc (sz * q_cur_expr q)
             then Some (sen_memory_exhausted, query, Some (False, 0))
           else if q_snip_conds q \<noteq> None \<and> has_flag flags SEN_QUERY_SCAN_ALLOCCONDS
             then Some (sen_invalid_argument, query, Some (False, 0))
           else
             map_option (\<lambda>(rc, st, fs). (rc, Some ((ss_q st)\<lparr>q_snip_conds := Some (ss_conds st)\<rparr>), Some fs))
               (case q_snip_conds q of
                  None \<Rightarrow>
                    scan_texts alloc nf blk ts 0 (flags OR SEN_QUERY_SCAN_ALLOCCONDS)
                      \<lparr>ss_q = q, ss_conds = replicate (q_cur_expr q) snip_cond_zero, ss_next = 0\<rparr> (False, 0)
                | Some conds \<Rightarrow>
                    scan_texts alloc nf blk ts 0 flags
                      \<lparr>ss_q = q, ss_conds = conds, ss_next = 0\<rparr> (False, 0)))
      | _ \<Rightarrow> Some (sen_invalid_argument, query, None))"

section \<open>Snippets for a query\<close>

text \<open>
  The four arrays of tags are one list of opening and closing tags with their lengths; \<open>n_tags\<close>
  is its length, and 0 a division by zero.
\<close>

type_synonym tag_pair = "(bytes option \<times> nat) \<times> (bytes option \<times> nat)"

definition snip_bulk ::
  "alloc \<Rightarrow> nfkc \<Rightarrow> sen_nstr \<Rightarrow> tag_pair list \<Rightarrow> sen_query \<Rightarrow> nat \<Rightarrow> nat \<Rightarrow> sen_snip \<Rightarrow>
   (sen_rc \<times> sen_snip) option" where
  "snip_bulk alloc nf blk tags q start sz snip =
     (if tags = [] then None
      else
        (let ((ot, ol), (ct, cl)) = tags ! (length (sn_cond snip) mod length tags) in
         map_option (\<lambda>(rc, s). (rc, the s))
           (sen_snip_add_cond alloc nf blk (Some snip) (Some (drop start (q_str q))) sz ot ol ct cl)))"

text \<open>
  \<open>c_but\<close> says whether the words of \<open>c\<close> are excluded; a word gets a condition when it is not.
\<close>

function snip_query ::
  "alloc \<Rightarrow> nfkc \<Rightarrow> sen_nstr \<Rightarrow> tag_pair list \<Rightarrow> bool \<Rightarrow> qcell \<Rightarrow> bool \<Rightarrow> op_cell option \<Rightarrow> sen_sel_operator \<Rightarrow>
   sen_query \<Rightarrow> sen_snip \<Rightarrow> (sen_rc \<times> sen_query \<times> sen_snip) option" where
  "snip_query alloc nf blk tags c_but c first ope op1 q snip =
     (case c of
        Q_nil \<Rightarrow> Some (sen_success, q, snip)
      | Q_list e c' \<Rightarrow>
          (let op = (if first then sen_sel_or else op1) in
           case e of
             Q_op op' weight mode option \<Rightarrow>
               snip_query alloc nf blk tags c_but c' first (Some (op', weight, mode, option)) op' q snip
           | Q_bulk start sz \<Rightarrow>
               (let q1 = q\<lparr>q_opt := (q_opt q)\<lparr>so_mode :=
                      (case ope of Some (op', w, Some m, opt) \<Rightarrow> m | _ \<Rightarrow> q_default_mode q)\<rparr>\<rparr> in
                if c_but = (op = sen_sel_but) then
                  (case snip_bulk alloc nf blk tags q1 start sz snip of
                     None \<Rightarrow> None
                   | Some (rc, snip1) \<Rightarrow>
                       (if rc \<noteq> sen_success then Some (rc, q1, snip1)
                        else snip_query alloc nf blk tags c_but c' False None (q_default_op q1) q1 snip1))
                else snip_query alloc nf blk tags c_but c' False None (q_default_op q1) q1 snip)
           | Q_list a d \<Rightarrow>
               (case snip_query alloc nf blk tags (if op = sen_sel_but then \<not> c_but else c_but)
                       (Q_list a d) True None (q_default_op q) q snip of
                  None \<Rightarrow> None
                | Some (rc, q1, snip1) \<Rightarrow>
                    snip_query alloc nf blk tags c_but c' False None (q_default_op q1) q1 snip1)
           | Q_nil \<Rightarrow> snip_query alloc nf blk tags c_but c' False None (q_default_op q) q snip)
      | _ \<Rightarrow> None)"
  by pat_completeness auto
termination
  by (relation "measure (\<lambda>(a, nf, b, t, cb, c, r). size c)") auto

declare snip_query.simps [simp del]

text \<open>The result is NULL (\<open>None\<close>) when the generator cannot be made.\<close>

definition sen_query_snip ::
  "alloc \<Rightarrow> nfkc \<Rightarrow> sen_nstr \<Rightarrow> nat \<Rightarrow> sen_query \<Rightarrow> u32 \<Rightarrow> nat \<Rightarrow> nat \<Rightarrow> tag_pair list \<Rightarrow> bool \<Rightarrow>
   (sen_snip option \<times> sen_query) option" where
  "sen_query_snip alloc nf blk sz query flags width max_results tags html =
     (case sen_snip_open alloc sz (q_encoding query) flags width max_results None 0 None 0 html of
        None \<Rightarrow> Some (None, query)
      | Some res \<Rightarrow>
          map_option (\<lambda>(rc, q, snip). (if rc \<noteq> sen_success then None else Some snip, q))
            (snip_query alloc nf blk tags False (q_expr query) True None (q_default_op query) query res))"

end
