(* ===== verification/Query_Ok.thy ===== *)
theory Query_Ok
  imports Query_Scan
begin

text \<open>
  The parser of queries stays inside the string and the pool of cells: what it returns are cells
  it has counted, its texts lie in the part of the string it has read, and the part it has not
  read is untouched although phrases are unquoted in place. It comes to an end.
\<close>

section \<open>Copying within the string\<close>

lemma copy_down_eq:
  "d \<le> s \<Longrightarrow> s + n \<le> length str \<Longrightarrow>
     copy_down n str s d = take d str @ take n (drop s str) @ drop (d + n) str"
proof (induction n arbitrary: str s d)
  case (Suc n)
  let ?str = "str[d := str ! s]"
  have "take (d + 1) ?str = take d str @ [str ! s]"
    using Suc.prems by (simp add: upd_conv_take_nth_drop)
  moreover have "take n (drop (s + 1) ?str) = take n (drop (s + 1) str)"
    using Suc.prems by (simp add: drop_update_cancel)
  moreover have "drop (d + 1 + n) ?str = drop (d + 1 + n) str" by (simp add: drop_update_cancel)
  ultimately have "copy_down (Suc n) str s d =
      take d str @ str ! s # take n (drop (s + 1) str) @ drop (d + 1 + n) str"
    using Suc.IH [of "d + 1" "s + 1" ?str] Suc.prems by simp
  moreover have "take (Suc n) (drop s str) = str ! s # take n (drop (s + 1) str)"
    using Suc.prems by (simp add: Cons_nth_drop_Suc [symmetric])
  ultimately show ?case by simp
qed simp

lemma copy_down_parts:
  assumes "d \<le> s" "s + n \<le> length str"
  shows "length (copy_down n str s d) = length str"
    "take d (copy_down n str s d) = take d str"
    "take (d + n) (copy_down n str s d) = take d str @ take n (drop s str)"
    "k \<ge> d + n \<Longrightarrow> drop k (copy_down n str s d) = drop k str"
proof -
  note e = copy_down_eq [OF assms]
  have l: "length (take d str) = d" "length (take n (drop s str)) = n" using assms by simp_all
  show "length (copy_down n str s d) = length str" using assms l by (simp add: e)
  show "take d (copy_down n str s d) = take d str" using l by (simp add: e)
  show "take (d + n) (copy_down n str s d) = take d str @ take n (drop s str)"
    unfolding e using l by (simp add: take_add)
  assume "k \<ge> d + n"
  then obtain j where k: "k = d + n + j" using le_Suc_ex by blast
  have "drop (d + n) (take d str @ take n (drop s str) @ drop (d + n) str) = drop (d + n) str"
    using l by (simp add: drop_append drop_drop [symmetric] del: drop_drop)
  then have "drop j (drop (d + n) (copy_down n str s d)) = drop j (drop (d + n) str)" by (simp only: e)
  then show "drop k (copy_down n str s d) = drop k str" by (simp add: k add.commute)
qed

definition phrase_post :: "bytes \<Rightarrow> nat \<Rightarrow> nat \<Rightarrow> bytes \<times> nat \<times> nat \<Rightarrow> bool" where
  "phrase_post str s d r \<longleftrightarrow>
     (case r of (str', d', cur) \<Rightarrow>
        length str' = length str \<and> d \<le> d' \<and> d' \<le> cur \<and> s \<le> cur \<and> cur \<le> length str \<and>
        take d str' = take d str \<and> drop cur str' = drop cur str)"

lemma phrase_post_copy:
  assumes "phrase_post (copy_down n str s1 d) (s1 + n) (d + n) r" "d \<le> s" "s \<le> s1" "s1 + n \<le> length str"
  shows "phrase_post str s d r"
proof -
  obtain str' d' cur where r: "r = (str', d', cur)" by (cases r)
  have "d \<le> s1" using assms(2,3) by simp
  note c = copy_down_parts [OF this assms(4)]
  have p: "length str' = length str" "d + n \<le> d'" "d' \<le> cur" "s1 + n \<le> cur" "cur \<le> length str"
    "take (d + n) str' = take (d + n) (copy_down n str s1 d)" "drop cur str' = drop cur (copy_down n str s1 d)"
    using assms(1) c(1) by (simp_all add: phrase_post_def r)
  have "take d str' = take d (take (d + n) str')" by (simp add: min_def)
  also have "\<dots> = take d (copy_down n str s1 d)" by (simp add: p(6) min_def)
  finally have "take d str' = take d str" by (simp add: c(2))
  then show ?thesis using p c(4) [of cur] assms(3) by (simp add: phrase_post_def r)
qed

lemma phrase_loop_ok:
  assumes "phrase_loop enc str s d = Some r" "d \<le> s" "s \<le> length str"
  shows "phrase_post str s d r"
proof -
  have "d \<le> s \<longrightarrow> s \<le> length str \<longrightarrow> phrase_post str s d r"
  proof (rule phrase_loop.raw_induct [where P = "\<lambda>enc str s d r. d \<le> s \<longrightarrow> s \<le> length str \<longrightarrow>
      phrase_post str s d r", OF _ assms(1)], intro impI)
    fix loop :: "sen_encoding \<Rightarrow> bytes \<Rightarrow> nat \<Rightarrow> nat \<Rightarrow> (bytes \<times> nat \<times> nat) option" and enc str s d r
    assume IH: "\<And>enc str s d r. loop enc str s d = Some r \<Longrightarrow> d \<le> s \<longrightarrow> s \<le> length str \<longrightarrow> phrase_post str s d r"
      and body: "(if length str \<le> s then Some (str, d, s)
        else if sen_str_charlen_nonnull (drop s str) enc = 1 \<and> str ! s = SEN_QUERY_QUOTER
          then Some (str, d, s + 1)
        else if sen_str_charlen_nonnull (drop s str) enc = 1 \<and> str ! s = SEN_QUERY_ESCAPE \<and>
            s + 1 < length str
          then loop enc (copy_down (sen_str_charlen_nonnull (drop (s + 1) str) enc) str (s + 1) d)
                 (s + 1 + sen_str_charlen_nonnull (drop (s + 1) str) enc)
                 (d + sen_str_charlen_nonnull (drop (s + 1) str) enc)
        else loop enc (copy_down (sen_str_charlen_nonnull (drop s str) enc) str s d)
               (s + sen_str_charlen_nonnull (drop s str) enc)
               (d + sen_str_charlen_nonnull (drop s str) enc)) = Some r"
      and ds: "d \<le> s" "s \<le> length str"
    have go: "phrase_post str s d r"
      if l: "loop enc (copy_down n str s1 d) (s1 + n) (d + n) = Some r" "s \<le> s1" "s1 + n \<le> length str"
      for n s1
    proof -
      have "d \<le> s1" using ds(1) l(2) by simp
      then have "phrase_post (copy_down n str s1 d) (s1 + n) (d + n) r"
        using IH [OF l(1)] copy_down_parts(1) [OF \<open>d \<le> s1\<close> l(3)] l(3) by simp
      then show ?thesis by (rule phrase_post_copy [OF _ ds(1) l(2,3)])
    qed
    have len: "s + sen_str_charlen_nonnull (drop s str) enc \<le> length str"
      using charlen_nonnull_le [of "drop s str" enc] ds(2) by simp
    have len1: "s + 1 + sen_str_charlen_nonnull (drop (s + 1) str) enc \<le> length str" if "s + 1 < length str"
      using charlen_nonnull_le [of "drop (s + 1) str" enc] that by simp
    show "phrase_post str s d r"
      using body ds go [of _ s] go [of _ "s + 1"] len len1
      by (auto simp: phrase_post_def split: if_splits)
  qed
  then show ?thesis using assms(2,3) by blast
qed

section \<open>Well-formed rests\<close>

text \<open>The text from some place on is a sequence of complete characters.\<close>

definition wf_text :: "sen_encoding \<Rightarrow> bytes \<Rightarrow> bool" where
  "wf_text enc s \<longleftrightarrow> chars_of enc s \<noteq> None"

lemma wf_text_Nil [simp]: "wf_text enc []"
  by (simp add: wf_text_def split_chars.simps)

lemma wf_text_pos: "wf_text enc s \<Longrightarrow> s \<noteq> [] \<Longrightarrow> 0 < sen_str_charlen_nonnull s enc"
  unfolding wf_text_def using delimited_reader.split_Cons by blast

lemma wf_text_drop: "wf_text enc s \<Longrightarrow> wf_text enc (drop (sen_str_charlen_nonnull s enc) s)"
proof (cases "s = []")
  case False
  then show "wf_text enc s \<Longrightarrow> wf_text enc (drop (sen_str_charlen_nonnull s enc) s)"
    unfolding wf_text_def using delimited_reader.split_Cons by fastforce
qed simp

lemma ascii_charlen:
  assumes "0 < c" "c < 0x80"
  shows "sen_str_charlen_nonnull (c # s) enc = 1"
proof (cases enc)
  case sen_enc_utf8
  have n: "c AND 0x80 = 0" using assms(2) high_bit [of c] by (simp add: not_le [symmetric])
  then have "utf8_lead c = 1" using assms(1) by (auto simp: utf8_lead_def)
  then have "sen_str_charlen_utf8 (c # s) = 1"
    using charlen_utf8_lead [of "c # s"] assms(1) by (auto simp: utf8_char_def)
  then show ?thesis using sen_enc_utf8 by (simp add: sen_str_charlen_nonnull_def)
qed (use assms(2) high_bit [of c] in \<open>simp_all add: sen_str_charlen_nonnull_def not_le [symmetric]\<close>)

lemma wf_text_ascii: "wf_text enc (c # s) \<Longrightarrow> 0 < c \<Longrightarrow> c < 0x80 \<Longrightarrow> wf_text enc s"
  using wf_text_drop [of enc "c # s"] ascii_charlen [of c s enc] by simp

lemma digit_ascii: "is_digit c \<Longrightarrow> 0 < c \<and> c < 0x80"
  by (auto simp: is_digit_def word_le_nat_alt word_less_nat_alt)

lemma ato_loop_len: "ato_loop w s v ov p = (v', ov', p') \<Longrightarrow> p \<le> p' \<and> p' \<le> p + length s"
  by (induction w s v ov p rule: ato_loop.induct) (fastforce simp: Let_def split: if_splits)+

lemma ato_loop_wf:
  "ato_loop w s v ov p = (v', ov', p') \<Longrightarrow> wf_text enc s \<Longrightarrow> wf_text enc (drop (p' - p) s)"
proof (induction w s v ov p rule: ato_loop.induct)
  case (2 w c s v ov p)
  show ?case
  proof (cases "is_digit c \<and> v \<le> w (v * 10 + digit_val c)")
    case True
    then have l: "ato_loop w s (w (v * 10 + digit_val c)) False (Suc p) = (v', ov', p')"
      using 2(2) by (simp add: Let_def)
    have "wf_text enc s" using wf_text_ascii [OF 2(3)] digit_ascii True by blast
    then have "wf_text enc (drop (p' - Suc p) s)" using 2(1) [OF _ refl _ l] True by simp
    moreover have "p' - p = Suc (p' - Suc p)" using ato_loop_len [OF l] by linarith
    ultimately show ?thesis by simp
  qed (use 2 in \<open>auto simp: Let_def split: if_splits\<close>)
qed simp

lemma atoi_end: "snd (sen_atoi s) \<le> length s"
proof -
  have "p' \<le> length s" if "ato_loop wrap32 (tl s) 0 True 1 = (v, ov, p')" "s \<noteq> []" for v ov p'
    using ato_loop_len [OF that(1)] that(2) by (cases s) simp_all
  moreover have "p' \<le> length s" if "ato_loop wrap32 s 0 False 0 = (v, ov, p')" for v ov p'
    using ato_loop_len [OF that] by simp
  ultimately show ?thesis
    by (auto simp: sen_atoi_def Let_def split: prod.split)
qed

lemma atoi_wf: "wf_text enc s \<Longrightarrow> wf_text enc (drop (snd (sen_atoi s)) s)"
proof (cases "s \<noteq> [] \<and> hd s = 0x2d")
  case True
  assume wf: "wf_text enc s"
  from True obtain t where s: "s = 0x2d # t" by (cases s) auto
  obtain v ov p' where l: "ato_loop wrap32 t 0 True 1 = (v, ov, p')" by (metis prod_cases3)
  have "wf_text enc t" using wf_text_ascii [of enc "0x2d" t] wf s by simp
  from ato_loop_wf [OF l this] have "wf_text enc (drop p' s)"
    using ato_loop_len [OF l] by (cases p') (simp_all add: s)
  then show ?thesis using wf l by (simp add: sen_atoi_def Let_def s)
next
  case False
  assume wf: "wf_text enc s"
  obtain v ov p' where l: "ato_loop wrap32 s 0 False 0 = (v, ov, p')" by (metis prod_cases3)
  then show ?thesis
    using ato_loop_wf [OF l wf] wf by (simp only: sen_atoi_def Let_def False if_False l prod.case snd_conv) simp
qed

section \<open>What the parser promises\<close>

fun ncells :: "qcell \<Rightarrow> nat" where
  "ncells Q_nil = 0"
| "ncells (Q_op op w m opt) = 1"
| "ncells (Q_bulk a n) = 1"
| "ncells (Q_list a d) = Suc (ncells a + ncells d)"

fun qbulks :: "qcell \<Rightarrow> (nat \<times> nat) list" where
  "qbulks Q_nil = []"
| "qbulks (Q_op op w m opt) = []"
| "qbulks (Q_bulk a n) = [(a, n)]"
| "qbulks (Q_list a d) = qbulks a @ qbulks d"

text \<open>Reading on: the string in front of the old and behind the new position is the same.\<close>

definition moved :: "sen_query \<Rightarrow> sen_query \<Rightarrow> bool" where
  "moved q q' \<longleftrightarrow>
     q_cur q \<le> q_cur q' \<and> q_cur q' \<le> q_end q \<and> q_end q' = q_end q \<and>
     take (q_cur q) (q_str q') = take (q_cur q) (q_str q) \<and>
     drop (q_cur q') (q_str q') = drop (q_cur q') (q_str q) \<and>
     q_max_exprs q' = q_max_exprs q \<and> q_max_cells q' = q_max_cells q \<and>
     q_encoding q' = q_encoding q \<and> q_default_op q' = q_default_op q"

lemma moved_trans:
  assumes "moved q q1" "moved q1 q2"
  shows "moved q q2"
proof -
  have m: "q_cur q \<le> q_cur q1" "take (q_cur q1) (q_str q2) = take (q_cur q1) (q_str q1)"
    "take (q_cur q) (q_str q1) = take (q_cur q) (q_str q)"
    using assms by (simp_all only: moved_def)
  have t: "take (q_cur q) (q_str q2) = take (q_cur q) (q_str q)"
    using arg_cong [OF m(2), of "take (q_cur q)"] m(1,3) by (simp add: min_def)
  obtain k where k: "q_cur q2 = q_cur q1 + k" using assms(2) le_Suc_ex by (auto simp: moved_def)
  have "drop k (drop (q_cur q1) (q_str q1)) = drop k (drop (q_cur q1) (q_str q))"
    using assms(1) by (simp only: moved_def)
  then have "drop (q_cur q2) (q_str q1) = drop (q_cur q2) (q_str q)" by (simp add: k add.commute)
  then show ?thesis using assms t by (simp add: moved_def)
qed

definition safe_rest :: "bool \<Rightarrow> sen_query \<Rightarrow> bool" where
  "safe_rest safe q \<longleftrightarrow> (safe \<longrightarrow> wf_text (q_encoding q) (q_rest q))"

lemma safe_rest_upd [simp]:
  "safe_rest safe (q\<lparr>q_cur_cell := k\<rparr>) = safe_rest safe q"
  "safe_rest safe (q\<lparr>q_cur_expr := k\<rparr>) = safe_rest safe q"
  by (simp_all add: safe_rest_def)

text \<open>
  A step that yields the cell \<open>c\<close>: the cells and texts are counted, the texts lie in what was
  read. With \<open>safe\<close> the rest of the string stays well-formed.
\<close>

definition tok :: "bool \<Rightarrow> sen_query \<Rightarrow> qcell \<Rightarrow> sen_query \<Rightarrow> bool" where
  "tok safe q c q' \<longleftrightarrow>
     moved q q' \<and> q_cur_cell q' = q_cur_cell q + ncells c \<and> q_cur_cell q' \<le> q_max_cells q \<and>
     q_cur_expr q' = q_cur_expr q + length (qbulks c) \<and>
     q_cur_expr q' \<le> max (q_cur_expr q) (q_max_exprs q) \<and>
     (\<forall>(a, n) \<in> set (qbulks c). q_cur q \<le> a \<and> a + n \<le> q_cur q' \<and> 0 < n) \<and>
     safe_rest safe q'"

fun q_post :: "bool \<Rightarrow> ('a \<Rightarrow> bool) \<Rightarrow> 'a q_run \<Rightarrow> bool" where
  "q_post safe P Q_overlap \<longleftrightarrow> True"
| "q_post safe P Q_hang \<longleftrightarrow> \<not> safe"
| "q_post safe P Q_more \<longleftrightarrow> False"
| "q_post safe P (Q_ok a) \<longleftrightarrow> P a"

lemma q_post_bind: "q_post safe P r \<Longrightarrow> (\<And>a. P a \<Longrightarrow> q_post safe Q (f a)) \<Longrightarrow> q_post safe Q (q_bind r f)"
  by (cases r) simp_all

lemma q_post_mono: "q_post safe P r \<Longrightarrow> (\<And>a. P a \<Longrightarrow> Q a) \<Longrightarrow> q_post safe Q r"
  by (cases r) simp_all

text \<open>The state before a step, and the state when the position has been moved.\<close>

definition q_inv :: "bool \<Rightarrow> sen_query \<Rightarrow> bool" where
  "q_inv safe q \<longleftrightarrow>
     q_cur q \<le> q_end q \<and> q_cur_cell q \<le> q_max_cells q \<and>
     safe_rest safe q"

definition shifted :: "bool \<Rightarrow> sen_query \<Rightarrow> sen_query \<Rightarrow> bool" where
  "shifted safe q q' \<longleftrightarrow>
     moved q q' \<and> q_cur_cell q' = q_cur_cell q \<and> q_cur_expr q' = q_cur_expr q \<and>
     q_cur_cell q \<le> q_max_cells q \<and> safe_rest safe q'"

lemma shifted_inv: "shifted safe q q' \<Longrightarrow> q_inv safe q'"
  by (auto simp: shifted_def q_inv_def moved_def)

lemma shifted_tok:
  assumes "shifted safe q q1" "tok safe q1 c q2"
  shows "tok safe q c q2"
proof -
  have "moved q q2" using assms moved_trans by (auto simp: shifted_def tok_def)
  moreover have "q_cur q \<le> q_cur q1" using assms(1) by (simp add: shifted_def moved_def)
  ultimately show ?thesis using assms by (fastforce simp: shifted_def tok_def moved_def)
qed

lemma shifted_trans: "shifted safe q q1 \<Longrightarrow> shifted safe q1 q2 \<Longrightarrow> shifted safe q q2"
  by (auto simp: shifted_def intro: moved_trans)

lemma shifted_nil: "shifted safe q q' \<Longrightarrow> tok safe q Q_nil q'"
  by (simp add: shifted_def tok_def moved_def)

lemma set_cur_shifted:
  assumes "q_inv safe q" "q_cur q \<le> k" "k \<le> q_end q" "safe \<Longrightarrow> wf_text (q_encoding q) (drop k (q_str q))"
  shows "shifted safe q (q\<lparr>q_cur := k\<rparr>)"
  using assms by (simp add: shifted_def moved_def q_inv_def safe_rest_def)

section \<open>Cells\<close>

lemma token_new_post:
  assumes q1: "shifted safe q q1" and b: "q_cur q \<le> start" "end' \<le> q_cur q1"
    and lim: "q_cur_cell q < q_max_cells q" "q_cur_expr q < q_max_exprs q"
  shows "q_post safe (\<lambda>(c, q'). tok safe q c q' \<and> q_cur q' = q_cur q1 \<and> q_str q' = q_str q1 \<and>
      (c = Q_nil \<or> c = Q_bulk start (end' - start))) (token_new q1 start end')"
proof (cases "start \<ge> end'")
  case True
  then show ?thesis using shifted_nil [OF q1] by (simp add: token_new_def)
next
  case False
  let ?q = "q1\<lparr>q_cur_cell := q_cur_cell q1 + 1, q_cur_expr := q_cur_expr q1 + 1\<rparr>"
  have "tok safe q (Q_bulk start (end' - start)) ?q"
    using q1 b lim False by (simp add: tok_def shifted_def moved_def)
  moreover have "token_new q1 start end' = Q_ok (Q_bulk start (end' - start), ?q)"
    using False q1 lim by (simp add: token_new_def cell_new_def shifted_def moved_def)
  ultimately show ?thesis by simp
qed

lemma op_new_post:
  assumes "shifted safe q q1" "q_cur_cell q < q_max_cells q"
  shows "q_post safe (\<lambda>(c, q'). tok safe q c q' \<and> q_cur q' = q_cur q1) (op_new q1 op w m opt)"
  using assms by (simp add: op_new_def cell_new_def shifted_def tok_def moved_def)

lemma q_cons_post:
  assumes "q_post safe (\<lambda>(c, q'). tok safe q c q' \<and> Q q') r"
    and "\<And>q' k. Q q' \<Longrightarrow> Q (q'\<lparr>q_cur_cell := k\<rparr>)"
  shows "q_post safe (\<lambda>(c, q'). tok safe q c q' \<and> Q q' \<and> (\<exists>t. c = Q_list t Q_nil)) (q_cons r)"
  unfolding q_cons_def
proof (rule q_post_bind [OF assms(1)], clarsimp)
  fix c q'
  assume t: "tok safe q c q'" "Q q'"
  have "tok safe q (Q_list c Q_nil) (q'\<lparr>q_cur_cell := Suc (q_cur_cell q')\<rparr>)"
    if "q_cur_cell q' < q_max_cells q'"
    using t(1) that by (simp add: tok_def moved_def)
  moreover have "\<not> q_max_cells q' < q_cur_cell q'" using t(1) by (simp add: tok_def moved_def)
  ultimately show "q_post safe (\<lambda>(c, q'). tok safe q c q' \<and> Q q' \<and> (\<exists>t. c = Q_list t Q_nil)) (cons q' c Q_nil)"
    using t(2) assms(2) [of q' "Suc (q_cur_cell q')"] by (auto simp: cons_def cell_new_def)
qed

section \<open>The lexical routines\<close>

lemma isspace_pos_charlen:
  "sen_isspace (Some s) enc \<noteq> 0 \<Longrightarrow> s \<noteq> []"
  by (auto simp: sen_isspace_def)

lemma skip_space_loop_ok:
  assumes "cur \<le> length str" "safe \<Longrightarrow> wf_text enc (drop cur str)"
  shows "cur \<le> skip_space_loop enc str cur \<and> skip_space_loop enc str cur \<le> length str \<and>
    (safe \<longrightarrow> wf_text enc (drop (skip_space_loop enc str cur) str)) \<and>
    (skip_space_loop enc str cur < length str \<longrightarrow>
       sen_isspace (Some (drop (skip_space_loop enc str cur) str)) enc = 0)"
  using assms
proof (induction enc str cur rule: skip_space_loop.induct)
  case (1 enc str cur)
  let ?len = "sen_str_charlen_nonnull (drop cur str) enc"
  show ?case
  proof (cases "cur < length str \<and> sen_isspace (Some (drop cur str)) enc \<noteq> 0")
    case False
    then show ?thesis using 1 by (auto simp: skip_space_loop.simps [of enc str cur])
  next
    case True
    show ?thesis
    proof (cases "?len = 0")
      case False
      have "?len \<le> length str - cur" using charlen_nonnull_le [of "drop cur str" enc] by simp
      then have "cur + ?len \<le> length str" using True by linarith
      moreover have "safe \<Longrightarrow> wf_text enc (drop (cur + ?len) str)"
        using wf_text_drop [OF 1(3)] by (simp add: add.commute)
      ultimately show ?thesis
        using 1(1) [OF True refl False] True False
        by (auto simp: skip_space_loop.simps [of enc str cur] Let_def)
    qed (use True 1(2) in \<open>simp add: skip_space_loop.simps [of enc str cur] Let_def\<close>)
  qed
qed

lemma skip_space_shifted:
  assumes "q_inv safe q"
  shows "shifted safe q (skip_space q)"
    "q_cur (skip_space q) < q_end q \<Longrightarrow>
       sen_isspace (Some (q_rest (skip_space q))) (q_encoding (skip_space q)) = 0"
proof -
  note ok = skip_space_loop_ok [of "q_cur q" "q_str q" safe "q_encoding q"]
  show "shifted safe q (skip_space q)"
    unfolding skip_space_def using ok assms by (intro set_cur_shifted) (auto simp: q_inv_def safe_rest_def)
  show "q_cur (skip_space q) < q_end q \<Longrightarrow>
       sen_isspace (Some (q_rest (skip_space q))) (q_encoding (skip_space q)) = 0"
    using ok assms by (simp add: skip_space_def q_inv_def safe_rest_def)
qed

lemma step_shifted:
  assumes "q_inv safe q" "q_cur q < q_end q" "0 < rd (q_str q) (q_cur q)" "rd (q_str q) (q_cur q) < 0x80"
  shows "shifted safe q (q_step q)" "q_cur q < q_cur (q_step q)"
proof -
  have "q_rest q = rd (q_str q) (q_cur q) # drop (q_cur q + 1) (q_str q)"
    using assms(2) by (simp add: rd_def Cons_nth_drop_Suc)
  then have "safe \<Longrightarrow> wf_text (q_encoding q) (drop (q_cur q + 1) (q_str q))"
    using wf_text_ascii [OF _ assms(3,4)] assms(1) by (simp add: q_inv_def safe_rest_def)
  then show "shifted safe q (q_step q)"
    unfolding q_step_def using assms(1,2) by (intro set_cur_shifted) auto
  show "q_cur q < q_cur (q_step q)" by (simp add: q_step_def)
qed

text \<open>A phrase: the loop returns when the rest is well-formed.\<close>

lemma phrase_loop_returns:
  assumes "wf_text enc (drop s str)" "d \<le> s" "s \<le> length str"
  shows "\<exists>str' d' cur. phrase_loop enc str s d = Some (str', d', cur) \<and> wf_text enc (drop cur str')"
  using assms
proof (induction "length str - s" arbitrary: str s d rule: less_induct)
  case less
  let ?n = "sen_str_charlen_nonnull (drop s str) enc"
  let ?m = "sen_str_charlen_nonnull (drop (s + 1) str) enc"
  note e = phrase_loop.simps [of enc str s d]
  have go: "\<exists>str' d' cur. phrase_loop enc (copy_down n str s1 d) (s1 + n) (d + n) = Some (str', d', cur) \<and>
      wf_text enc (drop cur str')"
    if "s \<le> s1" "s1 < length str" "wf_text enc (drop s1 str)" "n = sen_str_charlen_nonnull (drop s1 str) enc"
    for s1 n
  proof -
    have n: "0 < n" "s1 + n \<le> length str"
      using wf_text_pos [OF that(3)] charlen_nonnull_le [of "drop s1 str" enc] that(2,4) by auto
    have ds: "d \<le> s1" using less.prems(2) that(1) by simp
    note c = copy_down_parts [OF ds n(2)]
    have "drop (s1 + n) (copy_down n str s1 d) = drop (s1 + n) str" using c(4) [of "s1 + n"] ds by simp
    moreover have "wf_text enc (drop (s1 + n) str)"
      using wf_text_drop [OF that(3)] that(4) by (simp add: add.commute)
    ultimately have "wf_text enc (drop (s1 + n) (copy_down n str s1 d))" by simp
    moreover have "length (copy_down n str s1 d) - (s1 + n) < length str - s"
      using c(1) n that(1,2) by simp
    ultimately show ?thesis using less.hyps [of "copy_down n str s1 d" "s1 + n" "d + n"] ds n(2) c(1) by simp
  qed
  show ?case
  proof (cases "s < length str")
    case True
    have wf1: "wf_text enc (drop (s + 1) str)" if "?n = 1"
      using wf_text_drop [OF less.prems(1)] that by (simp add: add.commute)
    show ?thesis
      using True wf1 go [OF order.refl True less.prems(1) refl] go [of "s + 1" ?m] e by auto
  qed (use e less.prems in simp)
qed

lemma get_phrase_post:
  assumes "shifted safe q q1" "q_cur_cell q < q_max_cells q" "q_cur_expr q < q_max_exprs q"
  shows "q_post safe (\<lambda>(c, q'). tok safe q c q' \<and> q_cur q1 \<le> q_cur q') (get_phrase q1)"
proof (cases "phrase_loop (q_encoding q1) (q_str q1) (q_cur q1) (q_cur q1)")
  case None
  then have "\<not> safe"
    using phrase_loop_returns [of "q_encoding q1" "q_cur q1" "q_str q1" "q_cur q1"] shifted_inv [OF assms(1)]
    by (auto simp: q_inv_def safe_rest_def)
  then show ?thesis by (simp add: get_phrase_def None)
next
  case (Some r)
  obtain str d cur where r: "r = (str, d, cur)" by (cases r)
  have inv: "q_cur q1 \<le> q_end q1" "safe_rest safe q1" using shifted_inv [OF assms(1)] by (auto simp: q_inv_def)
  have p: "length str = q_end q1" "q_cur q1 \<le> d" "d \<le> cur" "cur \<le> q_end q1"
    "take (q_cur q1) str = take (q_cur q1) (q_str q1)" "drop cur str = drop cur (q_str q1)"
    using phrase_loop_ok [OF Some] inv by (auto simp: phrase_post_def r)
  have wf: "safe \<Longrightarrow> wf_text (q_encoding q1) (drop cur str)"
    using phrase_loop_returns [of "q_encoding q1" "q_cur q1" "q_str q1" "q_cur q1"] inv Some
    by (auto simp: safe_rest_def r)
  let ?q = "q1\<lparr>q_str := str, q_cur := cur\<rparr>"
  have "shifted safe q1 ?q"
    using p wf shifted_inv [OF assms(1)] by (simp add: shifted_def moved_def q_inv_def safe_rest_def)
  then have "shifted safe q ?q" by (rule shifted_trans [OF assms(1)])
  moreover have "q_cur q \<le> q_cur q1" using assms(1) by (simp add: shifted_def moved_def)
  ultimately have "q_post safe (\<lambda>(c, q'). tok safe q c q' \<and> q_cur q' = q_cur ?q \<and> q_str q' = q_str ?q \<and>
      (c = Q_nil \<or> c = Q_bulk (q_cur q1) (d - q_cur q1))) (token_new ?q (q_cur q1) d)"
    using p by (intro token_new_post assms(2,3)) auto
  then show ?thesis
    unfolding get_phrase_def Some r by (simp only: option.case prod.case) (erule q_post_mono, use p in auto)
qed

lemma word_loop_ok:
  assumes "p \<le> length str" "safe \<Longrightarrow> wf_text enc (drop p str)"
  shows "case word_loop enc str p of (end', cur, prefixp) \<Rightarrow>
    p \<le> end' \<and> end' \<le> cur \<and> cur \<le> length str \<and> (safe \<longrightarrow> wf_text enc (drop cur str))"
  using assms
proof (induction enc str p rule: word_loop.induct)
  case (1 enc str p)
  let ?len = "sen_str_charlen_nonnull (drop p str) enc"
  note e = word_loop.simps [of enc str p]
  show ?case
  proof (cases "?len = 0")
    case False
    have le: "p + ?len \<le> length str" using charlen_nonnull_le [of "drop p str" enc] False 1(2) by simp
    then have lt: "p < length str" using False by linarith
    have wf: "safe \<Longrightarrow> wf_text enc (drop (p + ?len) str)"
      using wf_text_drop [OF 1(3)] by (simp add: add.commute)
    have "safe \<Longrightarrow> rd str p = SEN_QUERY_PREFIX \<Longrightarrow> wf_text enc (drop (p + 1) str)"
    proof -
      assume safe: safe and "rd str p = SEN_QUERY_PREFIX"
      then have "drop p str = 0x2a # drop (p + 1) str"
        using lt Cons_nth_drop_Suc [of p str] by (simp add: rd_def query_chars)
      then show "wf_text enc (drop (p + 1) str)" using wf_text_ascii [of enc "0x2a"] 1(3) [OF safe] by simp
    qed
    then show ?thesis
      using 1(1) [OF refl False] le lt wf 1(2,3) False
      by (auto simp: e Let_def split: prod.splits)
  qed (use 1(2) in \<open>simp add: e\<close>)
qed

text \<open>A word that does not start with a space or a special character is read.\<close>

lemma word_loop_moves:
  assumes "p < length str" "sen_isspace (Some (drop p str)) enc = 0"
    and "rd str p \<noteq> SEN_QUERY_PARENR" "rd str p \<noteq> SEN_QUERY_PREFIX"
  shows "p < fst (snd (word_loop enc str p))"
proof -
  let ?len = "sen_str_charlen_nonnull (drop p str) enc"
  have "p + ?len \<le> length str" using charlen_nonnull_le [of "drop p str" enc] assms(1) by simp
  then have "?len \<noteq> 0 \<Longrightarrow> p < fst (snd (word_loop enc str (p + ?len)))"
    using word_loop_ok [of "p + ?len" str False enc] by (auto split: prod.splits)
  then show ?thesis using assms by (simp add: word_loop.simps [of enc str p] Let_def)
qed

lemma word_token_post:
  assumes inv: "shifted safe q q1" and lt: "q_cur q1 < q_end q1"
    and c: "sen_isspace (Some (q_rest q1)) (q_encoding q1) = 0"
    "rd (q_str q1) (q_cur q1) \<noteq> SEN_QUERY_PARENR" "rd (q_str q1) (q_cur q1) \<noteq> SEN_QUERY_PREFIX"
    and lim: "q_cur_cell q < q_max_cells q" "q_cur_expr q < q_max_exprs q"
  shows "q_post safe (\<lambda>(c, q'). tok safe q c q' \<and> q_cur q1 < q_cur q') (word_token q1)"
proof -
  obtain end' cur pre where w: "word_loop (q_encoding q1) (q_str q1) (q_cur q1) = (end', cur, pre)"
    by (metis prod_cases3)
  have inv1: "q_inv safe q1" by (rule shifted_inv [OF inv])
  have b: "q_cur q1 \<le> end'" "end' \<le> cur" "cur \<le> q_end q1" "safe \<Longrightarrow> wf_text (q_encoding q1) (drop cur (q_str q1))"
    using word_loop_ok [of "q_cur q1" "q_str q1" safe "q_encoding q1"] inv1 w
    by (auto simp: q_inv_def safe_rest_def)
  have m: "q_cur q1 < cur" using word_loop_moves [OF lt c] w by simp
  let ?q = "q1\<lparr>q_cur := cur\<rparr>"
  have sh: "shifted safe q ?q"
    using set_cur_shifted [OF inv1, of cur] b by (intro shifted_trans [OF inv]) auto
  have "q_cur q \<le> q_cur q1" using inv by (simp add: shifted_def moved_def)
  then have t: "q_post safe (\<lambda>(c, q'). tok safe q c q' \<and> q_cur q' = q_cur ?q \<and> q_str q' = q_str ?q \<and>
      (c = Q_nil \<or> c = Q_bulk (q_cur q1) (end' - q_cur q1))) (token_new ?q (q_cur q1) end')"
    using b by (intro token_new_post sh lim) auto
  have or: "q_post safe (\<lambda>(c, q'). tok safe q c q' \<and> q_cur q1 < q_cur q') (or_token c q')"
    if "tok safe q c q'" "q_cur q' = cur" for c q'
  proof -
    have "q_post safe (\<lambda>(c, q'). tok safe q c q' \<and> q_cur q1 < q_cur q')
        (let q2 = cell_del q' in op_new (q2\<lparr>q_cur_expr := q_cur_expr q2 - 1\<rparr>) sen_sel_or DEFAULT_WEIGHT None 0)"
      if "c = Q_bulk a n" for a n
    proof -
      have "shifted safe q ((cell_del q')\<lparr>q_cur_expr := q_cur_expr (cell_del q') - 1\<rparr>)"
        using \<open>tok safe q c q'\<close> that lim(1) by (simp add: tok_def shifted_def cell_del_def moved_def)
      from op_new_post [OF this lim(1)] show ?thesis
        unfolding Let_def by (rule q_post_mono) (use m \<open>q_cur q' = cur\<close> in \<open>auto simp: cell_del_def\<close>)
    qed
    then show ?thesis using that m by (cases c) (auto simp: or_token_def simp del: One_nat_def)
  qed
  have get: "get_word q1 = q_bind (token_new ?q (q_cur q1) end') (\<lambda>r. Q_ok (r, pre))"
    by (simp add: get_word_def w)
  have "q_post safe (\<lambda>((c, q'), p). tok safe q c q' \<and> q_cur q' = cur) (get_word q1)"
    unfolding get by (rule q_post_bind [OF t]) auto
  then show ?thesis unfolding word_token_def by (rule q_post_bind) (use or in auto)
qed

lemma get_op_post:
  assumes sh: "shifted safe q q1" and lim: "q_cur_cell q < q_max_cells q"
  shows "q_post safe (\<lambda>(c, q'). tok safe q c q' \<and> q_cur q1 \<le> q_cur q') (get_op q1 op weight)"
proof -
  let ?c = "rd (q_str q1) (q_cur q1)"
  obtain n len where a: "sen_atoi (drop (q_cur q1 + 1) (q_str q1)) = (n, len)" by fastforce
  have inv1: "q_inv safe q1" by (rule shifted_inv [OF sh])
  let ?q = "q1\<lparr>q_cur := q_cur q1 + 1 + len\<rparr>"
  have op: "q_post safe (\<lambda>(c, q'). tok safe q c q' \<and> q_cur q1 \<le> q_cur q') (op_new ?q op weight m opt)"
    if "0 < ?c" "?c < 0x80" for m opt
  proof -
    have lt: "q_cur q1 < q_end q1" using that(1) rd_nonzero_less [of "q_str q1" "q_cur q1"] by auto
    have "len \<le> q_end q1 - (q_cur q1 + 1)" using atoi_end [of "drop (q_cur q1 + 1) (q_str q1)"] a by simp
    then have le: "q_cur q1 + 1 + len \<le> q_end q1" using lt by linarith
    have s: "shifted safe q1 (q_step q1)" by (rule step_shifted [OF inv1 lt that])
    then have "safe \<Longrightarrow> wf_text (q_encoding q1) (drop (q_cur q1 + 1) (q_str q1))"
      by (simp add: shifted_def safe_rest_def q_step_def)
    then have "safe \<Longrightarrow> wf_text (q_encoding q1) (drop (q_cur q1 + 1 + len) (q_str q1))"
      using atoi_wf [of "q_encoding q1" "drop (q_cur q1 + 1) (q_str q1)"] a by (simp add: add.commute)
    then have "shifted safe q1 ?q" using le by (intro set_cur_shifted inv1) auto
    from op_new_post [OF shifted_trans [OF sh this] lim] show ?thesis
      by (rule q_post_mono) auto
  qed
  show ?thesis
    using op shifted_nil [OF sh] unfolding get_op_def Let_def a by auto
qed

section \<open>Tokens and expressions\<close>

text \<open>
  What \<open>get_token\<close> gives: NIL, or a list of one cell after at least one byte has been read.
\<close>

definition tok_step :: "bool \<Rightarrow> sen_query \<Rightarrow> qcell \<times> sen_query \<Rightarrow> bool" where
  "tok_step safe q r \<longleftrightarrow>
     (case r of (c, q') \<Rightarrow> tok safe q c q' \<and>
        (c = Q_nil \<or> (\<exists>t. c = Q_list t Q_nil) \<and> q_cur q < q_cur q'))"

lemma cons_step:
  assumes "q_post safe (\<lambda>(c, q'). tok safe q c q' \<and> k \<le> q_cur q') r" "q_cur q < k"
  shows "q_post safe (tok_step safe q) (q_cons r)"
proof -
  have "q_post safe (\<lambda>(c, q'). tok safe q c q' \<and> k \<le> q_cur q' \<and> (\<exists>t. c = Q_list t Q_nil)) (q_cons r)"
    using q_cons_post [of safe q "\<lambda>q'. k \<le> q_cur q'" r] assms(1) by simp
  then show ?thesis by (rule q_post_mono) (use assms(2) in \<open>auto simp: tok_step_def\<close>)
qed

lemma q_post_from: "q_post safe (\<lambda>(c, q'). tok safe q1 c q' \<and> k \<le> q_cur q') r \<Longrightarrow> shifted safe q q1 \<Longrightarrow>
    q_post safe (\<lambda>(c, q'). tok safe q c q' \<and> k \<le> q_cur q') r"
  by (erule q_post_mono) (auto intro: shifted_tok)

lemma expr_step:
  assumes "tok_step safe q (c, q1)" "c \<noteq> Q_nil" "tok safe q1 r q2"
  shows "tok safe q (Q_list (fst (POP c)) r) q2"
proof -
  obtain t where c: "c = Q_list t Q_nil" using assms(1,2) by (auto simp: tok_step_def)
  have 1: "tok safe q (Q_list t Q_nil) q1" using assms(1) by (simp add: tok_step_def c)
  have "moved q q2" using 1 assms(3) moved_trans by (auto simp: tok_def)
  moreover have "q_cur q \<le> q_cur q1" "q_cur q1 \<le> q_cur q2" "q_max_cells q1 = q_max_cells q"
    "q_max_exprs q1 = q_max_exprs q"
    using 1 assms(3) by (simp_all add: tok_def moved_def)
  ultimately show ?thesis using 1 assms(3) by (fastforce simp: tok_def c POP_def)
qed

lemma special_ascii:
  "c \<in> {SEN_QUERY_PARENR, SEN_QUERY_QUOTEL, SEN_QUERY_PREFIX, SEN_QUERY_AND, SEN_QUERY_BUT,
     SEN_QUERY_ADJ_INC, SEN_QUERY_ADJ_DEC, SEN_QUERY_ADJ_NEG, SEN_QUERY_PARENL} \<Longrightarrow> 0 < c \<and> c < 0x80"
  by (auto simp: query_chars)

lemma tok_start: "q_inv safe q \<Longrightarrow> shifted safe q q"
  by (simp add: q_inv_def shifted_def moved_def)

lemma parser_ok:
  "q_inv safe q \<Longrightarrow> 2 * (q_end q - q_cur q) < fuel \<Longrightarrow> q_post safe (tok_step safe q) (get_token fuel q)"
  "q_inv safe q \<Longrightarrow> 2 * (q_end q - q_cur q) + 1 < fuel \<Longrightarrow>
     q_post safe (\<lambda>(c, q'). tok safe q c q' \<and> q_cur q \<le> q_cur q') (get_expr fuel q)"
proof (induction fuel q and fuel q rule: get_token_get_expr.induct)
  case (2 fuel q0)
  let ?q = "skip_space q0"
  let ?c = "rd (q_str ?q) (q_cur ?q)"
  have sh: "shifted safe q0 ?q" and nsp: "q_cur ?q < q_end q0 \<Longrightarrow>
      sen_isspace (Some (q_rest ?q)) (q_encoding ?q) = 0"
    using skip_space_shifted [OF 2(2)] by blast+
  have inv: "q_inv safe ?q" by (rule shifted_inv [OF sh])
  have le: "q_cur q0 \<le> q_cur ?q" "q_end ?q = q_end q0" using sh by (simp_all add: shifted_def moved_def)
  have nil: "tok_step safe q0 (Q_nil, ?q)" using shifted_nil [OF sh] by (simp add: tok_step_def)
  show ?case
  proof (cases "q_cur_expr ?q \<ge> q_max_exprs ?q \<or> q_cur_cell ?q \<ge> q_max_cells ?q \<or> q_cur ?q \<ge> q_end ?q \<or> ?c = 0")
    case True
    have "get_token (Suc fuel) q0 = Q_ok (Q_nil, ?q)"
    proof (cases "q_cur_expr ?q \<ge> q_max_exprs ?q \<or> q_cur_cell ?q \<ge> q_max_cells ?q \<or> q_cur ?q \<ge> q_end ?q")
      case guard: True
      show ?thesis unfolding get_token.simps Let_def if_P [OF guard] ..
    next
      case guard: False
      with True have "?c = 0" by blast
      then show ?thesis unfolding get_token.simps Let_def if_not_P [OF guard] by (simp only: if_True simp_thms)
    qed
    then show ?thesis using nil by simp
  next
    case False
    then have lim: "q_cur_cell ?q < q_max_cells ?q" "q_cur_expr ?q < q_max_exprs ?q" "q_cur ?q < q_end ?q"
      "?c \<noteq> 0" by simp_all
    have lim0: "q_cur_cell q0 < q_max_cells q0" "q_cur_expr q0 < q_max_exprs q0"
      using sh lim by (simp_all add: shifted_def moved_def)
    have step: "shifted safe q0 (q_step ?q)" "q_cur q0 < q_cur (q_step ?q)" if "0 < ?c" "?c < 0x80"
      using step_shifted [OF inv lim(3) that] shifted_trans [OF sh] le by auto
    note spec = step [OF special_ascii [THEN conjunct1] special_ascii [THEN conjunct2]]
    have op: "q_post safe (tok_step safe q0) (q_cons (op_new (q_step ?q) op w None 0))"
      if "0 < ?c" "?c < 0x80" for op w
    proof (rule cons_step [OF _ step(2) [OF that]])
      show "q_post safe (\<lambda>(c, q'). tok safe q0 c q' \<and> q_cur (q_step ?q) \<le> q_cur q') (op_new (q_step ?q) op w None 0)"
        using op_new_post [OF step(1) [OF that] lim0(1)] by (rule q_post_mono) auto
    qed
    have phrase: "q_post safe (tok_step safe q0) (q_cons (get_phrase (q_step ?q)))" if "0 < ?c" "?c < 0x80"
      by (rule cons_step [OF get_phrase_post [OF step(1) [OF that] lim0] step(2) [OF that]])
    have mode: "q_post safe (tok_step safe q0) (q_cons (get_op (q_step ?q) op w))" if "0 < ?c" "?c < 0x80" for op w
      by (rule cons_step [OF get_op_post [OF step(1) [OF that] lim0(1)] step(2) [OF that]])
    have paren: "q_post safe (tok_step safe q0) (q_cons (get_expr fuel (q_step ?q)))"
      if c: "0 < ?c" "?c < 0x80"
        and IH: "q_inv safe (q_step ?q) \<Longrightarrow> 2 * (q_end (q_step ?q) - q_cur (q_step ?q)) + 1 < fuel \<Longrightarrow>
          q_post safe (\<lambda>(c, q'). tok safe (q_step ?q) c q' \<and> q_cur (q_step ?q) \<le> q_cur q') (get_expr fuel (q_step ?q))"
    proof (rule cons_step [OF _ step(2) [OF c]])
      have "2 * (q_end (q_step ?q) - q_cur (q_step ?q)) + 1 < fuel"
        using 2(3) lim(3) le by (simp add: q_step_def)
      from IH [OF shifted_inv [OF step(1) [OF c]] this] step(1) [OF c]
      show "q_post safe (\<lambda>(c, q'). tok safe q0 c q' \<and> q_cur (q_step ?q) \<le> q_cur q') (get_expr fuel (q_step ?q))"
        by (rule q_post_from)
    qed
    have word: "q_post safe (tok_step safe q0) (q_cons (word_token ?q))"
      if "?c \<noteq> SEN_QUERY_PARENR" "?c \<noteq> SEN_QUERY_PREFIX"
    proof (rule cons_step)
      show "q_post safe (\<lambda>(c, q'). tok safe q0 c q' \<and> Suc (q_cur ?q) \<le> q_cur q') (word_token ?q)"
        using word_token_post [OF sh lim(3) nsp that lim0] lim(3) le by (auto elim!: q_post_mono)
    qed (use le in simp)
    have parenr: "tok_step safe q0 (Q_nil, q_step ?q)" if "0 < ?c" "?c < 0x80"
      using shifted_nil [OF step(1) [OF that]] by (simp add: tok_step_def)
    have IH: "?c = SEN_QUERY_PARENL \<Longrightarrow> q_inv safe (q_step ?q) \<Longrightarrow>
        2 * (q_end (q_step ?q) - q_cur (q_step ?q)) + 1 < fuel \<Longrightarrow>
        q_post safe (\<lambda>(c, q'). tok safe (q_step ?q) c q' \<and> q_cur (q_step ?q) \<le> q_cur q') (get_expr fuel (q_step ?q))"
      using 2(1) [OF refl refl refl refl] False by (simp add: query_chars)
    show ?thesis
    proof (cases "?c \<in> {SEN_QUERY_PARENR, SEN_QUERY_QUOTEL, SEN_QUERY_PREFIX, SEN_QUERY_AND, SEN_QUERY_BUT,
        SEN_QUERY_ADJ_INC, SEN_QUERY_ADJ_DEC, SEN_QUERY_ADJ_NEG, SEN_QUERY_PARENL}")
      case True
      note a = special_ascii [OF True, THEN conjunct1] special_ascii [OF True, THEN conjunct2]
      from True show ?thesis
        by (elim insertE emptyE)
          (use False op [OF a] phrase [OF a] mode [OF a] paren [OF a IH] parenr [OF a] in
            \<open>simp_all add: Let_def query_chars\<close>)
    next
      case c: False
      then show ?thesis using False word by (simp add: Let_def)
    qed
  qed
next
  case (4 fuel q)
  show ?case
    unfolding get_expr.simps
  proof (rule q_post_bind [OF 4(1) [OF 4(3)]])
    show "2 * (q_end q - q_cur q) < fuel" using 4(4) by simp
  next
    fix r assume r: "tok_step safe q r"
    obtain c q1 where e: "r = (c, q1)" by (cases r)
    have t: "tok safe q c q1" using r by (simp add: e tok_step_def)
    then have le: "q_cur q \<le> q_cur q1" "q_end q1 = q_end q" "q_inv safe q1"
      by (auto simp: tok_def moved_def q_inv_def)
    show "q_post safe (\<lambda>(c, q'). tok safe q c q' \<and> q_cur q \<le> q_cur q')
        (case r of (c, q1) \<Rightarrow> if c = Q_nil then Q_ok (c, q1)
          else q_bind (get_expr fuel q1) (\<lambda>(r, q2). Q_ok (Q_list (fst (POP c)) r, q2)))"
    proof (cases "c = Q_nil")
      case True
      then show ?thesis using t le by (simp add: e)
    next
      case False
      then have lt: "q_cur q < q_cur q1" using r by (auto simp: e tok_step_def)
      have "2 * (q_end q1 - q_cur q1) + 1 < fuel"
      proof -
        have "q_cur q1 \<le> q_end q" using t by (simp add: tok_def moved_def)
        then show ?thesis using 4(4) lt unfolding le(2) by linarith
      qed
      then have "q_post safe (\<lambda>(c, q'). tok safe q1 c q' \<and> q_cur q1 \<le> q_cur q') (get_expr fuel q1)"
        using 4(2) [OF False le(3)] by simp
      then have "q_post safe (\<lambda>(c, q'). tok safe q c q' \<and> q_cur q \<le> q_cur q')
          (q_bind (get_expr fuel q1) (\<lambda>(r, q2). Q_ok (Q_list (fst (POP c)) r, q2)))"
        by (rule q_post_bind) (use r e False le(1) in \<open>auto intro: expr_step\<close>)
      then show ?thesis using False by (simp add: e)
    qed
  qed
qed simp_all

end
