(* ===== verification/Query_Weights.thy ===== *)
theory Query_Weights
  imports Query_Ok
begin

text \<open>
  The weights of sections in front of a query. \<open>get_weight_vector\<close> keeps them in a vector of 4096
  numbers and, when a section beyond it is met, starts again with a hash table: what is looked
  up afterwards is the same, the last weight written for every section. This rests on the map
  that Hset_Api shows a table to stand for.
\<close>

section \<open>The reference\<close>

text \<open>The pairs of section and weight from \<open>p\<close> on, and where they end.\<close>

function weight_pairs :: "bytes \<Rightarrow> nat \<Rightarrow> (u32 \<times> int) list \<times> nat" where
  "weight_pairs str p =
     (if p < length str then
        (let key = fst (sen_atoui (drop p str)); p1 = p + snd (sen_atoui (drop p str));
             v = fst (weight_value str p1); p2 = snd (weight_value str p1)
         in if key = 0 \<or> key > SEN_ID_MAX then ([], p1)
            else if rd str p2 \<noteq> 0x2c then ([(key, v)], p2)
            else (case weight_pairs str (p2 + 1) of (kvs, e) \<Rightarrow> ((key, v) # kvs, e)))
      else ([], p))"
  by pat_completeness auto
termination
proof (relation "measure (\<lambda>(str, p). length str - p)", goal_cases)
  case (2 str p)
  then show ?case
    using weight_value_ge [of "p + snd (sen_atoui (drop p str))" str] by (simp add: diff_less_mono2)
qed simp

declare weight_pairs.simps [simp del]

text \<open>The weights that a list of pairs stands for: the last one counts.\<close>

definition put_weights :: "(u32 \<times> int) list \<Rightarrow> (u32 \<Rightarrow> int) \<Rightarrow> u32 \<Rightarrow> int" where
  "put_weights kvs f = fold (\<lambda>(k, v) f. f(k := v)) kvs f"

lemma put_weights_Cons: "put_weights ((k, v) # kvs) f = put_weights kvs (f(k := v))"
  by (simp add: put_weights_def)

section \<open>The representation\<close>

text \<open>The weight that a query has for a section.\<close>

definition weight_of :: "sen_query \<Rightarrow> u32 \<Rightarrow> int" where
  "weight_of q key =
     (case q_weight_set q of
        Some st \<Rightarrow> (case set_map st (store32 key) of None \<Rightarrow> 0 | Some b \<Rightarrow> sint (load32 b))
      | None \<Rightarrow>
          (case so_weight_vector (q_opt q) of
             None \<Rightarrow> 0
           | Some w \<Rightarrow> (if key \<noteq> 0 \<and> unat key \<le> length w then w ! (unat key - 1) else 0)))"

definition weights_ok :: "nat \<Rightarrow> sen_query \<Rightarrow> bool" where
  "weights_ok p q \<longleftrightarrow>
     (case q_weight_set q of
        Some st \<Rightarrow> set_ok st \<and> st_key_size st = 4 \<and> st_value_size st = 4 \<and> st_n_entries st \<le> int p
      | None \<Rightarrow> \<forall>w. so_weight_vector (q_opt q) = Some w \<longrightarrow> length w = DEFAULT_WEIGHT_VECTOR_SIZE)"

lemma weights_ok_mono: "weights_ok p q \<Longrightarrow> p \<le> p' \<Longrightarrow> weights_ok p' q"
  by (auto simp: weights_ok_def split: option.splits)

lemma store32_inject: "store32 a = store32 b \<longleftrightarrow> a = b"
  by (metis word32_bytes(1))

lemma length_store32: "length (store32 w) = 4"
  by (simp add: store32_def)

text \<open>Storing a weight in the set.\<close>

lemma weight_set_put:
  assumes "\<forall>n. alloc n" "q_weight_set q = Some st" "weights_ok p q" "p < 2 ^ 30" "int32_range v"
  obtains ep st1 where "sen_set_get alloc st (store32 key) = Some (ep, st1)"
    "weights_ok (p + 1) (q\<lparr>q_weight_set := Some (weight_store st1 ep v)\<rparr>)"
    "weight_of (q\<lparr>q_weight_set := Some (weight_store st1 ep v)\<rparr>) = (weight_of q)(key := v)"
proof -
  have ok: "set_ok st" "st_key_size st = 4" "st_value_size st = 4" "st_n_entries st \<le> int p"
    using assms(2,3) by (simp_all add: weights_ok_def)
  have vk: "valid_key st (store32 key)" using ok(2) by (simp add: valid_key_def length_store32)
  have "int p < int (2 ^ 30)" using assms(4) by (simp only: of_nat_less_iff)
  then have small: "st_n_entries st < 2 ^ 30" using ok(4) by simp
  obtain ep st1 where g: "sen_set_get alloc st (store32 key) = Some (ep, st1)"
    and none: "ep = None \<longrightarrow> (\<exists>n. \<not> alloc n)"
    and some: "\<forall>x. ep = Some x \<longrightarrow> (\<exists>e. x < length (st_index st1) \<and> st_index st1 ! x = Ent e \<and> live st1 e \<and>
        entry_key st1 e = store32 key) \<and>
        set_map st1 = (if store32 key \<in> dom (set_map st) then set_map st
                       else (set_map st)(store32 key \<mapsto> replicate (st_value_size st) 0))"
    and ok1: "set_ok st1" "st_key_size st1 = st_key_size st" "st_value_size st1 = st_value_size st"
      "st_n_entries st1 \<le> st_n_entries st + 1"
    using get_inserts [OF ok(1) vk small, of alloc] assms(1) by metis
  obtain x where x: "ep = Some x" using none assms(1) by blast
  obtain e where e: "st_index st1 ! x = Ent e" "live st1 e" "entry_key st1 e = store32 key"
    and m: "set_map st1 = (if store32 key \<in> dom (set_map st) then set_map st
                       else (set_map st)(store32 key \<mapsto> replicate (st_value_size st) 0))"
    using some x by blast
  let ?v = "store32 (word_of_int v)"
  have s: "weight_store st1 ep v = set_value st1 e ?v" by (simp add: weight_store_def x e)
  have lv: "length ?v = st_value_size st1" using ok1(3) ok(3) by (simp add: length_store32)
  note sv = set_value_ok [OF ok1(1) e(2) lv]
  have "set_map (set_value st1 e ?v) = (set_map st)(store32 key \<mapsto> ?v)"
    using sv(2) e(3) m by auto
  moreover have "sint (word_of_int v :: u32) = v"
    using assms(5) by (simp add: signed_of_int int32_range_def signed_take_bit_int_eq_self)
  ultimately have "weight_of (q\<lparr>q_weight_set := Some (set_value st1 e ?v)\<rparr>) = (weight_of q)(key := v)"
    using assms(2) by (auto simp: weight_of_def fun_eq_iff store32_inject word32_bytes(1))
  moreover have "weights_ok (p + 1) (q\<lparr>q_weight_set := Some (set_value st1 e ?v)\<rparr>)"
    using sv ok ok1 by (simp add: weights_ok_def)
  ultimately show ?thesis using that [OF g] s by simp
qed

lemma weight_vector_put:
  fixes q q1 :: sen_query and v :: int
  assumes "q_weight_set q = None" "so_weight_vector (q_opt q) = Some w" "weights_ok p q"
    and "key \<noteq> 0" "unat key < DEFAULT_WEIGHT_VECTOR_SIZE"
  defines "q1 \<equiv> q\<lparr>q_opt := (q_opt q)\<lparr>so_weight_vector := map_option (\<lambda>w. w[unat key - 1 := v])
      (so_weight_vector (q_opt q))\<rparr>\<rparr>"
  shows "weight_of q1 = (weight_of q)(key := v)" "weights_ok p q1"
    "so_weight_vector (q_opt q1) = Some (w[unat key - 1 := v])" "q_weight_set q1 = None" "q_str q1 = q_str q"
proof -
  have l: "length w = DEFAULT_WEIGHT_VECTOR_SIZE" using assms(1-3) by (simp add: weights_ok_def)
  have k: "0 < unat key" using assms(4) by (simp add: unat_gt_0)
  have "w[unat key - 1 := v] ! (unat a - 1) = (if a = key then v else w ! (unat a - 1))"
    if "a \<noteq> 0" for a
  proof (cases "a = key")
    case True
    then show ?thesis using k assms(5) l by simp
  next
    case False
    moreover have "0 < unat a" using that by (simp add: unat_gt_0)
    ultimately have "unat a - 1 \<noteq> unat key - 1" using k by (metis Suc_pred' diff_Suc_1 word_unat_eq_iff)
    then show ?thesis using False by simp
  qed
  then show "weight_of q1 = (weight_of q)(key := v)"
    using assms(1,2,4,5) l by (auto simp: q1_def weight_of_def fun_eq_iff)
  show "weights_ok p q1" "so_weight_vector (q_opt q1) = Some (w[unat key - 1 := v])"
    "q_weight_set q1 = None" "q_str q1 = q_str q"
    using assms(1,2) l by (simp_all add: q1_def weights_ok_def)
qed

section \<open>The loop\<close>

lemma wrap32_range: "int32_range (wrap32 x)"
  using signed_take_bit_int_greater_eq_minus_exp [of 31 x] signed_take_bit_int_less_exp [of 31 x]
  by (simp add: int32_range_def wrap32_def)

lemma ato_loop_range: "int32_range v \<Longrightarrow> int32_range (fst (ato_loop wrap32 s v ov p))"
  by (induction wrap32 s v ov p rule: ato_loop.induct) (auto simp: Let_def wrap32_range int32_range_def [of 0])

lemma weight_value_range: "int32_range (fst (weight_value str p))"
proof -
  have "int32_range (fst (sen_atoi s))" for s
    using ato_loop_range [of 0 "tl s" True 1] ato_loop_range [of 0 s False 0] wrap32_range
    by (auto simp: sen_atoi_def Let_def int32_range_def [of 0] split: prod.split)
  then show ?thesis by (auto simp: weight_value_def int32_range_def [of 1] split: prod.split) (metis fst_conv)
qed

text \<open>With a set, every pair is stored.\<close>

lemma weight_loop_set:
  assumes "\<forall>n. alloc n" "q_end q < 2 ^ 30" "q_weight_set q \<noteq> None" "weights_ok p q" "p \<le> q_end q"
  shows "\<exists>q'. weight_loop alloc source p q = Some (snd (weight_pairs (q_str q) p), q') \<and>
    weight_of q' = put_weights (fst (weight_pairs (q_str q) p)) (weight_of q) \<and>
    q_weight_set q' \<noteq> None \<and> weights_ok (snd (weight_pairs (q_str q) p)) q'"
  using assms(2-5)
proof (induction "q_end q - p" arbitrary: p q rule: less_induct)
  case less
  let ?key = "fst (sen_atoui (drop p (q_str q)))"
  let ?p1 = "p + snd (sen_atoui (drop p (q_str q)))"
  let ?v = "fst (weight_value (q_str q) ?p1)" and ?p2 = "snd (weight_value (q_str q) ?p1)"
  note e = weight_loop.simps [of alloc source p q] weight_pairs.simps [of "q_str q" p]
  obtain st where st: "q_weight_set q = Some st" using less.prems(2) by blast
  show ?case
  proof (cases "p < q_end q \<and> \<not> (?key = 0 \<or> ?key > SEN_ID_MAX)")
    case False
    then have "weight_loop alloc source p q = Some (snd (weight_pairs (q_str q) p), q)"
      "fst (weight_pairs (q_str q) p) = []" "p \<le> snd (weight_pairs (q_str q) p)"
      by (auto simp: e Let_def)
    then show ?thesis using less.prems weights_ok_mono by (auto simp: put_weights_def)
  next
    case True
    have p: "p < 2 ^ 30" using True less.prems(1) by linarith
    obtain ep st1 where g: "sen_set_get alloc st (store32 ?key) = Some (ep, st1)"
      and q1: "weights_ok (p + 1) (q\<lparr>q_weight_set := Some (weight_store st1 ep ?v)\<rparr>)"
        "weight_of (q\<lparr>q_weight_set := Some (weight_store st1 ep ?v)\<rparr>) = (weight_of q)(?key := ?v)"
      by (rule weight_set_put [OF assms(1) st less.prems(3) p weight_value_range])
    let ?q1 = "q\<lparr>q_weight_set := Some (weight_store st1 ep ?v)\<rparr>"
    have "0 < snd (sen_atoui (drop p (q_str q)))" using atoui_pos True by blast
    then have p2: "p + 1 \<le> ?p2" using weight_value_ge [of ?p1 "q_str q"] by linarith
    show ?thesis
    proof (cases "rd (q_str q) ?p2 = 0x2c")
      case False
      then have "weight_loop alloc source p q = Some (?p2, ?q1)" "weight_pairs (q_str q) p = ([(?key, ?v)], ?p2)"
        using True by (simp_all add: e Let_def st g)
      then show ?thesis using q1 p2 weights_ok_mono by (auto simp: put_weights_def)
    next
      case c: True
      then have lt: "?p2 < q_end q" using rd_nonzero_less [of "q_str q" ?p2] by auto
      obtain kvs e' where ps: "weight_pairs (q_str q) (?p2 + 1) = (kvs, e')" by fastforce
      have l: "weight_loop alloc source p q = weight_loop alloc source (?p2 + 1) ?q1"
        "weight_pairs (q_str q) p = ((?key, ?v) # kvs, e')"
        using True c by (simp_all add: e Let_def st g ps [unfolded One_nat_def add_Suc_right add_0_right])
      have "q_end ?q1 - (?p2 + 1) < q_end q - p" using lt p2 by simp
      from less.hyps [OF this] obtain q' where
        "weight_loop alloc source (?p2 + 1) ?q1 = Some (e', q')"
        "weight_of q' = put_weights kvs (weight_of ?q1)" "q_weight_set q' \<noteq> None" "weights_ok e' q'"
        using less.prems(1) weights_ok_mono [OF q1(1), of "?p2 + 1"] p2 lt ps by auto
      then show ?thesis using l q1(2) by (simp add: put_weights_Cons)
    qed
  qed
qed

text \<open>
  With a vector, until a section beyond it is met; then the pairs are read again from \<open>source\<close>.
\<close>

lemma weight_loop_vector:
  assumes "\<forall>n. alloc n" "q_end q < 2 ^ 30" "q_weight_set q = None" "so_weight_vector (q_opt q) \<noteq> None"
    and "weights_ok p q" "p \<le> q_end q" "source \<le> q_end q"
  shows "\<exists>q'. if \<exists>k \<in> fst ` set (fst (weight_pairs (q_str q) p)). DEFAULT_WEIGHT_VECTOR_SIZE \<le> unat k
    then weight_loop alloc source p q = Some (snd (weight_pairs (q_str q) source), q') \<and>
      weight_of q' = put_weights (fst (weight_pairs (q_str q) source)) (\<lambda>_. 0) \<and>
      weights_ok (snd (weight_pairs (q_str q) source)) q' \<and> q_weight_set q' \<noteq> None
    else weight_loop alloc source p q = Some (snd (weight_pairs (q_str q) p), q') \<and>
      weight_of q' = put_weights (fst (weight_pairs (q_str q) p)) (weight_of q) \<and>
      weights_ok (snd (weight_pairs (q_str q) p)) q' \<and> q_weight_set q' = None"
  using assms(2-7)
proof (induction "q_end q - p" arbitrary: p q rule: less_induct)
  case less
  let ?key = "fst (sen_atoui (drop p (q_str q)))"
  let ?p1 = "p + snd (sen_atoui (drop p (q_str q)))"
  let ?v = "fst (weight_value (q_str q) ?p1)" and ?p2 = "snd (weight_value (q_str q) ?p1)"
  note e = weight_loop.simps [of alloc source p q] weight_pairs.simps [of "q_str q" p]
  obtain w where w: "so_weight_vector (q_opt q) = Some w" using less.prems(3) by blast
  show ?case
  proof (cases "p < q_end q \<and> \<not> (?key = 0 \<or> ?key > SEN_ID_MAX)")
    case False
    then have "weight_loop alloc source p q = Some (snd (weight_pairs (q_str q) p), q)"
      "fst (weight_pairs (q_str q) p) = []" "p \<le> snd (weight_pairs (q_str q) p)"
      by (auto simp: e Let_def)
    then show ?thesis using less.prems weights_ok_mono by (auto simp: put_weights_def)
  next
    case True
    then have lt: "p < q_end q" "?key \<noteq> 0" "\<not> ?key > SEN_ID_MAX" by blast+
    have "\<exists>kvs e'. weight_pairs (q_str q) p = ((?key, ?v) # kvs, e')"
      using True by (cases "weight_pairs (q_str q) (?p2 + 1)") (simp add: e(2) Let_def del: One_nat_def)
    then obtain kvs e' where ps: "weight_pairs (q_str q) p = ((?key, ?v) # kvs, e')" by blast
    show ?thesis
    proof (cases "unat ?key < DEFAULT_WEIGHT_VECTOR_SIZE")
      case False
      let ?q1 = "q\<lparr>q_opt := (q_opt q)\<lparr>so_weight_vector := None\<rparr>\<rparr>"
      have ge: "\<exists>k \<in> fst ` set (fst (weight_pairs (q_str q) p)). DEFAULT_WEIGHT_VECTOR_SIZE \<le> unat k"
        using False by (simp add: ps)
      have "sen_set_open alloc 4 4 0 \<noteq> None" using open_returns [of alloc 4 4 0] by simp
      moreover have "sen_set_open alloc 4 4 0 \<noteq> Some None"
        using assms(1) by (auto simp: sen_set_open_def split: Option.bind_splits)
      ultimately obtain st where st: "sen_set_open alloc 4 4 0 = Some (Some st)" by auto
      have d: "double_until (\<lambda>n. n < 0) (of_nat INITIAL_INDEX_SIZE) = Some (2 ^ 8)"
        by (simp add: double_until.simps INITIAL_INDEX_SIZE_def)
      have ok: "set_ok st" "set_map st = Map.empty" "st_n_entries st = 0" "st_key_size st = 4" "st_value_size st = 4"
        using open_ok [OF d _ _ st] by simp_all
      let ?q2 = "?q1\<lparr>q_weight_set := Some st\<rparr>"
      have l: "weight_loop alloc source p q = weight_loop alloc source source ?q2"
        using True less.prems(2) False st by (simp add: e Let_def)
      have "weights_ok source ?q2" "weight_of ?q2 = (\<lambda>_. 0)"
        using ok by (simp_all add: weights_ok_def weight_of_def fun_eq_iff)
      then show ?thesis
        using weight_loop_set [OF assms(1), of ?q2 source source] less.prems(1,6) l ge by auto
    next
      case small: True
      note q1 = weight_vector_put [OF less.prems(2) w less.prems(4) lt(2) small, of ?v]
      let ?q1 = "q\<lparr>q_opt := (q_opt q)\<lparr>so_weight_vector := map_option (\<lambda>w. w[unat ?key - 1 := ?v])
        (so_weight_vector (q_opt q))\<rparr>\<rparr>"
      have "0 < snd (sen_atoui (drop p (q_str q)))" using atoui_pos True by blast
      then have p2: "p + 1 \<le> ?p2" using weight_value_ge [of ?p1 "q_str q"] by linarith
      show ?thesis
      proof (cases "rd (q_str q) ?p2 = 0x2c")
        case False
        then have "weight_loop alloc source p q = Some (?p2, ?q1)" "weight_pairs (q_str q) p = ([(?key, ?v)], ?p2)"
          using True less.prems(2) small by (simp_all add: e Let_def)
        then show ?thesis using q1 p2 small weights_ok_mono [of p ?q1 ?p2] by (simp add: put_weights_def)
      next
        case c: True
        then have lt2: "?p2 < q_end q" using rd_nonzero_less [of "q_str q" ?p2] by auto
        have tl: "weight_pairs (q_str q) (?p2 + 1) = (kvs, e')"
          using ps True c by (auto simp: e(2) Let_def split: prod.splits)
        have l: "weight_loop alloc source p q = weight_loop alloc source (?p2 + 1) ?q1"
          using True c less.prems(2) small by (simp add: e Let_def)
        have m: "q_end ?q1 - (?p2 + 1) < q_end q - p" using lt2 p2 by simp
        have b: "q_end ?q1 < 2 ^ 30" "?p2 + 1 \<le> q_end ?q1" "source \<le> q_end ?q1"
          using less.prems(1,6) lt2 unfolding q1(5) by simp_all
        have wv: "so_weight_vector (q_opt ?q1) \<noteq> None" unfolding q1(3) by (rule option.distinct)
        have wo: "weights_ok (?p2 + 1) ?q1" by (rule weights_ok_mono [OF q1(2)]) (use p2 in simp)
        note IH = less.hyps [OF m b(1) q1(4) wv wo b(2,3), unfolded q1(5,1) tl fst_conv snd_conv]
        have big: "(\<exists>k \<in> fst ` set ((?key, ?v) # kvs). DEFAULT_WEIGHT_VECTOR_SIZE \<le> unat k) \<longleftrightarrow>
            (\<exists>k \<in> fst ` set kvs. DEFAULT_WEIGHT_VECTOR_SIZE \<le> unat k)"
          using small by simp
        show ?thesis
          unfolding l ps fst_conv snd_conv big put_weights_Cons by (rule IH)
      qed
    qed
  qed
qed

lemma weight_pairs_end: "p \<le> length str \<Longrightarrow> p \<le> snd (weight_pairs str p) \<and> snd (weight_pairs str p) \<le> length str"
proof (induction str p rule: weight_pairs.induct)
  case (1 str p)
  let ?s = "drop p str"
  let ?p1 = "p + snd (sen_atoui ?s)"
  let ?p2 = "snd (weight_value str ?p1)"
  note e = weight_pairs.simps [of str p]
  show ?case
  proof (cases "p < length str \<and> \<not> (fst (sen_atoui ?s) = 0 \<or> fst (sen_atoui ?s) > SEN_ID_MAX)")
    case False
    have "snd (sen_atoui ?s) \<le> length str - p" using atoui_len [of ?s 0 0] by (simp add: sen_atoui_def)
    then show ?thesis using 1(2) False by (auto simp: e Let_def)
  next
    case True
    have "snd (sen_atoui ?s) \<le> length str - p" using atoui_len [of ?s 0 0] by (simp add: sen_atoui_def)
    then have p1: "?p1 \<le> length str" using True by linarith
    have p2: "?p2 \<le> length str"
    proof (cases "rd str ?p1 = 0x3a")
      case True
      then have "?p1 < length str" using rd_nonzero_less [of str ?p1] by auto
      moreover have "snd (sen_atoi (drop (?p1 + 1) str)) \<le> length str - (?p1 + 1)"
        using atoi_end [of "drop (?p1 + 1) str"] by simp
      ultimately have "?p1 + 1 + snd (sen_atoi (drop (?p1 + 1) str)) \<le> length str" by linarith
      then show ?thesis using True by (auto simp: weight_value_def split: prod.splits)
    qed (use p1 in \<open>simp add: weight_value_def\<close>)
    have ge: "p \<le> ?p2" using weight_value_ge [of ?p1 str] by linarith
    show ?thesis
    proof (cases "rd str ?p2 = 0x2c")
      case c: True
      then have "?p2 + 1 \<le> length str" using rd_nonzero_less [of str ?p2] by auto
      then show ?thesis
        using 1(1) [OF _ refl refl refl refl] True c ge
        by (cases "weight_pairs str (?p2 + 1)") (simp add: e Let_def del: One_nat_def)
    qed (use True p2 ge in \<open>simp add: e Let_def\<close>)
  qed
qed

section \<open>The weights of a query\<close>

lemma weight_vector_zero:
  "weight_of (q\<lparr>q_opt := (q_opt q)\<lparr>so_weight_vector := Some (replicate n 0)\<rparr>\<rparr>) = (\<lambda>_. 0)"
  if "q_weight_set q = None"
proof -
  have "unat key - 1 < n" if "key \<noteq> 0" "unat key \<le> n" for key :: u32
    using that unat_gt_0 [of key] by linarith
  then show ?thesis using \<open>q_weight_set q = None\<close> by (auto simp: weight_of_def fun_eq_iff)
qed

text \<open>The callback finds the weight.\<close>

lemma section_weight_finds:
  assumes "weights_ok p q" "q_weight_set q = Some st"
  shows "section_weight_cb alloc (Some st) sid = Some (weight_of q sid)"
proof -
  have "set_inv st" "valid_key st (store32 sid)"
    using assms by (simp_all add: weights_ok_def set_ok_def valid_key_def length_store32)
  from at_finds [OF this, of alloc] obtain r where r: "sen_set_at alloc st (store32 sid) = Some (r, st) \<and>
    (r = None \<longleftrightarrow> set_map st (store32 sid) = None) \<and>
    (\<forall>p. r = Some p \<longrightarrow> (\<exists>e. st_index st ! p = Ent e \<and> entry_key st e = store32 sid \<and>
       set_map st (store32 sid) = Some (entry_val st e)))" ..
  show ?thesis
  proof (cases r)
    case None
    then show ?thesis using r assms(2) by (simp add: section_weight_cb_def weight_of_def)
  next
    case (Some p)
    then obtain e where "st_index st ! p = Ent e" "set_map st (store32 sid) = Some (entry_val st e)"
      using r by blast
    then show ?thesis using r Some assms(2) by (simp add: section_weight_cb_def weight_of_def entry_val_def)
  qed
qed

text \<open>
  C38: after a pragma of section weights the query has for every section the last weight given to
  it and 0 for the others, whether the weights ended up in the vector or, because of a section
  beyond it, in a hash table, where the callback \<open>section_weight_cb\<close> finds it; and the reading ends
  behind the last pair.
\<close>

theorem get_weight_vector_map:
  assumes "\<forall>n. alloc n" "q_end q < 2 ^ 30" "q_weight_set q = None" "so_weight_vector (q_opt q) = None"
    and "p \<le> q_end q"
  shows "\<exists>q'. get_weight_vector alloc q p = Some (snd (weight_pairs (q_str q) p), q') \<and>
    weight_of q' = put_weights (fst (weight_pairs (q_str q) p)) (\<lambda>_. 0) \<and>
    (q_weight_set q' = None \<longleftrightarrow>
       (\<forall>k \<in> fst ` set (fst (weight_pairs (q_str q) p)). unat k < DEFAULT_WEIGHT_VECTOR_SIZE)) \<and>
    (\<forall>st sid. q_weight_set q' = Some st \<longrightarrow> section_weight_cb alloc (Some st) sid = Some (weight_of q' sid))"
proof -
  let ?q = "q\<lparr>q_opt := (q_opt q)\<lparr>so_weight_vector := Some (replicate DEFAULT_WEIGHT_VECTOR_SIZE 0)\<rparr>\<rparr>"
  have "get_weight_vector alloc q p = weight_loop alloc p p ?q"
    using assms(1,3,4) by (simp add: get_weight_vector_def)
  moreover have "weights_ok p ?q" using assms(3) by (simp add: weights_ok_def)
  moreover note weight_vector_zero [OF assms(3), of DEFAULT_WEIGHT_VECTOR_SIZE]
  ultimately show ?thesis
    using weight_loop_vector [OF assms(1), of ?q p p] assms(2,3,5) section_weight_finds
    by (fastforce simp: not_le split: if_splits)
qed

text \<open>
  A second pragma that meets a section beyond the vector starts the table with its own pairs
  only: the weights of the first pragma are lost.
\<close>

theorem weights_lost:
  assumes "\<forall>n. alloc n" "q_end q < 2 ^ 30" "q_weight_set q = None" "so_weight_vector (q_opt q) \<noteq> None"
    and "weights_ok p q" "p \<le> q_end q"
    and "\<exists>k \<in> fst ` set (fst (weight_pairs (q_str q) p)). DEFAULT_WEIGHT_VECTOR_SIZE \<le> unat k"
  shows "\<exists>e q'. get_weight_vector alloc q p = Some (e, q') \<and>
    weight_of q' = put_weights (fst (weight_pairs (q_str q) p)) (\<lambda>_. 0)"
  using weight_loop_vector [OF assms(1-6,6)] assms(3,4,7) by (auto simp: get_weight_vector_def)

text \<open>The text \<open>1:5,5000:7,1:3\<close>: the weights are 3 and 7, in a table.\<close>

lemma example_pairs:
  "weight_pairs [0x31, 0x3a, 0x35, 0x2c, 0x35, 0x30, 0x30, 0x30, 0x3a, 0x37, 0x2c, 0x31, 0x3a, 0x33] 0 =
     ([(1, 5), (5000, 7), (1, 3)], 14)"
  by (simp add: weight_pairs.simps weight_value_def sen_atoui_def sen_atoi_def is_digit_def digit_val_def
      rd_def SEN_ID_MAX_def wrap32_id int32_range_def)

definition example_weights :: sen_query where
  "example_weights =
     \<lparr>q_str = [0x31, 0x3a, 0x35, 0x2c, 0x35, 0x30, 0x30, 0x30, 0x3a, 0x37, 0x2c, 0x31, 0x3a, 0x33], q_cur = 0,
      q_default_op = sen_sel_or,
      q_opt = \<lparr>so_mode = sen_sel_exact, so_similarity_threshold = 0, so_max_interval = 0,
               so_weight_vector = None, so_vector_size = 0, so_func = False\<rparr>,
      q_default_mode = sen_sel_exact, q_escalation_threshold = 0, q_escalation_decaystep = 0,
      q_weight_offset = 0, q_weight_set = None, q_encoding = sen_enc_none, q_expr = Q_nil,
      q_max_exprs = 0, q_cur_expr = 0, q_max_cells = 0, q_cur_cell = 0, q_snip_conds = None\<rparr>"

theorem get_weight_vector_map_witness:
  "\<exists>q'. get_weight_vector (\<lambda>_. True) example_weights 0 = Some (14, q') \<and>
     weight_of q' 1 = 3 \<and> weight_of q' 2 = 0 \<and> weight_of q' 5000 = 7 \<and> q_weight_set q' \<noteq> None"
  using get_weight_vector_map [of "\<lambda>_. True" example_weights 0]
  by (auto simp: example_weights_def example_pairs put_weights_def DEFAULT_WEIGHT_VECTOR_SIZE_def)

end
