(* ===== verification/Query_Open.thy ===== *)
theory Query_Open
  imports Query_Weights
begin

text \<open>
  \<open>sen_query_open\<close> as a whole: with memory available the pragmas are read, the parser ends, and
  the query it returns has its texts inside the string and as many cells and words as it counts.
  The exceptions are stated exactly: a phrase with a malformed character is never left, and the
  cell behind the last one of the pool lies over the string.
\<close>

section \<open>Pragmas\<close>

text \<open>What no pragma touches.\<close>

definition same_pool :: "sen_query \<Rightarrow> sen_query \<Rightarrow> bool" where
  "same_pool q q' \<longleftrightarrow>
     q_str q' = q_str q \<and> q_encoding q' = q_encoding q \<and> q_max_exprs q' = q_max_exprs q \<and>
     q_max_cells q' = q_max_cells q \<and> q_cur_cell q' = q_cur_cell q \<and> q_cur_expr q' = q_cur_expr q"

lemma same_pool_refl [simp]: "same_pool q q"
  by (simp add: same_pool_def)

lemma same_pool_trans: "same_pool q q1 \<Longrightarrow> same_pool q1 q2 \<Longrightarrow> same_pool q q2"
  by (simp add: same_pool_def)

lemma weight_loop_pool: "weight_loop alloc source p q = Some (e, q') \<Longrightarrow> same_pool q q'"
proof (induction alloc source p q rule: weight_loop.induct)
  case (1 alloc source p q)
  let ?key = "fst (sen_atoui (drop p (q_str q)))"
  note e = 1(4) [unfolded weight_loop.simps [of alloc source p q] Let_def]
  show ?case
  proof (cases "p < q_end q \<and> \<not> (?key = 0 \<or> ?key > SEN_ID_MAX)")
    case False
    then show ?thesis using e by (auto split: if_splits)
  next
    case True
    then have t: "p < q_end q" "\<not> (?key = 0 \<or> ?key > SEN_ID_MAX)" by blast+
    show ?thesis
    proof (cases "q_weight_set q")
      case None
      note IH = 1(1,2) [OF t(1) refl refl refl refl t(2) None]
      show ?thesis
        using e t None IH by (auto simp: same_pool_def split: if_splits option.splits)
    next
      case (Some st)
      note IH = 1(3) [OF t(1) refl refl refl refl t(2) Some]
      show ?thesis
        using e t Some IH by (auto simp: same_pool_def split: if_splits option.splits)
    qed
  qed
qed

lemma get_weight_vector_ok:
  assumes "\<forall>n. alloc n" "q_end q < 2 ^ 30" "weights_ok p q" "p \<le> q_end q"
  shows "\<exists>e q'. get_weight_vector alloc q p = Some (e, q') \<and> p \<le> e \<and> e \<le> q_end q \<and>
    weights_ok e q' \<and> same_pool q q'"
proof -
  have "\<exists>e q'. weight_loop alloc p p q1 = Some (e, q') \<and> p \<le> e \<and> e \<le> q_end q \<and> weights_ok e q'"
    if "q_str q1 = q_str q" "weights_ok p q1" "so_weight_vector (q_opt q1) \<noteq> None \<or> q_weight_set q1 \<noteq> None" for q1
  proof (cases "q_weight_set q1 = None")
    case True
    then show ?thesis
      using weight_loop_vector [OF assms(1), of q1 p p] that assms(2,4) weight_pairs_end [OF assms(4)]
      by (auto split: if_splits)
  next
    case False
    then show ?thesis
      using weight_loop_set [OF assms(1), of q1 p p] that assms(2,4) weight_pairs_end [OF assms(4)] by auto
  qed
  note loop = this
  show ?thesis
  proof (cases "so_weight_vector (q_opt q) = None \<and> q_weight_set q = None")
    case True
    let ?q = "q\<lparr>q_opt := (q_opt q)\<lparr>so_weight_vector := Some (replicate DEFAULT_WEIGHT_VECTOR_SIZE 0)\<rparr>\<rparr>"
    obtain e q' where e: "weight_loop alloc p p ?q = Some (e, q')" "p \<le> e" "e \<le> q_end q" "weights_ok e q'"
      using loop [of ?q] True by (auto simp: weights_ok_def)
    have "same_pool q q'"
      using same_pool_trans [OF _ weight_loop_pool [OF e(1)], of q] by (simp add: same_pool_def)
    then show ?thesis using e True assms(1) by (simp add: get_weight_vector_def)
  next
    case False
    then obtain e q' where e: "weight_loop alloc p p q = Some (e, q')" "p \<le> e" "e \<le> q_end q" "weights_ok e q'"
      using loop [of q] assms(3) by auto
    then show ?thesis using weight_loop_pool [OF e(1)] False by (auto simp: get_weight_vector_def)
  qed
qed

lemma skip_while_le: "p \<le> length str \<Longrightarrow> skip_while P str p \<le> length str"
  by (auto simp: skip_while_def find_Some_iff split: option.splits)

lemma atoi_within: "p \<le> length str \<Longrightarrow> p + snd (sen_atoi (drop p str)) \<le> length str"
  using atoi_end [of "drop p str"] by simp

lemma weights_ok_cong: "q_weight_set q' = q_weight_set q \<Longrightarrow> q_opt q' = q_opt q \<Longrightarrow> weights_ok k q' = weights_ok k q"
  by (simp add: weights_ok_def split: option.split)

lemma pragma_E_ok:
  assumes "p < q_end q"
  shows "fst (pragma_E q p) \<le> q_end q" "same_pool q (snd (pragma_E q p))"
    "q_cur (snd (pragma_E q p)) = fst (pragma_E q p)"
    "weights_ok k (snd (pragma_E q p)) = weights_ok k q"
proof -
  let ?a = "snd (sen_atoi (drop (p + 1) (q_str q)))"
  let ?e1 = "skip_while (\<lambda>s. is_digit (hd s) \<or> hd s = 0x2d) (q_str q) (p + 1 + ?a)"
  have e1: "?e1 \<le> q_end q" using atoi_within [of "p + 1" "q_str q"] assms by (intro skip_while_le) simp
  have e2: "?e1 + 1 + snd (sen_atoi (drop (?e1 + 1) (q_str q))) \<le> q_end q" if "rd (q_str q) ?e1 = 0x2c"
    using that rd_nonzero_less [of "q_str q" ?e1] by (intro atoi_within) auto
  show "fst (pragma_E q p) \<le> q_end q" "same_pool q (snd (pragma_E q p))"
    "q_cur (snd (pragma_E q p)) = fst (pragma_E q p)"
    unfolding pragma_E_def Let_def using e1 e2
    by (simp_all add: same_pool_def del: One_nat_def)
  show "weights_ok k (snd (pragma_E q p)) = weights_ok k q"
    by (rule weights_ok_cong) (simp_all add: pragma_E_def Let_def)
qed

lemma pragma_step_ok:
  assumes "\<forall>n. alloc n" "q_end q < 2 ^ 30" "weights_ok p q" "p < q_end q" "q_cur q \<le> q_end q"
  shows "\<exists>e q'. pragma_step alloc q p = Some (e, q') \<and> p \<le> e \<and> e \<le> q_end q \<and>
    weights_ok e q' \<and> same_pool q q' \<and> q_cur q' \<le> q_end q"
proof -
  have D: "fst (pragma_D q p) \<le> q_end q" "same_pool q (snd (pragma_D q p))"
    "q_cur (snd (pragma_D q p)) = fst (pragma_D q p)" "weights_ok k (snd (pragma_D q p)) = weights_ok k q" for k
    using skip_while_le [of "p + 1" "q_str q"] assms(4) weights_ok_cong [of "snd (pragma_D q p)" q k]
    by (simp_all add: pragma_D_def Let_def same_pool_def)
  note E = pragma_E_ok [OF assms(4)]
  have run: "\<exists>e q'. pragma_step alloc q p = Some (e, q') \<and> e \<le> q_end q \<and> weights_ok e q' \<and> same_pool q q' \<and>
      q_cur q' \<le> q_end q"
  proof (cases "rd (q_str q) p = 0x57")
    case True
    obtain e q' where e: "get_weight_vector alloc q (p + 1) = Some (e, q')" "e \<le> q_end q" "weights_ok e q'" "same_pool q q'"
      using get_weight_vector_ok [OF assms(1,2), of "p + 1"] weights_ok_mono [OF assms(3), of "p + 1"] assms(4) by auto
    then have "pragma_step alloc q p = Some (e, q'\<lparr>q_cur := e\<rparr>)"
      using True by (simp add: pragma_step_def)
    then show ?thesis using e weights_ok_cong [of "q'\<lparr>q_cur := e\<rparr>" q' e] by (auto simp: same_pool_def)
  next
    case False
    define r where "r = (if rd (q_str q) p = 0x45 then pragma_E q p
      else if rd (q_str q) p = 0x44 then pragma_D q p else (p, q))"
    have r: "pragma_step alloc q p = Some r" using False by (simp add: pragma_step_def Let_def r_def)
    moreover have "p \<le> fst r" using pragma_step_end [of alloc q p "fst r" "snd r"] r by simp
    moreover have "fst r \<le> q_end q" "weights_ok p (snd r)" "same_pool q (snd r)" "q_cur (snd r) \<le> q_end q"
      using D E assms by (simp_all add: r_def)
    ultimately show ?thesis using weights_ok_mono by (metis prod.collapse)
  qed
  then show ?thesis using pragma_step_end by blast
qed

lemma pragma_loop_ok:
  assumes "\<forall>n. alloc n" "q_end q < 2 ^ 30" "weights_ok p q" "q_cur q \<le> q_end q"
  shows "\<exists>q'. pragma_loop alloc q p = Some q' \<and> same_pool q q' \<and> q_cur q' \<le> q_end q"
  using assms(2-4)
proof (induction "q_end q - p" arbitrary: q p rule: less_induct)
  case less
  show ?case
  proof (cases "p < q_end q \<and> rd (q_str q) p = SEN_QUERY_PREFIX \<and> p + 1 < q_end q")
    case False
    then show ?thesis using less.prems by (subst pragma_loop.simps) auto
  next
    case True
    then obtain e q1 where s: "pragma_step alloc q (p + 1) = Some (e, q1)" "p + 1 \<le> e" "e \<le> q_end q"
      "weights_ok e q1" "same_pool q q1" "q_cur q1 \<le> q_end q"
      using pragma_step_ok [OF assms(1) less.prems(1), of "p + 1"] weights_ok_mono [OF less.prems(2), of "p + 1"]
        less.prems(3) by auto
    have e: "q_end q1 = q_end q" using s(5) by (simp add: same_pool_def)
    then have "q_end q1 - e < q_end q - p" using s(2) True by linarith
    from less.hyps [OF this _ s(4)] obtain q' where "pragma_loop alloc q1 e = Some q'" "same_pool q1 q'" "q_cur q' \<le> q_end q1"
      using less.prems(1) s(6) e by auto
    then show ?thesis
      using True s(1) same_pool_trans [OF s(5)] e by (subst pragma_loop.simps) auto
  qed
qed

section \<open>Lists of cells\<close>

text \<open>Every list that the parser makes ends in NIL; the options of the query are not touched.\<close>

definition is_list :: "qcell \<Rightarrow> bool" where
  "is_list c \<longleftrightarrow> (case c of Q_nil \<Rightarrow> True | Q_list _ _ \<Rightarrow> True | _ \<Rightarrow> False)"

lemma is_list_simps [simp]: "is_list Q_nil" "is_list (Q_list a d)"
  by (simp_all add: is_list_def)

fun proper :: "qcell \<Rightarrow> bool" where
  "proper (Q_list a d) \<longleftrightarrow> proper a \<and> proper d \<and> is_list d"
| "proper c \<longleftrightarrow> True"

definition keeps :: "sen_query \<Rightarrow> (qcell \<times> sen_query) q_run \<Rightarrow> bool" where
  "keeps q r \<longleftrightarrow>
     (\<forall>c q'. r = Q_ok (c, q') \<longrightarrow>
        proper c \<and> q_opt q' = q_opt q \<and> q_weight_offset q' = q_weight_offset q)"

lemma keeps_from: "keeps q1 r \<Longrightarrow> q_opt q1 = q_opt q \<Longrightarrow> q_weight_offset q1 = q_weight_offset q \<Longrightarrow> keeps q r"
  by (simp add: keeps_def)

lemma keeps_cell: "proper c \<Longrightarrow> keeps q (cell_new q c)"
  by (simp add: keeps_def cell_new_def)

lemma keeps_token: "keeps q (token_new q start end')"
  by (simp add: keeps_def token_new_def cell_new_def)

lemma keeps_nil: "proper c \<Longrightarrow> keeps q (Q_ok (c, q))"
  by (simp add: keeps_def)

lemma keeps_phrase: "keeps q (get_phrase q)"
proof (cases "phrase_loop (q_encoding q) (q_str q) (q_cur q) (q_cur q)")
  case (Some r)
  obtain str d cur where r: "r = (str, d, cur)" by (cases r)
  have "keeps q (token_new (q\<lparr>q_str := str, q_cur := cur\<rparr>) (q_cur q) d)"
    by (rule keeps_from [OF keeps_token]) simp_all
  then show ?thesis by (simp add: get_phrase_def Some r)
qed (simp add: get_phrase_def keeps_def)

lemma keeps_op: "keeps q (op_new q op w m opt)"
  by (simp add: op_new_def keeps_cell)

lemma keeps_mode: "keeps q (get_op q op w)"
proof -
  obtain n len where a: "sen_atoi (drop (q_cur q + 1) (q_str q)) = (n, len)" by fastforce
  have "keeps q (op_new (q\<lparr>q_cur := q_cur q + 1 + len\<rparr>) op w m opt)" for m opt
    by (rule keeps_from [OF keeps_op]) simp_all
  then show ?thesis unfolding get_op_def Let_def a by (simp add: keeps_nil)
qed

lemma keeps_bind:
  assumes "keeps q r" "\<And>c q'. proper c \<Longrightarrow> q_opt q' = q_opt q \<Longrightarrow> q_weight_offset q' = q_weight_offset q \<Longrightarrow> keeps q (f (c, q'))"
  shows "keeps q (q_bind r f)"
proof (cases r)
  case (Q_ok a)
  obtain c q' where a: "a = (c, q')" by (cases a)
  have "proper c \<and> q_opt q' = q_opt q \<and> q_weight_offset q' = q_weight_offset q"
    using assms(1) by (simp add: keeps_def Q_ok a)
  then show ?thesis using assms(2) [of c q'] by (simp add: Q_ok a)
qed (simp_all add: keeps_def)

lemma keeps_cons: "keeps q r \<Longrightarrow> keeps q (q_cons r)"
  unfolding q_cons_def cons_def
  by (rule keeps_bind) (auto intro!: keeps_from [OF keeps_cell] simp: is_list_def)

lemma keeps_word: "keeps q (word_token q)"
proof -
  obtain e c p where w: "word_loop (q_encoding q) (q_str q) (q_cur q) = (e, c, p)" by (metis prod_cases3)
  have or: "keeps q (or_token tok q1)" if k: "proper tok" "q_opt q1 = q_opt q" "q_weight_offset q1 = q_weight_offset q" for tok q1
  proof -
    let ?q2 = "(cell_del q1)\<lparr>q_cur_expr := q_cur_expr (cell_del q1) - 1\<rparr>"
    have "keeps q (op_new ?q2 sen_sel_or DEFAULT_WEIGHT None 0)"
      by (rule keeps_from [OF keeps_op]) (simp_all add: cell_del_def k)
    moreover have "keeps q (Q_ok (tok, q1))" by (rule keeps_from [OF keeps_nil]) (use k in simp_all)
    ultimately show ?thesis by (cases tok) (simp_all add: or_token_def Let_def)
  qed
  let ?q = "q\<lparr>q_cur := c\<rparr>"
  have "keeps q (token_new ?q (q_cur q) e)" by (rule keeps_from [OF keeps_token]) simp_all
  then have "keeps q (q_bind (token_new ?q (q_cur q) e) (\<lambda>(tok, q1). or_token tok q1))"
    by (rule keeps_bind) (simp add: or)
  moreover have "word_token q = q_bind (token_new ?q (q_cur q) e) (\<lambda>(tok, q1). or_token tok q1)"
    by (cases "token_new ?q (q_cur q) e") (auto simp: word_token_def get_word_def w split: prod.split)
  ultimately show ?thesis by simp
qed

definition one_token :: "sen_query \<Rightarrow> (qcell \<times> sen_query) q_run \<Rightarrow> bool" where
  "one_token q r \<longleftrightarrow> keeps q r \<and> (\<forall>c q'. r = Q_ok (c, q') \<longrightarrow> c = Q_nil \<or> (\<exists>t. c = Q_list t Q_nil))"

lemma one_token_if:
  "(b \<Longrightarrow> one_token q x) \<Longrightarrow> (\<not> b \<Longrightarrow> one_token q y) \<Longrightarrow> one_token q (if b then x else y)"
  by simp

lemma one_token_cons: "keeps q (q_cons r) \<Longrightarrow> one_token q (q_cons r)"
  by (cases r) (auto simp: one_token_def q_cons_def cons_def cell_new_def split: if_splits)

lemma one_token_nil: "keeps q (Q_ok (Q_nil, q')) \<Longrightarrow> one_token q (Q_ok (Q_nil, q'))"
  by (simp add: one_token_def)

lemma parser_keeps:
  "one_token q (get_token fuel q)"
  "keeps q (get_expr fuel q) \<and> (\<forall>c q'. get_expr fuel q = Q_ok (c, q') \<longrightarrow> is_list c)"
proof (induction fuel q and fuel q rule: get_token_get_expr.induct)
  case (2 fuel q0)
  let ?q = "skip_space q0"
  have step: "keeps q0 (q_cons r)" if "keeps (q_step ?q) r" for r
    using keeps_from [OF keeps_cons [OF that]] by (simp add: q_step_def skip_space_def)
  have word: "keeps q0 (q_cons (word_token ?q))"
    using keeps_from [OF keeps_cons [OF keeps_word]] by (simp add: skip_space_def)
  have nil: "keeps q0 (Q_ok (Q_nil, ?q))" "keeps q0 (Q_ok (Q_nil, q_step ?q))"
    by (simp_all add: keeps_def skip_space_def q_step_def)
  note IH = 2 [OF refl refl refl refl, THEN conjunct1]
  have paren: "keeps q0 (q_cons (get_expr fuel (q_step ?q)))"
    if "\<not> (q_cur_expr ?q \<ge> q_max_exprs ?q \<or> q_cur_cell ?q \<ge> q_max_cells ?q \<or> q_cur ?q \<ge> q_end ?q)"
      "rd (q_str ?q) (q_cur ?q) = SEN_QUERY_PARENL"
    using IH that by (intro step) (simp add: query_chars)
  show ?case
    unfolding get_token.simps Let_def
    by (intro one_token_if one_token_nil one_token_cons nil word step keeps_phrase keeps_mode keeps_op paren)
next
  case (4 fuel q)
  show ?case
  proof (cases "get_token fuel q")
    case (Q_ok a)
    obtain c q1 where a: "a = (c, q1)" by (cases a)
    have t: "proper c" "q_opt q1 = q_opt q" "q_weight_offset q1 = q_weight_offset q" "c = Q_nil \<or> (\<exists>t. c = Q_list t Q_nil)"
      using 4(1) by (simp_all add: Q_ok a one_token_def keeps_def)
    show ?thesis
    proof (cases "c = Q_nil")
      case False
      note IH = 4(2) [OF False, of q1]
      then show ?thesis
        using t False unfolding get_expr.simps
        by (cases "get_expr fuel q1") (auto simp: Q_ok a keeps_def POP_def)
    qed (use t in \<open>simp add: Q_ok a keeps_def\<close>)
  qed (simp_all add: keeps_def)
qed (simp_all add: keeps_def one_token_def)

section \<open>Opening a query\<close>

text \<open>
  A query as the parser leaves it: it has read at most the string; its words and phrases are
  non-empty parts of what was read, as many as \<open>cur_expr\<close> says and at most \<open>max_exprs\<close>, and its
  cells are counted by \<open>cur_cell\<close> and lie in the pool; every list ends in NIL.
\<close>

definition query_ok :: "sen_query \<Rightarrow> bool" where
  "query_ok q \<longleftrightarrow>
     q_cur q \<le> q_end q \<and> length (qbulks (q_expr q)) = q_cur_expr q \<and> q_cur_expr q \<le> q_max_exprs q \<and>
     q_cur_cell q = ncells (q_expr q) \<and> q_cur_cell q \<le> q_max_cells q \<and> proper (q_expr q) \<and> is_list (q_expr q) \<and>
     (\<forall>(a, k) \<in> set (qbulks (q_expr q)). 0 < k \<and> a + k \<le> q_cur q)"

text \<open>The pragmas of a fresh query.\<close>

lemma get_pragma_ok:
  assumes "\<forall>n. alloc n" "length str < 2 ^ 30"
  shows "\<exists>q. get_pragma alloc (query_init blk threshold str op m enc) = Some q \<and>
    q_cur q \<le> q_end q \<and> q_str q = str \<and> q_encoding q = enc \<and> q_max_exprs q = m \<and> q_max_cells q = 4 * m \<and>
    q_cur_cell q = 0 \<and> q_cur_expr q = 0"
proof -
  let ?q = "query_init blk threshold str op m enc"
  have q: "q_str ?q = str" "q_cur ?q = 0" "q_weight_set ?q = None" "so_weight_vector (q_opt ?q) = None"
    by (simp_all add: query_init_def)
  then have "weights_ok 0 ?q" by (simp add: weights_ok_def)
  with pragma_loop_ok [OF assms(1), of ?q 0] assms(2) q
  show ?thesis by (auto simp: get_pragma_def same_pool_def query_init_def)
qed

text \<open>What \<open>sen_query_open\<close> does with the expression.\<close>

definition open_finish :: "qcell \<Rightarrow> sen_query \<Rightarrow> sen_query" where
  "open_finish expr q =
     q\<lparr>q_expr := expr,
       q_opt := (q_opt q)\<lparr>so_vector_size := int DEFAULT_WEIGHT_VECTOR_SIZE, so_func := q_weight_set q \<noteq> None\<rparr>,
       q_snip_conds := None\<rparr>"

lemma open_query_ok:
  assumes "get_expr fuel q = Q_ok (c, q')" "tok safe q c q'" "q_cur_cell q = 0" "q_cur_expr q = 0"
  shows "query_ok (open_finish c q')" "q_end (open_finish c q') = q_end q"
proof -
  have "proper c" "is_list c" using parser_keeps(2) [of q fuel] by (simp_all add: assms(1) keeps_def)
  then show "query_ok (open_finish c q')" "q_end (open_finish c q') = q_end q"
    using assms(2-4) by (auto simp: open_finish_def query_ok_def tok_def moved_def)
qed

text \<open>
  C5: with memory available and a fuel of more than twice the length of the string plus one,
  \<open>sen_query_open\<close> returns a query that keeps \<open>query_ok\<close> and its whole string. There are two
  exceptions. The loop of \<open>get_phrase\<close> is not left only when the bytes behind the pragmas are not
  a sequence of complete characters (\<open>Q_hang\<close>); and the cell behind the last one of the pool may
  be handed out (\<open>Q_overlap\<close>, see \<open>Query_Pool\<close>). It never asks for more fuel.
\<close>

theorem sen_query_open_parses:
  assumes "\<forall>n. alloc n" "n \<le> length str" "n < 2 ^ 30" "2 * n + 1 < fuel"
  shows "case sen_query_open alloc sz blk threshold fuel str n op m enc of
    Q_overlap \<Rightarrow> True
  | Q_hang \<Rightarrow> \<exists>q. get_pragma alloc (query_init blk threshold (take n str) op m enc) = Some q \<and>
      chars_of enc (q_rest q) = None
  | Q_more \<Rightarrow> False
  | Q_ok r \<Rightarrow> \<exists>q. r = Some q \<and> query_ok q \<and> q_end q = n"
proof -
  have len: "length (take n str) = n" using assms(2) by simp
  obtain q where q: "get_pragma alloc (query_init blk threshold (take n str) op m enc) = Some q"
    "q_cur q \<le> q_end q" "q_str q = take n str" "q_encoding q = enc" "q_max_exprs q = m" "q_max_cells q = 4 * m"
    "q_cur_cell q = 0" "q_cur_expr q = 0"
    using get_pragma_ok [OF assms(1)] assms(3) len by metis
  define safe where "safe \<longleftrightarrow> wf_text enc (q_rest q)"
  have inv: "q_inv safe q" using q by (simp add: q_inv_def safe_rest_def safe_def)
  have n: "q_end q = n" using len q(3) by simp
  have fuel: "2 * (q_end q - q_cur q) + 1 < fuel" using assms(4) unfolding n by linarith
  note p = parser_ok(2) [OF inv fuel]
  show ?thesis
  proof (cases "get_expr fuel q")
    case Q_hang
    then show ?thesis using p q assms(1) by (simp add: sen_query_open_def safe_def wf_text_def)
  next
    case (Q_ok r)
    obtain c q' where r: "r = (c, q')" by (cases r)
    have "tok safe q c q'" using p by (simp add: Q_ok r)
    note ok = open_query_ok [OF Q_ok [unfolded r] this q(7,8)]
    have "sen_query_open alloc sz blk threshold fuel str n op m enc = Q_ok (Some (open_finish c q'))"
      using q assms(1) by (simp add: sen_query_open_def Q_ok r open_finish_def)
    then show ?thesis using ok q(3) len by simp
  qed (use p q assms(1) in \<open>simp_all add: sen_query_open_def\<close>)
qed

theorem sen_query_open_parses_witness:
  "case sen_query_open (\<lambda>_. True) 1000 example_weights 0 10 [0x61, 0x20, 0x28, 0x62] 4 sen_sel_or 32 sen_enc_utf8 of
    Q_overlap \<Rightarrow> True
  | Q_hang \<Rightarrow> \<exists>q. get_pragma (\<lambda>_. True) (query_init example_weights 0 (take 4 [0x61, 0x20, 0x28, 0x62])
        sen_sel_or 32 sen_enc_utf8) = Some q \<and> chars_of sen_enc_utf8 (q_rest q) = None
  | Q_more \<Rightarrow> False
  | Q_ok r \<Rightarrow> \<exists>q. r = Some q \<and> query_ok q \<and> q_end q = 4"
  by (rule sen_query_open_parses) simp_all

end
