(* ===== verification/Query_Print.thy ===== *)
theory Query_Print
  imports Query_Open
begin

text \<open>
  Queries as the parser is meant to read them: items (words, phrases, operators, modes and
  parentheses) with their printed form, and the proof that \<open>sen_query_open\<close> reads back what was
  printed. Texts are compared in the string as the parser leaves it, since phrases are unquoted
  in place.
\<close>

section \<open>Items and their print\<close>

datatype q_item =
    I_word bytes
  | I_phrase bytes
  | I_or
  | I_sign byte
  | I_mode byte int
  | I_group "q_item list"

text \<open>Inside a phrase a quote and a backslash are escaped.\<close>

definition quoted :: "bytes \<Rightarrow> bytes" where
  "quoted c = (if c = [SEN_QUERY_QUOTER] \<or> c = [SEN_QUERY_ESCAPE] then SEN_QUERY_ESCAPE # c else c)"

fun print_item :: "sen_encoding \<Rightarrow> q_item \<Rightarrow> bytes" where
  "print_item enc (I_word w) = w"
| "print_item enc (I_phrase p) =
     SEN_QUERY_QUOTEL # concat (map quoted (the (chars_of enc p))) @ [SEN_QUERY_QUOTER]"
| "print_item enc I_or = [0x4f, 0x52]"
| "print_item enc (I_sign c) = [c]"
| "print_item enc (I_mode c n) = SEN_QUERY_PREFIX # c # dec_int n"
| "print_item enc (I_group is) =
     SEN_QUERY_PARENL # concat (map (\<lambda>i. 0x20 # print_item enc i) is) @ [0x20, SEN_QUERY_PARENR]"

definition print_items :: "sen_encoding \<Rightarrow> q_item list \<Rightarrow> bytes" where
  "print_items enc is = concat (map (\<lambda>i. 0x20 # print_item enc i) is)"

text \<open>
  The words that can be written: complete characters, none of them a space, a closing parenthesis
  or a star, the first one not special either, and not the operator OR.
\<close>

definition word_chars :: "sen_encoding \<Rightarrow> bytes \<Rightarrow> bool" where
  "word_chars enc w \<longleftrightarrow>
     (case chars_of enc w of
        None \<Rightarrow> False
      | Some cs \<Rightarrow> list_all (\<lambda>c. sen_isspace (Some c) enc = 0 \<and> hd c \<noteq> SEN_QUERY_PARENR \<and> hd c \<noteq> SEN_QUERY_PREFIX) cs)"

definition signs :: "byte list" where
  "signs = [SEN_QUERY_AND, SEN_QUERY_BUT, SEN_QUERY_ADJ_INC, SEN_QUERY_ADJ_DEC, SEN_QUERY_ADJ_NEG]"

fun item_ok :: "sen_encoding \<Rightarrow> q_item \<Rightarrow> bool" where
  "item_ok enc (I_word w) \<longleftrightarrow>
     w \<noteq> [] \<and> word_chars enc w \<and> hd w \<notin> set (0 # SEN_QUERY_QUOTEL # SEN_QUERY_PARENL # signs) \<and> w \<noteq> [0x4f, 0x52]"
| "item_ok enc (I_phrase p) \<longleftrightarrow> p \<noteq> [] \<and> chars_of enc p \<noteq> None"
| "item_ok enc I_or \<longleftrightarrow> True"
| "item_ok enc (I_sign c) \<longleftrightarrow> c \<in> set signs"
| "item_ok enc (I_mode c n) \<longleftrightarrow> c \<in> set [0x53, 0x4e, 0x6e, 0x54] \<and> - 2147483647 \<le> n \<and> n \<le> 2147483647"
| "item_ok enc (I_group is) \<longleftrightarrow> list_all (item_ok enc) is"

section \<open>Trees\<close>

text \<open>A cell with its texts, read in the string.\<close>

datatype q_tree =
    T_nil
  | T_op sen_sel_operator int "sen_sel_mode option" int
  | T_text bytes
  | T_list q_tree q_tree

fun resolve :: "bytes \<Rightarrow> qcell \<Rightarrow> q_tree" where
  "resolve str Q_nil = T_nil"
| "resolve str (Q_op op w m opt) = T_op op w m opt"
| "resolve str (Q_bulk a n) = T_text (take n (drop a str))"
| "resolve str (Q_list a d) = T_list (resolve str a) (resolve str d)"

definition sign_tree :: "byte \<Rightarrow> q_tree" where
  "sign_tree c =
     (if c = SEN_QUERY_AND then T_op sen_sel_and 5 None 0
      else if c = SEN_QUERY_BUT then T_op sen_sel_but 5 None 0
      else T_op sen_sel_adjust
        (if c = SEN_QUERY_ADJ_INC then 6 else if c = SEN_QUERY_ADJ_DEC then 4 else - 1) None 0)"

definition mode_of :: "byte \<Rightarrow> sen_sel_mode" where
  "mode_of c =
     (if c = 0x53 then sen_sel_similar else if c = 0x4e then sen_sel_near
      else if c = 0x6e then sen_sel_near2 else sen_sel_term_extract)"

fun tree_list :: "q_tree list \<Rightarrow> q_tree" where
  "tree_list [] = T_nil"
| "tree_list (t # ts) = T_list t (tree_list ts)"

text \<open>What an item means; the operator of a mode is the default one.\<close>

fun tree_of :: "sen_sel_operator \<Rightarrow> q_item \<Rightarrow> q_tree" where
  "tree_of d (I_word w) = T_text w"
| "tree_of d (I_phrase p) = T_text p"
| "tree_of d I_or = T_op sen_sel_or 5 None 0"
| "tree_of d (I_sign c) = sign_tree c"
| "tree_of d (I_mode c n) = T_op d 5 (Some (mode_of c)) n"
| "tree_of d (I_group is) = tree_list (map (tree_of d) is)"

fun tcells :: "q_tree \<Rightarrow> nat" where
  "tcells T_nil = 0"
| "tcells (T_op op w m opt) = 1"
| "tcells (T_text t) = 1"
| "tcells (T_list a d) = Suc (tcells a + tcells d)"

fun ttexts :: "q_tree \<Rightarrow> bytes list" where
  "ttexts T_nil = []"
| "ttexts (T_op op w m opt) = []"
| "ttexts (T_text t) = [t]"
| "ttexts (T_list a d) = ttexts a @ ttexts d"

lemma tcells_resolve [simp]: "tcells (resolve str c) = ncells c"
  by (induction c) simp_all

lemma ttexts_resolve [simp]: "ttexts (resolve str c) = map (\<lambda>(a, n). take n (drop a str)) (qbulks c)"
  by (induction c) simp_all

lemma resolve_cong:
  "\<forall>(a, n) \<in> set (qbulks c). a + n \<le> k \<Longrightarrow> take k str = take k str' \<Longrightarrow> resolve str c = resolve str' c"
proof (induction c)
  case (Q_bulk a n)
  then have "a + n \<le> k" by simp
  then have "take n (drop a s) = take n (drop a (take k s))" for s :: bytes
    by (simp add: drop_take min_def)
  then show ?case using Q_bulk(2) by (metis resolve.simps(3))
qed auto

section \<open>Characters\<close>

lemma isspace_0x20 [simp]: "sen_isspace (Some (0x20 # r)) enc = 1"
  by (simp add: sen_isspace_def)

lemma isspace_ascii: "c < 0x80 \<Longrightarrow> c \<notin> {0x20, 0x0c, 0x0a, 0x0d, 0x09, 0x0b} \<Longrightarrow> sen_isspace (Some (c # r)) enc = 0"
  by (auto simp: sen_isspace_def)

lemma skip_space_one:
  assumes "q_rest q = 0x20 # r" "r = [] \<or> sen_isspace (Some r) (q_encoding q) = 0"
  shows "skip_space q = q_step q"
proof -
  have lt: "q_cur q < q_end q" using assms(1) by (metis drop_eq_Nil list.distinct(1) not_le)
  have r: "drop (q_cur q + 1) (q_str q) = r" using assms(1) by (metis drop_Suc drop_tl list.sel(3) Suc_eq_plus1)
  have "skip_space_loop (q_encoding q) (q_str q) (q_cur q + 1) = q_cur q + 1"
    using assms(2) r by (subst skip_space_loop.simps) auto
  then show ?thesis
    using lt assms(1) ascii_charlen [of "0x20" r "q_encoding q"]
    by (subst skip_space_def, subst skip_space_loop.simps) (simp add: q_step_def)
qed

lemma q_rest_step: "q_rest q = c # r \<Longrightarrow> q_rest (q_step q) = r"
  by (simp add: q_step_def) (metis drop_Suc drop_tl list.sel(3))

lemma rd_rest: "q_rest q = c # r \<Longrightarrow> rd (q_str q) (q_cur q) = c"
  by (metis add.right_neutral rd_Cons_0 rd_drop)

section \<open>Words and phrases\<close>

lemma word_loop_reads:
  assumes "chars_of enc w = Some cs"
    and "\<forall>c \<in> set cs. sen_isspace (Some c) enc = 0 \<and> hd c \<noteq> SEN_QUERY_PARENR \<and> hd c \<noteq> SEN_QUERY_PREFIX"
    and "drop p str = w @ 0x20 # r"
  shows "word_loop enc str p = (p + length w, p + length w, False)"
  using assms
proof (induction cs arbitrary: w p)
  case Nil
  then have "drop p str = 0x20 # r" using delimited_reader.split_concat [OF Nil(1)] by simp
  then show ?case
    using ascii_charlen [of "0x20" r enc] delimited_reader.split_concat [OF Nil(1)]
    by (subst word_loop.simps) (simp add: Let_def)
next
  case (Cons c cs)
  note c = chars_Cons [OF Cons.prems(1)]
  let ?w = "drop (length c) w"
  have d: "drop p str = c @ (?w @ 0x20 # r)" using Cons.prems(3) c(2) by (metis append_assoc)
  have "drop (p + length c) str = drop (length c) (drop p str)" by (simp add: add.commute)
  then have rest: "drop (p + length c) str = ?w @ 0x20 # r" by (simp add: d)
  have sp: "sen_isspace (Some (drop p str)) enc = 0"
    unfolding d using isspace_local [of c enc] c(4) [of "[]"] c(1) Cons.prems(2) by simp
  have hd: "rd str p = hd c" using c(1) d rd_drop [of p str 0] by (cases c) simp_all
  have "word_loop enc str p = word_loop enc str (p + length c)"
    unfolding word_loop.simps [of enc str p] Let_def sp hd
    using c(1) Cons.prems(2) c(4) [of "?w @ 0x20 # r"] by (simp add: d)
  also have "\<dots> = (p + length c + length ?w, p + length c + length ?w, False)"
    using Cons.IH [OF c(3) _ rest] Cons.prems(2) by simp
  also have "length c + length ?w = length w" using c(2) by (metis length_append)
  then have "p + length c + length ?w = p + length w" by simp
  finally show ?case .
qed

lemma quoted_first:
  assumes "c \<noteq> []" "sen_str_charlen_nonnull (c @ t) enc = length c" "drop s str = quoted c @ t"
  shows "if quoted c = c
    then sen_str_charlen_nonnull (drop s str) enc = length c \<and>
      \<not> (sen_str_charlen_nonnull (drop s str) enc = 1 \<and> (str ! s = SEN_QUERY_QUOTER \<or> str ! s = SEN_QUERY_ESCAPE))
    else sen_str_charlen_nonnull (drop s str) enc = 1 \<and> str ! s = SEN_QUERY_ESCAPE \<and> s + 1 < length str \<and>
      sen_str_charlen_nonnull (drop (s + 1) str) enc = length c \<and> drop (s + 1) str = c @ t"
proof -
  have lt: "s < length str"
    using assms(1,3) by (cases "s < length str") (auto simp: quoted_def split: if_splits)
  have hd: "str ! s = hd (quoted c)"
    using assms(1,3) Cons_nth_drop_Suc [OF lt] by (auto simp: quoted_def split: if_splits) (metis hd_append2 list.sel(1))
  show ?thesis
  proof (cases "c = [SEN_QUERY_QUOTER] \<or> c = [SEN_QUERY_ESCAPE]")
    case True
    then have e: "quoted c = SEN_QUERY_ESCAPE # c" by (simp add: quoted_def)
    have d: "drop (s + 1) str = c @ t"
      using assms(3) Cons_nth_drop_Suc [OF lt] e by simp
    then have "s + 1 < length str" using assms(1) by (metis append_is_Nil_conv drop_eq_Nil not_le)
    then show ?thesis
      using e d hd assms(2,3) ascii_charlen [of SEN_QUERY_ESCAPE "c @ t" enc] by (simp add: query_chars)
  next
    case False
    then have e: "quoted c = c" by (simp add: quoted_def)
    then show ?thesis using assms False hd by (cases c) auto
  qed
qed

lemma phrase_loop_reads:
  assumes "chars_of enc p = Some cs" "drop s str = concat (map quoted cs) @ SEN_QUERY_QUOTER # r"
    and "d \<le> s"
  shows "\<exists>str'. phrase_loop enc str s d = Some (str', d + length p, s + length (concat (map quoted cs)) + 1) \<and>
    take (d + length p) str' = take d str @ p"
  using assms
proof (induction cs arbitrary: p s d str)
  case Nil
  have p: "p = []" using delimited_reader.split_concat [OF Nil(1)] by simp
  have d: "drop s str = SEN_QUERY_QUOTER # r" using Nil(2) by simp
  then have "s < length str" by (metis drop_eq_Nil list.distinct(1) not_le)
  moreover from this d have "str ! s = SEN_QUERY_QUOTER" by (metis Cons_nth_drop_Suc list.sel(1))
  moreover have "sen_str_charlen_nonnull (drop s str) enc = 1"
    unfolding d by (rule ascii_charlen) (simp_all add: query_chars)
  ultimately show ?case by (subst phrase_loop.simps) (simp add: p)
next
  case (Cons c cs)
  note c = chars_Cons [OF Cons.prems(1)]
  let ?p = "drop (length c) p" and ?t = "concat (map quoted cs) @ SEN_QUERY_QUOTER # r"
  have d: "drop s str = quoted c @ ?t" using Cons.prems(2) by simp
  note first = quoted_first [OF c(1) c(4) d]
  define s1 where "s1 = s + (length (quoted c) - length c)"
  have s1: "s \<le> s1" "drop s1 str = c @ ?t" "s1 + length c = s + length (quoted c)"
    using first d by (auto simp: s1_def quoted_def split: if_splits)
  have n: "s1 + length c \<le> length str" using s1(2) c(1)
    by (metis (no_types, opaque_lifting) append_is_Nil_conv drop_eq_Nil le_add_diff_inverse length_append length_drop
        nat_add_left_cancel_le nat_le_linear le_add1)
  have ds: "d \<le> s1" using Cons.prems(3) s1(1) by simp
  let ?str = "copy_down (length c) str s1 d"
  note cp = copy_down_parts [OF ds n]
  have step: "phrase_loop enc str s d = phrase_loop enc ?str (s1 + length c) (d + length c)"
  proof (cases "quoted c = c")
    case True
    then have "s1 = s" "s < length str" using s1(3) n c(1) by (auto simp: neq_Nil_conv)
    then show ?thesis using first True by (subst phrase_loop.simps) auto
  next
    case False
    then have e: "quoted c = SEN_QUERY_ESCAPE # c" by (simp add: quoted_def split: if_splits)
    then have "s1 = s + 1" using s1(3) by simp
    moreover have "SEN_QUERY_ESCAPE \<noteq> SEN_QUERY_QUOTER" by (simp add: query_chars)
    ultimately show ?thesis using first False by (subst phrase_loop.simps) auto
  qed
  have "drop (s1 + length c) ?str = drop (length c) (drop s1 str)"
    using cp(4) [of "s1 + length c"] ds by (simp add: add.commute)
  then have rest: "drop (s1 + length c) ?str = ?t" by (simp add: s1(2))
  obtain str' where r: "phrase_loop enc ?str (s1 + length c) (d + length c) =
      Some (str', d + length c + length ?p, s1 + length c + length (concat (map quoted cs)) + 1)"
    "take (d + length c + length ?p) str' = take (d + length c) ?str @ ?p"
    using Cons.IH [OF c(3) rest, of "d + length c"] ds by auto
  have len: "length c + length ?p = length p" using c(2) by (metis length_append)
  have "take (d + length c) ?str @ ?p = take d str @ c @ ?p"
    using cp(3) s1(2) by simp
  also have "c @ ?p = p" using c(2) by simp
  finally show ?case using r step s1(3) len by (simp add: add.assoc)
qed

section \<open>Tokens\<close>

text \<open>
  The next token behind a space: the character \<open>c\<close> decides.
\<close>

lemma get_token_at:
  assumes "q_rest q0 = 0x20 # c # r" "sen_isspace (Some (c # r)) (q_encoding q0) = 0" "c \<noteq> 0"
    and "q_cur_expr q0 < q_max_exprs q0" "q_cur_cell q0 < q_max_cells q0"
  shows "get_token (Suc fuel) q0 =
    (let q = q_step (q_step q0) in
     if c = SEN_QUERY_PARENR then Q_ok (Q_nil, q)
     else if c = SEN_QUERY_QUOTEL then q_cons (get_phrase q)
     else if c = SEN_QUERY_PREFIX then q_cons (get_op q (q_default_op q) DEFAULT_WEIGHT)
     else if c = SEN_QUERY_AND then q_cons (op_new q sen_sel_and DEFAULT_WEIGHT None 0)
     else if c = SEN_QUERY_BUT then q_cons (op_new q sen_sel_but DEFAULT_WEIGHT None 0)
     else if c = SEN_QUERY_ADJ_INC then q_cons (op_new q sen_sel_adjust 6 None 0)
     else if c = SEN_QUERY_ADJ_DEC then q_cons (op_new q sen_sel_adjust 4 None 0)
     else if c = SEN_QUERY_ADJ_NEG then q_cons (op_new q sen_sel_adjust (- 1) None 0)
     else if c = SEN_QUERY_PARENL then q_cons (get_expr fuel q)
     else q_cons (word_token (q_step q0)))"
proof -
  have sk: "skip_space q0 = q_step q0" by (rule skip_space_one [OF assms(1)]) (simp add: assms(2))
  have rest: "q_rest (q_step q0) = c # r" by (rule q_rest_step [OF assms(1)])
  have lt: "\<not> (q_cur_expr (q_step q0) \<ge> q_max_exprs (q_step q0) \<or> q_cur_cell (q_step q0) \<ge> q_max_cells (q_step q0) \<or>
      q_cur (q_step q0) \<ge> q_end (q_step q0))"
  proof -
    have "q_cur (q_step q0) < q_end (q_step q0)" using rest by (metis drop_eq_Nil list.distinct(1) not_le)
    then show ?thesis using assms(4,5) by (simp add: q_step_def)
  qed
  have w: "DEFAULT_WEIGHT = 5" by (simp add: DEFAULT_WEIGHT_def)
  have dop: "q_default_op (q_step q) = q_default_op q" for q by (simp add: q_step_def)
  show ?thesis
    unfolding get_token.simps Let_def sk rd_rest [OF rest] if_not_P [OF lt] if_not_P [OF assms(3)]
    by (simp add: w dop)
qed

text \<open>A step of the parser that leaves \<open>r\<close> and yields the tree \<open>t\<close>.\<close>

definition reads :: "sen_query \<Rightarrow> bytes \<Rightarrow> (qcell \<times> sen_query) q_run \<Rightarrow> q_tree \<Rightarrow> bool" where
  "reads q r res t \<longleftrightarrow>
     (\<exists>c q'. res = Q_ok (c, q') \<and> q_rest q' = r \<and> resolve (q_str q') c = t \<and>
        q_cur_cell q' = q_cur_cell q + tcells t \<and> q_max_cells q' = q_max_cells q)"

lemma cons_reads:
  assumes "reads q r res t" "q_cur_cell q + tcells t < q_max_cells q"
  shows "reads q r (q_cons res) (T_list t T_nil)"
  using assms by (auto simp: reads_def q_cons_def cons_def cell_new_def)

lemma op_reads:
  "q_cur_cell q < q_max_cells q \<Longrightarrow> reads q (q_rest q) (op_new q op w m opt) (T_op op w m opt)"
  by (simp add: reads_def op_new_def cell_new_def)

lemma token_reads:
  assumes "q_cur_cell q < q_max_cells q" "w \<noteq> []" "drop start (q_str q) = w @ r"
  shows "token_new q start (start + length w) =
    Q_ok (Q_bulk start (length w), q\<lparr>q_cur_cell := q_cur_cell q + 1, q_cur_expr := q_cur_expr q + 1\<rparr>)"
  using assms by (simp add: token_new_def cell_new_def)

lemma reads_from: "reads q1 r res t \<Longrightarrow> q_cur_cell q1 = q_cur_cell q \<Longrightarrow> q_max_cells q1 = q_max_cells q \<Longrightarrow> reads q r res t"
  by (simp add: reads_def)

lemma step_cells [simp]:
  "q_cur_cell (q_step q) = q_cur_cell q" "q_max_cells (q_step q) = q_max_cells q"
  "q_cur_expr (q_step q) = q_cur_expr q" "q_max_exprs (q_step q) = q_max_exprs q"
  "q_encoding (q_step q) = q_encoding q" "q_default_op (q_step q) = q_default_op q"
  "q_str (q_step q) = q_str q"
  by (simp_all add: q_step_def)

text \<open>A word in front of a space.\<close>

lemma get_word_reads:
  assumes "word_chars (q_encoding q) w" "w \<noteq> []" "q_rest q = w @ 0x20 # r" "q_cur_cell q < q_max_cells q"
  shows "get_word q = Q_ok ((Q_bulk (q_cur q) (length w),
    q\<lparr>q_cur := q_cur q + length w, q_cur_cell := q_cur_cell q + 1, q_cur_expr := q_cur_expr q + 1\<rparr>), False)"
proof -
  obtain cs where cs: "chars_of (q_encoding q) w = Some cs"
    "\<forall>c \<in> set cs. sen_isspace (Some c) (q_encoding q) = 0 \<and> hd c \<noteq> SEN_QUERY_PARENR \<and> hd c \<noteq> SEN_QUERY_PREFIX"
    using assms(1) by (auto simp: word_chars_def list_all_iff split: option.splits)
  note l = word_loop_reads [OF cs assms(3)]
  have "token_new (q\<lparr>q_cur := q_cur q + length w\<rparr>) (q_cur q) (q_cur q + length w) =
      Q_ok (Q_bulk (q_cur q) (length w), (q\<lparr>q_cur := q_cur q + length w\<rparr>)
        \<lparr>q_cur_cell := q_cur_cell q + 1, q_cur_expr := q_cur_expr q + 1\<rparr>)"
    by (rule trans [OF token_reads [where r = "0x20 # r"]]) (use assms in simp_all)
  then show ?thesis by (simp add: get_word_def l)
qed

lemma word_reads:
  assumes "word_chars (q_encoding q) w" "w \<noteq> []" "w \<noteq> [0x4f, 0x52]" "q_rest q = w @ 0x20 # r"
    and "q_cur_cell q < q_max_cells q"
  shows "reads q (0x20 # r) (word_token q) (T_text w)"
proof -
  let ?q = "q\<lparr>q_cur := q_cur q + length w, q_cur_cell := q_cur_cell q + 1, q_cur_expr := q_cur_expr q + 1\<rparr>"
  have "\<not> (rd (q_str q) (q_cur q) = 0x4f \<and> rd (q_str q) (q_cur q + 1) = 0x52 \<and> length w = 2)"
  proof
    assume a: "rd (q_str q) (q_cur q) = 0x4f \<and> rd (q_str q) (q_cur q + 1) = 0x52 \<and> length w = 2"
    then obtain x y where "w = [x, y]" by (auto simp: numeral_2_eq_2 length_Suc_conv)
    then show False using a assms(3,4) rd_drop [of "q_cur q" "q_str q" 0] rd_drop [of "q_cur q" "q_str q" 1] by simp
  qed
  then have "word_token q = Q_ok (Q_bulk (q_cur q) (length w), ?q)"
    using get_word_reads [OF assms(1,2,4,5)] by (auto simp: word_token_def or_token_def)
  moreover have "drop (q_cur q + length w) (q_str q) = 0x20 # r"
    using assms(4) by (metis add.commute append_eq_conv_conj drop_drop)
  ultimately show ?thesis using assms(4) by (simp add: reads_def)
qed

lemma or_reads:
  assumes "q_rest q = [0x4f, 0x52] @ 0x20 # r" "q_cur_cell q < q_max_cells q"
  shows "reads q (0x20 # r) (word_token q) (T_op sen_sel_or 5 None 0)"
proof -
  have w: "word_chars (q_encoding q) [0x4f, 0x52]"
  proof -
    have "chars_of (q_encoding q) [0x4f, 0x52] = Some [[0x4f], [0x52]]"
      using ascii_charlen [of "0x4f" _ "q_encoding q"] ascii_charlen [of "0x52" _ "q_encoding q"]
      by (simp add: split_chars.simps)
    then show ?thesis by (simp add: word_chars_def isspace_ascii query_chars)
  qed
  have "rd (q_str q) (q_cur q) = 0x4f" "rd (q_str q) (q_cur q + 1) = 0x52"
    using assms(1) rd_drop [of "q_cur q" "q_str q" 0] rd_drop [of "q_cur q" "q_str q" 1] by simp_all
  moreover have "drop (q_cur q + 2) (q_str q) = 0x20 # r"
    using arg_cong [OF assms(1), of "drop 2"] by (simp add: add.commute)
  ultimately show ?thesis
    using get_word_reads [OF w _ assms] assms(2)
    by (simp add: reads_def word_token_def or_token_def cell_del_def op_new_def cell_new_def DEFAULT_WEIGHT_def
        numeral_2_eq_2)
qed

lemma phrase_reads:
  assumes "chars_of (q_encoding q) p = Some cs" "p \<noteq> []"
    and "q_rest q = concat (map quoted cs) @ SEN_QUERY_QUOTER # r" "q_cur_cell q < q_max_cells q"
  shows "reads q r (get_phrase q) (T_text p)"
proof -
  let ?k = "length (concat (map quoted cs)) + 1"
  obtain str where l: "phrase_loop (q_encoding q) (q_str q) (q_cur q) (q_cur q) =
      Some (str, q_cur q + length p, q_cur q + length (concat (map quoted cs)) + 1)"
    and t: "take (q_cur q + length p) str = take (q_cur q) (q_str q) @ p"
    using phrase_loop_reads [OF assms(1,3) order.refl] by auto
  have lt: "q_cur q < q_end q" using assms(3) by (cases "q_cur q < q_end q") auto
  have po: "drop (q_cur q + ?k) str = drop (q_cur q + ?k) (q_str q)"
    using phrase_loop_ok [OF l] lt by (simp add: phrase_post_def)
  have "drop (q_cur q + ?k) (q_str q) = drop ?k (q_rest q)" by (simp add: add.commute)
  also have "\<dots> = r" unfolding assms(3) by simp
  finally have rest: "drop (q_cur q + ?k) str = r" using po by simp
  have p: "take (length p) (drop (q_cur q) str) = p"
    using arg_cong [OF t, of "drop (q_cur q)"] lt by (simp add: take_drop [symmetric] drop_take)
  let ?q = "q\<lparr>q_str := str, q_cur := q_cur q + ?k\<rparr>"
  have "drop (q_cur q) (q_str ?q) = p @ drop (q_cur q + length p) str"
    using p append_take_drop_id [of "length p" "drop (q_cur q) str"] by (simp add: add.commute)
  then have "token_new ?q (q_cur q) (q_cur q + length p) =
      Q_ok (Q_bulk (q_cur q) (length p), ?q\<lparr>q_cur_cell := q_cur_cell ?q + 1, q_cur_expr := q_cur_expr ?q + 1\<rparr>)"
    using assms(2,4) by (intro token_reads) simp_all
  then show ?thesis using p rest by (simp add: get_phrase_def l reads_def add.assoc)
qed

lemma dec_int_nonempty [simp]: "dec_int n \<noteq> []"
  by (simp add: dec_int_def)

lemma mode_reads:
  assumes "c \<in> set [0x53, 0x4e, 0x6e, 0x54]" "- 2147483647 \<le> n" "n \<le> 2147483647"
    and "q_rest q = c # dec_int n @ 0x20 # r" "q_cur_cell q < q_max_cells q"
  shows "reads q (0x20 # r) (get_op q op w) (T_op op w (Some (mode_of c)) n)"
proof -
  have d: "drop (q_cur q + 1) (q_str q) = dec_int n @ 0x20 # r"
    using q_rest_step [OF assms(4)] by (simp add: q_step_def)
  have "\<not> is_digit 0x20" by (simp add: is_digit_def)
  then have a: "sen_atoi (drop (q_cur q + 1) (q_str q)) = (n, length (dec_int n))"
    unfolding d using assms(2,3) by (intro atoi_dec_int) simp_all
  let ?q = "q\<lparr>q_cur := q_cur q + 1 + length (dec_int n)\<rparr>"
  have "q_rest ?q = 0x20 # r"
    using arg_cong [OF d, of "drop (length (dec_int n))"] by (simp add: add.commute)
  then have "reads q (0x20 # r) (op_new ?q op w (Some (mode_of c)) n) (T_op op w (Some (mode_of c)) n)"
    using reads_from [OF op_reads [of ?q op w "Some (mode_of c)" n], of q] assms(5) by simp
  then show ?thesis
    using assms(1) unfolding get_op_def Let_def a rd_rest [OF assms(4)] by (auto simp: mode_of_def)
qed

lemma sign_reads:
  assumes "c \<in> set signs" "q_rest q0 = 0x20 # c # r"
    and "q_cur_expr q0 < q_max_exprs q0" "q_cur_cell q0 + 1 < q_max_cells q0"
  shows "reads q0 r (get_token (Suc fuel) q0) (T_list (sign_tree c) T_nil)"
proof -
  let ?q = "q_step (q_step q0)"
  have c: "sen_isspace (Some (c # r)) (q_encoding q0) = 0" "c \<noteq> 0"
    using assms(1) by (auto simp: signs_def query_chars intro!: isspace_ascii)
  have rest: "q_rest ?q = r" using assms(2) q_rest_step by blast
  have "reads q0 r (q_cons (op_new ?q op w None 0)) (T_list (T_op op w None 0) T_nil)" for op w
    using reads_from [OF cons_reads [OF op_reads [of ?q op w None 0]], of q0] rest assms(4) by simp
  then show ?thesis
    using assms(1) get_token_at [OF assms(2) c assms(3)] assms(4)
    by (auto simp: signs_def sign_tree_def query_chars DEFAULT_WEIGHT_def)
qed

section \<open>Items\<close>

text \<open>
  What is needed to read an item behind a space: room in the pool and for its texts, and fuel.
\<close>

definition item_room :: "sen_query \<Rightarrow> nat \<Rightarrow> q_tree \<Rightarrow> bool" where
  "item_room q fuel t \<longleftrightarrow>
     q_inv False q \<and> 2 * length (q_rest q) < fuel \<and>
     q_cur_cell q + tcells t < q_max_cells q \<and> q_cur_expr q + length (ttexts t) < q_max_exprs q"

definition item_reads :: "sen_encoding \<Rightarrow> q_item \<Rightarrow> bool" where
  "item_reads enc i \<longleftrightarrow>
     (\<forall>q fuel r. item_ok enc i \<longrightarrow> q_encoding q = enc \<longrightarrow> q_rest q = 0x20 # print_item enc i @ 0x20 # r \<longrightarrow>
        item_room q fuel (T_list (tree_of (q_default_op q) i) T_nil) \<longrightarrow>
        reads q (0x20 # r) (get_token fuel q) (T_list (tree_of (q_default_op q) i) T_nil))"

lemma item_readsI:
  assumes "\<And>q fuel r. item_ok enc i \<Longrightarrow> q_encoding q = enc \<Longrightarrow> q_rest q = 0x20 # print_item enc i @ 0x20 # r \<Longrightarrow>
      item_room q (Suc fuel) (T_list (tree_of (q_default_op q) i) T_nil) \<Longrightarrow>
      reads q (0x20 # r) (get_token (Suc fuel) q) (T_list (tree_of (q_default_op q) i) T_nil)"
  shows "item_reads enc i"
proof -
  have "item_room q 0 t \<Longrightarrow> False" for q t by (simp add: item_room_def)
  then show ?thesis unfolding item_reads_def using assms by (metis not0_implies_Suc)
qed

lemma word_item: "item_reads enc (I_word w)"
proof (rule item_readsI)
  fix q fuel r
  assume ok: "item_ok enc (I_word w)" and enc: "q_encoding q = enc"
    and rest: "q_rest q = 0x20 # print_item enc (I_word w) @ 0x20 # r"
    and room: "item_room q (Suc fuel) (T_list (tree_of (q_default_op q) (I_word w)) T_nil)"
  obtain c v where w: "w = c # v" using ok by (cases w) auto
  obtain cs where cs: "chars_of enc w = Some cs" "\<forall>c \<in> set cs. sen_isspace (Some c) enc = 0 \<and>
      hd c \<noteq> SEN_QUERY_PARENR \<and> hd c \<noteq> SEN_QUERY_PREFIX"
    using ok by (auto simp: word_chars_def list_all_iff split: option.splits)
  then obtain d ds where ds: "cs = d # ds" using w by (cases cs) (auto dest: delimited_reader.split_concat)
  note d = chars_Cons [OF cs(1) [unfolded ds]]
  have wd: "w @ 0x20 # r = d @ (drop (length d) w @ 0x20 # r)" using d(2) by (metis append_assoc)
  have sp: "sen_isspace (Some (w @ 0x20 # r)) (q_encoding q) = 0"
    unfolding wd enc using isspace_local [of d enc] d(4) [of "[]"] d(1) cs(2) ds by simp
  have c: "c = hd d" using d(1,2) w by (cases d) auto
  have special: "c \<notin> set (0 # SEN_QUERY_QUOTEL # SEN_QUERY_PARENL # signs)" "c \<noteq> SEN_QUERY_PARENR" "c \<noteq> SEN_QUERY_PREFIX"
    using ok cs(2) c ds by (simp_all add: w)
  have rest': "q_rest q = 0x20 # c # v @ 0x20 # r" using rest by (simp add: w)
  have "reads (q_step q) (0x20 # r) (word_token (q_step q)) (T_text w)"
    using ok enc q_rest_step [OF rest'] room by (intro word_reads) (simp_all add: w item_room_def)
  from reads_from [OF cons_reads [OF this], of q]
  show "reads q (0x20 # r) (get_token (Suc fuel) q) (T_list (tree_of (q_default_op q) (I_word w)) T_nil)"
    using get_token_at [OF rest', of fuel] sp special room by (simp add: w item_room_def signs_def)
qed

lemma or_item: "item_reads enc I_or"
proof (rule item_readsI)
  fix q fuel r
  assume rest: "q_rest q = 0x20 # print_item enc I_or @ 0x20 # r"
    and room: "item_room q (Suc fuel) (T_list (tree_of (q_default_op q) I_or) T_nil)"
  have rest': "q_rest q = 0x20 # 0x4f # 0x52 # 0x20 # r" using rest by simp
  have "reads (q_step q) (0x20 # r) (word_token (q_step q)) (T_op sen_sel_or 5 None 0)"
    using q_rest_step [OF rest'] room by (intro or_reads) (simp_all add: item_room_def)
  from reads_from [OF cons_reads [OF this], of q]
  show "reads q (0x20 # r) (get_token (Suc fuel) q) (T_list (tree_of (q_default_op q) I_or) T_nil)"
    using get_token_at [OF rest', of fuel] room by (simp add: item_room_def isspace_ascii query_chars)
qed

lemma sign_item: "item_reads enc (I_sign c)"
  by (rule item_readsI) (use sign_reads in \<open>simp add: item_room_def\<close>)

lemma phrase_item: "item_reads enc (I_phrase p)"
proof (rule item_readsI)
  fix q fuel r
  assume ok: "item_ok enc (I_phrase p)" and enc: "q_encoding q = enc"
    and rest: "q_rest q = 0x20 # print_item enc (I_phrase p) @ 0x20 # r"
    and room: "item_room q (Suc fuel) (T_list (tree_of (q_default_op q) (I_phrase p)) T_nil)"
  obtain cs where cs: "chars_of (q_encoding q) p = Some cs" using ok enc by auto
  let ?q = "q_step (q_step q)"
  have rest': "q_rest q = 0x20 # SEN_QUERY_QUOTEL # concat (map quoted cs) @ SEN_QUERY_QUOTER # 0x20 # r"
    using rest cs enc by simp
  have "reads ?q (0x20 # r) (get_phrase ?q) (T_text p)"
    using phrase_reads [of ?q p cs "0x20 # r"] cs ok q_rest_step [OF q_rest_step [OF rest']] room
    by (simp add: item_room_def)
  from reads_from [OF cons_reads [OF this], of q]
  show "reads q (0x20 # r) (get_token (Suc fuel) q) (T_list (tree_of (q_default_op q) (I_phrase p)) T_nil)"
    using get_token_at [OF rest', of fuel] room by (simp add: item_room_def isspace_ascii query_chars)
qed

lemma mode_item: "item_reads enc (I_mode c n)"
proof (rule item_readsI)
  fix q fuel r
  assume ok: "item_ok enc (I_mode c n)"
    and rest: "q_rest q = 0x20 # print_item enc (I_mode c n) @ 0x20 # r"
    and room: "item_room q (Suc fuel) (T_list (tree_of (q_default_op q) (I_mode c n)) T_nil)"
  let ?q = "q_step (q_step q)"
  have rest': "q_rest q = 0x20 # SEN_QUERY_PREFIX # c # dec_int n @ 0x20 # r" using rest by simp
  have "reads ?q (0x20 # r) (get_op ?q (q_default_op q) 5) (T_op (q_default_op q) 5 (Some (mode_of c)) n)"
    using q_rest_step [OF q_rest_step [OF rest']] ok room by (intro mode_reads) (simp_all add: item_room_def)
  from reads_from [OF cons_reads [OF this], of q]
  show "reads q (0x20 # r) (get_token (Suc fuel) q) (T_list (tree_of (q_default_op q) (I_mode c n)) T_nil)"
    using get_token_at [OF rest', of fuel] room
    by (simp add: item_room_def isspace_ascii query_chars DEFAULT_WEIGHT_def)
qed

lemma print_items_Cons:
  "print_items enc (i # is) @ 0x20 # tail = 0x20 # print_item enc i @ (print_items enc is @ 0x20 # tail)"
  by (simp add: print_items_def)

lemma print_items_space: "\<exists>r. print_items enc is @ 0x20 # tail = 0x20 # r"
  by (cases "is") (simp_all add: print_items_def)

text \<open>The end of an expression: the end of the string, or a closing parenthesis.\<close>

lemma end_reads:
  assumes "q_rest q = 0x20 # tail" "tail = [] \<or> hd tail = SEN_QUERY_PARENR"
    and "q_cur_cell q < q_max_cells q" "q_cur_expr q < q_max_exprs q"
  shows "reads q (tl tail) (get_expr (Suc (Suc fuel)) q) T_nil"
proof (cases tail)
  case Nil
  have sk: "skip_space q = q_step q" by (rule skip_space_one [OF assms(1)]) (simp add: Nil)
  have rest: "q_rest (q_step q) = []" using q_rest_step [OF assms(1)] Nil by simp
  then have g: "q_cur_expr (q_step q) \<ge> q_max_exprs (q_step q) \<or> q_cur_cell (q_step q) \<ge> q_max_cells (q_step q) \<or>
      q_cur (q_step q) \<ge> q_end (q_step q)" by simp
  have "get_token (Suc fuel) q = Q_ok (Q_nil, q_step q)"
    unfolding get_token.simps Let_def sk if_P [OF g] ..
  then show ?thesis using rest Nil by (simp add: reads_def)
next
  case (Cons c t)
  have rest: "q_rest q = 0x20 # SEN_QUERY_PARENR # t" using assms(1,2) Cons by simp
  have "get_token (Suc fuel) q = Q_ok (Q_nil, q_step (q_step q))"
    using get_token_at [OF rest, of fuel] assms(3,4) by (simp add: isspace_ascii query_chars)
  then show ?thesis using q_rest_step [OF q_rest_step [OF rest]] Cons by (simp add: reads_def)
qed

lemma items_read:
  assumes "\<forall>i \<in> set is. item_reads enc i" "list_all (item_ok enc) is" "q_encoding q = enc"
    and "q_rest q = print_items enc is @ 0x20 # tail" "tail = [] \<or> hd tail = SEN_QUERY_PARENR"
    and "item_room q fuel (tree_list (map (tree_of (q_default_op q)) is))" "2 * length (q_rest q) + 1 < fuel"
  shows "reads q (tl tail) (get_expr fuel q) (tree_list (map (tree_of (q_default_op q)) is))"
  using assms
proof (induction "is" arbitrary: q fuel)
  case Nil
  obtain f where f: "fuel = Suc (Suc f)" using Nil(4,7) that [of "fuel - 2"] by (simp add: print_items_def)
  have "q_rest q = 0x20 # tail" using Nil(4) by (simp add: print_items_def)
  then show ?case using end_reads [of q tail f] Nil(5,6) by (simp add: f item_room_def)
next
  case (Cons i "is")
  obtain f where f: "fuel = Suc f" using Cons.prems(7) by (cases fuel) auto
  let ?d = "q_default_op q"
  let ?t = "tree_of ?d i" and ?T = "tree_list (map (tree_of ?d) is)"
  obtain r where r: "print_items enc is @ 0x20 # tail = 0x20 # r" using print_items_space by blast
  have rest: "q_rest q = 0x20 # print_item enc i @ 0x20 # r"
    using Cons.prems(4) unfolding print_items_Cons r .
  have room: "item_room q f (T_list ?t T_nil)" using Cons.prems(6,7) by (simp add: item_room_def f)
  have inv: "q_inv False q" using Cons.prems(6) by (simp add: item_room_def)
  obtain c q1 where t: "get_token f q = Q_ok (c, q1)" "q_rest q1 = 0x20 # r" "resolve (q_str q1) c = T_list ?t T_nil"
  proof -
    have "item_reads enc i" "item_ok enc i" using Cons.prems(1,2) by simp_all
    then have "reads q (0x20 # r) (get_token f q) (T_list ?t T_nil)"
      using Cons.prems(3) rest room unfolding item_reads_def by blast
    then show ?thesis using that unfolding reads_def by blast
  qed
  then obtain c1 where c1: "c = Q_list c1 Q_nil" "resolve (q_str q1) c1 = ?t"
  proof (cases c)
    case (Q_list a d)
    then show ?thesis using t(3) that by (cases d) auto
  qed (use t(3) in auto)
  have "2 * (q_end q - q_cur q) < f" using room by (simp add: item_room_def)
  from parser_ok(1) [OF inv this] have tok: "tok False q c q1" by (simp add: t(1) tok_step_def)
  have n: "ncells c1 = tcells ?t" "length (qbulks c1) = length (ttexts ?t)"
    using c1(2) tcells_resolve [of "q_str q1" c1] ttexts_resolve [of "q_str q1" c1] by simp_all
  have m: "moved q q1" "q_cur_cell q1 = q_cur_cell q + Suc (tcells ?t)"
    "q_cur_expr q1 = q_cur_expr q + length (ttexts ?t)" "q_cur_cell q1 \<le> q_max_cells q"
    using tok n by (simp_all add: tok_def c1)
  have same: "q_encoding q1 = enc" "q_default_op q1 = ?d" "q_max_cells q1 = q_max_cells q" "q_max_exprs q1 = q_max_exprs q"
    "q_cur q1 \<le> q_end q1"
    using m(1) Cons.prems(3) by (simp_all add: moved_def)
  have fuel1: "2 * length (q_rest q1) + 1 < f"
  proof -
    have "length (q_rest q1) < length (q_rest q)" unfolding t(2) rest by simp
    then show ?thesis using Cons.prems(7) unfolding f by linarith
  qed
  have "item_room q1 f ?T"
    using Cons.prems(6) m same fuel1 by (simp add: item_room_def q_inv_def safe_rest_def)
  then have IH: "reads q1 (tl tail) (get_expr f q1) ?T"
    using Cons.IH [of q1 f] Cons.prems(1,2,5) same t(2) r fuel1 by simp
  then obtain c2 q2 where e: "get_expr f q1 = Q_ok (c2, q2)" "q_rest q2 = tl tail" "resolve (q_str q2) c2 = ?T"
    "q_cur_cell q2 = q_cur_cell q1 + tcells ?T" "q_max_cells q2 = q_max_cells q1"
    unfolding reads_def by blast
  have "q_inv False q1" using same m(4) by (simp add: q_inv_def safe_rest_def)
  moreover have "2 * (q_end q1 - q_cur q1) + 1 < f" using fuel1 by simp
  ultimately have "tok False q1 c2 q2" using parser_ok(2) [of False q1 f] by (simp add: e(1))
  then have "take (q_cur q1) (q_str q2) = take (q_cur q1) (q_str q1)" by (simp add: tok_def moved_def)
  moreover have "\<forall>(a, n) \<in> set (qbulks c1). a + n \<le> q_cur q1" using tok by (auto simp: tok_def c1)
  ultimately have "resolve (q_str q2) c1 = ?t" using resolve_cong [of c1 "q_cur q1" "q_str q2" "q_str q1"] c1(2) by simp
  then show ?case
    using t(1) c1(1) e m(2) same(3) by (simp add: f reads_def POP_def)
qed

lemma group_item:
  assumes "\<And>i. i \<in> set is \<Longrightarrow> item_reads enc i"
  shows "item_reads enc (I_group is)"
proof (rule item_readsI)
  fix q fuel r
  assume ok: "item_ok enc (I_group is)" and enc: "q_encoding q = enc"
    and rest: "q_rest q = 0x20 # print_item enc (I_group is) @ 0x20 # r"
    and room: "item_room q (Suc fuel) (T_list (tree_of (q_default_op q) (I_group is)) T_nil)"
  let ?q = "q_step (q_step q)"
  let ?T = "tree_list (map (tree_of (q_default_op q)) is)"
  have rest': "q_rest q = 0x20 # SEN_QUERY_PARENL # print_items enc is @ 0x20 # SEN_QUERY_PARENR # 0x20 # r"
    using rest by (simp add: print_items_def)
  have rest2: "q_rest ?q = print_items enc is @ 0x20 # SEN_QUERY_PARENR # 0x20 # r"
    by (rule q_rest_step [OF q_rest_step [OF rest']])
  have "length (q_rest ?q) + 2 = length (q_rest q)" unfolding rest2 rest' by simp
  then have fuel: "2 * length (q_rest ?q) + 1 < fuel" using room unfolding item_room_def by linarith
  have le: "q_cur ?q \<le> q_end ?q" using rest2 by (cases "q_cur ?q \<le> q_end ?q") auto
  have "item_room ?q fuel ?T"
    using room fuel le by (simp add: item_room_def q_inv_def safe_rest_def)
  then have "reads ?q (tl (SEN_QUERY_PARENR # 0x20 # r)) (get_expr fuel ?q) (tree_list (map (tree_of (q_default_op ?q)) is))"
    using assms ok enc rest2 fuel by (intro items_read) simp_all
  then have "reads ?q (0x20 # r) (get_expr fuel ?q) ?T" by simp
  from reads_from [OF cons_reads [OF this], of q]
  show "reads q (0x20 # r) (get_token (Suc fuel) q) (T_list (tree_of (q_default_op q) (I_group is)) T_nil)"
    using get_token_at [OF rest', of fuel] room by (simp add: item_room_def isspace_ascii query_chars)
qed

lemma every_item_reads: "item_reads enc i"
  by (induction i) (auto intro: word_item phrase_item or_item sign_item mode_item group_item)

section \<open>Opening what was printed\<close>

text \<open>\<open>sen_query_term\<close> gives the texts in their order.\<close>

lemma query_term_texts: "proper c \<Longrightarrow> query_term_rec (\<lambda>_. True) str c = (True, ttexts (resolve str c))"
proof (induction c)
  case (Q_list a d)
  then show ?case by (cases d) (simp_all add: is_list_def)
qed simp_all

lemma open_items:
  assumes "\<forall>n. alloc n" "list_all (item_ok enc) is"
    and "str = print_items enc is @ [0x20]" "tree = tree_list (map (tree_of op) is)"
    and "length (ttexts tree) < m" "tcells tree < 4 * m" "2 * length str + 1 < fuel"
  obtains q where "sen_query_open alloc sz blk threshold fuel (str @ t) (length str) op m enc = Q_ok (Some q)"
    "resolve (q_str q) (q_expr q) = tree" "query_ok q" "q_rest q = []" "q_encoding q = enc"
    "q_default_op q = op" "q_snip_conds q = None"
    "so_weight_vector (q_opt q) = None" "q_weight_offset q = 0"
proof -
  let ?q = "query_init blk threshold str op m enc"
  have q: "q_str ?q = str" "q_cur ?q = 0" "q_encoding ?q = enc" "q_default_op ?q = op" "q_max_exprs ?q = m"
    "q_max_cells ?q = 4 * m" "q_cur_cell ?q = 0" "q_cur_expr ?q = 0" "so_weight_vector (q_opt ?q) = None"
    "q_weight_offset ?q = 0"
    by (simp_all add: query_init_def)
  obtain r where r: "str = 0x20 # r" using print_items_space [of enc "is" "[]"] assms(3) by auto
  have prag: "get_pragma alloc ?q = Some ?q"
    using q(1) r unfolding get_pragma_def q(2) by (subst pragma_loop.simps) (simp add: query_chars)
  have room: "item_room ?q fuel tree"
    using assms(5-7) by (simp add: item_room_def q q_inv_def safe_rest_def)
  have T: "tree = tree_list (map (tree_of (q_default_op ?q)) is)" using assms(4) q(4) by simp
  have rest: "q_rest ?q = print_items enc is @ 0x20 # []" using q(1,2) assms(3) by simp
  have fuel: "2 * length (q_rest ?q) + 1 < fuel" using assms(7) q(1,2) by simp
  have "reads ?q (tl []) (get_expr fuel ?q) tree"
    unfolding T
  proof (rule items_read [OF _ assms(2) q(3) rest disjI1 [OF refl] _ fuel])
    show "\<forall>i \<in> set is. item_reads enc i" using every_item_reads by blast
    show "item_room ?q fuel (tree_list (map (tree_of (q_default_op ?q)) is))" using room unfolding T .
  qed
  then have "reads ?q [] (get_expr fuel ?q) tree" by simp
  then obtain c q' where e: "get_expr fuel ?q = Q_ok (c, q')" "q_rest q' = []" "resolve (q_str q') c = tree"
    unfolding reads_def by blast
  have "q_inv False ?q" "2 * (q_end ?q - q_cur ?q) + 1 < fuel" using room fuel by (simp_all add: item_room_def)
  then have tok: "tok False ?q c q'" using parser_ok(2) [of False ?q fuel] by (simp add: e(1))
  then have t: "q_encoding q' = enc" "q_default_op q' = op" using q by (simp_all add: tok_def moved_def)
  have k: "q_opt q' = q_opt ?q" "q_weight_offset q' = q_weight_offset ?q"
    using parser_keeps(2) [of ?q fuel] by (simp_all add: e(1) keeps_def)
  show ?thesis
  proof (rule that)
    show "sen_query_open alloc sz blk threshold fuel (str @ t) (length str) op m enc = Q_ok (Some (open_finish c q'))"
      using assms(1) prag e(1) by (simp add: sen_query_open_def open_finish_def)
    show "query_ok (open_finish c q')" by (rule open_query_ok(1) [OF e(1) tok q(7,8)])
  qed (use e t k q in \<open>simp_all add: open_finish_def\<close>)
qed

text \<open>
  C3: what is printed is read back. For every list of items (words, phrases with any characters,
  operators, modes with their options, groups nested to any depth) with fewer texts than
  \<open>max_exprs\<close> and fewer cells than the pool, \<open>sen_query_open\<close> on their print returns a query
  whose cells are those of the items: the operators with their weights and modes, and texts which,
  read in the string after the phrases have been unquoted in place, are the words and phrases.
  Nothing of the string is left, and \<open>sen_query_term\<close> passes the texts in the order they have.
\<close>

theorem sen_query_open_reads:
  assumes "\<forall>n. alloc n" "list_all (item_ok enc) is"
    and "str = print_items enc is @ [0x20]" "tree = tree_list (map (tree_of op) is)"
    and "length (ttexts tree) < m" "tcells tree < 4 * m" "2 * length str + 1 < fuel"
  shows "\<exists>q. sen_query_open alloc sz blk threshold fuel (str @ t) (length str) op m enc = Q_ok (Some q) \<and>
    resolve (q_str q) (q_expr q) = tree \<and> fst (sen_query_rest (Some q)) = 0 \<and>
    sen_query_term q (\<lambda>_. True) = ttexts tree"
proof -
  obtain q where "sen_query_open alloc sz blk threshold fuel (str @ t) (length str) op m enc = Q_ok (Some q)"
    "resolve (q_str q) (q_expr q) = tree" "query_ok q" "q_rest q = []"
    by (rule open_items [OF assms])
  then show ?thesis
    using query_term_texts [of "q_expr q" "q_str q"] by (simp add: sen_query_rest_def sen_query_term_def query_ok_def)
qed

text \<open>
  The query \<open>a OR "b\"" -(*N3 c)\<close>.
\<close>

definition example_items :: "q_item list" where
  "example_items =
     [I_word [0x61], I_or, I_phrase [0x62, 0x22], I_sign 0x2d, I_group [I_mode 0x4e 3, I_word [0x63]]]"

theorem sen_query_open_reads_witness:
  "\<exists>q. sen_query_open (\<lambda>_. True) 1000 example_weights 0 100
      ([0x20, 0x61, 0x20, 0x4f, 0x52, 0x20, 0x22, 0x62, 0x5c, 0x22, 0x22, 0x20, 0x2d, 0x20, 0x28,
        0x20, 0x2a, 0x4e, 0x33, 0x20, 0x63, 0x20, 0x29, 0x20] @ [0x78]) 24 sen_sel_and 32 sen_enc_euc_jp = Q_ok (Some q) \<and>
    sen_query_term q (\<lambda>_. True) = [[0x61], [0x62, 0x22], [0x63]]"
proof -
  let ?t = "tree_list (map (tree_of sen_sel_and) example_items)"
  have c: "chars_of sen_enc_euc_jp [0x61] = Some [[0x61]]" "chars_of sen_enc_euc_jp [0x63] = Some [[0x63]]"
    "chars_of sen_enc_euc_jp [0x62, 0x22] = Some [[0x62], [0x22]]"
    by (simp_all add: split_chars.simps sen_str_charlen_nonnull_def)
  have p: "print_items sen_enc_euc_jp example_items @ [0x20] =
      [0x20, 0x61, 0x20, 0x4f, 0x52, 0x20, 0x22, 0x62, 0x5c, 0x22, 0x22, 0x20, 0x2d, 0x20, 0x28,
       0x20, 0x2a, 0x4e, 0x33, 0x20, 0x63, 0x20, 0x29, 0x20]"
    by (simp add: print_items_def example_items_def c query_chars quoted_def dec_int_def dec.simps dig_def)
  have ok: "list_all (item_ok sen_enc_euc_jp) example_items"
    by (simp add: example_items_def c signs_def word_chars_def query_chars isspace_ascii)
  have t: "ttexts ?t = [[0x61], [0x62, 0x22], [0x63]]" "tcells ?t = 13"
    by (simp_all add: example_items_def sign_tree_def query_chars)
  have len: "length [0x20, 0x61, 0x20, 0x4f, 0x52, 0x20, 0x22, 0x62, 0x5c, 0x22, 0x22, 0x20, 0x2d, 0x20, 0x28,
      0x20, 0x2a, 0x4e, 0x33, 0x20, 0x63, 0x20, 0x29, 0x20 :: byte] = 24"
    by simp
  show ?thesis
    using sen_query_open_reads [OF _ ok p [symmetric] refl, of "\<lambda>_. True" sen_sel_and 32 100 1000 example_weights 0 "[0x78]",
        unfolded len] t
    by auto
qed

end
