(* ===== verification/Query_Pool.thy ===== *)
theory Query_Pool
  imports Query_Print
begin

text \<open>
  The pool of cells: \<open>cell_new\<close> compares with \<open><=\<close>, so that it can give out one cell too many.
  Four cells per text are always enough for words and phrases, but not for operators.
\<close>

declare get_token.simps [simp del] get_expr.simps [simp del]

lemma close_group:
  assumes "q_rest q = 0x20 # SEN_QUERY_PARENR # t" "q_cur_cell q < q_max_cells q" "q_cur_expr q < q_max_exprs q"
  shows "get_expr (Suc (Suc fuel)) q = Q_ok (Q_nil, q_step (q_step q))"
  using get_token_at [OF assms(1), of fuel] assms(2,3)
  by (simp add: isspace_ascii query_chars get_expr.simps(2) [of "Suc fuel"])

lemma plus_token:
  assumes "q_rest q = 0x20 # SEN_QUERY_AND # r" "q_cur_cell q < q_max_cells q" "q_cur_expr q < q_max_exprs q"
  shows "get_token (Suc fuel) q =
    (if q_cur_cell q + 1 = q_max_cells q then Q_overlap
     else Q_ok (Q_list (Q_op sen_sel_and 5 None 0) Q_nil,
            (q_step (q_step q))\<lparr>q_cur_cell := q_cur_cell q + 2\<rparr>))"
  using get_token_at [OF assms(1), of fuel] assms(2,3)
  by (auto simp: isspace_ascii query_chars DEFAULT_WEIGHT_def q_cons_def op_new_def cons_def cell_new_def)

lemma plus_overlap:
  assumes "q_rest q = print_items enc (replicate (Suc k) (I_sign SEN_QUERY_AND)) @ [0x20]"
    and "q_cur_cell q + 2 * Suc k = q_max_cells q + 1" "q_cur_expr q < q_max_exprs q" "k + 2 \<le> fuel"
  shows "get_expr fuel q = Q_overlap"
  using assms
proof (induction k arbitrary: q fuel)
  case 0
  obtain f where f: "fuel = Suc (Suc f)" using 0(4) that [of "fuel - 2"] by simp
  have "q_rest q = 0x20 # SEN_QUERY_AND # [0x20]" using 0(1) by (simp add: print_items_def)
  from plus_token [OF this, of f] show ?case
    using 0(2,3) unfolding f get_expr.simps(2) [of "Suc f"] by simp
next
  case (Suc k)
  obtain f where f: "fuel = Suc (Suc f)" using Suc.prems(4) that [of "fuel - 2"] by simp
  let ?r = "print_items enc (replicate (Suc k) (I_sign SEN_QUERY_AND)) @ [0x20]"
  have rest: "q_rest q = 0x20 # SEN_QUERY_AND # ?r" using Suc.prems(1) by (simp add: print_items_def)
  let ?q = "(q_step (q_step q))\<lparr>q_cur_cell := q_cur_cell q + 2\<rparr>"
  have "q_rest ?q = ?r" using q_rest_step [OF q_rest_step [OF rest]] by simp
  then have "get_expr (Suc f) ?q = Q_overlap"
    using Suc.prems(2-4) by (intro Suc.IH) (simp_all add: f)
  moreover have "get_token (Suc f) q = Q_ok (Q_list (Q_op sen_sel_and 5 None 0) Q_nil, ?q)"
    using plus_token [OF rest, of f] Suc.prems(2,3) by simp
  ultimately show ?case
    unfolding f get_expr.simps(2) [of "Suc f"] by (simp add: POP_def)
qed

text \<open>
  C39: for every \<open>max_exprs\<close> there is a query on which the parser stores into a cell outside the
  pool, over the first bytes of the string it is parsing: an empty group followed by
  \<open>2 * max_exprs\<close> signs.
\<close>

theorem sen_query_open_overlaps:
  assumes "\<forall>n. alloc n" "0 < m"
    and "str = print_items enc (I_group [] # replicate (2 * m) (I_sign SEN_QUERY_AND)) @ [0x20]"
    and "2 * m + 3 \<le> fuel"
  shows "sen_query_open alloc sz blk threshold fuel str (length str) op m enc = Q_overlap"
proof -
  let ?q = "query_init blk threshold str op m enc"
  have q: "q_str ?q = str" "q_cur ?q = 0" "q_max_exprs ?q = m" "q_max_cells ?q = 4 * m" "q_cur_cell ?q = 0"
    "q_cur_expr ?q = 0"
    by (simp_all add: query_init_def)
  let ?r = "print_items enc (replicate (2 * m) (I_sign SEN_QUERY_AND)) @ [0x20]"
  have str: "str = 0x20 # SEN_QUERY_PARENL # 0x20 # SEN_QUERY_PARENR # ?r"
    using assms(3) by (simp add: print_items_def)
  have prag: "get_pragma alloc ?q = Some ?q"
    using q(1) str unfolding get_pragma_def q(2) by (subst pragma_loop.simps) (simp add: query_chars)
  obtain f where f: "fuel = Suc (Suc (Suc (Suc f)))" "2 * m \<le> Suc f"
    using assms(2,4) that [of "fuel - 4"] by simp
  have rest: "q_rest ?q = 0x20 # SEN_QUERY_PARENL # 0x20 # SEN_QUERY_PARENR # ?r" using q(1,2) str by simp
  let ?q2 = "q_step (q_step ?q)" and ?q5 = "(q_step (q_step (q_step (q_step ?q))))\<lparr>q_cur_cell := 1\<rparr>"
  have rest2: "q_rest ?q2 = 0x20 # SEN_QUERY_PARENR # ?r" by (rule q_rest_step [OF q_rest_step [OF rest]])
  have "get_token (Suc (Suc (Suc f))) ?q = q_cons (get_expr (Suc (Suc f)) ?q2)"
    using get_token_at [OF rest, of "Suc (Suc f)"] q assms(2) by (simp add: isspace_ascii query_chars)
  also have "\<dots> = Q_ok (Q_list Q_nil Q_nil, ?q5)"
    using close_group [OF rest2, of f] q assms(2) by (simp add: q_cons_def cons_def cell_new_def)
  finally have tok: "get_token (Suc (Suc (Suc f))) ?q = Q_ok (Q_list Q_nil Q_nil, ?q5)" .
  obtain k where k: "2 * m = Suc k" using assms(2) by (cases "2 * m") auto
  have "q_rest ?q5 = ?r" using q_rest_step [OF q_rest_step [OF rest2]] by simp
  then have "get_expr (Suc (Suc (Suc f))) ?q5 = Q_overlap"
    using f(2) q assms(2) k by (intro plus_overlap [where k = k]) simp_all
  then have "get_expr fuel ?q = Q_overlap" 
    unfolding f(1) get_expr.simps(2) [of "Suc (Suc (Suc f))"] tok by (simp add: POP_def)
  then show ?thesis using assms(1) prag by (simp add: sen_query_open_def)
qed

text \<open>One text and two signs: \<open> ( ) + + \<close>.\<close>

theorem sen_query_open_overlaps_witness:
  "sen_query_open (\<lambda>_. True) 1000 example_weights 0 5 [0x20, 0x28, 0x20, 0x29, 0x20, 0x2b, 0x20, 0x2b, 0x20] 9
     sen_sel_or 1 sen_enc_utf8 = Q_overlap"
proof -
  have p: "print_items sen_enc_utf8 (I_group [] # replicate (2 * 1) (I_sign SEN_QUERY_AND)) @ [0x20] =
      [0x20, 0x28, 0x20, 0x29, 0x20, 0x2b, 0x20, 0x2b, 0x20]"
    by (simp add: print_items_def query_chars numeral_2_eq_2)
  have len: "length [0x20, 0x28, 0x20, 0x29, 0x20, 0x2b, 0x20, 0x2b, 0x20 :: byte] = 9" by simp
  show ?thesis
    using sen_query_open_overlaps [OF _ _ p [symmetric], of "\<lambda>_. True" 5, unfolded len] by simp
qed

end
