(* ===== verification/Query_Match.thy ===== *)
theory Query_Match
  imports Query_Pool
begin

text \<open>
  What \<open>sen_query_scan\<close> computes: a keyword is counted at every character where it occurs, and a
  query is evaluated from left to right, each operand joined to what is in front of it by its
  operator. The evaluation is stated on the trees of \<open>Query_Print\<close>, without cells, conditions and
  searches; the scan of a text with the conditions made on the way, or left by an earlier scan,
  agrees with it.
\<close>

section \<open>Counting a keyword\<close>

text \<open>
  An occurrence that is counted: for a keyword of one byte the search ends at the first equal byte
  that does not start a character.
\<close>

definition all_heads :: "bytes \<Rightarrow> bytes \<Rightarrow> int list \<Rightarrow> nat \<Rightarrow> bool" where
  "all_heads x t ks a \<longleftrightarrow> (length x = 1 \<longrightarrow> (\<forall>i < a. i < length t \<longrightarrow> t ! i = hd x \<longrightarrow> ks ! i \<noteq> 0))"

definition hit_at :: "bytes \<Rightarrow> bytes \<Rightarrow> int list \<Rightarrow> nat \<Rightarrow> bool" where
  "hit_at x t ks j \<longleftrightarrow> found_at x t ks j \<and> all_heads x t ks j"

definition kw_hits :: "bytes \<Rightarrow> bytes \<Rightarrow> int list \<Rightarrow> nat" where
  "kw_hits x t ks = length (filter (hit_at x t ks) [0..<length t])"

definition kw_hits_from :: "bytes \<Rightarrow> bytes \<Rightarrow> int list \<Rightarrow> nat \<Rightarrow> nat" where
  "kw_hits_from x t ks a = card {j. a \<le> j \<and> hit_at x t ks j}"

lemma hit_less: "hit_at x t ks j \<Longrightarrow> x \<noteq> [] \<Longrightarrow> j < length t"
  by (cases x) (auto simp: hit_at_def found_at_def)

lemma kw_hits_from_0: "x \<noteq> [] \<Longrightarrow> kw_hits_from x t ks 0 = kw_hits x t ks"
proof -
  assume "x \<noteq> []"
  then have "{j. 0 \<le> j \<and> hit_at x t ks j} = set (filter (hit_at x t ks) [0..<length t])"
    using hit_less by auto
  then show ?thesis
    using distinct_card [of "filter (hit_at x t ks) [0..<length t]"] by (simp add: kw_hits_from_def kw_hits_def)
qed

lemma kw_hits_from_next:
  assumes "x \<noteq> []" "a \<le> j" "hit_at x t ks j" "0 < s" "\<forall>i. a \<le> i \<and> i < j + s \<and> hit_at x t ks i \<longrightarrow> i = j"
  shows "kw_hits_from x t ks a = Suc (kw_hits_from x t ks (j + s))"
proof -
  have "{i. a \<le> i \<and> hit_at x t ks i} = insert j {i. j + s \<le> i \<and> hit_at x t ks i}"
    using assms(2-5) by (auto simp: not_less [symmetric])
  moreover have "finite {i. j + s \<le> i \<and> hit_at x t ks i}"
    by (rule finite_subset [of _ "{..<length t}"]) (use hit_less assms(1) in auto)
  ultimately show ?thesis using assms(4) by (simp add: kw_hits_from_def)
qed

definition cond_kw :: "bytes \<Rightarrow> snip_cond \<Rightarrow> bool" where
  "cond_kw x c \<longleftrightarrow>
     (\<exists>kw. sc_keyword c = Some kw \<and> ns_norm kw = Some (x @ [0]) \<and> ns_norm_blen kw = length x) \<and>
     x \<noteq> [] \<and> (2 \<le> length x \<longrightarrow> bm_table x (sc_bmBc c) (sc_shift c))"

lemma cond_kw_cong:
  "sc_keyword c' = sc_keyword c \<Longrightarrow> sc_bmBc c' = sc_bmBc c \<Longrightarrow> sc_shift c' = sc_shift c \<Longrightarrow>
     cond_kw x c' = cond_kw x c"
  by (simp add: cond_kw_def)

text \<open>The shift never jumps over an occurrence.\<close>

lemma found_shift:
  assumes "bm_table x bmBc shift" "2 \<le> length x" "found_at x t ks j" "found_at x t ks i" "j < i"
  shows "j + shift \<le> i"
proof -
  have x: "x \<noteq> []" using assms(2) by auto
  have o: "occurs x (t @ [0]) (length t) (k + length x)" if "found_at x t ks k" for k
    using reported_found [of x t ks "k + length x"] that by (simp add: reported_def)
  let ?p = "j + length x"
  have "(t @ [0]) ! (?p - length x + (length x - 1)) = x ! (length x - 1)"
    using o [OF assms(3)] x unfolding occurs_def by (metis diff_less length_greater_0_conv zero_less_one)
  moreover have "?p - length x + (length x - 1) = ?p - 1" using assms(2) by simp
  ultimately have "bm_jump bmBc (t @ [0]) ?p = 0"
    using bm_table_entry [OF assms(1) x, of "x ! (length x - 1)"] by (simp add: bm_jump_def)
  then have "?p + shift \<le> i + length x"
    using assms(2,5) x by (intro bm_shift_safe [OF assms(1) x o [OF assms(4)]]) simp_all
  then show ?thesis by simp
qed

lemma memchr_first:
  assumes "n \<le> length t"
  shows "case memchr_from (t @ [0]) a c n of
    None \<Rightarrow> \<forall>i. a \<le> i \<and> i < n \<longrightarrow> t ! i \<noteq> c
  | Some j \<Rightarrow> a \<le> j \<and> j < n \<and> t ! j = c \<and> (\<forall>i. a \<le> i \<and> i < j \<longrightarrow> t ! i \<noteq> c)"
proof (cases "memchr_from (t @ [0]) a c n")
  case None
  then have "(t @ [0]) ! i \<noteq> c" if "a \<le> i" "i < n" for i
    using that by (auto simp: memchr_from_def find_None_iff)
  then show ?thesis using None assms by (auto simp: nth_append)
next
  case (Some j)
  note j = memchr_from_Some [OF Some]
  have "(t @ [0]) ! i \<noteq> c" if "a \<le> i" "i < j" for i
  proof -
    obtain k where k: "k < n - a" "j = a + k" "\<forall>l < k. (t @ [0]) ! (a + l) \<noteq> c"
      using Some by (auto simp: memchr_from_def find_Some_iff)
    then show ?thesis using k(3) [rule_format, of "i - a"] that by simp
  qed
  then show ?thesis using Some j assms by (auto simp: nth_append)
qed

lemma tunedbm_hits:
  assumes "cond_kw x c" "text_ready t ks obj" "all_heads x t ks (sc_found c)"
  shows "(\<forall>j \<ge> sc_found c. \<not> hit_at x t ks j) \<and>
      sen_bm_tunedbm c obj flags = Some (c\<lparr>sc_stopflag := SNIPCOND_STOP\<rparr>) \<or>
    (\<exists>j \<ge> sc_found c. \<exists>m s. hit_at x t ks j \<and> 0 < s \<and>
      (\<forall>i. sc_found c \<le> i \<and> i < j + s \<and> hit_at x t ks i \<longrightarrow> i = j) \<and> all_heads x t ks (j + s) \<and>
      sen_bm_tunedbm c obj flags = Some (bm_report c obj flags m j s))"
proof -
  obtain kw where kw: "sc_keyword c = Some kw" "ns_norm kw = Some (x @ [0])" "ns_norm_blen kw = length x" "x \<noteq> []"
    "2 \<le> length x \<Longrightarrow> bm_table x (sc_bmBc c) (sc_shift c)"
    using assms(1) unfolding cond_kw_def by blast
  have obj: "ns_norm obj = Some (t @ [0])" "ns_norm_blen obj = length t" "ns_checks obj = Some ks"
    using assms(2) by (simp_all add: text_ready_def)
  show ?thesis
  proof (cases "length x = 1")
    case False
    then have l: "2 \<le> length x" using kw(4) by (cases x) (auto simp: Suc_le_eq)
    then have hit: "hit_at x t ks = found_at x t ks" by (auto simp: hit_at_def all_heads_def fun_eq_iff)
    note b = kw(5) [OF l]
    have s: "0 < sc_shift c" using bm_table_shift(1) [OF b kw(4)] .
    show ?thesis
      using tunedbm_search [OF kw(1-3) l b obj, of flags]
    proof (elim disjE exE conjE)
      fix j assume j: "sc_found c \<le> j" "found_at x t ks j" "\<forall>i. sc_found c \<le> i \<and> i < j \<longrightarrow> \<not> found_at x t ks i"
        "sen_bm_tunedbm c obj flags = Some (bm_report c obj flags (length x) j (sc_shift c))"
      have "i = j" if "sc_found c \<le> i" "i < j + sc_shift c" "found_at x t ks i" for i
        using j(3) that found_shift [OF b l j(2) that(3)] by (meson linorder_neqE_nat not_le)
      then show ?thesis using j s l hit by (intro disjI2 exI [of _ j] conjI exI [of _ "length x"] exI [of _ "sc_shift c"])
        (auto simp: all_heads_def)
    qed (simp add: hit)
  next
    case True
    then obtain a where x: "x = [a]" by (auto simp: length_Suc_conv)
    have found: "found_at x t ks j \<longleftrightarrow> j < length t \<and> t ! j = a \<and> ks ! j \<noteq> 0" for j
      by (auto simp: found_at_def x take_Suc_conv_app_nth Suc_le_eq hd_drop_conv_nth take_Suc)
    have e: "sen_bm_tunedbm c obj flags =
        (if sc_found c < length t then
           (case memchr_from (t @ [0]) (sc_found c) a (length t) of
              Some found \<Rightarrow> (if ks ! found \<noteq> 0 then Some (bm_report c obj flags 1 found 1)
                             else Some (c\<lparr>sc_stopflag := SNIPCOND_STOP\<rparr>))
            | None \<Rightarrow> Some (c\<lparr>sc_stopflag := SNIPCOND_STOP\<rparr>))
         else Some (c\<lparr>sc_stopflag := SNIPCOND_STOP\<rparr>))"
      unfolding sen_bm_tunedbm_def Let_def kw(1-3) obj option.sel True by (simp add: x)
    note f = memchr_first [of "length t" t "sc_found c" a, OF order.refl]
    show ?thesis
    proof (cases "sc_found c < length t")
      case False
      then show ?thesis using e found by (auto simp: hit_at_def)
    next
      case lt: True
      show ?thesis
      proof (cases "memchr_from (t @ [0]) (sc_found c) a (length t)")
        case None
        then show ?thesis using e f lt found by (auto simp: hit_at_def)
      next
        case (Some j)
        then have j: "sc_found c \<le> j" "j < length t" "t ! j = a" "\<forall>i. sc_found c \<le> i \<and> i < j \<longrightarrow> t ! i \<noteq> a"
          using f by simp_all
        show ?thesis
        proof (cases "ks ! j = 0")
          case True
          have "\<not> hit_at x t ks i" if "sc_found c \<le> i" for i
          proof
            assume h: "hit_at x t ks i"
            then have i: "t ! i = a" "ks ! i \<noteq> 0" by (simp_all add: hit_at_def found)
            then have "i \<noteq> j" "\<not> i < j" using j(4) that True by auto
            then have "j < i" by simp
            then show False using h j(2,3) True by (auto simp: hit_at_def all_heads_def x)
          qed
          then show ?thesis using e lt Some True by simp
        next
          case False
          have "all_heads x t ks (j + 1)"
            unfolding all_heads_def
          proof (intro impI allI)
            fix i assume i: "i < j + 1" "i < length t" "t ! i = hd x"
            consider "i < sc_found c" | "sc_found c \<le> i" "i < j" | "i = j" using i(1) by linarith
            then show "ks ! i \<noteq> 0"
            proof cases
              case 1
              then show ?thesis using assms(3) i x by (simp add: all_heads_def)
            next
              case 2
              then show ?thesis using j(4) i x by simp
            qed (simp add: False)
          qed
          moreover from this have "hit_at x t ks j"
            using j(2,3) False by (simp add: hit_at_def found all_heads_def)
          moreover have "i = j" if "sc_found c \<le> i" "i < j + 1" "hit_at x t ks i" for i
            using j(4) that found by (auto simp: hit_at_def less_Suc_eq)
          ultimately show ?thesis
            using e lt Some False j(1) by (intro disjI2 exI [of _ j] conjI exI [of _ 1] exI [of _ 1]) auto
        qed
      qed
    qed
  qed
qed

text \<open>The loop of \<open>scan_keyword\<close> counts all of them.\<close>

lemma keyword_loop_counts:
  assumes "cond_kw x c" "text_ready t ks obj" "all_heads x t ks (sc_found c)" "sc_stopflag c \<noteq> SNIPCOND_STOP"
  shows "\<exists>c'. keyword_loop c obj tf = Some (tf + int (kw_hits_from x t ks (sc_found c)), c') \<and> cond_kw x c'"
  using assms
proof (induction "length t - sc_found c" arbitrary: c tf rule: less_induct)
  case less
  have x: "x \<noteq> []" using less.prems(1) by (simp add: cond_kw_def)
  show ?case
    using tunedbm_hits [OF less.prems(1-3), of 0]
  proof (elim disjE exE conjE)
    assume n: "\<forall>j \<ge> sc_found c. \<not> hit_at x t ks j"
      and e: "sen_bm_tunedbm c obj 0 = Some (c\<lparr>sc_stopflag := SNIPCOND_STOP\<rparr>)"
    have "{j. sc_found c \<le> j \<and> hit_at x t ks j} = {}" using n by auto
    then have "kw_hits_from x t ks (sc_found c) = 0" unfolding kw_hits_from_def by (simp only: card.empty)
    moreover have "cond_kw x (c\<lparr>sc_stopflag := SNIPCOND_STOP\<rparr>)"
      using less.prems(1) by (simp add: cond_kw_def)
    ultimately show ?thesis using e by (subst keyword_loop.simps) simp
  next
    fix j m s
    assume j: "sc_found c \<le> j" "hit_at x t ks j" "0 < s"
      "\<forall>i. sc_found c \<le> i \<and> i < j + s \<and> hit_at x t ks i \<longrightarrow> i = j" "all_heads x t ks (j + s)"
      and e: "sen_bm_tunedbm c obj 0 = Some (bm_report c obj 0 m j s)"
    let ?c = "bm_report c obj 0 m j s"
    have kw: "cond_kw x ?c" using less.prems(1) cond_kw_cong [OF bm_report_kept(1-3)] by simp
    have "length t - sc_found ?c < length t - sc_found c"
      using hit_less [OF j(2) x] j(1,3) by (simp add: bm_report_kept)
    from less.hyps [OF this kw less.prems(2)] obtain c' where
      "keyword_loop ?c obj (tf + 1) = Some (tf + 1 + int (kw_hits_from x t ks (j + s)), c')" "cond_kw x c'"
      using j(5) less.prems(4) by (auto simp: bm_report_kept)
    then show ?thesis
      using e less.prems(4) kw_hits_from_next [OF x j(1,2,3,4)]
      by (subst keyword_loop.simps) (simp add: bm_report_kept)
  qed
qed

section \<open>Evaluating a query\<close>

text \<open>
  \<open>tf\<close> gives the hits of a text, \<open>w\<close> the weight that the operator in front of it gives it, \<open>d\<close> is
  the default operator. The first operand is joined with OR; the operand behind a BUT in front of
  everything is left out.
\<close>

definition t_rest :: "q_tree \<Rightarrow> q_tree" where
  "t_rest t = (case t of T_list e t' \<Rightarrow> t' | _ \<Rightarrow> t)"

lemma size_t_rest: "size (t_rest t) \<le> size t"
  by (cases t) (simp_all add: t_rest_def)

function eval_tree ::
  "(bytes \<Rightarrow> int) \<Rightarrow> (op_cell option \<Rightarrow> int) \<Rightarrow> sen_sel_operator \<Rightarrow> q_tree \<Rightarrow> bool \<Rightarrow> op_cell option \<Rightarrow>
   sen_sel_operator \<Rightarrow> bool \<times> int \<Rightarrow> bool \<times> int" where
  "eval_tree tf w d t first ope op1 fs =
     (case t of
        T_list e t' \<Rightarrow>
          (let op = (if first then sen_sel_or else op1) in
           case e of
             T_op op' weight mode option \<Rightarrow>
               (if first \<and> op' = sen_sel_but then eval_tree tf w d (t_rest t') first ope op1 fs
                else eval_tree tf w d t' first (Some (op', weight, mode, option)) op' fs)
           | T_text x \<Rightarrow>
               eval_tree tf w d t' False None d (scan_combine op (tf x \<noteq> 0, wrap32 (w ope * tf x)) fs)
           | T_list a b \<Rightarrow>
               eval_tree tf w d t' False None d
                 (scan_combine op (eval_tree tf w d (T_list a b) True None d (False, 0)) fs)
           | T_nil \<Rightarrow> eval_tree tf w d t' False None d fs)
      | _ \<Rightarrow> fs)"
  by pat_completeness auto
termination
  by (relation "measure (\<lambda>(tf, w, d, t, r). size t)") (auto simp: less_Suc_eq_le size_t_rest)

text \<open>The texts that are searched, in the order of the conditions.\<close>

function searched :: "q_tree \<Rightarrow> bool \<Rightarrow> bytes list" where
  "searched t first =
     (case t of
        T_list e t' \<Rightarrow>
          (case e of
             T_op op weight mode option \<Rightarrow>
               (if first \<and> op = sen_sel_but then searched (t_rest t') first else searched t' first)
           | T_text x \<Rightarrow> x # searched t' False
           | T_list a b \<Rightarrow> searched (T_list a b) True @ searched t' False
           | T_nil \<Rightarrow> searched t' False)
      | _ \<Rightarrow> [])"
  by pat_completeness auto
termination
  by (relation "measure (\<lambda>(t, r). size t)") (auto simp: less_Suc_eq_le size_t_rest)

declare eval_tree.simps [simp del] searched.simps [simp del]

section \<open>The scan of one text\<close>

text \<open>What a scan changes in the query: options that do not matter for the weights.\<close>

definition same_query :: "sen_query \<Rightarrow> sen_query \<Rightarrow> bool" where
  "same_query q q' \<longleftrightarrow>
     (\<exists>opt. q' = q\<lparr>q_opt := opt\<rparr> \<and> so_weight_vector opt = so_weight_vector (q_opt q) \<and>
        (so_weight_vector opt \<noteq> None \<longrightarrow> so_vector_size opt = so_vector_size (q_opt q)))"

lemma same_query_refl [simp]: "same_query q q"
  by (auto simp: same_query_def intro: exI [of _ "q_opt q"])

lemma same_query_trans: "same_query q q1 \<Longrightarrow> same_query q1 q2 \<Longrightarrow> same_query q q2"
  by (auto simp: same_query_def)

lemma same_query_word_opt: "same_query q (q\<lparr>q_opt := word_opt q ope\<rparr>)"
  by (auto simp: same_query_def word_opt_def Let_def split: option.split)

lemma same_query_weight:
  "same_query q q' \<Longrightarrow> keyword_weight (word_opt q' ope) section' = keyword_weight (word_opt q ope) section'"
  by (cases "so_weight_vector (q_opt q)"; cases ope)
    (auto simp: same_query_def keyword_weight_def word_opt_def Let_def)

lemma same_query_fields:
  "same_query q q' \<Longrightarrow> q_str q' = q_str q \<and> q_encoding q' = q_encoding q \<and> q_default_op q' = q_default_op q \<and>
     q_expr q' = q_expr q \<and> q_cur_expr q' = q_cur_expr q \<and> q_snip_conds q' = q_snip_conds q"
  by (auto simp: same_query_def)

text \<open>
  The keywords: what the normaliser makes of a word of the query; and conditions for a list of
  words, from the index \<open>k\<close> on.
\<close>

definition keyword_of ::
  "alloc \<Rightarrow> nfkc \<Rightarrow> sen_nstr \<Rightarrow> sen_encoding \<Rightarrow> u32 \<Rightarrow> (bytes \<Rightarrow> bytes) \<Rightarrow> bytes \<Rightarrow> nat \<times> nat \<Rightarrow> bool" where
  "keyword_of alloc nf blk enc flags norm str b \<longleftrightarrow>
     (case b of (start, sz) \<Rightarrow>
        (case snip_nstr_open alloc nf blk (drop start str) sz enc (flags AND SEN_SNIP_NORMALIZE) SEN_STR_REMOVEBLANK of
           Some (Some k) \<Rightarrow>
             norm (take sz (drop start str)) \<noteq> [] \<and> ns_norm k = Some (norm (take sz (drop start str)) @ [0]) \<and>
             ns_norm_blen k = length (norm (take sz (drop start str)))
         | _ \<Rightarrow> False))"

definition conds_for :: "(bytes \<Rightarrow> bytes) \<Rightarrow> bytes list \<Rightarrow> nat \<Rightarrow> snip_cond list \<Rightarrow> bool" where
  "conds_for norm ws k conds \<longleftrightarrow>
     k + length ws \<le> length conds \<and> (\<forall>i < length ws. cond_kw (norm (ws ! i)) (conds ! (k + i)))"

lemma conds_for_Cons:
  "conds_for norm (x # ws) k conds \<longleftrightarrow> k < length conds \<and> cond_kw (norm x) (conds ! k) \<and> conds_for norm ws (k + 1) conds"
  by (auto simp: conds_for_def less_Suc_eq_0_disj)

lemma conds_for_append:
  "conds_for norm (ws @ vs) k conds \<longleftrightarrow> conds_for norm ws k conds \<and> conds_for norm vs (k + length ws) conds"
proof (induction ws arbitrary: k)
  case Nil
  then show ?case by (auto simp: conds_for_def)
next
  case (Cons x ws)
  then show ?case by (simp add: conds_for_Cons)
qed

lemma cond_init_keyword:
  assumes "keyword_of alloc nf blk enc flags norm str (start, sz)"
  shows "\<exists>c. sen_snip_cond_init alloc nf blk (drop start str) sz enc (flags AND SEN_SNIP_NORMALIZE) = Some (sen_success, c) \<and>
    cond_kw (norm (take sz (drop start str))) c \<and> sc_found c = 0 \<and> sc_stopflag c = SNIPCOND_NONSTOP"
proof -
  let ?x = "norm (take sz (drop start str))"
  obtain k where k: "snip_nstr_open alloc nf blk (drop start str) sz enc (flags AND SEN_SNIP_NORMALIZE) SEN_STR_REMOVEBLANK = Some (Some k)"
    "ns_norm k = Some (?x @ [0])" "ns_norm_blen k = length ?x" "?x \<noteq> []"
    using assms by (auto simp: keyword_of_def split: option.splits)
  have last: "(?x @ [0]) ! (length ?x - 1) = ?x ! (length ?x - 1)"
    using k(4) by (simp add: nth_append)
  show ?thesis
    using k(4) unfolding sen_snip_cond_init_def k(1) option.case Let_def k(2,3) option.sel preBmBc_terminated last
    by (cases "length ?x = 1") (simp_all add: cond_kw_def k(2,3) bm_table_def Let_def snip_cond_zero_def)
qed

lemma cond_reinit_keyword:
  "cond_kw x c \<Longrightarrow> cond_kw x (sen_snip_cond_reinit c) \<and> sc_found (sen_snip_cond_reinit c) = 0 \<and>
     sc_stopflag (sen_snip_cond_reinit c) = SNIPCOND_NONSTOP"
  by (simp add: cond_kw_def sen_snip_cond_reinit_def)

lemma keyword_score_combine:
  "int32_range (snd fs) \<Longrightarrow> keyword_score op w tf fs = scan_combine op (tf \<noteq> 0, wrap32 (w * tf)) fs"
  using wrap32_id [of 0] by (cases fs; cases op) (auto simp: keyword_score_def scan_combine_def Let_def wrap32_id int32_range_def)

lemma scan_keyword_counts:
  assumes "cond_kw x c" "text_ready t ks obj" "sc_found c = 0" "sc_stopflag c = SNIPCOND_NONSTOP" "int32_range (snd fs)"
  shows "\<exists>c'. scan_keyword c obj section' op optarg fs =
      Some (c', scan_combine op (kw_hits x t ks \<noteq> 0, wrap32 (keyword_weight optarg section' * int (kw_hits x t ks))) fs) \<and>
    cond_kw x c'"
proof -
  have x: "x \<noteq> []" "\<not> (sc_keyword c = None \<or> ns_norm_blen (the (sc_keyword c)) = 0)"
    using assms(1) by (auto simp: cond_kw_def)
  have "all_heads x t ks (sc_found c)" using assms(3) by (simp add: all_heads_def)
  then have "\<exists>c'. keyword_loop c obj 0 = Some (int (kw_hits_from x t ks 0), c') \<and> cond_kw x c'"
    using keyword_loop_counts [OF assms(1,2), of 0] assms(3,4) by simp
  then obtain c' where "keyword_loop c obj 0 = Some (int (kw_hits_from x t ks 0), c')" "cond_kw x c'" by blast
  then show ?thesis
    using x(2) keyword_score_combine [OF assms(5)] kw_hits_from_0 [OF x(1), of t ks] by (simp add: scan_keyword_def)
qed

lemma scan_combine_range: "int32_range (snd fs) \<Longrightarrow> int32_range (snd (scan_combine op v fs))"
  by (cases fs; cases v; cases op) (simp_all add: scan_combine_def wrap32_range)

text \<open>Room for the conditions of the words \<open>ws\<close>, and what the scan of these words leaves.\<close>

definition scan_room :: "(bytes \<Rightarrow> bytes) \<Rightarrow> u32 \<Rightarrow> bytes list \<Rightarrow> scan_state \<Rightarrow> bool" where
  "scan_room norm flags ws st \<longleftrightarrow>
     ss_next st + length ws \<le> length (ss_conds st) \<and>
     (\<not> has_flag flags SEN_QUERY_SCAN_ALLOCCONDS \<longrightarrow> conds_for norm ws (ss_next st) (ss_conds st))"

definition scan_done :: "(bytes \<Rightarrow> bytes) \<Rightarrow> bytes list \<Rightarrow> scan_state \<Rightarrow> scan_state \<Rightarrow> bool" where
  "scan_done norm ws st st' \<longleftrightarrow>
     same_query (ss_q st) (ss_q st') \<and> ss_next st' = ss_next st + length ws \<and>
     length (ss_conds st') = length (ss_conds st) \<and> conds_for norm ws (ss_next st) (ss_conds st') \<and>
     (\<forall>i. i < ss_next st \<or> ss_next st' \<le> i \<longrightarrow> ss_conds st' ! i = ss_conds st ! i)"

lemma scan_done_Nil: "ss_next st \<le> length (ss_conds st) \<Longrightarrow> scan_done norm [] st st"
  by (simp add: scan_done_def conds_for_def)

lemma scan_done_append:
  assumes "scan_done norm ws st st1" "scan_done norm vs st1 st2"
  shows "scan_done norm (ws @ vs) st st2"
proof -
  have "conds_for norm ws (ss_next st) (ss_conds st2)"
    using assms by (simp add: scan_done_def conds_for_def)
  then show ?thesis
    using assms same_query_trans by (auto simp: scan_done_def conds_for_append)
qed

lemma scan_room_append:
  assumes "scan_room norm flags (ws @ vs) st"
  shows "scan_room norm flags ws st" "scan_done norm ws st st1 \<Longrightarrow> scan_room norm flags vs st1"
proof -
  show "scan_room norm flags ws st" using assms by (simp add: scan_room_def conds_for_append)
  assume d: "scan_done norm ws st st1"
  have "conds_for norm vs (ss_next st1) (ss_conds st1)" if "conds_for norm vs (ss_next st + length ws) (ss_conds st)"
    using that d by (simp add: scan_done_def conds_for_def)
  then show "scan_room norm flags vs st1"
    using assms d by (simp add: scan_room_def conds_for_append) (simp add: scan_done_def)
qed

text \<open>One word.\<close>

lemma scan_bulk_counts:
  assumes "keyword_of alloc nf blk (q_encoding (ss_q st)) flags norm (q_str (ss_q st)) (start, sz)"
    and "text_ready t ks nstr" "scan_room norm flags [take sz (drop start (q_str (ss_q st)))] st" "int32_range (snd fs)"
  defines "x \<equiv> take sz (drop start (q_str (ss_q st)))"
  shows "\<exists>st1. scan_bulk alloc nf blk nstr section' flags start sz op ope st fs =
      Some (sen_success, st1, scan_combine op (kw_hits (norm x) t ks \<noteq> 0,
        wrap32 (keyword_weight (word_opt (ss_q st) ope) section' * int (kw_hits (norm x) t ks))) fs) \<and>
    scan_done norm [x] st st1"
proof -
  let ?q = "(ss_q st)\<lparr>q_opt := word_opt (ss_q st) ope\<rparr>" and ?k = "ss_next st"
  have k: "?k < length (ss_conds st)" using assms(3) by (simp add: scan_room_def)
  obtain c where c: "(if has_flag flags SEN_QUERY_SCAN_ALLOCCONDS
        then sen_snip_cond_init alloc nf blk (drop start (q_str ?q)) sz (q_encoding ?q) (flags AND SEN_SNIP_NORMALIZE)
        else Some (sen_success, sen_snip_cond_reinit (ss_conds st ! ?k))) = Some (sen_success, c)"
    "cond_kw (norm x) c" "sc_found c = 0" "sc_stopflag c = SNIPCOND_NONSTOP"
  proof (cases "has_flag flags SEN_QUERY_SCAN_ALLOCCONDS")
    case True
    then show ?thesis using cond_init_keyword [OF assms(1)] that by (auto simp: x_def)
  next
    case False
    then have "cond_kw (norm x) (ss_conds st ! ?k)" using assms(3) by (simp add: scan_room_def conds_for_def x_def)
    from cond_reinit_keyword [OF this] show ?thesis using False by (intro that) auto
  qed
  obtain c' where c': "scan_keyword c nstr section' op (q_opt ?q) fs =
      Some (c', scan_combine op (kw_hits (norm x) t ks \<noteq> 0,
        wrap32 (keyword_weight (q_opt ?q) section' * int (kw_hits (norm x) t ks))) fs)" "cond_kw (norm x) c'"
    using scan_keyword_counts [OF c(2) assms(2) c(3,4) assms(4)] by blast
  let ?st = "st\<lparr>ss_q := ?q, ss_conds := (ss_conds st)[?k := c'], ss_next := ?k + 1\<rparr>"
  have "scan_done norm [x] st ?st"
    using k c'(2) same_query_word_opt [of "ss_q st" ope] by (simp add: scan_done_def conds_for_def)
  moreover have "scan_bulk alloc nf blk nstr section' flags start sz op ope st fs =
      Some (sen_success, ?st, scan_combine op (kw_hits (norm x) t ks \<noteq> 0,
        wrap32 (keyword_weight (q_opt ?q) section' * int (kw_hits (norm x) t ks))) fs)"
    using k c' unfolding scan_bulk_def Let_def c(1) by simp
  ultimately show ?thesis by (intro exI [of _ ?st]) simp
qed

text \<open>A list of cells.\<close>

lemma POP_parts:
  "proper c \<Longrightarrow> is_list c \<Longrightarrow> proper (snd (POP c)) \<and> is_list (snd (POP c)) \<and>
     resolve str (snd (POP c)) = t_rest (resolve str c) \<and> set (qbulks (snd (POP c))) \<subseteq> set (qbulks c)"
  by (cases c) (auto simp: POP_def t_rest_def is_list_def)

definition scannable ::
  "alloc \<Rightarrow> nfkc \<Rightarrow> sen_nstr \<Rightarrow> u32 \<Rightarrow> (bytes \<Rightarrow> bytes) \<Rightarrow> sen_query \<Rightarrow> qcell \<Rightarrow> bool" where
  "scannable alloc nf blk flags norm q c \<longleftrightarrow>
     proper c \<and> is_list c \<and>
     (\<forall>b \<in> set (qbulks c). keyword_of alloc nf blk (q_encoding q) flags norm (q_str q) b)"

lemma scannable_parts:
  assumes "scannable alloc nf blk flags norm q (Q_list e c)"
  shows "scannable alloc nf blk flags norm q c" "scannable alloc nf blk flags norm q (snd (POP c))"
    "e = Q_list a b \<Longrightarrow> scannable alloc nf blk flags norm q e"
    "e = Q_bulk start sz \<Longrightarrow> keyword_of alloc nf blk (q_encoding q) flags norm (q_str q) (start, sz)"
proof -
  have l: "proper e" "proper c" "is_list c" using assms by (simp_all add: scannable_def)
  have b: "\<forall>b \<in> set (qbulks e) \<union> set (qbulks c). keyword_of alloc nf blk (q_encoding q) flags norm (q_str q) b"
    using assms by (simp add: scannable_def ball_Un)
  note p = POP_parts [OF l(2,3)]
  show "scannable alloc nf blk flags norm q c" using l b by (simp add: scannable_def)
  show "scannable alloc nf blk flags norm q (snd (POP c))" using p b unfolding scannable_def by blast
  show "e = Q_list a b \<Longrightarrow> scannable alloc nf blk flags norm q e" for a b
    using l b by (simp add: scannable_def is_list_def)
  show "e = Q_bulk start sz \<Longrightarrow> keyword_of alloc nf blk (q_encoding q) flags norm (q_str q) (start, sz)"
    using b by simp
qed

abbreviation "text_value norm t ks \<equiv> (\<lambda>x. int (kw_hits (norm x) t ks))"
abbreviation "op_weight q section' \<equiv> (\<lambda>ope. keyword_weight (word_opt q ope) section')"

lemma scan_loop_eval:
  assumes "text_ready t ks nstr"
    and "same_query q (ss_q st)" "scannable alloc nf blk flags norm q c"
    and "scan_room norm flags (searched (resolve (q_str q) c) first) st" "int32_range (snd fs)"
  shows "\<exists>st1. scan_loop alloc nf blk nstr section' flags c first ope op1 st fs =
      Some (sen_success, st1, eval_tree (text_value norm t ks) (op_weight q section') (q_default_op q)
        (resolve (q_str q) c) first ope op1 fs) \<and>
    scan_done norm (searched (resolve (q_str q) c) first) st st1"
  using assms(2-5)
proof (induction c arbitrary: first ope op1 st fs rule: measure_induct_rule [of size])
  case (less c)
  let ?E = "eval_tree (text_value norm t ks) (op_weight q section') (q_default_op q)"
  let ?r = "resolve (q_str q)"
  have IH: "\<exists>st1. scan_loop alloc nf blk nstr section' flags c' first ope op1 st fs =
      Some (sen_success, st1, ?E (?r c') first ope op1 fs) \<and> scan_done norm (searched (?r c') first) st st1"
    if "size c' < size c" "same_query q (ss_q st)" "scannable alloc nf blk flags norm q c'"
      "scan_room norm flags (searched (?r c') first) st" "int32_range (snd fs)" for c' first ope op1 st fs
    using less.IH that by blast
  note sq = same_query_fields [OF less.prems(1)]
  note unf = scan_loop.simps [of alloc nf blk nstr section' flags c] eval_tree.simps [of _ _ _ "?r c"]
    searched.simps [of "?r c"]
  show ?case
  proof (cases c)
    case Q_nil
    then show ?thesis using scan_done_Nil less.prems(3) unf by (auto simp: scan_room_def)
  next
    case c: (Q_list e c')
    have sz: "size c' < size c" "size (snd (POP c')) < size c" "size e < size c"
      using size_POP [of c'] by (simp_all add: c less_Suc_eq_le)
    note sc = scannable_parts [OF less.prems(2) [unfolded c]]
    have lst: "proper c' \<and> is_list c'" using sc(1) by (simp add: scannable_def)
    have next_c: "\<exists>st2. scan_loop alloc nf blk nstr section' flags c' False None (q_default_op (ss_q st1)) st1 fs1 =
          Some (sen_success, st2, ?E (?r c') False None (q_default_op q) fs1) \<and>
        scan_done norm (ws @ searched (?r c') False) st st2"
      if "scan_done norm ws st st1" "scan_room norm flags (ws @ searched (?r c') False) st" "int32_range (snd fs1)"
      for st1 fs1 ws
    proof -
      have s: "same_query q (ss_q st1)"
        using that(1) less.prems(1) same_query_trans by (auto simp: scan_done_def)
      from IH [OF sz(1) s sc(1) scan_room_append(2) [OF that(2,1)] that(3), of None "q_default_op (ss_q st1)"]
      show ?thesis using same_query_fields [OF s] scan_done_append [OF that(1)] by auto
    qed
    show ?thesis
    proof (cases e)
      case e: (Q_op op weight mode option)
      show ?thesis
      proof (cases "first \<and> op = sen_sel_but")
        case True
        have r: "?r (snd (POP c')) = t_rest (?r c')" using lst POP_parts by blast
        from IH [OF sz(2) less.prems(1) sc(2) _ less.prems(4), of first ope op1] True r
        show ?thesis using less.prems(3) unf by (simp add: c e)
      next
        case False
        from IH [OF sz(1) less.prems(1) sc(1) _ less.prems(4), of first "Some (op, weight, mode, option)" op] False
        show ?thesis using less.prems(3) unf by (auto simp: c e)
      qed
    next
      case e: (Q_bulk start sz')
      let ?x = "take sz' (drop start (q_str q))"
      have room: "scan_room norm flags ([?x] @ searched (?r c') False) st"
        using less.prems(3) unf(3) by (simp add: c e)
      define v where "v = scan_combine (if first then sen_sel_or else op1) (kw_hits (norm ?x) t ks \<noteq> 0,
            wrap32 (keyword_weight (word_opt q ope) section' * int (kw_hits (norm ?x) t ks))) fs"
      obtain st1 where st1: "scan_bulk alloc nf blk nstr section' flags start sz' (if first then sen_sel_or else op1) ope st fs =
          Some (sen_success, st1, v)" "scan_done norm [?x] st st1"
        using scan_bulk_counts [of alloc nf blk st flags norm start sz' t ks nstr fs section'] sc(4) e sq assms(1) less.prems(4)
          scan_room_append(1) [OF room] same_query_weight [OF less.prems(1)] unfolding v_def by metis
      have "int32_range (snd v)" unfolding v_def by (rule scan_combine_range [OF less.prems(4)])
      then obtain st2 where st2: "scan_loop alloc nf blk nstr section' flags c' False None (q_default_op (ss_q st1)) st1 v =
          Some (sen_success, st2, ?E (?r c') False None (q_default_op q) v)"
        "scan_done norm ([?x] @ searched (?r c') False) st st2"
        using next_c [OF st1(2) room] by blast
      have "scan_loop alloc nf blk nstr section' flags c first ope op1 st fs =
          Some (sen_success, st2, ?E (?r c') False None (q_default_op q) v)"
        unfolding unf(1) unfolding c e by (simp add: st1(1) st2(1))
      moreover have "?E (?r c) first ope op1 fs = ?E (?r c') False None (q_default_op q) v"
        unfolding unf(2) by (simp add: c e v_def)
      moreover have "searched (?r c) first = [?x] @ searched (?r c') False"
        unfolding unf(3) by (simp add: c e)
      ultimately show ?thesis using st2(2) by simp
    next
      case e: (Q_list a b)
      have room: "scan_room norm flags (searched (?r e) True @ searched (?r c') False) st"
        using less.prems(3) unf(3) by (simp add: c e)
      have "int32_range (snd (False, 0))" by (simp add: int32_range_def)
      from IH [OF sz(3) less.prems(1) sc(3) [OF e] scan_room_append(1) [OF room] this, of None "q_default_op (ss_q st)"]
      obtain st1 where st1: "scan_loop alloc nf blk nstr section' flags e True None (q_default_op (ss_q st)) st (False, 0) =
          Some (sen_success, st1, ?E (?r e) True None (q_default_op (ss_q st)) (False, 0))"
        "scan_done norm (searched (?r e) True) st st1" by blast
      let ?v = "scan_combine (if first then sen_sel_or else op1) (?E (?r e) True None (q_default_op q) (False, 0)) fs"
      obtain st2 where st2: "scan_loop alloc nf blk nstr section' flags c' False None (q_default_op (ss_q st1)) st1 ?v =
          Some (sen_success, st2, ?E (?r c') False None (q_default_op q) ?v)"
        "scan_done norm (searched (?r e) True @ searched (?r c') False) st st2"
        using next_c [OF st1(2) room scan_combine_range [OF less.prems(4)]] by blast
      have "scan_loop alloc nf blk nstr section' flags c first ope op1 st fs =
          Some (sen_success, st2, ?E (?r c') False None (q_default_op q) ?v)"
        unfolding unf(1) unfolding c using st1(1) st2(1) sq by (simp add: e)
      moreover have "?E (?r c) first ope op1 fs = ?E (?r c') False None (q_default_op q) ?v"
        unfolding unf(2) by (simp add: c e)
      moreover have "searched (?r c) first = searched (?r e) True @ searched (?r c') False"
        unfolding unf(3) by (simp add: c e)
      ultimately show ?thesis using st2(2) by simp
    next
      case e: Q_nil
      have room: "scan_room norm flags ([] @ searched (?r c') False) st"
        using less.prems(3) unf(3) by (simp add: c e)
      have "scan_done norm [] st st" using room by (intro scan_done_Nil) (simp add: scan_room_def)
      from next_c [OF this room less.prems(4)] show ?thesis using unf by (simp add: c e)
    qed
  qed (use less.prems(2) in \<open>simp_all add: scannable_def is_list_def\<close>)
qed

section \<open>Texts\<close>

text \<open>
  The normal form of a text with its checks, and the value of a query over texts: each is a section
  with its own weight, joined with OR.
\<close>

definition text_opened ::
  "alloc \<Rightarrow> nfkc \<Rightarrow> sen_nstr \<Rightarrow> sen_encoding \<Rightarrow> u32 \<Rightarrow> bytes \<times> nat \<Rightarrow> bytes \<times> int list \<Rightarrow> bool" where
  "text_opened alloc nf blk enc flags s n \<longleftrightarrow>
     (case snip_nstr_open alloc nf blk (fst s) (snd s) enc flags (SEN_STR_WITH_CHECKS OR SEN_STR_REMOVEBLANK) of
        Some (Some nstr) \<Rightarrow> text_ready (fst n) (snd n) nstr
      | _ \<Rightarrow> False)"

definition eval_query :: "(bytes \<Rightarrow> bytes) \<Rightarrow> sen_query \<Rightarrow> nat \<Rightarrow> bytes \<times> int list \<Rightarrow> bool \<times> int" where
  "eval_query norm q section' n =
     eval_tree (text_value norm (fst n) (snd n)) (op_weight q section') (q_default_op q)
       (resolve (q_str q) (q_expr q)) True None (q_default_op q) (False, 0)"

fun eval_texts :: "(bytes \<Rightarrow> bytes) \<Rightarrow> sen_query \<Rightarrow> nat \<Rightarrow> (bytes \<times> int list) list \<Rightarrow> bool \<times> int \<Rightarrow> bool \<times> int" where
  "eval_texts norm q i [] fs = fs"
| "eval_texts norm q i (n # ns) fs =
     eval_texts norm q (i + 1) ns (scan_combine sen_sel_or (eval_query norm q (i + 1) n) fs)"

definition query_words :: "sen_query \<Rightarrow> bytes list" where
  "query_words q = searched (resolve (q_str q) (q_expr q)) True"

text \<open>The flag to make conditions does not matter for the strings.\<close>

lemma scan_flags:
  "has_flag (flags AND NOT SEN_QUERY_SCAN_ALLOCCONDS) SEN_SNIP_NORMALIZE = has_flag flags SEN_SNIP_NORMALIZE"
  "has_flag (flags OR SEN_QUERY_SCAN_ALLOCCONDS) SEN_SNIP_NORMALIZE = has_flag flags SEN_SNIP_NORMALIZE"
  "(flags AND NOT SEN_QUERY_SCAN_ALLOCCONDS) AND SEN_SNIP_NORMALIZE = flags AND SEN_SNIP_NORMALIZE"
  "(flags OR SEN_QUERY_SCAN_ALLOCCONDS) AND SEN_SNIP_NORMALIZE = flags AND SEN_SNIP_NORMALIZE"
  "\<not> has_flag (flags AND NOT SEN_QUERY_SCAN_ALLOCCONDS) SEN_QUERY_SCAN_ALLOCCONDS"
proof -
  have b: "bit (2 :: u32) n \<longleftrightarrow> n = 1" "bit (1 :: u32) n \<longleftrightarrow> n = 0" for n
    by (auto simp: bit_2_iff bit_1_iff)
  show 3: "(flags AND NOT SEN_QUERY_SCAN_ALLOCCONDS) AND SEN_SNIP_NORMALIZE = flags AND SEN_SNIP_NORMALIZE"
    and 4: "(flags OR SEN_QUERY_SCAN_ALLOCCONDS) AND SEN_SNIP_NORMALIZE = flags AND SEN_SNIP_NORMALIZE"
    unfolding SEN_QUERY_SCAN_ALLOCCONDS_def SEN_SNIP_NORMALIZE_def
    by (rule bit_word_eqI; auto simp: bit_simps b)+
  then show "has_flag (flags AND NOT SEN_QUERY_SCAN_ALLOCCONDS) SEN_SNIP_NORMALIZE = has_flag flags SEN_SNIP_NORMALIZE"
    "has_flag (flags OR SEN_QUERY_SCAN_ALLOCCONDS) SEN_SNIP_NORMALIZE = has_flag flags SEN_SNIP_NORMALIZE"
    by (simp_all only: has_flag_def)
  show "\<not> has_flag (flags AND NOT SEN_QUERY_SCAN_ALLOCCONDS) SEN_QUERY_SCAN_ALLOCCONDS"
    by (simp add: has_flag_def and.assoc)
qed

lemma scannable_flags:
  "scannable alloc nf blk (flags AND NOT SEN_QUERY_SCAN_ALLOCCONDS) norm q c = scannable alloc nf blk flags norm q c"
  "scannable alloc nf blk (flags OR SEN_QUERY_SCAN_ALLOCCONDS) norm q c = scannable alloc nf blk flags norm q c"
  by (simp_all only: scannable_def keyword_of_def scan_flags)

lemma text_opened_flags:
  "text_opened alloc nf blk enc (flags AND NOT SEN_QUERY_SCAN_ALLOCCONDS) = text_opened alloc nf blk enc flags"
  "text_opened alloc nf blk enc (flags OR SEN_QUERY_SCAN_ALLOCCONDS) = text_opened alloc nf blk enc flags"
  by (intro ext; simp only: text_opened_def snip_nstr_open_def scan_flags)+

lemma scan_texts_eval:
  assumes "same_query q (ss_q st)" "scannable alloc nf blk flags norm q (q_expr q)"
    and "list_all2 (text_opened alloc nf blk (q_encoding q) flags) ts ns"
    and "scan_room norm flags (query_words q) (st\<lparr>ss_next := 0\<rparr>)" "int32_range (snd fs)"
  shows "\<exists>st1. scan_texts alloc nf blk ts i flags st fs = Some (sen_success, st1, eval_texts norm q i ns fs) \<and>
    same_query q (ss_q st1) \<and> length (ss_conds st1) = length (ss_conds st) \<and>
    (ts \<noteq> [] \<longrightarrow> conds_for norm (query_words q) 0 (ss_conds st1))"
  using assms
proof (induction ts arbitrary: ns i flags st fs)
  case Nil
  then show ?case by simp
next
  case (Cons s ts)
  obtain n ns' where ns: "ns = n # ns'" "text_opened alloc nf blk (q_encoding q) flags s n"
    "list_all2 (text_opened alloc nf blk (q_encoding q) flags) ts ns'"
    using Cons.prems(3) by (auto simp: list_all2_Cons1)
  obtain nstr where nstr: "snip_nstr_open alloc nf blk (fst s) (snd s) (q_encoding q) flags
      (SEN_STR_WITH_CHECKS OR SEN_STR_REMOVEBLANK) = Some (Some nstr)" "text_ready (fst n) (snd n) nstr"
    using ns(2) by (auto simp: text_opened_def split: option.splits)
  note sq = same_query_fields [OF Cons.prems(1)]
  let ?st = "st\<lparr>ss_next := 0\<rparr>" and ?flags = "flags AND NOT SEN_QUERY_SCAN_ALLOCCONDS"
  have "same_query q (ss_q ?st)" "int32_range (snd (False, 0))" using Cons.prems(1) by (simp_all add: int32_range_def)
  from scan_loop_eval [OF nstr(2) this(1) Cons.prems(2) Cons.prems(4) [unfolded query_words_def] this(2)]
  obtain st1 where st1: "scan_loop alloc nf blk nstr (i + 1) flags (q_expr q) True None (q_default_op q) ?st (False, 0) =
      Some (sen_success, st1, eval_query norm q (i + 1) n)" "scan_done norm (query_words q) ?st st1"
    unfolding eval_query_def query_words_def by blast
  let ?fs = "scan_combine sen_sel_or (eval_query norm q (i + 1) n) fs"
  have q1: "scan_query alloc nf blk nstr (i + 1) flags (q_expr (ss_q st)) sen_sel_or ?st fs = Some (sen_success, st1, ?fs)"
    using st1(1) sq by (simp add: scan_query_def)
  have done1: "same_query q (ss_q st1)" "length (ss_conds st1) = length (ss_conds st)"
    "conds_for norm (query_words q) 0 (ss_conds st1)"
    using st1(2) Cons.prems(1) same_query_trans by (auto simp: scan_done_def)
  then have room: "scan_room norm ?flags (query_words q) (st1\<lparr>ss_next := 0\<rparr>)"
    by (simp add: scan_room_def conds_for_def)
  obtain st2 where st2: "scan_texts alloc nf blk ts (i + 1) ?flags st1 ?fs =
      Some (sen_success, st2, eval_texts norm q (i + 1) ns' ?fs)"
    "same_query q (ss_q st2)" "length (ss_conds st2) = length (ss_conds st1)"
    "ts \<noteq> [] \<longrightarrow> conds_for norm (query_words q) 0 (ss_conds st2)"
    using Cons.IH [where st = st1 and flags = ?flags and ns = ns' and fs = ?fs and i = "i + 1", OF done1(1) _ _ room scan_combine_range [OF Cons.prems(5)]]
      Cons.prems(2) ns(3) by (auto simp: scannable_flags text_opened_flags)
  have "scan_texts alloc nf blk (s # ts) i flags st fs = Some (sen_success, st2, eval_texts norm q i ns fs)"
    using nstr(1) q1 st2(1) sq by (cases s) (simp add: ns(1))
  moreover have "conds_for norm (query_words q) 0 (ss_conds st2)"
    using st2 done1(3) by (cases ts) auto
  ultimately show ?case using st2 done1 by auto
qed

lemma searched_le: "length (searched t first) \<le> length (ttexts t)"
proof (induction t first rule: searched.induct)
  case (1 t first)
  have "ttexts (t_rest t') = ttexts t' \<or> length (ttexts (t_rest t')) \<le> length (ttexts t')" for t'
    by (cases t') (simp_all add: t_rest_def)
  then have r: "length (ttexts (t_rest t')) \<le> length (ttexts t')" for t' by (metis order.refl)
  show ?case
    using 1 r by (subst searched.simps) (fastforce intro: order.trans split: q_tree.split)
qed

text \<open>
  A query that can be scanned: freshly opened, or with the conditions that an earlier scan made.
\<close>

definition scan_ready :: "(bytes \<Rightarrow> bytes) \<Rightarrow> u32 \<Rightarrow> sen_query \<Rightarrow> bool" where
  "scan_ready norm flags q \<longleftrightarrow>
     (case q_snip_conds q of
        None \<Rightarrow> length (qbulks (q_expr q)) = q_cur_expr q
      | Some conds \<Rightarrow> \<not> has_flag flags SEN_QUERY_SCAN_ALLOCCONDS \<and> conds_for norm (query_words q) 0 conds)"

lemma scan_evaluates:
  assumes "\<forall>n. alloc n" "scannable alloc nf blk flags norm q (q_expr q)" "scan_ready norm flags q"
    and "ts \<noteq> []" "list_all2 (text_opened alloc nf blk (q_encoding q) flags) ts ns"
  shows "\<exists>q' conds. sen_query_scan alloc nf blk sz (Some q) (Some ts) flags =
      Some (sen_success, Some q', Some (eval_texts norm q 0 ns (False, 0))) \<and>
    q_snip_conds q' = Some conds \<and> conds_for norm (query_words q) 0 conds \<and>
    same_query (q\<lparr>q_snip_conds := Some conds\<rparr>) q'"
proof -
  define conds where "conds = (case q_snip_conds q of None \<Rightarrow> replicate (q_cur_expr q) snip_cond_zero | Some c \<Rightarrow> c)"
  define fl where "fl = (if q_snip_conds q = None then flags OR SEN_QUERY_SCAN_ALLOCCONDS else flags)"
  let ?st = "\<lparr>ss_q = q, ss_conds = conds, ss_next = 0\<rparr>"
  have alloc_flag: "has_flag (flags OR SEN_QUERY_SCAN_ALLOCCONDS) SEN_QUERY_SCAN_ALLOCCONDS"
    by (simp add: has_flag_def SEN_QUERY_SCAN_ALLOCCONDS_def bit_eq_iff) (auto simp: bit_simps bit_2_iff intro!: exI [of _ 1])
  have room: "scan_room norm fl (query_words q) (?st\<lparr>ss_next := 0\<rparr>)"
  proof (cases "q_snip_conds q")
    case None
    have "length (query_words q) \<le> q_cur_expr q"
      using searched_le [of "resolve (q_str q) (q_expr q)" True] assms(3) by (simp add: query_words_def scan_ready_def None)
    then show ?thesis using alloc_flag by (simp add: scan_room_def None conds_def fl_def)
  next
    case (Some c)
    then show ?thesis using assms(3) by (simp add: scan_room_def scan_ready_def conds_def fl_def conds_for_def)
  qed
  have s: "scannable alloc nf blk fl norm q (q_expr q)"
    "list_all2 (text_opened alloc nf blk (q_encoding q) fl) ts ns"
    using assms(2,5) by (simp_all add: fl_def scannable_flags text_opened_flags)
  have "same_query q (ss_q ?st)" "int32_range (snd (False, 0))" by (simp_all add: int32_range_def)
  from scan_texts_eval [OF this(1) s room this(2)] obtain st1 where
    st1: "scan_texts alloc nf blk ts 0 fl ?st (False, 0) = Some (sen_success, st1, eval_texts norm q 0 ns (False, 0))"
    "same_query q (ss_q st1)" "conds_for norm (query_words q) 0 (ss_conds st1)"
    using assms(4) by blast
  have "sen_query_scan alloc nf blk sz (Some q) (Some ts) flags =
      Some (sen_success, Some ((ss_q st1)\<lparr>q_snip_conds := Some (ss_conds st1)\<rparr>), Some (eval_texts norm q 0 ns (False, 0)))"
    using st1(1) assms(1,3,4)
    by (cases "q_snip_conds q") (simp_all add: sen_query_scan_def scan_ready_def conds_def fl_def)
  moreover have "same_query (q\<lparr>q_snip_conds := Some (ss_conds st1)\<rparr>) ((ss_q st1)\<lparr>q_snip_conds := Some (ss_conds st1)\<rparr>)"
  proof -
    obtain opt where opt: "ss_q st1 = q\<lparr>q_opt := opt\<rparr>" "so_weight_vector opt = so_weight_vector (q_opt q)"
      "so_weight_vector opt \<noteq> None \<longrightarrow> so_vector_size opt = so_vector_size (q_opt q)"
      using st1(2) unfolding same_query_def by blast
    then show ?thesis by (simp add: same_query_def) (rule exI [of _ opt], simp)
  qed
  ultimately show ?thesis using st1(3) by (intro exI [of _ "(ss_q st1)\<lparr>q_snip_conds := Some (ss_conds st1)\<rparr>"]) auto
qed

text \<open>
  C2: a scan refines the evaluation of the query. For a query as \<open>sen_query_open\<close> leaves it, whose
  words have non-empty normal forms \<open>norm\<close>, and texts with the normal forms and checks \<open>ns\<close>,
  \<open>sen_query_scan\<close> succeeds and stores the result of evaluating the query from left to right with
  the number of occurrences of each keyword at the characters of each text, and their weights.
  The query it leaves can be scanned again, evaluates in the same way and is still well-formed.
\<close>

theorem sen_query_scan_evaluates:
  assumes "\<forall>n. alloc n" "query_ok q" "scan_ready norm flags q"
    and "\<forall>b \<in> set (qbulks (q_expr q)). keyword_of alloc nf blk (q_encoding q) flags norm (q_str q) b"
    and "ts \<noteq> []" "list_all2 (text_opened alloc nf blk (q_encoding q) flags) ts ns"
  shows "\<exists>q'. sen_query_scan alloc nf blk sz (Some q) (Some ts) flags =
      Some (sen_success, Some q', Some (eval_texts norm q 0 ns (False, 0))) \<and>
    query_ok q' \<and> q_str q' = q_str q \<and> q_expr q' = q_expr q \<and>
    scan_ready norm (flags AND NOT SEN_QUERY_SCAN_ALLOCCONDS) q' \<and>
    (\<forall>i n. eval_query norm q' i n = eval_query norm q i n)"
proof -
  have "scannable alloc nf blk flags norm q (q_expr q)"
    using assms(2,4) by (simp add: scannable_def query_ok_def)
  from scan_evaluates [OF assms(1) this assms(3,5,6)] obtain q' conds where
    q': "sen_query_scan alloc nf blk sz (Some q) (Some ts) flags =
      Some (sen_success, Some q', Some (eval_texts norm q 0 ns (False, 0)))"
    "q_snip_conds q' = Some conds" "conds_for norm (query_words q) 0 conds"
    "same_query (q\<lparr>q_snip_conds := Some conds\<rparr>) q'" by blast
  obtain opt where opt: "q' = q\<lparr>q_snip_conds := Some conds, q_opt := opt\<rparr>"
    using q'(4) unfolding same_query_def by blast
  have "op_weight q' i ope = op_weight q i ope" for i ope
  proof -
    have "keyword_weight (word_opt (q\<lparr>q_snip_conds := Some conds\<rparr>) ope) i = keyword_weight (word_opt q ope) i"
      by (simp add: keyword_weight_def word_opt_def Let_def split: option.split)
    then show ?thesis using same_query_weight [OF q'(4), of ope i] by simp
  qed
  then have ev: "eval_query norm q' i n = eval_query norm q i n" for i n
    by (simp add: eval_query_def opt)
  have "query_words q' = query_words q" by (simp add: query_words_def opt)
  then have "scan_ready norm (flags AND NOT SEN_QUERY_SCAN_ALLOCCONDS) q'"
    using q'(2,3) scan_flags(5) by (simp add: scan_ready_def)
  moreover have "query_ok q'" using assms(2) by (simp add: query_ok_def opt)
  ultimately show ?thesis using q'(1) ev by (auto simp: opt)
qed

section \<open>Queries of words\<close>

text \<open>Without normalisation a keyword is the word itself, and the checks are those of \<open>fake_checks\<close>.\<close>

lemma keyword_of_plain:
  assumes "\<forall>n. alloc n" "start + sz \<le> length str" "0 < sz"
  shows "keyword_of alloc nf blk enc 0 (\<lambda>w. w) str (start, sz)"
proof -
  have "length (take sz (drop start str)) = sz" "take sz (drop start str) \<noteq> []" using assms(2,3) by auto
  then show ?thesis using assms(1)
    by (simp add: keyword_of_def snip_nstr_open_def has_flag_def sen_fakenstr_open_def Let_def)
qed

lemma text_opened_plain:
  assumes "\<forall>n. alloc n" "n \<le> length s"
  shows "text_opened alloc nf blk enc 0 (s, n) (take n s, fake_checks enc 0 (take n s))"
proof -
  have "has_flag (SEN_STR_WITH_CHECKS OR SEN_STR_REMOVEBLANK) SEN_STR_WITH_CHECKS"
    by (simp add: has_flag_def SEN_STR_WITH_CHECKS_def SEN_STR_REMOVEBLANK_def)
  then show ?thesis
    using assms by (simp add: text_opened_def snip_nstr_open_def has_flag_def [of 0] sen_fakenstr_open_def Let_def text_ready_def)
qed

text \<open>The query \<open>a\<close>, already parsed, and the text \<open>aba\<close>.\<close>

definition example_query :: sen_query where
  "example_query = example_weights\<lparr>q_str := [0x61], q_cur := 1, q_expr := Q_list (Q_bulk 0 1) Q_nil,
     q_max_exprs := 8, q_cur_expr := 1, q_max_cells := 32, q_cur_cell := 2\<rparr>"

theorem sen_query_scan_evaluates_witness:
  "\<exists>q'. sen_query_scan (\<lambda>_. True) nf_example (new_nstr [] 0 sen_enc_none 0) 100 (Some example_query)
      (Some [([0x61, 0x62, 0x61], 3)]) 0 = Some (sen_success, Some q', Some (True, 10))"
proof -
  let ?n = "([0x61, 0x62, 0x61], [1, 1, 1]) :: bytes \<times> int list"
  have ok: "query_ok example_query" "scan_ready (\<lambda>w. w) 0 example_query"
    by (simp_all add: query_ok_def scan_ready_def example_query_def example_weights_def)
  have kw: "\<forall>b \<in> set (qbulks (q_expr example_query)).
      keyword_of (\<lambda>_. True) nf_example (new_nstr [] 0 sen_enc_none 0) (q_encoding example_query) 0 (\<lambda>w. w) (q_str example_query) b"
    by (simp add: example_query_def keyword_of_plain)
  have t: "list_all2 (text_opened (\<lambda>_. True) nf_example (new_nstr [] 0 sen_enc_none 0) (q_encoding example_query) 0)
      [([0x61, 0x62, 0x61], 3)] [?n]"
    using text_opened_plain [of "\<lambda>_. True" 3 "[0x61, 0x62, 0x61]" nf_example "new_nstr [] 0 sen_enc_none 0" sen_enc_none]
    by (simp add: example_query_def example_weights_def fake_width_def)
  have "kw_hits [0x61] [0x61, 0x62, 0x61] [1, 1, 1] = 2"
    by (simp add: kw_hits_def hit_at_def found_at_def all_heads_def upt_rec less_Suc_eq numeral_nat)
  then have "eval_query (\<lambda>w. w) example_query 1 ?n = (True, 10)"
    by (simp add: eval_query_def eval_tree.simps example_query_def example_weights_def keyword_weight_def word_opt_def
        Let_def DEFAULT_WEIGHT_def scan_combine_def wrap32_id int32_range_def)
  then have "eval_texts (\<lambda>w. w) example_query 0 [?n] (False, 0) = (True, 10)"
    by (simp add: scan_combine_def wrap32_id int32_range_def)
  then show ?thesis
    using sen_query_scan_evaluates [OF _ ok kw _ t, of 100] by auto
qed

lemma eval_words:
  assumes "d = sen_sel_and \<or> d = sen_sel_or" "\<And>x. 0 \<le> tf x"
  shows "let r = eval_tree tf w d (tree_list (map T_text xs)) False None d (f, s) in
    (fst r \<longleftrightarrow> (if d = sen_sel_and then f \<and> (\<forall>x \<in> set xs. tf x \<noteq> 0) else f \<or> (\<exists>x \<in> set xs. tf x \<noteq> 0))) \<and>
    (0 \<le> s \<longrightarrow> 0 \<le> w None \<longrightarrow> s + w None * sum_list (map tf xs) < 2 ^ 31 \<longrightarrow> snd r = s + w None * sum_list (map tf xs))"
proof (induction xs arbitrary: f s)
  case Nil
  then show ?case by (simp add: eval_tree.simps)
next
  case (Cons x xs)
  let ?fs = "scan_combine d (tf x \<noteq> 0, wrap32 (w None * tf x)) (f, s)"
  have r: "eval_tree tf w d (tree_list (map T_text (x # xs))) False None d (f, s) =
      eval_tree tf w d (tree_list (map T_text xs)) False None d ?fs"
    by (subst eval_tree.simps) simp
  have f: "fst ?fs \<longleftrightarrow> (if d = sen_sel_and then f \<and> tf x \<noteq> 0 else f \<or> tf x \<noteq> 0)"
    using assms(1) by (auto simp: scan_combine_def)
  have s: "snd ?fs = s + w None * tf x"
    if "0 \<le> s" "0 \<le> w None" "s + w None * sum_list (map tf (x # xs)) < 2 ^ 31"
  proof -
    have "0 \<le> w None * tf x" "0 \<le> w None * sum_list (map tf xs)"
      using that(2) assms(2) by (auto intro!: mult_nonneg_nonneg sum_list_nonneg)
    then have "int32_range (w None * tf x)" "int32_range (s + w None * tf x)"
      using that by (simp_all add: int32_range_def distrib_left)
    then show ?thesis using assms(1) by (auto simp: scan_combine_def wrap32_id)
  qed
  have pos: "0 \<le> w None \<Longrightarrow> 0 \<le> w None * tf x" using assms(2) by simp
  show ?case
    using Cons.IH [of "fst ?fs" "snd ?fs"] f s pos unfolding r prod.collapse Let_def
    by (auto simp: distrib_left)
qed

lemma word_tree: "ttexts (tree_list (map T_text xs)) = xs" "tcells (tree_list (map T_text xs)) = 2 * length xs"
  by (induction xs) simp_all

text \<open>Words, with the hits of the search counted as \<open>kw_hits\<close> does, on any text.\<close>

lemma scan_words:
  assumes "\<forall>n. alloc n" "op = sen_sel_and \<or> op = sen_sel_or" "ws \<noteq> []" "\<forall>w \<in> set ws. item_ok enc (I_word w)"
    and "length ws < m" "str = print_items enc (map I_word ws) @ [0x20]" "2 * length str + 1 < fuel"
    and "n \<le> length s" "t = take n s" "ks = fake_checks enc 0 t"
    and "score = 5 * (\<Sum>w\<leftarrow>ws. int (kw_hits w t ks))" "score < 2 ^ 31"
  shows "\<exists>q q' found. sen_query_open alloc sz blk threshold fuel str (length str) op m enc = Q_ok (Some q) \<and>
    sen_query_scan alloc nf nblk csz (Some q) (Some [(s, n)]) 0 = Some (sen_success, Some q', Some (found, score)) \<and>
    (found \<longleftrightarrow> (if op = sen_sel_and then \<forall>w \<in> set ws. kw_hits w t ks \<noteq> 0 else \<exists>w \<in> set ws. kw_hits w t ks \<noteq> 0))"
proof -
  let ?tree = "tree_list (map T_text ws)"
  have tree: "?tree = tree_list (map (tree_of op) (map I_word ws))" by (simp add: o_def)
  have ok: "list_all (item_ok enc) (map I_word ws)" using assms(4) by (simp add: list_all_iff)
  have lim: "length (ttexts ?tree) < m" "tcells ?tree < 4 * m" using assms(5) by (simp_all add: word_tree)
  obtain q where q: "sen_query_open alloc sz blk threshold fuel (str @ []) (length str) op m enc = Q_ok (Some q)"
    "resolve (q_str q) (q_expr q) = ?tree" "query_ok q" "q_encoding q = enc" "q_default_op q = op"
    "q_snip_conds q = None" "so_weight_vector (q_opt q) = None" "q_weight_offset q = 0"
    by (rule open_items [OF assms(1) ok assms(6) tree lim assms(7)])
  have ready: "scan_ready (\<lambda>w. w) 0 q" using q(3) by (simp add: scan_ready_def q(6) query_ok_def)
  have kw: "\<forall>b \<in> set (qbulks (q_expr q)). keyword_of alloc nf nblk (q_encoding q) 0 (\<lambda>w. w) (q_str q) b"
    using q(3) by (auto simp: query_ok_def intro!: keyword_of_plain [OF assms(1)])
  have "scannable alloc nf nblk 0 (\<lambda>w. w) q (q_expr q)" using q(3) kw by (simp add: scannable_def query_ok_def)
  moreover have "list_all2 (text_opened alloc nf nblk (q_encoding q) 0) [(s, n)] [(t, ks)]"
    using text_opened_plain [OF assms(1,8)] by (simp add: assms(9,10) q(4))
  ultimately obtain q' where q': "sen_query_scan alloc nf nblk csz (Some q) (Some [(s, n)]) 0 =
      Some (sen_success, Some q', Some (eval_texts (\<lambda>w. w) q 0 [(t, ks)] (False, 0)))"
    using scan_evaluates [OF assms(1) _ ready, of nf nblk "[(s, n)]" "[(t, ks)]" csz] by auto
  let ?tf = "\<lambda>w. int (kw_hits w t ks)" and ?w = "op_weight q 1"
  have w: "?w None = 5" by (simp add: keyword_weight_def word_opt_def Let_def q(7,8) DEFAULT_WEIGHT_def)
  obtain x xs where ws: "ws = x # xs" using assms(3) by (cases ws) auto
  have pos: "0 \<le> (\<Sum>w\<leftarrow>xs. int (kw_hits w t ks))" by (intro sum_list_nonneg) auto
  then have r: "int32_range (5 * ?tf x)" "int32_range 0" using assms(11,12) by (simp_all add: ws int32_range_def)
  let ?r = "eval_tree ?tf ?w op (tree_list (map T_text xs)) False None op (?tf x \<noteq> 0, 5 * ?tf x)"
  have ev: "eval_query (\<lambda>w. w) q 1 (t, ks) = ?r"
    unfolding eval_query_def q(2,5) ws
    by (subst eval_tree.simps) (use w r in \<open>simp add: scan_combine_def wrap32_id\<close>)
  have sum: "5 * ?tf x + ?w None * sum_list (map ?tf xs) = score" by (simp add: w w [unfolded One_nat_def] assms(11) ws)
  have res: "snd ?r = score"
    "fst ?r \<longleftrightarrow> (if op = sen_sel_and then ?tf x \<noteq> 0 \<and> (\<forall>w \<in> set xs. ?tf w \<noteq> 0) else ?tf x \<noteq> 0 \<or> (\<exists>w \<in> set xs. ?tf w \<noteq> 0))"
    using eval_words [OF assms(2), of ?tf ?w xs "?tf x \<noteq> 0" "5 * ?tf x"] assms(12) unfolding Let_def sum by (simp_all add: w w [unfolded One_nat_def])
  have "0 \<le> score" using pos by (simp add: assms(11) ws)
  then have "int32_range score" using assms(12) by (simp add: int32_range_def)
  then have "eval_texts (\<lambda>w. w) q 0 [(t, ks)] (False, 0) = (fst ?r, score)"
    using ev res(1) by (cases ?r) (simp add: scan_combine_def wrap32_id)
  then show ?thesis using q(1) q' res(2) by (auto simp: ws)
qed

text \<open>
  The independent count: the characters of the text from which on the text reads as the word.
\<close>

fun occurrences :: "bytes \<Rightarrow> bytes list \<Rightarrow> nat" where
  "occurrences w [] = 0"
| "occurrences w (c # cs) =
     (if take (length w) (concat (c # cs)) = w then 1 else 0) + occurrences w cs"

lemma found_at_char:
  assumes "w \<noteq> []"
  shows "found_at w (c # t @ u) (k # replicate (length t) 0 @ ks) (Suc (length t + j)) \<longleftrightarrow> found_at w u ks j"
    "found_at w (c # t @ u) (k # replicate (length t) 0 @ ks) 0 \<longleftrightarrow> take (length w) (c # t @ u) = w \<and> k \<noteq> 0"
    "i < length t \<Longrightarrow> \<not> found_at w (c # t @ u) (k # replicate (length t) 0 @ ks) (Suc i)"
proof -
  have "take (length w) s = w \<Longrightarrow> length w \<le> length s" for s :: bytes
    by (metis length_take min.cobounded1)
  then show "found_at w (c # t @ u) (k # replicate (length t) 0 @ ks) 0 \<longleftrightarrow> take (length w) (c # t @ u) = w \<and> k \<noteq> 0"
    by (fastforce simp: found_at_def)
qed (auto simp: found_at_def nth_append)

lemma occurrences_found:
  "w \<noteq> [] \<Longrightarrow> \<forall>c \<in> set cs. c \<noteq> [] \<Longrightarrow>
     length (filter (found_at w (concat cs) (char_checks cs)) [0..<length (concat cs)]) = occurrences w cs"
proof (induction cs)
  case (Cons c cs)
  obtain b t where c: "c = b # t" using Cons.prems(2) by (cases c) auto
  let ?u = "concat cs" and ?ks = "char_checks cs"
  have ks: "char_checks (c # cs) = int (length c) # replicate (length t) 0 @ ?ks"
    by (simp add: char_checks_def c)
  have upt: "[0..<length (concat (c # cs))] =
      0 # map Suc [0..<length t] @ map (\<lambda>j. Suc (length t + j)) [0..<length ?u]"
    by (rule nth_equalityI) (auto simp: c nth_append nth_Cons' simp del: upt_Suc)
  let ?f = "found_at w (concat (c # cs)) (char_checks (c # cs))"
  have f: "?f = found_at w (b # t @ ?u) (int (length c) # replicate (length t) 0 @ ?ks)"
    unfolding ks by (simp add: c)
  note char = found_at_char [OF Cons.prems(1), where c = b and t = t and u = ?u and k = "int (length c)" and ks = ?ks]
  have "filter ?f (map Suc [0..<length t]) = []"
    using char(3) unfolding filter_empty_conv set_map f by fastforce
  moreover have "length (filter ?f (map (\<lambda>j. Suc (length t + j)) [0..<length ?u])) = occurrences w cs"
    unfolding f using Cons.IH Cons.prems char(1) by (simp add: filter_map comp_def)
  moreover have "?f 0 \<longleftrightarrow> take (length w) (concat (c # cs)) = w"
    unfolding f using char(2) by (simp add: c)
  ultimately show ?case unfolding upt by simp
qed simp

text \<open>Without a byte equal to a word of one byte inside a character, every occurrence is counted.\<close>

lemma char_checks_head:
  "\<forall>c \<in> set cs. c \<noteq> [] \<and> b \<notin> set (tl c) \<Longrightarrow> i < length (concat cs) \<Longrightarrow> concat cs ! i = b \<Longrightarrow>
     char_checks cs ! i \<noteq> 0"
proof (induction cs arbitrary: i)
  case (Cons c cs)
  obtain h t where c: "c = h # t" using Cons.prems(1) by (cases c) auto
  have ks: "char_checks (c # cs) = int (length c) # replicate (length t) 0 @ char_checks cs"
    by (simp add: char_checks_def c)
  show ?case
  proof (cases "0 < i \<and> i \<le> length t")
    case True
    then have "concat (c # cs) ! i \<in> set t" by (cases i) (auto simp: c nth_append)
    then show ?thesis using Cons.prems by (simp add: c)
  next
    case False
    show ?thesis
    proof (cases i)
      case 0
      then show ?thesis by (simp add: char_checks_def c)
    next
      case (Suc j)
      with False have "length t \<le> j" by simp
      moreover from this have "char_checks cs ! (j - length t) \<noteq> 0"
        using Cons.prems Suc by (intro Cons.IH) (auto simp: c nth_append)
      ultimately show ?thesis unfolding ks by (simp add: Suc nth_append)
    qed
  qed
qed simp

lemma kw_hits_occurrences:
  assumes "w \<noteq> []" "\<forall>c \<in> set cs. c \<noteq> []" "length w = 1 \<Longrightarrow> \<forall>c \<in> set cs. hd w \<notin> set (tl c)"
  shows "kw_hits w (concat cs) (char_checks cs) = occurrences w cs"
proof -
  have "all_heads w (concat cs) (char_checks cs) j" for j
    using char_checks_head [of cs "hd w"] assms(2,3) by (auto simp: all_heads_def)
  then have "hit_at w (concat cs) (char_checks cs) = found_at w (concat cs) (char_checks cs)"
    by (auto simp: hit_at_def)
  then show ?thesis using occurrences_found [OF assms(1,2)] by (simp add: kw_hits_def)
qed

lemma single_byte_word:
  assumes "chars_of enc t = Some cs" "c \<in> set cs" "chars_of enc [b] \<noteq> None"
    "enc \<noteq> sen_enc_sjis" "enc \<noteq> sen_enc_euc_jp"
  shows "b \<notin> set (tl c)"
  using assms(1,2)
proof (induction cs arbitrary: t)
  case (Cons d cs)
  let ?n = "sen_str_charlen_nonnull t enc"
  have "t \<noteq> []" using Cons.prems by auto
  with Cons.prems(1) have d: "d = take ?n t" "0 < ?n" "chars_of enc (drop ?n t) = Some cs"
    using delimited_reader.split_Cons [of t enc "d # cs"] by auto
  show ?case
  proof (cases "c = d")
    case False
    then show ?thesis using Cons.IH [OF d(3)] Cons.prems(2) by simp
  next
    case True
    obtain x xs where t: "t = x # xs" using \<open>t \<noteq> []\<close> by (cases t) auto
    show ?thesis
    proof (cases "enc = sen_enc_utf8")
      case utf8: True
      have n: "?n = sen_str_charlen_utf8 t" using utf8 t by (simp add: sen_str_charlen_nonnull_def)
      then have "utf8_char ?n t" using charlen_utf8_iff [of ?n t] d(2) by simp
      moreover have "sen_str_charlen_utf8 [b] \<noteq> 0"
        using assms(3) delimited_reader.split_Cons [of "[b]" enc] utf8
        by (auto simp: sen_str_charlen_nonnull_def)
      then have "utf8_char 1 [b]"
        using charlen_utf8_iff [of "sen_str_charlen_utf8 [b]" "[b]"] by (auto simp: utf8_char_def)
      then have "b AND 0x80 = 0" using utf8_lead_multi [of b] by (auto simp: utf8_char_def)
      then have "b AND 0xc0 \<noteq> 0x80" by (auto simp: byte_eq_iff bit_simps)
      ultimately show ?thesis unfolding True d(1) by (cases ?n) (auto simp: utf8_char_def t)
    next
      case other: False
      then have "?n = 1" using assms(4,5) t by (cases enc) (auto simp: sen_str_charlen_nonnull_def)
      then show ?thesis unfolding True d(1) by (simp add: t)
    qed
  qed
qed simp

text \<open>
  C40: opening and scanning together, without normalisation. The words, separated by spaces, are
  opened with AND or OR as the default operator; scanning a text that splits into characters with
  plain first bytes then succeeds, the text is found when all of the words, or one of them, occur
  at a character of it, and the score is 5 for every occurrence. In Shift_JIS and EUC-JP this asks
  that no word of a single byte is also a later byte of a character of the text, where the search
  for that word would end (\<open>tunedbm_one_byte_stops\<close> has such a text).
\<close>

theorem word_query_scan:
  assumes "\<forall>n. alloc n" "op = sen_sel_and \<or> op = sen_sel_or" "ws \<noteq> []" "\<forall>w \<in> set ws. item_ok enc (I_word w)"
    and "length ws < m" "str = print_items enc (map I_word ws) @ [0x20]" "2 * length str + 1 < fuel"
    and "n \<le> length s" "chars_of enc (take n s) = Some cs" "\<forall>c \<in> set cs. plain_lead enc (hd c)"
    and "enc = sen_enc_sjis \<or> enc = sen_enc_euc_jp \<longrightarrow>
      (\<forall>w \<in> set ws. \<forall>c \<in> set cs. length w = 1 \<longrightarrow> hd w \<notin> set (tl c))"
    and "score = 5 * (\<Sum>w\<leftarrow>ws. int (occurrences w cs))" "score < 2 ^ 31"
  shows "\<exists>q q' found. sen_query_open alloc sz blk threshold fuel str (length str) op m enc = Q_ok (Some q) \<and>
    sen_query_scan alloc nf nblk csz (Some q) (Some [(s, n)]) 0 = Some (sen_success, Some q', Some (found, score)) \<and>
    (found \<longleftrightarrow> (if op = sen_sel_and then \<forall>w \<in> set ws. occurrences w cs \<noteq> 0 else \<exists>w \<in> set ws. occurrences w cs \<noteq> 0))"
proof -
  have cat: "take n s = concat cs" using delimited_reader.split_concat [OF assms(9)] by simp
  have plain: "\<forall>c \<in> set cs. c \<noteq> [] \<and> fake_width enc (hd c) = length c"
    by (rule split_plain [OF assms(9,10)])
  have ks: "char_checks cs = fake_checks enc 0 (concat cs)" using fake_checks_chars [OF plain] by simp
  have kw: "kw_hits w (concat cs) (char_checks cs) = occurrences w cs" if w: "w \<in> set ws" for w
  proof (rule kw_hits_occurrences)
    have wok: "w \<noteq> []" "chars_of enc w \<noteq> None"
      using assms(4) w by (auto simp: word_chars_def split: option.splits)
    then show "w \<noteq> []" by simp
    show "\<forall>c \<in> set cs. c \<noteq> []" using plain by blast
    assume "length w = 1"
    then have "w = [hd w]" by (cases w) auto
    then show "\<forall>c \<in> set cs. hd w \<notin> set (tl c)"
      using assms(11) w \<open>length w = 1\<close> single_byte_word [OF assms(9), of _ "hd w"] wok(2) by metis
  qed
  have sum: "(\<Sum>w\<leftarrow>ws. int (kw_hits w (concat cs) (char_checks cs))) = (\<Sum>w\<leftarrow>ws. int (occurrences w cs))"
    using kw by (simp cong: map_cong)
  have all: "(\<forall>w \<in> set ws. kw_hits w (concat cs) (char_checks cs) \<noteq> 0) \<longleftrightarrow> (\<forall>w \<in> set ws. occurrences w cs \<noteq> 0)"
    "(\<exists>w \<in> set ws. kw_hits w (concat cs) (char_checks cs) \<noteq> 0) \<longleftrightarrow> (\<exists>w \<in> set ws. occurrences w cs \<noteq> 0)"
    using kw by simp_all
  show ?thesis
    by (rule scan_words [OF assms(1-8) cat [symmetric] ks, unfolded sum all, OF assms(12,13)])
qed

text \<open>
  Shift_JIS: the words are the katakana A, whose second byte is the letter A, and \<open>c\<close>; the text
  has the first twice and the second once, which makes 15.
\<close>

theorem word_query_scan_witness:
  "\<exists>q q'. sen_query_open (\<lambda>_. True) 1000 example_weights 0 100 [0x20, 0x83, 0x41, 0x20, 0x63, 0x20] 6 sen_sel_and 32
      sen_enc_sjis = Q_ok (Some q) \<and>
    sen_query_scan (\<lambda>_. True) nf_example (new_nstr [] 0 sen_enc_none 0) 100 (Some q)
      (Some [([0x83, 0x41, 0x63, 0x83, 0x41], 5)]) 0 = Some (sen_success, Some q', Some (True, 15))"
proof -
  let ?t = "[0x83, 0x41, 0x63, 0x83, 0x41] :: bytes" and ?w = "[[0x83, 0x41], [0x63]] :: bytes list"
  let ?cs = "[[0x83, 0x41], [0x63], [0x83, 0x41]] :: bytes list"
  have c: "chars_of sen_enc_sjis [0x83, 0x41] = Some [[0x83, 0x41]]" "chars_of sen_enc_sjis [0x63] = Some [[0x63]]"
    by (simp_all add: split_chars.simps sen_str_charlen_nonnull_def)
  have ok: "\<forall>w \<in> set ?w. item_ok sen_enc_sjis (I_word w)"
    by (simp add: c word_chars_def sen_isspace_def query_chars signs_def)
  have p: "[0x20, 0x83, 0x41, 0x20, 0x63, 0x20] = print_items sen_enc_sjis (map I_word ?w) @ [0x20]"
    by (simp add: print_items_def)
  have cs: "chars_of sen_enc_sjis (take 5 ?t) = Some ?cs"
    by (simp add: split_chars.simps sen_str_charlen_nonnull_def)
  have plain: "\<forall>c \<in> set ?cs. plain_lead sen_enc_sjis (hd c)" by (simp add: plain_lead_def)
  have len: "length [0x20, 0x83, 0x41, 0x20, 0x63, 0x20 :: byte] = 6" by simp
  have fuel: "2 * length [0x20, 0x83, 0x41, 0x20, 0x63, 0x20 :: byte] + 1 < 100" by simp
  have five: "5 \<le> length ?t" by simp
  have score: "15 = 5 * (\<Sum>w\<leftarrow>?w. int (occurrences w ?cs))" by simp
  note scan = word_query_scan [where alloc = "\<lambda>_. True" and op = sen_sel_and and m = 32 and sz = 1000 and
      blk = example_weights and threshold = 0 and nf = nf_example and nblk = "new_nstr [] 0 sen_enc_none 0" and csz = 100,
      OF _ _ _ ok _ p fuel five cs plain _ score, unfolded len]
  show ?thesis using scan by auto
qed

end
