(* ===== verification/Lex.thy ===== *)
theory Lex
  imports Nstr_Open
begin

text \<open>
  The tokenizers (lib/lex.c): n-grams over the characters of a normalised string, with runs of
  letters, digits or symbols as tokens of their own, and words between spaces, of the string
  itself or of the output of the morphological analyser MeCab. The symbol table that gives a token
  its number is a parameter, a value of the record \<open>lexicon\<close> over a state; MeCab, which is not
  part of the program, is a function from the text and the size of the output buffer to the output.

  \<open>lx_orig\<close> is the normalised string, \<open>lx_buf\<close> the output of MeCab, both without their
  terminators; \<open>lx_next\<close> is an offset. A read behind the array of types is \<open>None\<close>.
\<close>

section \<open>Data\<close>

definition SEN_LEX_ADD :: u32 where "SEN_LEX_ADD = 1"
definition SEN_LEX_UPD :: u32 where "SEN_LEX_UPD = 2"
definition SEN_LEX_NGRAM_UNIT_SIZE :: nat where "SEN_LEX_NGRAM_UNIT_SIZE = 2"
definition SEN_INDEX_NORMALIZE :: u32 where "SEN_INDEX_NORMALIZE = 1"
definition SEN_INDEX_SPLIT_ALPHA :: u32 where "SEN_INDEX_SPLIT_ALPHA = 2"
definition SEN_INDEX_SPLIT_DIGIT :: u32 where "SEN_INDEX_SPLIT_DIGIT = 4"
definition SEN_INDEX_SPLIT_SYMBOL :: u32 where "SEN_INDEX_SPLIT_SYMBOL = 8"
definition SEN_INDEX_MORPH_ANALYSE :: u32 where "SEN_INDEX_MORPH_ANALYSE = 0"
definition SEN_INDEX_NGRAM :: u32 where "SEN_INDEX_NGRAM = 0x10"
definition SEN_INDEX_DELIMITED :: u32 where "SEN_INDEX_DELIMITED = 0x20"
definition SEN_INDEX_TOKENIZER_MASK :: u32 where "SEN_INDEX_TOKENIZER_MASK = 0xf0"

definition SEN_NSTR_CTYPE :: "byte \<Rightarrow> byte" where "SEN_NSTR_CTYPE c = c AND 0x7f"
definition SEN_NSTR_ISBLANK :: "byte \<Rightarrow> bool" where "SEN_NSTR_ISBLANK c \<longleftrightarrow> c AND 0x80 \<noteq> 0"

datatype lex_status = sen_lex_doing | sen_lex_done | sen_lex_not_found

record sen_lex =
  lx_sym_flags :: u32
  lx_buf :: "bytes option"
  lx_orig :: bytes
  lx_next :: nat
  lx_token :: "bytes option"
  lx_tlen :: nat
  lx_nstr :: sen_nstr
  lx_pos :: int
  lx_len :: int
  lx_skip :: int
  lx_tail :: int
  lx_offset :: int
  lx_flags :: u32
  lx_status :: lex_status
  lx_uni_alpha :: bool
  lx_uni_digit :: bool
  lx_uni_symbol :: bool
  lx_force_prefix :: bool
  lx_encoding :: sen_encoding

text \<open>\<open>sen_sym_at\<close> and \<open>sen_sym_get\<close>; 0 (\<open>SEN_SYM_NIL\<close>) when there is no number for the key.\<close>

record 's lexicon =
  sym_at :: "'s \<Rightarrow> bytes \<Rightarrow> u32"
  sym_get :: "'s \<Rightarrow> bytes \<Rightarrow> u32 \<times> 's"

text \<open>\<open>LEX_TOKEN\<close>, \<open>None\<close> when the memory is exhausted; and the number of the token.\<close>

definition LEX_TOKEN :: "alloc \<Rightarrow> sen_lex \<Rightarrow> bytes \<Rightarrow> sen_lex option" where
  "LEX_TOKEN alloc lx str =
     (if lx_tlen lx < length str then
        (if alloc (length str + 1) then Some (lx\<lparr>lx_token := Some str, lx_tlen := length str\<rparr>) else None)
      else Some (lx\<lparr>lx_token := Some str\<rparr>))"

definition token_id :: "'s lexicon \<Rightarrow> 's \<Rightarrow> sen_lex \<Rightarrow> bytes \<Rightarrow> u32 \<times> 's" where
  "token_id L s lx token =
     (if has_flag (lx_flags lx) SEN_LEX_ADD then sym_get L s token else (sym_at L s token, s))"

text \<open>\<open>sizeof(sen_lex)\<close> with pointers of eight bytes.\<close>

definition sizeof_sen_lex :: nat where "sizeof_sen_lex = 96"

section \<open>N-grams\<close>

definition sen_ngram_open :: "alloc \<Rightarrow> sen_lex \<Rightarrow> u32 \<Rightarrow> sen_encoding \<Rightarrow> sen_nstr \<Rightarrow> u32 \<Rightarrow> sen_lex option" where
  "sen_ngram_open alloc blk sym_flags encoding nstr flags =
     (if \<not> alloc sizeof_sen_lex then None
      else Some (blk\<lparr>lx_sym_flags := sym_flags, lx_buf := None, lx_token := None, lx_tlen := 0, lx_pos := - 1,
        lx_skip := 1, lx_tail := 0, lx_flags := flags, lx_status := sen_lex_doing, lx_encoding := encoding,
        lx_nstr := nstr, lx_orig := butlast (the (ns_norm nstr)), lx_next := 0,
        lx_uni_alpha := ns_ctypes nstr \<noteq> None \<and> \<not> has_flag sym_flags SEN_INDEX_SPLIT_ALPHA,
        lx_uni_digit := ns_ctypes nstr \<noteq> None \<and> \<not> has_flag sym_flags SEN_INDEX_SPLIT_DIGIT,
        lx_uni_symbol := ns_ctypes nstr \<noteq> None \<and> \<not> has_flag sym_flags SEN_INDEX_SPLIT_SYMBOL,
        lx_force_prefix := False\<rparr>))"

text \<open>\<open>*cp\<close> at an index, and whether the tokenizer keeps runs of this type together.\<close>

definition ctype_at :: "sen_lex \<Rightarrow> nat \<Rightarrow> byte option" where
  "ctype_at lx i =
     (case ns_ctypes (lx_nstr lx) of
        None \<Rightarrow> None
      | Some cts \<Rightarrow> if i < length cts then Some (cts ! i) else None)"

definition unifies :: "sen_lex \<Rightarrow> bool" where
  "unifies lx \<longleftrightarrow> lx_uni_alpha lx \<or> lx_uni_digit lx \<or> lx_uni_symbol lx"

definition unified :: "sen_lex \<Rightarrow> byte \<Rightarrow> bool" where
  "unified lx t \<longleftrightarrow>
     lx_uni_alpha lx \<and> SEN_NSTR_CTYPE t = sen_str_alpha \<or>
     lx_uni_digit lx \<and> SEN_NSTR_CTYPE t = sen_str_digit \<or>
     lx_uni_symbol lx \<and> SEN_NSTR_CTYPE t = sen_str_symbol"

abbreviation charlen_at :: "sen_lex \<Rightarrow> nat \<Rightarrow> nat" where
  "charlen_at lx p \<equiv> sen_str_charlen (drop p (lx_orig lx)) (lx_encoding lx)"

lemma charlen_at_le: "0 < charlen_at lx p \<Longrightarrow> p < length (lx_orig lx)"
  using charlen_le [of "drop p (lx_orig lx)" "lx_encoding lx"] by auto

lemma charlen_at_shrinks [simp]:
  "0 < charlen_at lx p \<Longrightarrow> length (lx_orig lx) - (p + charlen_at lx p) < length (lx_orig lx) - p"
  using charlen_at_le [of p lx] by auto

text \<open>
  The loop over a run of the type \<open>k\<close>: \<open>len\<close> and \<open>r\<close> at its end. It is the same for letters,
  digits and symbols.
\<close>

function run_loop :: "sen_lex \<Rightarrow> byte \<Rightarrow> nat \<Rightarrow> nat \<Rightarrow> nat \<Rightarrow> (nat \<times> nat) option" where
  "run_loop lx k r cp len =
     (let cl = charlen_at lx r in
      if cl = 0 then Some (len, r)
      else
        (case ctype_at lx cp of
           None \<Rightarrow> None
         | Some t \<Rightarrow>
             (if SEN_NSTR_ISBLANK t then Some (len, r + cl)
              else
                (case ctype_at lx (cp + 1) of
                   None \<Rightarrow> None
                 | Some t' \<Rightarrow>
                     (if SEN_NSTR_CTYPE t' \<noteq> k then Some (len, r + cl)
                      else run_loop lx k (r + cl) (cp + 1) (len + 1))))))"
  by pat_completeness auto
termination
  by (relation "measure (\<lambda>(lx, k, r, cp, len). length (lx_orig lx) - r)") auto

text \<open>
  The loop that collects the characters of an n-gram behind the first one: \<open>len\<close>, \<open>q\<close>, \<open>cl\<close> and
  \<open>blankp\<close> after it.
\<close>

function gram_loop :: "sen_lex \<Rightarrow> nat \<Rightarrow> nat \<Rightarrow> nat option \<Rightarrow> nat \<Rightarrow> (nat \<times> nat \<times> nat \<times> bool) option" where
  "gram_loop lx len q cp cl =
     (if len < SEN_LEX_NGRAM_UNIT_SIZE then
        (case (case cp of None \<Rightarrow> Some 0 | Some i \<Rightarrow> ctype_at lx i) of
           None \<Rightarrow> None
         | Some t \<Rightarrow>
             (if SEN_NSTR_ISBLANK t then Some (len, q, cl, True)
              else
                (let cp' = map_option Suc cp; cl' = charlen_at lx q in
                 if cl' = 0 then Some (len, q, cl', False)
                 else
                   (case (if unifies lx then ctype_at lx (the cp') else Some 0) of
                      None \<Rightarrow> None
                    | Some t' \<Rightarrow>
                        (if unified lx t' then Some (len, q, cl', False)
                         else gram_loop lx (len + 1) (q + cl') cp' cl')))))
      else Some (len, q, cl, False))"
  by pat_completeness auto
termination
  by (relation "measure (\<lambda>(lx, len, r). SEN_LEX_NGRAM_UNIT_SIZE - len)") auto

declare run_loop.simps [simp del] gram_loop.simps [simp del]

text \<open>The token from \<open>p\<close> up to \<open>q\<close>, and what is stored at the end of \<open>sen_ngram_next\<close>.\<close>

definition ngram_emit ::
  "alloc \<Rightarrow> 's lexicon \<Rightarrow> 's \<Rightarrow> sen_lex \<Rightarrow> nat \<Rightarrow> nat \<Rightarrow> int \<Rightarrow> nat \<Rightarrow> nat \<Rightarrow> int \<Rightarrow> u32 \<times> sen_lex \<times> 's" where
  "ngram_emit alloc L s lx p q pos r len skip =
     (let token = take (q - p) (drop p (lx_orig lx)); failed = (0, lx\<lparr>lx_status := sen_lex_done\<rparr>, s) in
      if q - p = 0 then failed
      else
        (case LEX_TOKEN alloc lx token of
           None \<Rightarrow> failed
         | Some lex1 \<Rightarrow>
             (let (tid, s1) = token_id L s lex1 token in
              (tid,
               lex1\<lparr>lx_skip := skip, lx_pos := pos, lx_len := int len, lx_tail := pos + int len - 1, lx_next := r,
                 lx_status := (if tid = 0 then sen_lex_not_found
                               else if rd (lx_orig lx) r = 0 then sen_lex_done else lx_status lex1)\<rparr>,
               s1))))"

function ngram_loop ::
  "alloc \<Rightarrow> 's lexicon \<Rightarrow> 's \<Rightarrow> sen_lex \<Rightarrow> nat \<Rightarrow> int \<Rightarrow> (u32 \<times> sen_lex \<times> 's) option" where
  "ngram_loop alloc L s lx p pos =
     (if rd (lx_orig lx) p = 0 then Some (0, lx\<lparr>lx_status := sen_lex_done\<rparr>, s)
      else
        (case (if unifies lx then ctype_at lx (nat pos) else Some 0) of
           None \<Rightarrow> None
         | Some t \<Rightarrow>
             (if unified lx t then
                (case run_loop lx (SEN_NSTR_CTYPE t) p (nat pos) 1 of
                   None \<Rightarrow> None
                 | Some (len, r) \<Rightarrow> Some (ngram_emit alloc L s lx p r pos r len (int len)))
              else
                (let cl = charlen_at lx p; r = p + cl; upd = has_flag (lx_flags lx) SEN_LEX_UPD in
                 if cl = 0 then Some (0, lx\<lparr>lx_status := sen_lex_done\<rparr>, s)
                 else
                   (case gram_loop lx 1 r (if ns_ctypes (lx_nstr lx) = None then None else Some (nat pos)) cl of
                      None \<Rightarrow> None
                    | Some (len, q, cl', blankp) \<Rightarrow>
                        (if blankp \<and> \<not> upd then ngram_loop alloc L s lx r (pos + 1)
                         else
                           (let lex1 = (if (cl' = 0 \<or> rd (lx_orig lx) q = 0) \<and> \<not> upd
                                        then lx\<lparr>lx_status := sen_lex_done\<rparr> else lx);
                                lex2 = (if len < SEN_LEX_NGRAM_UNIT_SIZE then lex1\<lparr>lx_force_prefix := True\<rparr> else lex1)
                            in Some (ngram_emit alloc L s lex2 p q pos r len 1))))))))"
  by pat_completeness auto
termination
  by (relation "measure (\<lambda>(alloc, L, s, lx, p, pos). length (lx_orig lx) - p)") auto

declare ngram_loop.simps [simp del]

definition sen_ngram_next :: "alloc \<Rightarrow> 's lexicon \<Rightarrow> 's \<Rightarrow> sen_lex \<Rightarrow> (u32 \<times> sen_lex \<times> 's) option" where
  "sen_ngram_next alloc L s lx =
     (if lx_status lx = sen_lex_done then Some (0, lx, s)
      else ngram_loop alloc L s (lx\<lparr>lx_force_prefix := False\<rparr>) (lx_next lx) (lx_pos lx + lx_skip lx))"

section \<open>Words\<close>

text \<open>The string that is cut into words: the output of MeCab, or the normalised string.\<close>

definition lex_text :: "sen_lex \<Rightarrow> bytes" where
  "lex_text lx = (case lx_buf lx of Some b \<Rightarrow> b | None \<Rightarrow> lx_orig lx)"

function skip_blanks :: "sen_encoding \<Rightarrow> bytes \<Rightarrow> nat \<Rightarrow> nat" where
  "skip_blanks enc tx p =
     (let cl = sen_isspace (Some (drop p tx)) enc in
      if cl \<noteq> 0 then skip_blanks enc tx (p + cl) else p)"
  by pat_completeness auto
termination
proof (relation "measure (\<lambda>(enc, tx, p). length tx - p)")
  fix enc tx p x
  assume "x = sen_isspace (Some (drop p tx)) enc" "x \<noteq> 0"
  then have "rd tx p \<noteq> 0" by (auto simp: sen_isspace_def rd_drop split: if_splits)
  then have "p < length tx" by (rule rd_nonzero_less)
  then show "((enc, tx, p + x), (enc, tx, p)) \<in> measure (\<lambda>(enc, tx, p). length tx - p)"
    using \<open>x \<noteq> 0\<close> by auto
qed simp

text \<open>The loop over the characters of a word: \<open>p\<close> and \<open>len\<close>.\<close>

function word_end :: "sen_encoding \<Rightarrow> bytes \<Rightarrow> nat \<Rightarrow> nat \<Rightarrow> nat \<times> nat" where
  "word_end enc tx p len =
     (let cl = sen_str_charlen (drop p tx) enc in
      if cl = 0 \<or> sen_isspace (Some (drop p tx)) enc \<noteq> 0 then (p, len)
      else word_end enc tx (p + cl) (len + 1))"
  by pat_completeness auto
termination
proof (relation "measure (\<lambda>(enc, tx, p, len). length tx - p)")
  fix enc tx p len x
  assume "x = sen_str_charlen (drop p tx) enc" "\<not> (x = 0 \<or> sen_isspace (Some (drop p tx)) enc \<noteq> 0)"
  then show "((enc, tx, p + x, len + 1), (enc, tx, p, len)) \<in> measure (\<lambda>(enc, tx, p, len). length tx - p)"
    using charlen_le [of "drop p tx" enc] by auto
qed simp

declare skip_blanks.simps [simp del] word_end.simps [simp del]

definition sen_delimited_open ::
  "alloc \<Rightarrow> sen_lex \<Rightarrow> u32 \<Rightarrow> sen_encoding \<Rightarrow> sen_nstr \<Rightarrow> u32 \<Rightarrow> sen_lex option" where
  "sen_delimited_open alloc blk sym_flags encoding nstr flags =
     (if \<not> alloc sizeof_sen_lex then None
      else
        (let tx = butlast (the (ns_norm nstr)); p = skip_blanks encoding tx 0 in
         Some (blk\<lparr>lx_sym_flags := sym_flags, lx_buf := None, lx_token := None, lx_tlen := 0, lx_pos := - 1,
           lx_skip := 1, lx_tail := 0, lx_flags := flags,
           lx_status := (if rd tx p = 0 then sen_lex_done else sen_lex_doing), lx_encoding := encoding,
           lx_nstr := nstr, lx_orig := tx, lx_next := p, lx_offset := 0, lx_len := 0,
           lx_force_prefix := False\<rparr>)))"

definition sen_delimited_next :: "alloc \<Rightarrow> 's lexicon \<Rightarrow> 's \<Rightarrow> sen_lex \<Rightarrow> u32 \<times> sen_lex \<times> 's" where
  "sen_delimited_next alloc L s lx =
     (let tx = lex_text lx; offset = lx_offset lx + lx_len lx;
          (p, len) = word_end (lx_encoding lx) tx (lx_next lx) 0;
          token = take (p - lx_next lx) (drop (lx_next lx) tx);
          failed = (0, lx\<lparr>lx_status := sen_lex_done\<rparr>, s)
      in if lx_status lx = sen_lex_done then (0, lx, s)
         else if len = 0 then failed
         else
           (case LEX_TOKEN alloc lx token of
              None \<Rightarrow> failed
            | Some lex1 \<Rightarrow>
                (let (tid, s1) = token_id L s lex1 token; p1 = skip_blanks (lx_encoding lx) tx p in
                 (tid,
                  lex1\<lparr>lx_next := p1, lx_offset := offset, lx_len := int len, lx_pos := lx_pos lx + 1,
                    lx_status := (if tid = 0 then sen_lex_not_found
                                  else if rd tx p1 = 0 then sen_lex_done else lx_status lex1)\<rparr>,
                  s1))))"

section \<open>MeCab\<close>

text \<open>
  What the program uses of MeCab: whether \<open>mecab_new\<close> succeeds, the output for a text and a size
  of the buffer (\<open>None\<close> when it does not fit), and the character set of the dictionary. \<open>sole\<close>
  is \<open>sole_mecab != NULL\<close>.
\<close>

record mecab =
  me_new :: bool
  me_sparse :: "bytes \<Rightarrow> u32 \<Rightarrow> bytes option"
  me_charset :: "bytes option"

definition SOLE_MECAB_CONFIRM :: "mecab \<Rightarrow> bool \<Rightarrow> bool" where
  "SOLE_MECAB_CONFIRM me sole = (if \<not> sole then me_new me else sole)"

text \<open>
  The trials with buffers of doubling size: \<open>Inl True\<close> is a failed allocation, \<open>Inl False\<close> ten
  trials without success.
\<close>

fun mecab_trials :: "alloc \<Rightarrow> mecab \<Rightarrow> bytes \<Rightarrow> u32 \<Rightarrow> nat \<Rightarrow> bool + bytes" where
  "mecab_trials alloc me norm bufsize 0 = Inl False"
| "mecab_trials alloc me norm bufsize (Suc maxtrial) =
     (if \<not> alloc (unat (bufsize + 1)) then Inl True
      else
        (case me_sparse me norm bufsize of
           Some b \<Rightarrow> Inr b
         | None \<Rightarrow> mecab_trials alloc me norm (bufsize * 2) maxtrial))"

text \<open>\<open>isspace\<close> in the C locale, and the output without trailing line feeds and spaces.\<close>

definition c_isspace :: "byte \<Rightarrow> bool" where
  "c_isspace c \<longleftrightarrow> c = 0x20 \<or> 0x09 \<le> c \<and> c \<le> 0x0d"

definition mecab_trim :: "bytes \<Rightarrow> bytes" where
  "mecab_trim b = rev (dropWhile (\<lambda>c. c = 0x0a \<or> c_isspace c) (rev (takeWhile (\<lambda>c. c \<noteq> 0) b)))"

definition sen_mecab_open ::
  "alloc \<Rightarrow> sen_lex \<Rightarrow> mecab \<Rightarrow> bool \<Rightarrow> u32 \<Rightarrow> sen_encoding \<Rightarrow> sen_nstr \<Rightarrow> u32 \<Rightarrow> sen_lex option \<times> bool" where
  "sen_mecab_open alloc blk me sole sym_flags encoding nstr flags =
     (let sole1 = SOLE_MECAB_CONFIRM me sole; len = of_nat (ns_norm_blen nstr) :: u32;
          norm = take (unat len) (the (ns_norm nstr))
      in if \<not> alloc sizeof_sen_lex then (None, sole)
         else if \<not> sole1 then (None, sole1)
         else
           (case mecab_trials alloc me norm (len * 2 + 1) 10 of
              Inl _ \<Rightarrow> (None, sole1)
            | Inr b \<Rightarrow>
                (Some (blk\<lparr>lx_sym_flags := sym_flags, lx_buf := Some (mecab_trim b), lx_token := None,
                   lx_tlen := 0, lx_pos := - 1, lx_offset := 0, lx_len := 0, lx_flags := flags,
                   lx_status := sen_lex_doing, lx_encoding := encoding, lx_nstr := nstr,
                   lx_orig := butlast (the (ns_norm nstr)), lx_next := 0, lx_force_prefix := False\<rparr>), sole1)))"

text \<open>\<open>sen_mecab_next\<close> has the same text as \<open>sen_delimited_next\<close>.\<close>

definition sen_mecab_next :: "alloc \<Rightarrow> 's lexicon \<Rightarrow> 's \<Rightarrow> sen_lex \<Rightarrow> u32 \<times> sen_lex \<times> 's" where
  "sen_mecab_next alloc L s lx = sen_delimited_next alloc L s lx"

section \<open>The interface\<close>

text \<open>The flags and the encoding of the symbol table.\<close>

record lex_sym =
  ly_flags :: u32
  ly_encoding :: sen_encoding

definition sen_lex_init :: "sen_rc \<times> bool" where
  "sen_lex_init = (sen_success, False)"

text \<open>Whether there is a MeCab to destroy, too.\<close>

definition sen_lex_fin :: "bool \<Rightarrow> sen_rc \<times> bool \<times> bool" where
  "sen_lex_fin sole = (sen_success, sole, False)"

text \<open>
  \<open>None\<close> is a read outside the text while it is normalised, or a null text that is not
  normalised. The block of the normalised string is \<open>nblk\<close>, that of the tokenizer \<open>blk\<close>.
\<close>

definition lex_nflag :: "u32 \<Rightarrow> u32" where
  "lex_nflag type = (if type = SEN_INDEX_NGRAM then SEN_STR_REMOVEBLANK OR SEN_STR_WITH_CTYPES else 0)"

definition sen_lex_open ::
  "alloc \<Rightarrow> nfkc \<Rightarrow> sen_nstr \<Rightarrow> sen_lex \<Rightarrow> mecab \<Rightarrow> bool \<Rightarrow> lex_sym option \<Rightarrow> bytes option \<Rightarrow> nat \<Rightarrow> u32 \<Rightarrow>
     (sen_lex option \<times> bool) option" where
  "sen_lex_open alloc nf nblk blk me sole sy str str_len flags =
     (case sy of
        None \<Rightarrow> Some (None, sole)
      | Some y \<Rightarrow>
          (let type = ly_flags y AND SEN_INDEX_TOKENIZER_MASK; nflag = lex_nflag type in
           case (if has_flag (ly_flags y) SEN_INDEX_NORMALIZE
                 then sen_nstr_open alloc nf nblk str str_len (ly_encoding y) nflag
                 else map_option (\<lambda>s. sen_fakenstr_open alloc nblk s str_len (ly_encoding y) nflag) str) of
             None \<Rightarrow> None
           | Some None \<Rightarrow> Some (None, sole)
           | Some (Some nstr) \<Rightarrow>
               Some (if type = SEN_INDEX_MORPH_ANALYSE
                     then sen_mecab_open alloc blk me sole (ly_flags y) (ly_encoding y) nstr flags
                     else if type = SEN_INDEX_NGRAM
                     then (sen_ngram_open alloc blk (ly_flags y) (ly_encoding y) nstr flags, sole)
                     else if type = SEN_INDEX_DELIMITED
                     then (sen_delimited_open alloc blk (ly_flags y) (ly_encoding y) nstr flags, sole)
                     else (None, sole))))"

text \<open>The result is a return code in the source; it holds the number of the token, or the code 4.\<close>

definition sen_lex_next :: "alloc \<Rightarrow> 's lexicon \<Rightarrow> 's \<Rightarrow> sen_lex \<Rightarrow> (u32 \<times> sen_lex \<times> 's) option" where
  "sen_lex_next alloc L s lx =
     (let type = lx_sym_flags lx AND SEN_INDEX_TOKENIZER_MASK in
      if type = SEN_INDEX_MORPH_ANALYSE then Some (sen_mecab_next alloc L s lx)
      else if type = SEN_INDEX_NGRAM then sen_ngram_next alloc L s lx
      else if type = SEN_INDEX_DELIMITED then Some (sen_delimited_next alloc L s lx)
      else Some (4, lx, s))"

text \<open>The blocks that \<open>sen_lex_close\<close> frees, in order.\<close>

datatype lex_block = Lex_nstr nstr_block | Lex_buf | Lex_token | Lex_lex

definition sen_lex_close :: "sen_lex option \<Rightarrow> sen_rc \<times> lex_block list" where
  "sen_lex_close lex_opt =
     (case lex_opt of
        Some lx \<Rightarrow>
          (sen_success,
           map Lex_nstr (snd (sen_nstr_close (Some (lx_nstr lx)))) @
           (if lx_buf lx \<noteq> None then [Lex_buf] else []) @
           (if lx_token lx \<noteq> None then [Lex_token] else []) @ [Lex_lex])
      | None \<Rightarrow> (sen_invalid_argument, []))"

text \<open>\<open>sen_lex_validate\<close> of a build with MeCab's dictionary information.\<close>

definition charset_encoding :: "bytes \<Rightarrow> sen_encoding option" where
  "charset_encoding cs =
     (if rd cs 0 = 0x75 then Some sen_enc_utf8
      else if rd cs 0 = 0x65 then Some sen_enc_euc_jp
      else if rd cs 0 \<in> {0x63, 0x73} then Some sen_enc_sjis
      else None)"

definition sen_lex_validate :: "mecab \<Rightarrow> bool \<Rightarrow> lex_sym option \<Rightarrow> sen_rc \<times> bool" where
  "sen_lex_validate me sole sy =
     (case sy of
        None \<Rightarrow> (sen_invalid_argument, sole)
      | Some y \<Rightarrow>
          (if ly_flags y AND SEN_INDEX_TOKENIZER_MASK = SEN_INDEX_MORPH_ANALYSE then
             (let sole1 = SOLE_MECAB_CONFIRM me sole in
              if \<not> sole1 then (sen_external_error, sole1)
              else
                (case me_charset me of
                   None \<Rightarrow> (sen_external_error, sole1)
                 | Some cs \<Rightarrow>
                     (case charset_encoding cs of
                        None \<Rightarrow> (sen_external_error, sole1)
                      | Some enc \<Rightarrow> (if enc \<noteq> ly_encoding y then sen_abnormal_error else sen_success, sole1))))
           else (sen_success, sole)))"

end
