(* ===== verification/Lex_Proof.thy ===== *)
theory Lex_Proof
  imports Lex
begin

text \<open>
  What the tokenizers of lib/lex.c produce: the loop of the callers over \<open>sen_lex_next\<close>, and the
  proof that it yields the n-grams and runs, or the words, of the text, numbered in order by the
  symbol table up to the first one that the table does not know.
\<close>

section \<open>The loop of the callers\<close>

text \<open>
  \<open>while (!lex->status) { tid = sen_lex_next(lex); if (tid) ... }\<close> of \<open>sen_index_upd\<close>: the tokens
  that are added, with their numbers, positions, lengths and \<open>force_prefix\<close>. \<open>None\<close> when the fuel
  is exhausted or a type is read outside of its array.
\<close>

type_synonym token = "u32 \<times> bytes \<times> int \<times> int \<times> bool"

definition token_of :: "u32 \<Rightarrow> sen_lex \<Rightarrow> token list" where
  "token_of tid lx =
     (if tid = 0 then [] else [(tid, the (lx_token lx), lx_pos lx, lx_len lx, lx_force_prefix lx)])"

fun lex_loop :: "alloc \<Rightarrow> 's lexicon \<Rightarrow> nat \<Rightarrow> 's \<Rightarrow> sen_lex \<Rightarrow> (token list \<times> 's) option" where
  "lex_loop alloc L 0 s lx = (if lx_status lx = sen_lex_doing then None else Some ([], s))"
| "lex_loop alloc L (Suc fuel) s lx =
     (if lx_status lx = sen_lex_doing then
        (case sen_lex_next alloc L s lx of
           None \<Rightarrow> None
         | Some (tid, lx1, s1) \<Rightarrow>
             map_option (\<lambda>(ts, s2). (token_of tid lx1 @ ts, s2)) (lex_loop alloc L fuel s1 lx1))
      else Some ([], s))"

text \<open>What follows a result of \<open>sen_lex_next\<close>.\<close>

definition lex_after ::
  "alloc \<Rightarrow> 's lexicon \<Rightarrow> nat \<Rightarrow> (u32 \<times> sen_lex \<times> 's) option \<Rightarrow> (token list \<times> 's) option" where
  "lex_after alloc L fuel res =
     (case res of
        None \<Rightarrow> None
      | Some (tid, lx1, s1) \<Rightarrow>
          map_option (\<lambda>(ts, s2). (token_of tid lx1 @ ts, s2)) (lex_loop alloc L fuel s1 lx1))"

lemma lex_loop_doing:
  "lx_status lx = sen_lex_doing \<Longrightarrow>
     lex_loop alloc L (Suc fuel) s lx = lex_after alloc L fuel (sen_lex_next alloc L s lx)"
  by (simp add: lex_after_def)

lemma lex_loop_ended [simp]: "lx_status lx \<noteq> sen_lex_doing \<Longrightarrow> lex_loop alloc L fuel s lx = Some ([], s)"
  by (cases fuel) simp_all

lemma lex_after_end [simp]:
  "lx_status lx \<noteq> sen_lex_doing \<Longrightarrow> lex_after alloc L fuel (Some (tid, lx, s)) = Some (token_of tid lx, s)"
  by (simp add: lex_after_def)

text \<open>The tokens of the reference: text, position, length in characters, prefix; and their numbers.\<close>

type_synonym ref_token = "bytes \<times> nat \<times> nat \<times> bool"

definition lookup_id :: "'s lexicon \<Rightarrow> bool \<Rightarrow> 's \<Rightarrow> bytes \<Rightarrow> u32 \<times> 's" where
  "lookup_id L add s t = (if add then sym_get L s t else (sym_at L s t, s))"

fun number :: "'s lexicon \<Rightarrow> bool \<Rightarrow> 's \<Rightarrow> ref_token list \<Rightarrow> token list \<times> 's" where
  "number L add s [] = ([], s)"
| "number L add s ((t, p, l, b) # ts) =
     (let (tid, s1) = lookup_id L add s t in
      if tid = 0 then ([], s1)
      else let (r, s2) = number L add s1 ts in ((tid, t, int p, int l, b) # r, s2))"

section \<open>Texts of whole characters\<close>

definition chars_ok :: "sen_encoding \<Rightarrow> bytes list \<Rightarrow> bool" where
  "chars_ok enc cs \<longleftrightarrow> (\<forall>c \<in> set cs. c \<noteq> [] \<and> 0 \<notin> set c \<and> sen_str_charlen_nonnull c enc = length c)"

lemma chars_ok_Cons [simp]:
  "chars_ok enc (c # cs) \<longleftrightarrow>
     c \<noteq> [] \<and> 0 \<notin> set c \<and> sen_str_charlen_nonnull c enc = length c \<and> chars_ok enc cs"
  by (auto simp: chars_ok_def)

lemma chars_ok_drop: "chars_ok enc cs \<Longrightarrow> chars_ok enc (drop i cs)"
  by (auto simp: chars_ok_def dest: in_set_dropD)

lemma chars_of_ok: "chars_of enc s = Some cs \<Longrightarrow> 0 \<notin> set s \<Longrightarrow> concat cs = s \<and> chars_ok enc cs"
proof (induction cs arbitrary: s)
  case Nil
  then show ?case by (auto simp: chars_ok_def dest: delimited_reader.split_concat)
next
  case (Cons c cs)
  note c = chars_Cons [OF Cons.prems(1)]
  have "0 \<notin> set (drop (length c) s)" using Cons.prems(2) by (auto dest: in_set_dropD)
  then have "concat cs = drop (length c) s \<and> chars_ok enc cs" using Cons.IH c(3) by blast
  moreover have "0 \<notin> set c" using Cons.prems(2) c(2) by (metis UnCI set_append)
  ultimately show ?case using c(1,2) c(4) [of "[]"] by simp
qed

lemma charlen_concat:
  assumes "chars_ok enc cs"
  shows "sen_str_charlen (concat cs) enc = (case cs of [] \<Rightarrow> 0 | c # _ \<Rightarrow> length c)"
proof (cases cs)
  case (Cons c r)
  have "0 \<notin> set (concat cs)" using assms by (auto simp: chars_ok_def)
  then have "sen_str_charlen (concat cs) enc = sen_str_charlen_nonnull (c @ concat r) enc"
    using Cons by (simp add: charlen_nonnull_eq)
  also have "\<dots> = length c"
    using assms Cons delimited_reader.reader_local [of c enc "length c" "concat r"] by simp
  finally show ?thesis using Cons by simp
qed simp

lemma rd_concat: "chars_ok enc cs \<Longrightarrow> rd (concat cs) 0 = 0 \<longleftrightarrow> cs = []"
  by (cases cs) (auto simp: neq_Nil_conv)

text \<open>The offset of a character.\<close>

definition off :: "bytes list \<Rightarrow> nat \<Rightarrow> nat" where
  "off cs i = length (concat (take i cs))"

lemma off_0 [simp]: "off cs 0 = 0"
  by (simp add: off_def)

lemma off_Suc: "i < length cs \<Longrightarrow> off cs (Suc i) = off cs i + length (cs ! i)"
  by (simp add: off_def take_Suc_conv_app_nth)

lemma off_add: "off cs (i + m) = off cs i + length (concat (take m (drop i cs)))"
  by (simp add: off_def take_add)

lemma drop_off: "drop (off cs i) (concat cs) = concat (drop i cs)"
proof -
  have "concat cs = concat (take i cs) @ concat (drop i cs)"
    by (metis append_take_drop_id concat_append)
  then show ?thesis by (simp add: off_def)
qed

lemma take_off: "take (off cs (i + m) - off cs i) (drop (off cs i) (concat cs)) = concat (take m (drop i cs))"
proof -
  have "concat (drop i cs) = concat (take m (drop i cs)) @ concat (drop m (drop i cs))"
    by (metis append_take_drop_id concat_append)
  then show ?thesis by (simp add: drop_off off_add)
qed

lemma length_chars_part:
  fixes cs :: "bytes list"
  shows "length (concat (take m (drop i cs))) \<le> length (concat cs)"
proof -
  have "length (concat (take m xs)) \<le> length (concat xs)" for xs :: "bytes list"
    by (metis append_take_drop_id concat_append le_add1 length_append)
  then have "length (concat (take m (drop i cs))) \<le> length (concat (drop i cs))" .
  also have "length (concat (drop i cs)) \<le> length (concat cs)"
    by (metis append_take_drop_id concat_append le_add2 length_append)
  finally show ?thesis .
qed

lemma rd_off: "chars_ok enc cs \<Longrightarrow> rd (concat cs) (off cs i) = 0 \<longleftrightarrow> length cs \<le> i"
  using rd_concat [OF chars_ok_drop, of enc cs i] drop_off [of cs i] rd_drop [of "off cs i" "concat cs" 0]
  by simp

lemma charlen_off:
  "chars_ok enc cs \<Longrightarrow>
     sen_str_charlen (concat (drop i cs)) enc = (if i < length cs then length (cs ! i) else 0)"
  using charlen_concat [OF chars_ok_drop, of enc cs i]
  by (auto simp: Cons_nth_drop_Suc [symmetric])

section \<open>N-grams: the reference\<close>

text \<open>A character with its type. A run ends behind a blank or where the type changes.\<close>

type_synonym item = "bytes \<times> byte"

fun run_of :: "byte \<Rightarrow> item list \<Rightarrow> item list" where
  "run_of k [] = []"
| "run_of k (x # xs) =
     x # (if SEN_NSTR_ISBLANK (snd x) then []
          else case xs of [] \<Rightarrow> [] | y # _ \<Rightarrow> if SEN_NSTR_CTYPE (snd y) = k then run_of k xs else [])"

lemma take_run: "take (length (run_of k xs)) xs = run_of k xs"
proof (induction xs)
  case (Cons x xs)
  then show ?case by (cases xs) simp_all
qed simp

lemma drop_run_shorter [simp]:
  "length (drop (length (run_of k (x # xs))) (x # xs)) < Suc (length xs)"
  by simp

text \<open>
  \<open>un\<close> are the types whose runs are kept together. With \<open>upd\<close> (an update of the index) the
  tokens begin at every character; without it (a search) a character before a blank or behind the
  last pair gives none.
\<close>

function ref_grams :: "(byte \<Rightarrow> bool) \<Rightarrow> bool \<Rightarrow> nat \<Rightarrow> item list \<Rightarrow> ref_token list" where
  "ref_grams un upd pos [] = []"
| "ref_grams un upd pos (x # xs) =
     (if un (snd x) then
        (let run = run_of (SEN_NSTR_CTYPE (snd x)) (x # xs) in
         (concat (map fst run), pos, length run, False) #
         ref_grams un upd (pos + length run) (drop (length run) (x # xs)))
      else if SEN_NSTR_ISBLANK (snd x) then
        (if upd then [(fst x, pos, 1, True)] else []) @ ref_grams un upd (Suc pos) xs
      else
        (case xs of
           [] \<Rightarrow> [(fst x, pos, 1, True)]
         | y # ys \<Rightarrow>
             (if un (snd y) then (fst x, pos, 1, True) # ref_grams un upd (Suc pos) xs
              else (fst x @ fst y, pos, 2, False) #
                (if \<not> upd \<and> ys = [] then [] else ref_grams un upd (Suc pos) xs))))"
  by pat_completeness auto
termination
  by (relation "measure (\<lambda>(un, upd, pos, xs). length xs)")
    (simp_all del: run_of.simps length_drop)

section \<open>N-grams: the loops\<close>

text \<open>A tokenizer over a text of whole characters \<open>cs\<close> with the types \<open>ts\<close>.\<close>

definition reads ::
  "sen_lex \<Rightarrow> (byte \<Rightarrow> bool) \<Rightarrow> bool \<Rightarrow> bool \<Rightarrow> bytes list \<Rightarrow> byte list \<Rightarrow> bool" where
  "reads lx un upd add cs ts \<longleftrightarrow>
     lx_orig lx = concat cs \<and> chars_ok (lx_encoding lx) cs \<and> length ts = length cs \<and>
     (ns_ctypes (lx_nstr lx) = Some (ts @ [0]) \<or>
      ns_ctypes (lx_nstr lx) = None \<and> \<not> unifies lx \<and> (\<forall>t \<in> set ts. \<not> SEN_NSTR_ISBLANK t)) \<and>
     un = unified lx \<and> upd = has_flag (lx_flags lx) SEN_LEX_UPD \<and> add = has_flag (lx_flags lx) SEN_LEX_ADD \<and>
     lx_sym_flags lx AND SEN_INDEX_TOKENIZER_MASK = SEN_INDEX_NGRAM"

lemma reads_update [simp]:
  "reads (lx\<lparr>lx_token := a\<rparr>) un upd add cs ts = reads lx un upd add cs ts"
  "reads (lx\<lparr>lx_tlen := n\<rparr>) un upd add cs ts = reads lx un upd add cs ts"
  "reads (lx\<lparr>lx_skip := i\<rparr>) un upd add cs ts = reads lx un upd add cs ts"
  "reads (lx\<lparr>lx_pos := i\<rparr>) un upd add cs ts = reads lx un upd add cs ts"
  "reads (lx\<lparr>lx_len := i\<rparr>) un upd add cs ts = reads lx un upd add cs ts"
  "reads (lx\<lparr>lx_tail := i\<rparr>) un upd add cs ts = reads lx un upd add cs ts"
  "reads (lx\<lparr>lx_next := n\<rparr>) un upd add cs ts = reads lx un upd add cs ts"
  "reads (lx\<lparr>lx_status := st\<rparr>) un upd add cs ts = reads lx un upd add cs ts"
  "reads (lx\<lparr>lx_force_prefix := b\<rparr>) un upd add cs ts = reads lx un upd add cs ts"
  by (simp_all add: reads_def unified_def unifies_def fun_eq_iff)

lemma SEN_LEX_NGRAM_UNIT_SIZE_2 [simp]: "SEN_LEX_NGRAM_UNIT_SIZE = 2"
  by (simp add: SEN_LEX_NGRAM_UNIT_SIZE_def)

lemma unified_unifies: "unified lx t \<Longrightarrow> unifies lx"
  by (auto simp: unified_def unifies_def)

lemma unified_kind: "unified lx t \<Longrightarrow> SEN_NSTR_CTYPE t \<noteq> 0"
  by (auto simp: unified_def sen_str_alpha_def sen_str_digit_def sen_str_symbol_def)

lemma unified_0 [simp]: "\<not> unified lx 0"
  by (auto simp: unified_def sen_str_alpha_def sen_str_digit_def sen_str_symbol_def SEN_NSTR_CTYPE_def)

lemma reads_charlen:
  "reads lx un upd add cs ts \<Longrightarrow> charlen_at lx (off cs i) = (if i < length cs then length (cs ! i) else 0)"
  by (simp add: reads_def drop_off charlen_off)

lemma reads_rd: "reads lx un upd add cs ts \<Longrightarrow> rd (lx_orig lx) (off cs i) = 0 \<longleftrightarrow> length cs \<le> i"
  using rd_off [of "lx_encoding lx" cs i] by (simp add: reads_def)

lemma reads_ctype:
  "reads lx un upd add cs ts \<Longrightarrow> ns_ctypes (lx_nstr lx) \<noteq> None \<Longrightarrow> i \<le> length cs \<Longrightarrow>
     ctype_at lx i = Some (if i < length cs then ts ! i else 0)"
  by (auto simp: reads_def ctype_at_def nth_append)

lemma reads_unifies: "reads lx un upd add cs ts \<Longrightarrow> unifies lx \<Longrightarrow> ns_ctypes (lx_nstr lx) \<noteq> None"
  by (auto simp: reads_def)

lemma reads_items:
  "reads lx un upd add cs ts \<Longrightarrow> i < length cs \<Longrightarrow>
     drop i (zip cs ts) = (cs ! i, ts ! i) # drop (Suc i) (zip cs ts)"
  by (simp add: reads_def Cons_nth_drop_Suc [symmetric])

lemma reads_char: "reads lx un upd add cs ts \<Longrightarrow> i < length cs \<Longrightarrow> cs ! i \<noteq> []"
  by (simp add: reads_def chars_ok_def)

lemma blank_0 [simp]: "\<not> SEN_NSTR_ISBLANK 0" and kind_0 [simp]: "SEN_NSTR_CTYPE 0 = 0"
  by (simp_all add: SEN_NSTR_ISBLANK_def SEN_NSTR_CTYPE_def)

lemma run_loop_run:
  assumes "reads lx un upd add cs ts" "ns_ctypes (lx_nstr lx) \<noteq> None" "k \<noteq> 0" "i < length cs"
  shows "run_loop lx k (off cs i) i len =
    Some (len + length (run_of k (drop i (zip cs ts))) - 1, off cs (i + length (run_of k (drop i (zip cs ts)))))"
  using assms(4)
proof (induction "length cs - i" arbitrary: i len rule: less_induct)
  case less
  note r = assms(1)
  have it: "drop i (zip cs ts) = (cs ! i, ts ! i) # drop (Suc i) (zip cs ts)"
    using reads_items [OF r less.prems] .
  have os: "off cs i + length (cs ! i) = off cs (Suc i)" using off_Suc less.prems by metis
  have cl: "charlen_at lx (off cs i) = length (cs ! i)" "length (cs ! i) \<noteq> 0"
    using reads_charlen [OF r] reads_char [OF r] less.prems by auto
  have ct: "ctype_at lx i = Some (ts ! i)"
    "ctype_at lx (Suc i) = Some (if Suc i < length cs then ts ! Suc i else 0)"
    using reads_ctype [OF r assms(2)] less.prems by auto
  show ?case
  proof (cases "\<not> SEN_NSTR_ISBLANK (ts ! i) \<and> Suc i < length cs \<and> SEN_NSTR_CTYPE (ts ! Suc i) = k")
    case True
    then have it2: "drop (Suc i) (zip cs ts) = (cs ! Suc i, ts ! Suc i) # drop (Suc (Suc i)) (zip cs ts)"
      using reads_items [OF r] by blast
    have ro: "run_of k (drop i (zip cs ts)) = (cs ! i, ts ! i) # run_of k (drop (Suc i) (zip cs ts))"
      unfolding it run_of.simps(2) [of k "(cs ! i, ts ! i)"] using True it2 by simp
    have pos: "0 < length (run_of k (drop (Suc i) (zip cs ts)))" using it2 by simp
    show ?thesis
      using True less.hyps [OF diff_less_mono2 [OF lessI less.prems], of "Suc len"] cl ct os ro pos
      by (subst run_loop.simps) simp
  next
    case False
    have "run_of k (drop i (zip cs ts)) = [(cs ! i, ts ! i)]"
    proof (cases "Suc i < length cs")
      case True
      with False show ?thesis unfolding it using reads_items [OF r True] by auto
    next
      case F: False
      then have "drop (Suc i) (zip cs ts) = []" by simp
      then show ?thesis unfolding it by simp
    qed
    then show ?thesis using False less.prems cl ct os assms(3)
      by (subst run_loop.simps) (auto simp: Let_def)
  qed
qed

lemma gram_loop_step:
  assumes "reads lx un upd add cs ts" "i < length cs"
  shows "gram_loop lx 1 (off cs (Suc i)) (if ns_ctypes (lx_nstr lx) = None then None else Some i) cl =
    Some (if SEN_NSTR_ISBLANK (ts ! i) then (1, off cs (Suc i), cl, True)
          else if Suc i = length cs then (1, off cs (Suc i), 0, False)
          else if un (ts ! Suc i) then (1, off cs (Suc i), length (cs ! Suc i), False)
          else (2, off cs (Suc (Suc i)), length (cs ! Suc i), False))"
proof -
  note r = assms(1)
  have un: "un = unified lx" using r by (simp add: reads_def)
  have cl: "charlen_at lx (off cs (Suc i)) = (if Suc i < length cs then length (cs ! Suc i) else 0)"
    using reads_charlen [OF r] .
  have ne: "Suc i < length cs \<Longrightarrow> length (cs ! Suc i) \<noteq> 0" using reads_char [OF r] by simp
  have os: "Suc i < length cs \<Longrightarrow> off cs (Suc i) + length (cs ! Suc i) = off cs (Suc (Suc i))"
    using off_Suc by metis
  have two: "gram_loop lx 2 q cp c = Some (2, q, c, False)" for q cp c
    by (subst gram_loop.simps) simp
  show ?thesis
  proof (cases "ns_ctypes (lx_nstr lx) = None")
    case True
    then have "\<not> unifies lx" "\<not> SEN_NSTR_ISBLANK (ts ! i)" using r assms(2) by (auto simp: reads_def)
    moreover from this have "\<not> unified lx t" for t using unified_unifies by blast
    ultimately show ?thesis using True cl ne os assms(2) un
      by (subst gram_loop.simps) (auto simp: Let_def two numeral_2_eq_2 [symmetric])
  next
    case False
    then have ct: "ctype_at lx i = Some (ts ! i)"
      "Suc i < length cs \<Longrightarrow> ctype_at lx (Suc i) = Some (ts ! Suc i)"
      using reads_ctype [OF r False] assms(2) by auto
    have "\<not> unifies lx \<Longrightarrow> \<not> unified lx t" for t using unified_unifies by blast
    then show ?thesis using False cl ne os ct assms(2) un
      by (subst gram_loop.simps) (auto simp: Let_def two numeral_2_eq_2 [symmetric])
  qed
qed

section \<open>N-grams: the tokens\<close>

lemma LEX_TOKEN_alloc:
  "alloc (length t + 1) \<Longrightarrow>
     LEX_TOKEN alloc lx t = Some (lx\<lparr>lx_token := Some t, lx_tlen := max (lx_tlen lx) (length t)\<rparr>)"
  by (auto simp: LEX_TOKEN_def max_def)

lemma token_id_lookup: "has_flag (lx_flags lx) SEN_LEX_ADD = add \<Longrightarrow> token_id L s lx t = lookup_id L add s t"
  by (simp add: token_id_def lookup_id_def)

lemma after_emit:
  assumes r: "reads lx un upd add cs ts" and alloc: "\<And>m. m \<le> length (concat cs) + 1 \<Longrightarrow> alloc m"
    and i: "i < length cs" "0 < m" "i' \<le> length cs" and skip: "int i + skip = int i'"
    and st: "lx_status lx = sen_lex_doing \<or> lx_status lx = sen_lex_done \<and> rest = []"
    and rest: "i' = length cs \<Longrightarrow> rest = []"
    and IH: "\<And>s1 lx1. lx_status lx = sen_lex_doing \<Longrightarrow> reads lx1 un upd add cs ts \<Longrightarrow> lx_status lx1 = sen_lex_doing \<Longrightarrow>
      lx_next lx1 = off cs i' \<Longrightarrow> lx_pos lx1 + lx_skip lx1 = int i' \<Longrightarrow> i' < length cs \<Longrightarrow>
      lex_loop alloc L f s1 lx1 = Some (number L add s1 rest)"
  shows "lex_after alloc L f
      (Some (ngram_emit alloc L s lx (off cs i) (off cs (i + m)) (int i) (off cs i') len skip)) =
    Some (number L add s ((concat (take m (drop i cs)), i, len, lx_force_prefix lx) # rest))"
proof -
  let ?t = "concat (take m (drop i cs))"
  obtain m' where m': "m = Suc m'" using i(2) by (cases m) auto
  have "drop i cs = cs ! i # drop (Suc i) cs" using i(1) by (simp add: Cons_nth_drop_Suc)
  then have ne: "?t \<noteq> []" using reads_char [OF r i(1)] m' by simp
  have "off cs (i + m) - off cs i = length ?t" by (simp add: off_add)
  then have ne': "off cs (i + m) - off cs i \<noteq> 0" using ne by (metis length_0_conv)
  have tok: "take (off cs (i + m) - off cs i) (drop (off cs i) (lx_orig lx)) = ?t"
    using r take_off by (simp add: reads_def)
  have al: "alloc (length ?t + 1)" using alloc length_chars_part [of m i cs] by simp
  have rd0: "rd (lx_orig lx) (off cs i') = 0 \<longleftrightarrow> i' = length cs" using reads_rd [OF r] i(3) by auto
  obtain tid s1 where lk: "lookup_id L add s ?t = (tid, s1)" by fastforce
  let ?lx1 = "lx\<lparr>lx_token := Some ?t, lx_tlen := max (lx_tlen lx) (length ?t)\<rparr>"
  let ?lx2 = "?lx1\<lparr>lx_skip := skip, lx_pos := int i, lx_len := int len, lx_tail := int i + int len - 1,
    lx_next := off cs i', lx_status := (if tid = 0 then sen_lex_not_found
      else if i' = length cs then sen_lex_done else lx_status lx)\<rparr>"
  have "has_flag (lx_flags ?lx1) SEN_LEX_ADD = add" using r by (simp add: reads_def)
  then have tid: "token_id L s ?lx1 ?t = (tid, s1)" using lk token_id_lookup by metis
  have emit: "ngram_emit alloc L s lx (off cs i) (off cs (i + m)) (int i) (off cs i') len skip = (tid, ?lx2, s1)"
    unfolding ngram_emit_def Let_def tok LEX_TOKEN_alloc [where alloc = alloc and lx = lx and t = ?t, OF al] option.case tid
      prod.case if_not_P [OF ne'] by (simp add: rd0)
  have tk: "token_of tid ?lx2 = (if tid = 0 then [] else [(tid, ?t, int i, int len, lx_force_prefix lx)])"
    by (simp add: token_of_def)
  show ?thesis
  proof (cases "tid = 0 \<or> i' = length cs \<or> lx_status lx = sen_lex_done")
    case True
    then have e: "lx_status ?lx2 \<noteq> sen_lex_doing" and n: "tid = 0 \<or> rest = []" using st rest by auto
    show ?thesis unfolding emit lex_after_end [OF e] tk using n lk by auto
  next
    case False
    then have "lex_loop alloc L f s1 ?lx2 = Some (number L add s1 rest)"
      using IH [of ?lx2 s1] r st i(3) skip by auto
    then show ?thesis unfolding emit lex_after_def option.case prod.case tk using False lk
      by (simp add: case_prod_beta)
  qed
qed

lemma lex_loop_next:
  assumes "reads lx un upd add cs ts" "lx_status lx = sen_lex_doing" "lx_next lx = off cs i"
    "lx_pos lx + lx_skip lx = int i"
  shows "lex_loop alloc L (Suc f) s lx =
    lex_after alloc L f (ngram_loop alloc L s (lx\<lparr>lx_force_prefix := False\<rparr>) (off cs i) (int i))"
  using assms unfolding lex_loop_doing [OF assms(2)]
  by (simp add: sen_lex_next_def sen_ngram_next_def reads_def SEN_INDEX_MORPH_ANALYSE_def SEN_INDEX_NGRAM_def)

lemma ngram_loop_run:
  assumes r: "reads lx un upd add cs ts" and i: "i < length cs" "un (ts ! i)"
  shows "ngram_loop alloc L s lx (off cs i) (int i) =
    (let n = length (run_of (SEN_NSTR_CTYPE (ts ! i)) (drop i (zip cs ts))) in
     Some (ngram_emit alloc L s lx (off cs i) (off cs (i + n)) (int i) (off cs (i + n)) n (int n)))"
proof -
  have un: "unified lx (ts ! i)" using r i(2) by (simp add: reads_def)
  then have c: "ns_ctypes (lx_nstr lx) \<noteq> None" using reads_unifies [OF r] unified_unifies by blast
  show ?thesis
    using un unified_unifies [OF un] reads_rd [OF r, of i] reads_ctype [OF r c, of i] i
      run_loop_run [OF r c unified_kind [OF un] i(1), of 1]
    by (subst ngram_loop.simps) (simp add: Let_def)
qed

lemma ngram_loop_gram:
  assumes r: "reads lx un upd add cs ts" and i: "i < length cs" "\<not> un (ts ! i)"
  shows "ngram_loop alloc L s lx (off cs i) (int i) =
    (if SEN_NSTR_ISBLANK (ts ! i) \<and> \<not> upd then ngram_loop alloc L s lx (off cs (Suc i)) (int (Suc i))
     else if SEN_NSTR_ISBLANK (ts ! i) \<or> Suc i = length cs \<or> un (ts ! Suc i) then
       Some (ngram_emit alloc L s
         ((if \<not> SEN_NSTR_ISBLANK (ts ! i) \<and> Suc i = length cs \<and> \<not> upd then lx\<lparr>lx_status := sen_lex_done\<rparr> else lx)
            \<lparr>lx_force_prefix := True\<rparr>)
         (off cs i) (off cs (i + 1)) (int i) (off cs (Suc i)) 1 1)
     else
       Some (ngram_emit alloc L s
         (if Suc (Suc i) = length cs \<and> \<not> upd then lx\<lparr>lx_status := sen_lex_done\<rparr> else lx)
         (off cs i) (off cs (i + 2)) (int i) (off cs (Suc i)) 2 1))"
proof -
  have un: "un = unified lx" and upd: "upd = has_flag (lx_flags lx) SEN_LEX_UPD"
    using r by (simp_all add: reads_def)
  have ct: "(if unifies lx then ctype_at lx i else Some 0) = Some (if unifies lx then ts ! i else 0)"
    using reads_ctype [OF r reads_unifies [OF r]] i(1) by simp
  have un1: "\<not> unified lx (if unifies lx then ts ! i else 0)" using un i(2) by simp
  have cl: "charlen_at lx (off cs i) = length (cs ! i)" "length (cs ! i) \<noteq> 0"
    using reads_charlen [OF r] reads_char [OF r] i(1) by auto
  have os: "off cs i + length (cs ! i) = off cs (Suc i)" using off_Suc i(1) by metis
  have rd1: "rd (lx_orig lx) (off cs i) \<noteq> 0" using reads_rd [OF r] i(1) by simp
  have rd2: "rd (lx_orig lx) (off cs (Suc i)) = 0 \<longleftrightarrow> Suc i = length cs"
    "Suc i \<noteq> length cs \<Longrightarrow> rd (lx_orig lx) (off cs (Suc (Suc i))) = 0 \<longleftrightarrow> Suc (Suc i) = length cs"
    using reads_rd [OF r, of "Suc i"] reads_rd [OF r, of "Suc (Suc i)"] i(1) by linarith+
  have ne: "Suc i \<noteq> length cs \<Longrightarrow> cs ! Suc i \<noteq> []" using reads_char [OF r, of "Suc i"] i(1) by simp
  note step = gram_loop_step [OF r i(1), of "length (cs ! i)"]
  have "ngram_loop alloc L s lx (off cs i) (int i) =
    (case gram_loop lx 1 (off cs (Suc i)) (if ns_ctypes (lx_nstr lx) = None then None else Some i) (length (cs ! i)) of
       None \<Rightarrow> None
     | Some (len, q, cl', blankp) \<Rightarrow>
         (if blankp \<and> \<not> upd then ngram_loop alloc L s lx (off cs (Suc i)) (int i + 1)
          else
            (let lex1 = (if (cl' = 0 \<or> rd (lx_orig lx) q = 0) \<and> \<not> upd
                         then lx\<lparr>lx_status := sen_lex_done\<rparr> else lx);
                 lex2 = (if len < SEN_LEX_NGRAM_UNIT_SIZE then lex1\<lparr>lx_force_prefix := True\<rparr> else lex1)
             in Some (ngram_emit alloc L s lex2 (off cs i) q (int i) (off cs (Suc i)) len 1))))"
    unfolding ngram_loop.simps [of alloc L s lx "off cs i" "int i"] if_not_P [OF rd1] ct option.case
      if_not_P [OF un1] Let_def cl(1) if_not_P [OF cl(2)] os upd nat_int ..
  then show ?thesis unfolding step using rd2 ne by (auto simp: algebra_simps)
qed

lemma ngram_tokens:
  assumes alloc: "\<And>m. m \<le> length (concat cs) + 1 \<Longrightarrow> alloc m"
  shows "reads lx un upd add cs ts \<Longrightarrow> lx_status lx = sen_lex_doing \<Longrightarrow> \<not> lx_force_prefix lx \<Longrightarrow>
    i \<le> length cs \<Longrightarrow> length cs - i \<le> f \<Longrightarrow>
    lex_after alloc L f (ngram_loop alloc L s lx (off cs i) (int i)) =
      Some (number L add s (ref_grams un upd i (drop i (zip cs ts))))"
proof (induction "length cs - i" arbitrary: i f s lx rule: less_induct)
  case less
  note r = less.prems(1) and doing = less.prems(2) and fp = less.prems(3)
  show ?case
  proof (cases "i < length cs")
    case False
    then have "rd (lx_orig lx) (off cs i) = 0" "drop i (zip cs ts) = []" using reads_rd [OF r] by auto
    then show ?thesis by (simp add: ngram_loop.simps token_of_def)
  next
    case i: True
    have onward: "lex_loop alloc L f s1 lx1 = Some (number L add s1 (ref_grams un upd i' (drop i' (zip cs ts))))"
      if "i < i'" "i' \<le> length cs" "reads lx1 un upd add cs ts" "lx_status lx1 = sen_lex_doing"
        "lx_next lx1 = off cs i'" "lx_pos lx1 + lx_skip lx1 = int i'" for i' s1 lx1
    proof -
      obtain f' where f': "f = Suc f'" using less.prems(5) i by (cases f) auto
      show ?thesis unfolding f' lex_loop_next [OF that(3-6)]
        by (rule less.hyps) (use that f' less.prems(5) i in auto)
    qed
    have it: "drop i (zip cs ts) = (cs ! i, ts ! i) # drop (Suc i) (zip cs ts)"
      using reads_items [OF r i] .
    have len: "length ts = length cs" using r by (simp add: reads_def)
    have one: "concat (take 1 (drop i cs)) = cs ! i" using i by (simp add: Cons_nth_drop_Suc [symmetric])
    show ?thesis
    proof (cases "un (ts ! i)")
      case True
      let ?k = "SEN_NSTR_CTYPE (ts ! i)"
      let ?run = "run_of ?k (drop i (zip cs ts))"
      have tr: "take (length ?run) (drop i (zip cs ts)) = ?run" by (rule take_run)
      have m: "0 < length ?run" by (simp add: it)
      have le: "i + length ?run \<le> length cs"
        using arg_cong [OF tr, of length] i len by (simp add: min_def split: if_splits)
      have text_eq: "concat (take (length ?run) (drop i cs)) = concat (map fst ?run)"
        using arg_cong [OF tr, of "map fst"] len by (simp add: take_map [symmetric] drop_map [symmetric])
      have ref: "ref_grams un upd i (drop i (zip cs ts)) =
          (concat (map fst ?run), i, length ?run, False) #
          ref_grams un upd (i + length ?run) (drop (i + length ?run) (zip cs ts))"
      proof -
        have "ref_grams un upd i (x # xs) =
            (concat (map fst (run_of (SEN_NSTR_CTYPE (snd x)) (x # xs))), i,
              length (run_of (SEN_NSTR_CTYPE (snd x)) (x # xs)), False) #
            ref_grams un upd (i + length (run_of (SEN_NSTR_CTYPE (snd x)) (x # xs)))
              (drop (length (run_of (SEN_NSTR_CTYPE (snd x)) (x # xs))) (x # xs))" if "un (snd x)" for x xs
          using that by (simp add: Let_def del: run_of.simps)
        from this [of "(cs ! i, ts ! i)" "drop (Suc i) (zip cs ts)"] True show ?thesis
          unfolding it [symmetric] snd_conv drop_drop by (simp only: add.commute)
      qed
      show ?thesis
        unfolding ngram_loop_run [OF r i True] Let_def ref text_eq [symmetric]
        by (subst after_emit [OF r alloc i m le]) (use onward m le fp doing len in \<open>auto simp del: number.simps\<close>)
    next
      case no_run: False
      note gram = ngram_loop_gram [OF r i no_run]
      show ?thesis
      proof (cases "SEN_NSTR_ISBLANK (ts ! i) \<and> \<not> upd")
        case True
        then show ?thesis
          using gram [of alloc L s] it no_run less.hyps [OF diff_less_mono2 [OF lessI i], of lx f s] less.prems i
          by simp
      next
        case emits: False
        show ?thesis
        proof (cases "SEN_NSTR_ISBLANK (ts ! i) \<or> Suc i = length cs \<or> un (ts ! Suc i)")
          case True
          let ?rest = "ref_grams un upd (Suc i) (drop (Suc i) (zip cs ts))"
          have ref: "ref_grams un upd i (drop i (zip cs ts)) = (cs ! i, i, 1, True) # ?rest"
          proof (cases "Suc i = length cs")
            case F: False
            then show ?thesis using True emits no_run it reads_items [OF r, of "Suc i"] i by (cases upd) auto
          qed (use it len no_run emits in auto)
          show ?thesis
            unfolding gram if_not_P [OF emits] if_P [OF True] ref one [symmetric]
            by (subst after_emit [where rest = ?rest, OF _ alloc i]) (use onward r i doing len in \<open>auto simp del: number.simps\<close>)
        next
          case pair: False
          then have i2: "Suc i < length cs" using i by simp
          let ?rest = "if \<not> upd \<and> Suc (Suc i) = length cs then []
            else ref_grams un upd (Suc i) (drop (Suc i) (zip cs ts))"
          have two: "concat (take 2 (drop i cs)) = cs ! i @ cs ! Suc i"
            using i i2 by (simp add: Cons_nth_drop_Suc [symmetric] numeral_2_eq_2)
          have "drop (Suc (Suc i)) (zip cs ts) = [] \<longleftrightarrow> Suc (Suc i) = length cs" using i2 len by auto
          then have ref: "ref_grams un upd i (drop i (zip cs ts)) = (cs ! i @ cs ! Suc i, i, 2, False) # ?rest"
            using pair no_run it reads_items [OF r i2] by (cases upd) simp_all
          show ?thesis
            unfolding gram if_not_P [OF emits] if_not_P [OF pair] ref two [symmetric]
            by (subst after_emit [where rest = ?rest, OF _ alloc i]) (use onward r i i2 doing fp len in \<open>auto simp del: number.simps\<close>)
        qed
      qed
    qed
  qed
qed

section \<open>From the text to the tokens\<close>

text \<open>The types whose runs the flags of the symbol table keep together.\<close>

definition kept :: "u32 \<Rightarrow> byte \<Rightarrow> bool" where
  "kept flags t \<longleftrightarrow>
     SEN_NSTR_CTYPE t = sen_str_alpha \<and> \<not> has_flag flags SEN_INDEX_SPLIT_ALPHA \<or>
     SEN_NSTR_CTYPE t = sen_str_digit \<and> \<not> has_flag flags SEN_INDEX_SPLIT_DIGIT \<or>
     SEN_NSTR_CTYPE t = sen_str_symbol \<and> \<not> has_flag flags SEN_INDEX_SPLIT_SYMBOL"

lemma open_ngram:
  assumes "sen_lex_open alloc nf nblk blk me sole (Some y) str str_len flags = Some (Some lx, sole')"
    "ly_flags y AND SEN_INDEX_TOKENIZER_MASK = SEN_INDEX_NGRAM"
  shows "sen_ngram_open alloc blk (ly_flags y) (ly_encoding y) (lx_nstr lx) flags = Some lx"
proof -
  have ne: "SEN_INDEX_NGRAM \<noteq> SEN_INDEX_MORPH_ANALYSE"
    by (simp add: SEN_INDEX_NGRAM_def SEN_INDEX_MORPH_ANALYSE_def)
  obtain nstr where "sen_ngram_open alloc blk (ly_flags y) (ly_encoding y) nstr flags = Some lx"
    using assms ne by (auto simp: sen_lex_open_def Let_def split: option.splits if_splits)
  moreover from this have "lx_nstr lx = nstr" by (auto simp: sen_ngram_open_def split: if_splits)
  ultimately show ?thesis by simp
qed

lemma ngram_open_fields:
  assumes "sen_ngram_open alloc blk sym_flags enc nstr flags = Some lx"
  shows "lx_status lx = sen_lex_doing" "lx_next lx = 0" "lx_pos lx + lx_skip lx = 0" "\<not> lx_force_prefix lx"
    "lx_orig lx = butlast (the (ns_norm nstr))" "lx_encoding lx = enc" "lx_flags lx = flags"
    "lx_sym_flags lx = sym_flags" "lx_nstr lx = nstr"
    "unified lx x \<longleftrightarrow> ns_ctypes nstr \<noteq> None \<and> kept sym_flags x"
    "ns_ctypes nstr = None \<Longrightarrow> \<not> unifies lx"
  using assms by (auto simp: sen_ngram_open_def unified_def unifies_def kept_def split: if_splits)

text \<open>A table of keys as a lexicon, and memory before it is written, for the examples.\<close>

definition key_lexicon :: "(bytes list) lexicon" where
  "key_lexicon = \<lparr>
     sym_at = \<lambda>keys k. of_nat (length (takeWhile (\<lambda>x. x \<noteq> k) (keys @ [k])) + 1) * of_bool (k \<in> set keys),
     sym_get = \<lambda>keys k.
       (of_nat (length (takeWhile (\<lambda>x. x \<noteq> k) (keys @ [k])) + 1), if k \<in> set keys then keys else keys @ [k])\<rparr>"

definition new_lex :: sen_lex where
  "new_lex = \<lparr>lx_sym_flags = 0, lx_buf = None, lx_orig = [], lx_next = 0, lx_token = None, lx_tlen = 0,
     lx_nstr = new_nstr [] 0 sen_enc_none 0, lx_pos = 0, lx_len = 0, lx_skip = 0, lx_tail = 0, lx_offset = 0,
     lx_flags = 0, lx_status = sen_lex_done, lx_uni_alpha = False, lx_uni_digit = False, lx_uni_symbol = False,
     lx_force_prefix = False, lx_encoding = sen_enc_none\<rparr>"

definition no_mecab :: mecab where
  "no_mecab = \<lparr>me_new = False, me_sparse = \<lambda>_ _. None, me_charset = None\<rparr>"

text \<open>The text of the example is "ab 12" in Latin-1, with digits split.\<close>

lemma ngram_example_loop:
  "norm_loop (sb_next (latin1_act True)) [0x61, 0x62, 0x20, 0x31, 0x32] 0
     \<lparr>nl_d = [], nl_cp = Some [], nl_ch = None, nl_s = 0, nl_len = 0\<rparr> =
   \<lparr>nl_d = [0x61, 0x62, 0x31, 0x32], nl_cp = Some [1, 0x81, 2, 2], nl_ch = None, nl_s = 0, nl_len = 4\<rparr>"
  by (simp add: sb_next_def latin1_act_def ascii_act_def mark_blank_def SEN_NSTR_BLANK_def
      sen_str_alpha_def sen_str_digit_def)

lemma ngram_example:
  "\<exists>lx. sen_lex_open (\<lambda>_. True) nf_example (new_nstr [] 0 sen_enc_none 0) new_lex no_mecab False
      (Some \<lparr>ly_flags = 0x15, ly_encoding = sen_enc_latin1\<rparr>) (Some [0x61, 0x62, 0x20, 0x31, 0x32]) 5 3 =
    Some (Some lx, False) \<and>
    ns_norm (lx_nstr lx) = Some ([0x61, 0x62, 0x31, 0x32] @ [0]) \<and>
    ns_ctypes (lx_nstr lx) = Some ([1, 0x81, 2, 2] @ [0])"
  by (simp add: sen_lex_open_def lex_nflag_def SEN_INDEX_TOKENIZER_MASK_def SEN_INDEX_NGRAM_def
      SEN_INDEX_MORPH_ANALYSE_def SEN_INDEX_NORMALIZE_def sen_nstr_open_def normalize_by_def nstr_init_def
      normalize_latin1_def normalize_with_def new_nstr_def flag_defs Let_def strlen_src_def
      ngram_example_loop sen_ngram_open_def sen_str_null_def del: norm_loop.simps)

text \<open>
  C4: the loop of an update or a search over the n-gram tokenizer that \<open>sen_lex_open\<close> returns ends
  within one step per character and one more, and gives exactly the tokens of the reference: runs
  of the types that are kept together, pairs of neighbouring characters elsewhere, single
  characters as prefixes where no pair can be formed, each with its position; they are numbered in
  order by the symbol table, up to the first that has no number.
\<close>

theorem sen_lex_open_ngrams:
  assumes "sen_lex_open alloc nf nblk blk me sole (Some y) str str_len flags = Some (Some lx, sole')"
    and "ly_flags y AND SEN_INDEX_TOKENIZER_MASK = SEN_INDEX_NGRAM"
    and "ns_norm (lx_nstr lx) = Some (t @ [0])" "0 \<notin> set t" "chars_of (ly_encoding y) t = Some cs"
    and "ns_ctypes (lx_nstr lx) = Some (ts @ [0]) \<or>
      ns_ctypes (lx_nstr lx) = None \<and> ts = replicate (length cs) 0"
    and "length ts = length cs" "\<And>m. m \<le> length t + 1 \<Longrightarrow> alloc m" "length cs < fuel"
  shows "lex_loop alloc L fuel s lx = Some (number L (has_flag flags SEN_LEX_ADD) s
    (ref_grams (\<lambda>x. ns_ctypes (lx_nstr lx) \<noteq> None \<and> kept (ly_flags y) x)
      (has_flag flags SEN_LEX_UPD) 0 (zip cs ts)))"
proof -
  let ?un = "\<lambda>x. ns_ctypes (lx_nstr lx) \<noteq> None \<and> kept (ly_flags y) x"
  note opened = ngram_open_fields [OF open_ngram [OF assms(1,2)]]
  have cat: "concat cs = t" and ok: "chars_ok (ly_encoding y) cs" using chars_of_ok [OF assms(5,4)] by auto
  have f: "lx_status lx = sen_lex_doing" "lx_next lx = off cs 0" "lx_pos lx + lx_skip lx = int 0"
    using opened(1-3) by simp_all
  have "?un = unified lx" using opened(10) by (auto simp: fun_eq_iff)
  then have r: "reads lx ?un (has_flag flags SEN_LEX_UPD) (has_flag flags SEN_LEX_ADD) cs ts"
    using opened(5-8,11) assms(2,3,6,7) cat ok by (auto simp: reads_def)
  obtain f' where f': "fuel = Suc f'" using assms(9) by (cases fuel) auto
  show ?thesis
    unfolding f' lex_loop_next [OF r f(1-3)]
    by (subst ngram_tokens [where cs = cs and ts = ts]) (use assms(8,9) cat r f opened(4) f' in auto)
qed

theorem sen_lex_open_ngrams_witness:
  "\<exists>lx. sen_lex_open (\<lambda>_. True) nf_example (new_nstr [] 0 sen_enc_none 0) new_lex no_mecab False
      (Some \<lparr>ly_flags = 0x15, ly_encoding = sen_enc_latin1\<rparr>) (Some [0x61, 0x62, 0x20, 0x31, 0x32]) 5 3 =
    Some (Some lx, False) \<and>
    lex_loop (\<lambda>_. True) key_lexicon 5 [] lx =
      Some ([(1, [0x61, 0x62], 0, 2, False), (2, [0x31, 0x32], 2, 2, False), (3, [0x32], 3, 1, True)],
            [[0x61, 0x62], [0x31, 0x32], [0x32]])"
proof -
  let ?y = "\<lparr>ly_flags = 0x15, ly_encoding = sen_enc_latin1\<rparr> :: lex_sym"
  obtain lx where lx: "sen_lex_open (\<lambda>_. True) nf_example (new_nstr [] 0 sen_enc_none 0) new_lex no_mecab False
      (Some ?y) (Some [0x61, 0x62, 0x20, 0x31, 0x32]) 5 3 = Some (Some lx, False)"
    "ns_norm (lx_nstr lx) = Some ([0x61, 0x62, 0x31, 0x32] @ [0])"
    "ns_ctypes (lx_nstr lx) = Some ([1, 0x81, 2, 2] @ [0])"
    using ngram_example by blast
  have cs: "chars_of (ly_encoding ?y) [0x61, 0x62, 0x31, 0x32] = Some [[0x61], [0x62], [0x31], [0x32]]"
    by (simp add: split_chars.simps sen_str_charlen_nonnull_def)
  have ref: "ref_grams (\<lambda>x. ns_ctypes (lx_nstr lx) \<noteq> None \<and> kept (ly_flags ?y) x) (has_flag 3 SEN_LEX_UPD) 0
      (zip [[0x61], [0x62], [0x31], [0x32]] [1, 0x81, 2, 2]) =
    [([0x61, 0x62], 0, 2, False), ([0x31, 0x32], 2, 2, False), ([0x32], 3, 1, True)]"
    by (simp add: lx(3) kept_def SEN_NSTR_CTYPE_def SEN_NSTR_ISBLANK_def sen_str_alpha_def sen_str_digit_def
        sen_str_symbol_def has_flag_def SEN_INDEX_SPLIT_ALPHA_def SEN_INDEX_SPLIT_DIGIT_def
        SEN_INDEX_SPLIT_SYMBOL_def SEN_LEX_UPD_def)
  have "lex_loop (\<lambda>_. True) key_lexicon 5 [] lx = Some (number key_lexicon (has_flag 3 SEN_LEX_ADD) []
      [([0x61, 0x62], 0, 2, False), ([0x31, 0x32], 2, 2, False), ([0x32], 3, 1, True)])"
    unfolding ref [symmetric]
    by (rule sen_lex_open_ngrams [OF lx(1) _ lx(2) _ cs])
      (simp_all add: lx(3) SEN_INDEX_TOKENIZER_MASK_def SEN_INDEX_NGRAM_def)
  also have "\<dots> = Some ([(1, [0x61, 0x62], 0, 2, False), (2, [0x31, 0x32], 2, 2, False), (3, [0x32], 3, 1, True)],
      [[0x61, 0x62], [0x31, 0x32], [0x32]])"
    by (simp add: lookup_id_def key_lexicon_def has_flag_def SEN_LEX_ADD_def)
  finally show ?thesis using lx(1) by blast
qed

end
