(* ===== verification/Lex_Words.thy ===== *)
theory Lex_Words
  imports Lex_Proof
begin

text \<open>
  The words that the tokenizers for delimited text and for the output of MeCab produce: the
  maximal runs of characters that are not spaces, in order, with their numbers.
\<close>

section \<open>The reference\<close>

definition space :: "sen_encoding \<Rightarrow> bytes \<Rightarrow> bool" where
  "space enc c \<longleftrightarrow> sen_isspace (Some c) enc \<noteq> 0"

definition first_word :: "sen_encoding \<Rightarrow> bytes list \<Rightarrow> bytes list" where
  "first_word enc cs = takeWhile (\<lambda>c. \<not> space enc c) cs"

function ref_words :: "sen_encoding \<Rightarrow> nat \<Rightarrow> bytes list \<Rightarrow> ref_token list" where
  "ref_words enc pos cs =
     (let cs1 = dropWhile (space enc) cs; w = first_word enc cs1 in
      if w = [] then []
      else (concat w, pos, length w, False) # ref_words enc (Suc pos) (drop (length w) cs1))"
  by pat_completeness auto
termination
proof (relation "measure (\<lambda>(enc, pos, cs). length cs)")
  fix enc pos cs cs1 w
  assume e: "cs1 = dropWhile (space enc) cs" "w = first_word enc cs1" "w \<noteq> []"
  from e(2,3) have "cs1 \<noteq> []" unfolding first_word_def by (cases "cs1 = []") simp_all
  then have "0 < length cs1" by simp
  moreover have "length cs1 \<le> length cs" using e(1) by (simp add: length_dropWhile_le)
  moreover have "0 < length w" using e(3) by simp
  ultimately have "length cs1 - length w < length cs" by linarith
  then show "((enc, Suc pos, drop (length w) cs1), (enc, pos, cs)) \<in> measure (\<lambda>(enc, pos, cs). length cs)"
    by simp
qed simp

declare ref_words.simps [simp del]

section \<open>The loops over the characters\<close>

lemma isspace_length:
  assumes "sen_str_charlen_nonnull c enc = length c" "c \<noteq> []" "sen_isspace (Some c) enc \<noteq> 0"
  shows "sen_isspace (Some c) enc = length c"
proof -
  have h: "rd c 0 = hd c" using assms(2) by (cases c) simp_all
  have "length c = 1" if "hd c \<in> {0x20, 0x0c, 0x0a, 0x0d, 0x09, 0x0b}"
  proof -
    have "utf8_lead (hd c) = 1" using that by (auto simp: utf8_lead_def)
    then show ?thesis using assms(1,2) that charlen_utf8_lead [of c]
      by (cases c) (auto simp: sen_str_charlen_nonnull_def split: if_splits sen_encoding.splits)
  qed
  then show ?thesis
    using assms(3) space_lead_length [OF assms(1,2)] unfolding sen_isspace_def option.case h
    by (auto split: if_splits)
qed

lemma isspace_off:
  assumes "chars_ok enc cs"
  shows "sen_isspace (Some (drop (off cs i) (concat cs))) enc =
    (if i < length cs \<and> space enc (cs ! i) then length (cs ! i) else 0)"
proof (cases "i < length cs")
  case True
  then have c: "cs ! i \<noteq> []" "sen_str_charlen_nonnull (cs ! i) enc = length (cs ! i)"
    using assms by (auto simp: chars_ok_def)
  have "concat (drop i cs) = cs ! i @ concat (drop (Suc i) cs)" using True by (simp add: Cons_nth_drop_Suc [symmetric])
  then have "sen_isspace (Some (drop (off cs i) (concat cs))) enc = sen_isspace (Some (cs ! i)) enc"
    using isspace_local [OF c(2,1)] by (simp add: drop_off)
  then show ?thesis using True isspace_length [OF c(2,1)] by (auto simp: space_def)
qed (simp add: drop_off sen_isspace_def)

lemma skip_blanks_off:
  assumes "chars_ok enc cs"
  shows "skip_blanks enc (concat cs) (off cs i) = off cs (i + length (takeWhile (space enc) (drop i cs)))"
proof (induction "length cs - i" arbitrary: i rule: less_induct)
  case less
  note sp = isspace_off [OF assms, of i]
  show ?case
  proof (cases "i < length cs \<and> space enc (cs ! i)")
    case True
    then have c: "cs ! i \<noteq> []" using assms by (auto simp: chars_ok_def)
    have "skip_blanks enc (concat cs) (off cs i) = skip_blanks enc (concat cs) (off cs (Suc i))"
      using True c sp off_Suc [of i cs] by (subst skip_blanks.simps) (simp add: Let_def)
    then show ?thesis using less [OF diff_less_mono2 [OF lessI conjunct1 [OF True]]] True by (simp add: Cons_nth_drop_Suc [symmetric])
  next
    case False
    then have "takeWhile (space enc) (drop i cs) = []"
      by (cases "i < length cs") (auto simp: Cons_nth_drop_Suc [symmetric])
    then show ?thesis using False sp by (subst skip_blanks.simps) (auto simp: Let_def)
  qed
qed

lemma word_end_off:
  assumes "chars_ok enc cs"
  shows "word_end enc (concat cs) (off cs i) len =
    (off cs (i + length (first_word enc (drop i cs))), len + length (first_word enc (drop i cs)))"
proof (induction "length cs - i" arbitrary: i len rule: less_induct)
  case less
  note sp = isspace_off [OF assms, of i] and cl = charlen_off [OF assms, of i]
  show ?case
  proof (cases "i < length cs \<and> \<not> space enc (cs ! i)")
    case True
    then have c: "cs ! i \<noteq> []" using assms by (auto simp: chars_ok_def)
    have "word_end enc (concat cs) (off cs i) len = word_end enc (concat cs) (off cs (Suc i)) (Suc len)"
      using True c sp cl off_Suc [of i cs] by (subst word_end.simps) (simp add: Let_def drop_off)
    then show ?thesis using less [OF diff_less_mono2 [OF lessI conjunct1 [OF True]], of "Suc len"] True
      by (simp add: Cons_nth_drop_Suc [symmetric] first_word_def)
  next
    case False
    then have "first_word enc (drop i cs) = []"
      by (cases "i < length cs") (auto simp: Cons_nth_drop_Suc [symmetric] first_word_def)
    moreover have "sen_str_charlen (concat (drop i cs)) enc = 0 \<or> sen_isspace (Some (concat (drop i cs))) enc \<noteq> 0"
      using False sp cl assms by (auto simp: drop_off chars_ok_def)
    ultimately show ?thesis by (subst word_end.simps) (auto simp: Let_def drop_off)
  qed
qed

section \<open>The tokens\<close>

definition words_of :: "sen_lex \<Rightarrow> bool \<Rightarrow> bytes list \<Rightarrow> bool" where
  "words_of lx add cs \<longleftrightarrow>
     lex_text lx = concat cs \<and> chars_ok (lx_encoding lx) cs \<and> add = has_flag (lx_flags lx) SEN_LEX_ADD \<and>
     \<not> lx_force_prefix lx \<and>
     lx_sym_flags lx AND SEN_INDEX_TOKENIZER_MASK \<in> {SEN_INDEX_DELIMITED, SEN_INDEX_MORPH_ANALYSE}"

lemma words_update [simp]:
  "words_of (lx\<lparr>lx_token := a\<rparr>) add cs = words_of lx add cs"
  "words_of (lx\<lparr>lx_tlen := n\<rparr>) add cs = words_of lx add cs"
  "words_of (lx\<lparr>lx_next := n\<rparr>) add cs = words_of lx add cs"
  "words_of (lx\<lparr>lx_offset := i\<rparr>) add cs = words_of lx add cs"
  "words_of (lx\<lparr>lx_len := i\<rparr>) add cs = words_of lx add cs"
  "words_of (lx\<lparr>lx_pos := i\<rparr>) add cs = words_of lx add cs"
  "words_of (lx\<lparr>lx_status := st\<rparr>) add cs = words_of lx add cs"
  by (simp_all add: words_of_def lex_text_def cong: option.case_cong)

lemma words_next:
  "words_of lx add cs \<Longrightarrow> sen_lex_next alloc L s lx = Some (sen_delimited_next alloc L s lx)"
  by (auto simp: words_of_def sen_lex_next_def sen_mecab_next_def SEN_INDEX_MORPH_ANALYSE_def
      SEN_INDEX_NGRAM_def SEN_INDEX_DELIMITED_def)

text \<open>A space where a word should start ends the loop.\<close>

lemma words_loop_end:
  assumes w: "words_of lx add cs" and doing: "lx_status lx = sen_lex_doing"
    and "lx_next lx = off cs i" "first_word (lx_encoding lx) (drop i cs) = []"
  shows "lex_loop alloc L (Suc f) s lx = Some ([], s)"
proof -
  have ok: "chars_ok (lx_encoding lx) cs" and t: "lex_text lx = concat cs" using w by (simp_all add: words_of_def)
  have we: "word_end (lx_encoding lx) (lex_text lx) (lx_next lx) 0 = (off cs i, 0)"
    using word_end_off [OF ok] t assms(3,4) by simp
  have "sen_delimited_next alloc L s lx = (0, lx\<lparr>lx_status := sen_lex_done\<rparr>, s)"
    unfolding sen_delimited_next_def Let_def we prod.case using doing by simp
  then show ?thesis unfolding lex_loop_doing [OF doing] words_next [OF w] by (simp add: token_of_def)
qed

lemma words_loop:
  assumes alloc: "\<And>m. m \<le> length (concat cs) + 1 \<Longrightarrow> alloc m"
  shows "words_of lx add cs \<Longrightarrow> lx_status lx = sen_lex_doing \<Longrightarrow> lx_next lx = off cs i \<Longrightarrow> i \<le> length cs \<Longrightarrow>
    i < length cs \<longrightarrow> \<not> space (lx_encoding lx) (cs ! i) \<Longrightarrow> lx_pos lx + 1 = int k \<Longrightarrow> length cs - i \<le> f \<Longrightarrow>
    lex_loop alloc L (Suc f) s lx = Some (number L add s (ref_words (lx_encoding lx) k (drop i cs)))"
proof (induction "length cs - i" arbitrary: i f k s lx rule: less_induct)
  case less
  note w = less.prems(1) and doing = less.prems(2)
  let ?enc = "lx_encoding lx"
  let ?w = "first_word ?enc (drop i cs)"
  have ok: "chars_ok ?enc cs" and text_eq: "lex_text lx = concat cs" using w by (simp_all add: words_of_def)
  have dw: "dropWhile (space ?enc) (drop i cs) = drop i cs"
    using less.prems(4,5) by (cases "i < length cs") (auto simp: Cons_nth_drop_Suc [symmetric])
  have we: "word_end ?enc (lex_text lx) (lx_next lx) 0 = (off cs (i + length ?w), length ?w)"
    using word_end_off [OF ok] text_eq less.prems(3) by simp
  show ?case
  proof (cases "?w = []")
    case True
    then have "lex_loop alloc L (Suc f) s lx = Some ([], s)"
      by (intro words_loop_end [OF w doing less.prems(3)])
    moreover have "ref_words ?enc k (drop i cs) = []"
      using True by (subst ref_words.simps) (simp add: dw Let_def)
    ultimately show ?thesis by simp
  next
    case False
    let ?j = "i + length ?w"
    let ?j1 = "?j + length (takeWhile (space ?enc) (drop ?j cs))"
    let ?t = "concat ?w"
    have wt: "take (length ?w) (drop i cs) = ?w"
      unfolding first_word_def by (rule takeWhile_eq_take [symmetric])
    have j: "?j \<le> length cs"
      using arg_cong [OF wt, of length] less.prems(4) by (simp add: min_def split: if_splits)
    have j1: "?j1 \<le> length cs"
      using length_takeWhile_le [of "space ?enc" "drop ?j cs"] j by simp
    have tok: "take (off cs ?j - lx_next lx) (drop (lx_next lx) (lex_text lx)) = ?t"
      using take_off [of cs i "length ?w"] wt text_eq less.prems(3) by simp
    have al: "alloc (length ?t + 1)"
      using alloc length_chars_part [of "length ?w" i cs] unfolding wt by simp
    obtain tid s1 where lk: "lookup_id L add s ?t = (tid, s1)" by fastforce
    let ?lx1 = "lx\<lparr>lx_token := Some ?t, lx_tlen := max (lx_tlen lx) (length ?t)\<rparr>"
    let ?lx2 = "?lx1\<lparr>lx_next := off cs ?j1, lx_offset := lx_offset lx + lx_len lx, lx_len := int (length ?w),
      lx_pos := lx_pos lx + 1, lx_status := (if tid = 0 then sen_lex_not_found
        else if ?j1 = length cs then sen_lex_done else lx_status lx)\<rparr>"
    have "has_flag (lx_flags ?lx1) SEN_LEX_ADD = add" using w by (simp add: words_of_def)
    then have tid: "token_id L s ?lx1 ?t = (tid, s1)" using lk token_id_lookup by metis
    have rd1: "rd (lex_text lx) (off cs ?j1) = 0 \<longleftrightarrow> ?j1 = length cs"
      unfolding text_eq rd_off [OF ok] using j1 by linarith
    have sk: "skip_blanks ?enc (lex_text lx) (off cs ?j) = off cs ?j1"
      unfolding text_eq by (rule skip_blanks_off [OF ok])
    have ne: "length ?w \<noteq> 0" and nd: "lx_status lx \<noteq> sen_lex_done" using False doing by simp_all
    have step: "sen_delimited_next alloc L s lx = (tid, ?lx2, s1)"
      unfolding sen_delimited_next_def Let_def we prod.case tok if_not_P [OF ne] if_not_P [OF nd]
        LEX_TOKEN_alloc [where alloc = alloc and lx = lx and t = ?t, OF al] option.case tid sk rd1 by simp
    have tk: "token_of tid ?lx2 = (if tid = 0 then [] else [(tid, ?t, int k, int (length ?w), False)])"
      using w less.prems(6) by (simp add: token_of_def words_of_def)
    have ref: "ref_words ?enc k (drop i cs) = (?t, k, length ?w, False) # ref_words ?enc (Suc k) (drop ?j cs)"
      using False by (subst ref_words.simps) (simp add: dw Let_def add.commute)
    have dj: "dropWhile (space ?enc) (drop ?j cs) = drop ?j1 cs"
      by (simp add: dropWhile_eq_drop add.commute)
    have skip: "ref_words ?enc (Suc k) (drop ?j cs) = ref_words ?enc (Suc k) (drop ?j1 cs)"
    proof -
      have "ref_words ?enc (Suc k) xs = ref_words ?enc (Suc k) (dropWhile (space ?enc) xs)" for xs
        by (subst (1 2) ref_words.simps) (simp add: dropWhile_idem)
      then show ?thesis using dj by metis
    qed
    show ?thesis
    proof (cases "tid = 0 \<or> ?j1 = length cs")
      case True
      then have e: "lx_status ?lx2 \<noteq> sen_lex_doing" by auto
      have "?j1 = length cs \<Longrightarrow> ref_words ?enc (Suc k) (drop ?j1 cs) = []"
        by (subst ref_words.simps) (simp add: first_word_def)
      then show ?thesis
        unfolding lex_loop_doing [OF doing] words_next [OF w] step lex_after_end [OF e] tk ref skip
        using True lk by auto
    next
      case F: False
      then have lt: "?j1 < length cs" using j1 by simp
      obtain f' where f': "f = Suc f'" using less.prems(7) lt by (cases f) auto
      have "\<not> space ?enc (hd (dropWhile (space ?enc) (drop ?j cs)))"
        using lt dj by (intro hd_dropWhile) auto
      then have ns: "\<not> space ?enc (cs ! ?j1)" unfolding dj using lt by (simp add: hd_drop_conv_nth)
      have "lex_loop alloc L (Suc f') s1 ?lx2 = Some (number L add s1 (ref_words (lx_encoding ?lx2) (Suc k) (drop ?j1 cs)))"
      proof (rule less.hyps)
        show "length cs - ?j1 < length cs - i" using lt ne by linarith
        show "words_of ?lx2 add cs" using w by simp
        show "length cs - ?j1 \<le> f'" using less.prems(7) f' ne by linarith
      qed (use F doing lt ns less.prems(6) in auto)
      then show ?thesis
        unfolding lex_loop_doing [OF doing] words_next [OF w] step lex_after_def option.case prod.case tk ref skip f'
        using F lk by (simp add: case_prod_beta del: lex_loop.simps)
    qed
  qed
qed

lemma delimited_open_fields:
  assumes "sen_delimited_open alloc blk sym_flags enc nstr flags = Some lx"
  defines "t \<equiv> butlast (the (ns_norm nstr))"
  shows "lx_status lx = (if rd t (skip_blanks enc t 0) = 0 then sen_lex_done else sen_lex_doing)"
    "lx_next lx = skip_blanks enc t 0" "lx_pos lx = - 1" "\<not> lx_force_prefix lx" "lex_text lx = t"
    "lx_encoding lx = enc" "lx_flags lx = flags" "lx_sym_flags lx = sym_flags" "lx_nstr lx = nstr"
  using assms by (auto simp: sen_delimited_open_def lex_text_def Let_def split: if_splits)

lemma mecab_open_fields:
  assumes "sen_mecab_open alloc blk me sole sym_flags enc nstr flags = (Some lx, sole')"
  shows "lx_status lx = sen_lex_doing" "lx_next lx = 0" "lx_pos lx = - 1" "\<not> lx_force_prefix lx"
    "lx_buf lx \<noteq> None" "lx_encoding lx = enc" "lx_flags lx = flags" "lx_sym_flags lx = sym_flags"
  using assms by (auto simp: sen_mecab_open_def Let_def split: if_splits sum.splits)

lemma open_delimited:
  assumes "sen_lex_open alloc nf nblk blk me sole (Some y) str str_len flags = Some (Some lx, sole')"
    "ly_flags y AND SEN_INDEX_TOKENIZER_MASK = SEN_INDEX_DELIMITED"
  shows "sen_delimited_open alloc blk (ly_flags y) (ly_encoding y) (lx_nstr lx) flags = Some lx"
proof -
  have ne: "SEN_INDEX_DELIMITED \<noteq> SEN_INDEX_MORPH_ANALYSE" "SEN_INDEX_DELIMITED \<noteq> SEN_INDEX_NGRAM"
    by (simp_all add: SEN_INDEX_NGRAM_def SEN_INDEX_MORPH_ANALYSE_def SEN_INDEX_DELIMITED_def)
  obtain nstr where n: "sen_delimited_open alloc blk (ly_flags y) (ly_encoding y) nstr flags = Some lx"
    using assms ne by (auto simp: sen_lex_open_def Let_def split: option.splits if_splits)
  then show ?thesis using delimited_open_fields(9) [OF n] by simp
qed

lemma open_mecab:
  assumes "sen_lex_open alloc nf nblk blk me sole (Some y) str str_len flags = Some (Some lx, sole')"
    "ly_flags y AND SEN_INDEX_TOKENIZER_MASK = SEN_INDEX_MORPH_ANALYSE"
  obtains nstr where "sen_mecab_open alloc blk me sole (ly_flags y) (ly_encoding y) nstr flags = (Some lx, sole')"
  using assms by (auto simp: sen_lex_open_def Let_def split: option.splits if_splits)

lemma ref_words_blanks: "ref_words enc k (dropWhile (space enc) cs) = ref_words enc k cs"
  by (subst (1 2) ref_words.simps) (simp add: dropWhile_idem)

lemma ref_words_Nil [simp]: "ref_words enc k [] = []"
  by (subst ref_words.simps) (simp add: first_word_def)

text \<open>
  C7: the loop over the tokenizer for delimited text gives the words of the text, the maximal runs
  of characters that are not spaces, at the positions 0, 1, 2, ..., numbered in order by the symbol
  table up to the first that has no number. The tokenizer over MeCab gives the words of MeCab's
  output without its trailing spaces in the same way, but none at all when the output begins with
  a space, which only the other tokenizer skips.
\<close>

theorem sen_lex_open_words:
  assumes "sen_lex_open alloc nf nblk blk me sole (Some y) str str_len flags = Some (Some lx, sole')"
    and "ly_flags y AND SEN_INDEX_TOKENIZER_MASK = SEN_INDEX_DELIMITED \<and> ns_norm (lx_nstr lx) = Some (t @ [0]) \<or>
      ly_flags y AND SEN_INDEX_TOKENIZER_MASK = SEN_INDEX_MORPH_ANALYSE \<and> lx_buf lx = Some t"
    and "0 \<notin> set t" "chars_of (ly_encoding y) t = Some cs"
    and "\<And>m. m \<le> length t + 1 \<Longrightarrow> alloc m" "length cs < fuel"
  shows "lex_loop alloc L fuel s lx =
    Some (number L (has_flag flags SEN_LEX_ADD) s
      (if ly_flags y AND SEN_INDEX_TOKENIZER_MASK = SEN_INDEX_MORPH_ANALYSE \<and>
          cs \<noteq> [] \<and> sen_isspace (Some (hd cs)) (ly_encoding y) \<noteq> 0
       then [] else ref_words (ly_encoding y) 0 cs))"
proof -
  let ?enc = "ly_encoding y"
  have cat: "concat cs = t" and ok: "chars_ok ?enc cs" using chars_of_ok [OF assms(4,3)] by auto
  obtain f' where f': "fuel = Suc f'" using assms(6) by (cases fuel) auto
  from assms(2) show ?thesis
  proof (elim disjE conjE)
    assume d: "ly_flags y AND SEN_INDEX_TOKENIZER_MASK = SEN_INDEX_DELIMITED" "ns_norm (lx_nstr lx) = Some (t @ [0])"
    have nm: "ly_flags y AND SEN_INDEX_TOKENIZER_MASK \<noteq> SEN_INDEX_MORPH_ANALYSE"
      unfolding d(1) by (simp add: SEN_INDEX_MORPH_ANALYSE_def SEN_INDEX_DELIMITED_def)
    note opened = delimited_open_fields [OF open_delimited [OF assms(1) d(1)], unfolded d(2) option.sel butlast_snoc]
    let ?i = "length (takeWhile (space ?enc) cs)"
    have sk: "skip_blanks ?enc t 0 = off cs ?i" using skip_blanks_off [OF ok, of 0] cat by simp
    have i: "?i \<le> length cs" by (rule length_takeWhile_le)
    have dw: "drop ?i cs = dropWhile (space ?enc) cs" by (simp add: dropWhile_eq_drop)
    have st: "lx_status lx = (if ?i = length cs then sen_lex_done else sen_lex_doing)"
      using opened(1) rd_off [OF ok, of ?i] i unfolding sk cat by auto
    have ns: "?i < length cs \<longrightarrow> \<not> space (lx_encoding lx) (cs ! ?i)"
      unfolding opened(6) using nth_length_takeWhile by blast
    have w: "words_of lx (has_flag flags SEN_LEX_ADD) cs"
      using opened(4-8) d(1) ok cat by (simp add: words_of_def)
    show ?thesis
    proof (cases "?i = length cs")
      case True
      then have "dropWhile (space ?enc) cs = []" using dw by (metis drop_all order_refl)
      then have "ref_words ?enc 0 cs = []" using ref_words_blanks ref_words_Nil by metis
      then show ?thesis using st True nm by simp
    next
      case False
      have "lex_loop alloc L (Suc f') s lx =
          Some (number L (has_flag flags SEN_LEX_ADD) s (ref_words (lx_encoding lx) 0 (drop ?i cs)))"
        by (rule words_loop [OF _ w _ _ i ns])
          (use assms(5,6) cat st False opened(2,3) sk f' in auto)
      then show ?thesis unfolding f' opened(6) dw ref_words_blanks using nm by simp
    qed
  next
    assume m: "ly_flags y AND SEN_INDEX_TOKENIZER_MASK = SEN_INDEX_MORPH_ANALYSE" "lx_buf lx = Some t"
    obtain nstr where o: "sen_mecab_open alloc blk me sole (ly_flags y) ?enc nstr flags = (Some lx, sole')"
      using open_mecab [OF assms(1) m(1)] by blast
    note opened = mecab_open_fields [OF o]
    have w: "words_of lx (has_flag flags SEN_LEX_ADD) cs"
      using opened(4-8) m ok cat by (simp add: words_of_def lex_text_def)
    show ?thesis
    proof (cases "cs \<noteq> [] \<and> space ?enc (hd cs)")
      case True
      then have "first_word ?enc (drop 0 cs) = []" by (cases cs) (auto simp: first_word_def)
      then have "lex_loop alloc L (Suc f') s lx = Some ([], s)"
        by (intro words_loop_end [OF w opened(1), of 0]) (simp_all add: opened)
      then show ?thesis using True m(1) f' by (simp add: space_def del: lex_loop.simps)
    next
      case False
      then have "lex_loop alloc L (Suc f') s lx =
          Some (number L (has_flag flags SEN_LEX_ADD) s (ref_words (lx_encoding lx) 0 (drop 0 cs)))"
        by (intro words_loop [OF _ w]) (use assms(5,6) cat opened f' in \<open>auto simp: hd_conv_nth\<close>)
      then show ?thesis using False unfolding f' opened(6) by (auto simp: space_def simp del: lex_loop.simps)
    qed
  qed
qed

text \<open>An ideographic space between two words, in UTF-8.\<close>

lemma words_example:
  "\<exists>lx. sen_lex_open (\<lambda>_. True) nf_example (new_nstr [] 0 sen_enc_none 0) new_lex no_mecab False
      (Some \<lparr>ly_flags = 0x20, ly_encoding = sen_enc_utf8\<rparr>)
      (Some [0x20, 0x61, 0x62, 0xe3, 0x80, 0x80, 0x63]) 7 1 = Some (Some lx, False) \<and>
    ns_norm (lx_nstr lx) = Some ([0x20, 0x61, 0x62, 0xe3, 0x80, 0x80, 0x63] @ [0])"
  by (simp add: sen_lex_open_def lex_nflag_def SEN_INDEX_TOKENIZER_MASK_def SEN_INDEX_NGRAM_def
      SEN_INDEX_DELIMITED_def SEN_INDEX_MORPH_ANALYSE_def SEN_INDEX_NORMALIZE_def has_flag_def
      sen_fakenstr_open_def SEN_STR_WITH_CHECKS_def Let_def sen_delimited_open_def)

text \<open>
  A morphological analyser that inserts a space behind the first two bytes of a text, and ends
  its output with a space and a line feed; it asks for a buffer of at least ten bytes, so that
  the first trial for a text of three bytes fails.
\<close>

definition example_mecab :: mecab where
  "example_mecab = \<lparr>me_new = True,
     me_sparse = (\<lambda>t size. if size < 10 then None else Some (take 2 t @ [0x20] @ drop 2 t @ [0x20, 0x0a])),
     me_charset = None\<rparr>"

lemma mecab_example:
  "\<exists>lx. sen_lex_open (\<lambda>_. True) nf_example (new_nstr [] 0 sen_enc_none 0) new_lex example_mecab False
      (Some \<lparr>ly_flags = 0, ly_encoding = sen_enc_utf8\<rparr>) (Some [0x61, 0x62, 0x63]) 3 1 = Some (Some lx, True) \<and>
    lx_buf lx = Some [0x61, 0x62, 0x20, 0x63]"
  "\<exists>lx. sen_lex_open (\<lambda>_. True) nf_example (new_nstr [] 0 sen_enc_none 0) new_lex example_mecab False
      (Some \<lparr>ly_flags = 0, ly_encoding = sen_enc_utf8\<rparr>) (Some [0x20, 0x61, 0x62]) 3 1 = Some (Some lx, True) \<and>
    lx_buf lx = Some [0x20, 0x61, 0x20, 0x62]"
proof -
  have trials: "mecab_trials (\<lambda>_. True) example_mecab t 7 10 = Inr (take 2 t @ [0x20] @ drop 2 t @ [0x20, 0x0a])" for t
  proof -
    have ten: "(10 :: nat) = Suc (Suc 8)" by simp
    show ?thesis unfolding ten mecab_trials.simps by (simp add: example_mecab_def)
  qed
  have trim: "mecab_trim [0x61, 0x62, 0x20, 0x63, 0x20, 0x0a] = [0x61, 0x62, 0x20, 0x63]"
    "mecab_trim [0x20, 0x61, 0x20, 0x62, 0x20, 0x0a] = [0x20, 0x61, 0x20, 0x62]"
    by (simp_all add: mecab_trim_def c_isspace_def)
  note defs = sen_lex_open_def lex_nflag_def SEN_INDEX_TOKENIZER_MASK_def SEN_INDEX_NGRAM_def
    SEN_INDEX_DELIMITED_def SEN_INDEX_MORPH_ANALYSE_def SEN_INDEX_NORMALIZE_def has_flag_def
    sen_fakenstr_open_def SEN_STR_WITH_CHECKS_def Let_def sen_mecab_open_def SOLE_MECAB_CONFIRM_def
  have new: "me_new example_mecab" by (simp add: example_mecab_def)
  show "\<exists>lx. sen_lex_open (\<lambda>_. True) nf_example (new_nstr [] 0 sen_enc_none 0) new_lex example_mecab False
      (Some \<lparr>ly_flags = 0, ly_encoding = sen_enc_utf8\<rparr>) (Some [0x61, 0x62, 0x63]) 3 1 = Some (Some lx, True) \<and>
    lx_buf lx = Some [0x61, 0x62, 0x20, 0x63]"
    by (simp add: defs trials trim new)
  show "\<exists>lx. sen_lex_open (\<lambda>_. True) nf_example (new_nstr [] 0 sen_enc_none 0) new_lex example_mecab False
      (Some \<lparr>ly_flags = 0, ly_encoding = sen_enc_utf8\<rparr>) (Some [0x20, 0x61, 0x62]) 3 1 = Some (Some lx, True) \<and>
    lx_buf lx = Some [0x20, 0x61, 0x20, 0x62]"
    by (simp add: defs trials trim new)
qed

theorem sen_lex_open_words_witness:
  "(\<exists>lx. sen_lex_open (\<lambda>_. True) nf_example (new_nstr [] 0 sen_enc_none 0) new_lex no_mecab False
      (Some \<lparr>ly_flags = 0x20, ly_encoding = sen_enc_utf8\<rparr>)
      (Some [0x20, 0x61, 0x62, 0xe3, 0x80, 0x80, 0x63]) 7 1 = Some (Some lx, False) \<and>
    lex_loop (\<lambda>_. True) key_lexicon 6 [] lx =
      Some ([(1, [0x61, 0x62], 0, 2, False), (2, [0x63], 1, 1, False)], [[0x61, 0x62], [0x63]])) \<and>
   (\<exists>lx. sen_lex_open (\<lambda>_. True) nf_example (new_nstr [] 0 sen_enc_none 0) new_lex example_mecab False
      (Some \<lparr>ly_flags = 0, ly_encoding = sen_enc_utf8\<rparr>) (Some [0x61, 0x62, 0x63]) 3 1 = Some (Some lx, True) \<and>
    lex_loop (\<lambda>_. True) key_lexicon 6 [] lx =
      Some ([(1, [0x61, 0x62], 0, 2, False), (2, [0x63], 1, 1, False)], [[0x61, 0x62], [0x63]])) \<and>
   (\<exists>lx. sen_lex_open (\<lambda>_. True) nf_example (new_nstr [] 0 sen_enc_none 0) new_lex example_mecab False
      (Some \<lparr>ly_flags = 0, ly_encoding = sen_enc_utf8\<rparr>) (Some [0x20, 0x61, 0x62]) 3 1 = Some (Some lx, True) \<and>
    lex_loop (\<lambda>_. True) key_lexicon 6 [] lx = Some ([], []))"
proof (intro conjI)
  let ?y = "\<lparr>ly_flags = 0x20, ly_encoding = sen_enc_utf8\<rparr> :: lex_sym"
  let ?t = "[0x20, 0x61, 0x62, 0xe3, 0x80, 0x80, 0x63] :: bytes"
  let ?cs = "[[0x20], [0x61], [0x62], [0xe3, 0x80, 0x80], [0x63]] :: bytes list"
  obtain lx where lx: "sen_lex_open (\<lambda>_. True) nf_example (new_nstr [] 0 sen_enc_none 0) new_lex no_mecab False
      (Some ?y) (Some ?t) 7 1 = Some (Some lx, False)" "ns_norm (lx_nstr lx) = Some (?t @ [0])"
    using words_example by blast
  have cs: "chars_of (ly_encoding ?y) ?t = Some ?cs"
    by (simp add: split_chars.simps sen_str_charlen_nonnull_def sen_str_charlen_utf8_def utf8_width.simps)
  have sp: "space sen_enc_utf8 [0x20]" "space sen_enc_utf8 [0xe3, 0x80, 0x80]" "\<not> space sen_enc_utf8 [0x61]"
    "\<not> space sen_enc_utf8 [0x62]" "\<not> space sen_enc_utf8 [0x63]"
    by (simp_all add: space_def sen_isspace_def rd_def)
  have "ref_words sen_enc_utf8 1 [[0xe3, 0x80, 0x80], [0x63]] = [([0x63], 1, 1, False)]"
    by (subst ref_words.simps) (simp add: first_word_def sp Let_def)
  then have ref: "ref_words (ly_encoding ?y) 0 ?cs = [([0x61, 0x62], 0, 2, False), ([0x63], 1, 1, False)]"
    by (subst ref_words.simps) (simp add: first_word_def sp Let_def)
  have "lex_loop (\<lambda>_. True) key_lexicon 6 [] lx = Some (number key_lexicon (has_flag 1 SEN_LEX_ADD) []
      [([0x61, 0x62], 0, 2, False), ([0x63], 1, 1, False)])"
    unfolding ref [symmetric]
    using sen_lex_open_words [OF lx(1) _ _ cs, of 6 key_lexicon "[]"] lx(2)
    by (simp add: SEN_INDEX_TOKENIZER_MASK_def SEN_INDEX_DELIMITED_def SEN_INDEX_MORPH_ANALYSE_def del: lex_loop.simps)
  also have "\<dots> = Some ([(1, [0x61, 0x62], 0, 2, False), (2, [0x63], 1, 1, False)], [[0x61, 0x62], [0x63]])"
    by (simp add: lookup_id_def key_lexicon_def has_flag_def SEN_LEX_ADD_def)
  finally show "\<exists>lx. sen_lex_open (\<lambda>_. True) nf_example (new_nstr [] 0 sen_enc_none 0) new_lex no_mecab False
      (Some ?y) (Some ?t) 7 1 = Some (Some lx, False) \<and>
    lex_loop (\<lambda>_. True) key_lexicon 6 [] lx =
      Some ([(1, [0x61, 0x62], 0, 2, False), (2, [0x63], 1, 1, False)], [[0x61, 0x62], [0x63]])"
    using lx(1) by blast
next
  let ?y = "\<lparr>ly_flags = 0, ly_encoding = sen_enc_utf8\<rparr> :: lex_sym"
  have flags: "ly_flags ?y AND SEN_INDEX_TOKENIZER_MASK = SEN_INDEX_MORPH_ANALYSE"
    by (simp add: SEN_INDEX_MORPH_ANALYSE_def)
  have sp: "space sen_enc_utf8 [0x20]" "\<not> space sen_enc_utf8 [0x61]" "\<not> space sen_enc_utf8 [0x62]"
    "\<not> space sen_enc_utf8 [0x63]"
    by (simp_all add: space_def sen_isspace_def rd_def)
  have chars: "chars_of (ly_encoding ?y) [0x61, 0x62, 0x20, 0x63] = Some [[0x61], [0x62], [0x20], [0x63]]"
    "chars_of (ly_encoding ?y) [0x20, 0x61, 0x20, 0x62] = Some [[0x20], [0x61], [0x20], [0x62]]"
    by (simp_all add: split_chars.simps sen_str_charlen_nonnull_def sen_str_charlen_utf8_def)
  {
    obtain lx where lx: "sen_lex_open (\<lambda>_. True) nf_example (new_nstr [] 0 sen_enc_none 0) new_lex example_mecab False
        (Some ?y) (Some [0x61, 0x62, 0x63]) 3 1 = Some (Some lx, True)" "lx_buf lx = Some [0x61, 0x62, 0x20, 0x63]"
      using mecab_example(1) by blast
    have "ref_words sen_enc_utf8 1 [[0x20], [0x63]] = [([0x63], 1, 1, False)]"
      by (subst ref_words.simps) (simp add: first_word_def sp Let_def)
    then have ref: "ref_words (ly_encoding ?y) 0 [[0x61], [0x62], [0x20], [0x63]] =
        [([0x61, 0x62], 0, 2, False), ([0x63], 1, 1, False)]"
      by (subst ref_words.simps) (simp add: first_word_def sp Let_def)
    have "lex_loop (\<lambda>_. True) key_lexicon 6 [] lx = Some (number key_lexicon (has_flag 1 SEN_LEX_ADD) []
        [([0x61, 0x62], 0, 2, False), ([0x63], 1, 1, False)])"
      using sen_lex_open_words [OF lx(1) disjI2 [OF conjI [OF flags lx(2)]] _ chars(1), of 6 key_lexicon "[]"] ref sp
      by (simp add: space_def del: lex_loop.simps)
    also have "\<dots> = Some ([(1, [0x61, 0x62], 0, 2, False), (2, [0x63], 1, 1, False)], [[0x61, 0x62], [0x63]])"
      by (simp add: lookup_id_def key_lexicon_def has_flag_def SEN_LEX_ADD_def)
    finally show "\<exists>lx. sen_lex_open (\<lambda>_. True) nf_example (new_nstr [] 0 sen_enc_none 0) new_lex example_mecab False
        (Some ?y) (Some [0x61, 0x62, 0x63]) 3 1 = Some (Some lx, True) \<and>
      lex_loop (\<lambda>_. True) key_lexicon 6 [] lx =
        Some ([(1, [0x61, 0x62], 0, 2, False), (2, [0x63], 1, 1, False)], [[0x61, 0x62], [0x63]])"
      using lx(1) by blast
  next
    obtain lx where lx: "sen_lex_open (\<lambda>_. True) nf_example (new_nstr [] 0 sen_enc_none 0) new_lex example_mecab False
        (Some ?y) (Some [0x20, 0x61, 0x62]) 3 1 = Some (Some lx, True)" "lx_buf lx = Some [0x20, 0x61, 0x20, 0x62]"
      using mecab_example(2) by blast
    have "lex_loop (\<lambda>_. True) key_lexicon 6 [] lx = Some ([], [])"
      using sen_lex_open_words [OF lx(1) disjI2 [OF conjI [OF flags lx(2)]] _ chars(2), of 6 key_lexicon "[]"] flags sp
      by (simp add: space_def del: lex_loop.simps)
    then show "\<exists>lx. sen_lex_open (\<lambda>_. True) nf_example (new_nstr [] 0 sen_enc_none 0) new_lex example_mecab False
        (Some ?y) (Some [0x20, 0x61, 0x62]) 3 1 = Some (Some lx, True) \<and>
      lex_loop (\<lambda>_. True) key_lexicon 6 [] lx = Some ([], [])"
      using lx(1) by blast
  }
qed

end
